(* ===== verification/CPrelude.thy ===== *)
theory CPrelude
  imports Main "HOL-Library.Word" "HOL-Library.Monad_Syntax"
begin

text \<open>
  The vocabulary every component theory shares.

  \<^item> C's fixed-width unsigned integers are words (\<open>u8\<close> \<dots> \<open>u64\<close>, \<open>size_t\<close> is \<open>u64\<close>), so that
    \<open>+\<close>, \<open>-\<close> and \<open>*\<close> wrap as C's do.  C's \<open>int\<close> and \<open>long\<close> are \<open>int\<close>; where the code
    does arithmetic on them that could overflow, the operation is \<open>to_i32\<close> or \<open>to_i64\<close> of the
    mathematical result, which is \<^const>\<open>None\<close> outside the type's range.
  \<^item> Undefined behaviour (an access outside an array, a null dereference, signed overflow) and a
    failed \<open>assert\<close> are \<^const>\<open>None\<close> of an \<open>option\<close>; error codes the code itself returns are
    ordinary values.  A theorem that a call is \<open>Some \<dots>\<close> therefore also says that the
    call is free of undefined behaviour.
  \<^item> Array accesses go through \<open>rd\<close> and \<open>wr\<close>, which check the bound.

  The theory ends with the interface of a bounded first-in-first-out queue, which both
  queue implementations of the repository are shown to provide.
\<close>

unbundle bit_operations_syntax

subsection \<open>Types\<close>

type_synonym u8 = "8 word"
type_synonym u16 = "16 word"
type_synonym u32 = "32 word"
type_synonym u64 = "64 word"
type_synonym size_t = "64 word"

named_theorems c_access \<open>rules for checked array accesses\<close>
named_theorems c_arith \<open>rules for checked signed arithmetic\<close>

subsection \<open>Checked array accesses\<close>

definition rd :: "'a list \<Rightarrow> nat \<Rightarrow> 'a option" where
  "rd xs i = (if i < length xs then Some (xs ! i) else None)"

definition wr :: "'a list \<Rightarrow> nat \<Rightarrow> 'a \<Rightarrow> 'a list option" where
  "wr xs i v = (if i < length xs then Some (xs[i := v]) else None)"

text \<open>Indexing with a C \<open>int\<close>: a negative index is out of bounds.\<close>

definition rdi :: "'a list \<Rightarrow> int \<Rightarrow> 'a option" where
  "rdi xs i = (if 0 \<le> i then rd xs (nat i) else None)"

definition wri :: "'a list \<Rightarrow> int \<Rightarrow> 'a \<Rightarrow> 'a list option" where
  "wri xs i v = (if 0 \<le> i then wr xs (nat i) v else None)"

text \<open>\<open>assert\<close>: the program aborts when the condition is false.\<close>

definition c_assert :: "bool \<Rightarrow> unit option" where
  "c_assert b = (if b then Some () else None)"

lemma rd_Some [simp, c_access]: "i < length xs \<Longrightarrow> rd xs i = Some (xs ! i)"
  by (simp add: rd_def)

lemma rd_eq_Some_iff: "rd xs i = Some v \<longleftrightarrow> i < length xs \<and> v = xs ! i"
  by (auto simp: rd_def)

lemma rd_None_iff: "rd xs i = None \<longleftrightarrow> length xs \<le> i"
  by (auto simp: rd_def)

lemma wr_Some [simp, c_access]: "i < length xs \<Longrightarrow> wr xs i v = Some (xs[i := v])"
  by (simp add: wr_def)

lemma wr_eq_Some_iff: "wr xs i v = Some ys \<longleftrightarrow> i < length xs \<and> ys = xs[i := v]"
  by (auto simp: wr_def)

lemma wr_None_iff: "wr xs i v = None \<longleftrightarrow> length xs \<le> i"
  by (auto simp: wr_def)

lemma rdi_Some [simp, c_access]: "0 \<le> i \<Longrightarrow> nat i < length xs \<Longrightarrow> rdi xs i = Some (xs ! nat i)"
  by (simp add: rdi_def)

lemma wri_Some [simp, c_access]:
  "0 \<le> i \<Longrightarrow> nat i < length xs \<Longrightarrow> wri xs i v = Some (xs[nat i := v])"
  by (simp add: wri_def)

lemma c_assert_True [simp]: "c_assert True = Some ()"
  by (simp add: c_assert_def)

lemma c_assert_eq_Some_iff [simp]: "c_assert b = Some u \<longleftrightarrow> b"
  by (simp add: c_assert_def)

subsection \<open>Signed arithmetic\<close>

definition to_i32 :: "int \<Rightarrow> int option" where
  "to_i32 x = (if - (2 ^ 31) \<le> x \<and> x < 2 ^ 31 then Some x else None)"

definition to_i64 :: "int \<Rightarrow> int option" where
  "to_i64 x = (if - (2 ^ 63) \<le> x \<and> x < 2 ^ 63 then Some x else None)"

lemma to_i32_Some [simp, c_arith]: "- (2 ^ 31) \<le> x \<Longrightarrow> x < 2 ^ 31 \<Longrightarrow> to_i32 x = Some x"
  by (simp add: to_i32_def)

lemma to_i32_eq_Some_iff: "to_i32 x = Some y \<longleftrightarrow> y = x \<and> - (2 ^ 31) \<le> x \<and> x < 2 ^ 31"
  by (auto simp: to_i32_def)

lemma to_i64_Some [simp, c_arith]: "- (2 ^ 63) \<le> x \<Longrightarrow> x < 2 ^ 63 \<Longrightarrow> to_i64 x = Some x"
  by (simp add: to_i64_def)

lemma to_i64_eq_Some_iff: "to_i64 x = Some y \<longleftrightarrow> y = x \<and> - (2 ^ 63) \<le> x \<and> x < 2 ^ 63"
  by (auto simp: to_i64_def)

subsection \<open>Words\<close>

lemma unat_add_mod_pow2:
  fixes x y :: "'a::len word"
  assumes "k \<le> LENGTH('a)"
  shows "unat (x + y) mod 2 ^ k = (unat x + unat y) mod 2 ^ k"
proof -
  have "(2::nat) ^ k dvd 2 ^ LENGTH('a)"
    using assms by (simp add: le_imp_power_dvd)
  then show ?thesis
    by (simp add: unat_word_ariths mod_mod_cancel)
qed

lemma unat_of_nat_small: "n < 2 ^ LENGTH('a) \<Longrightarrow> unat (of_nat n :: 'a::len word) = n"
  by (simp add: unat_of_nat)

lemma of_nat_word_inj:
  assumes "c < 2 ^ LENGTH('a)" and "d < 2 ^ LENGTH('a)" and "(of_nat c :: 'a::len word) = of_nat d"
  shows "c = d"
proof -
  have "c = unat (of_nat c :: 'a word)" by (rule unat_of_nat_small [OF assms(1), symmetric])
  also have "\<dots> = d" unfolding assms(3) by (rule unat_of_nat_small [OF assms(2)])
  finally show ?thesis .
qed

lemma unat_lt_2p: "unat (w :: 'a::len word) < 2 ^ LENGTH('a)"
  by (rule unsigned_less)

lemma unat_pow2:
  assumes "k < LENGTH('a)"
  shows "unat (2 ^ k :: 'a::len word) = 2 ^ k"
proof -
  have "unat (of_nat (2 ^ k) :: 'a word) = 2 ^ k mod 2 ^ LENGTH('a)"
    by (rule unat_of_nat)
  with assms show ?thesis by simp
qed

lemma unat_and_pow2_minus_1:
  fixes x :: "'a::len word"
  assumes "k < LENGTH('a)"
  shows "unat (x AND (2 ^ k - 1)) = unat x mod 2 ^ k"
proof -
  have "x AND (2 ^ k - 1) = take_bit k x"
    by (simp add: mask_eq_exp_minus_1 [symmetric] take_bit_eq_mask)
  then show ?thesis
    using assms by (simp add: take_bit_eq_mod unat_mod unat_pow2)
qed

lemma unat_add_1:
  fixes x :: "'a::len word"
  assumes "unat x + 1 < 2 ^ LENGTH('a)"
  shows "unat (x + 1) = unat x + 1"
  using assms by (simp add: unat_word_ariths)

subsection \<open>Counting the elements of a list that satisfy a predicate\<close>

definition cnt :: "('a \<Rightarrow> bool) \<Rightarrow> 'a list \<Rightarrow> nat" where
  "cnt P xs = length (filter P xs)"

lemma cnt_simps [simp]:
  "cnt P [] = 0"
  "cnt P (x # xs) = (if P x then Suc (cnt P xs) else cnt P xs)"
  "cnt P (xs @ ys) = cnt P xs + cnt P ys"
  by (simp_all add: cnt_def)

lemma cnt_update:
  "i < length xs \<Longrightarrow>
   cnt P (xs[i := x]) + (if P (xs ! i) then 1 else 0) = cnt P xs + (if P x then 1 else 0)"
proof (induction xs arbitrary: i)
  case Nil
  then show ?case by simp
next
  case (Cons y ys)
  then show ?case by (cases i) auto
qed

lemma cnt_pos_iff: "0 < cnt P xs \<longleftrightarrow> (\<exists>i < length xs. P (xs ! i))"
  by (auto simp: cnt_def filter_empty_conv in_set_conv_nth) (metis nth_mem)

lemma cnt_zero_iff: "cnt P xs = 0 \<longleftrightarrow> (\<forall>i < length xs. \<not> P (xs ! i))"
  using cnt_pos_iff [of P xs] by auto

lemma cnt_le_length: "cnt P xs \<le> length xs"
  by (simp add: cnt_def)

lemma cnt_all_true: "\<forall>x \<in> set xs. P x \<Longrightarrow> cnt P xs = length xs"
  by (simp add: cnt_def)

lemma cnt_none_true: "\<forall>x \<in> set xs. \<not> P x \<Longrightarrow> cnt P xs = 0"
  by (simp add: cnt_def filter_empty_conv)

lemma cnt_map: "cnt P (map f xs) = cnt (\<lambda>x. P (f x)) xs"
  by (simp add: cnt_def filter_map comp_def)

text \<open>When at most one element satisfies the predicate, it is the only one.\<close>

lemma cnt_one_unique:
  assumes "cnt P xs \<le> 1" and "i < length xs" and "j < length xs" and "P (xs ! i)" and "P (xs ! j)"
  shows "i = j"
proof (rule ccontr)
  assume "i \<noteq> j"
  have "{i, j} \<subseteq> {k. k < length xs \<and> P (xs ! k)}" using assms by simp
  then have "card {i, j} \<le> cnt P xs"
    unfolding cnt_def length_filter_conv_card by (intro card_mono) simp_all
  with \<open>i \<noteq> j\<close> assms(1) show False by simp
qed

subsection \<open>Two-dimensional arrays in one block\<close>

lemma flat_less:
  assumes "i < m" and "j < (p::nat)"
  shows "i * p + j < m * p"
proof -
  have "i * p + j < (i + 1) * p" using assms(2) by simp
  also have "\<dots> \<le> m * p" using assms(1) by (intro mult_right_mono) auto
  finally show ?thesis .
qed

lemma flat_split:
  assumes "k < m * (p::nat)"
  obtains i j where "i < m" "j < p" "k = i * p + j"
proof -
  have "0 < p" using assms by (cases p) auto
  then show thesis using that [of "k div p" "k mod p"] assms by (simp add: less_mult_imp_div_less)
qed

subsection \<open>The interface of a bounded queue\<close>

text \<open>
  \<open>is_full\<close>, \<open>is_empty\<close> are the tests of the code's wait loops; \<open>put\<close> and \<open>get\<close> are the bodies
  after those loops.  \<open>content\<close> is the abstraction to a list, oldest element first.
\<close>

locale bounded_fifo =
  fixes inv :: "'q \<Rightarrow> bool"
    and content :: "'q \<Rightarrow> 'a list"
    and cap :: "'q \<Rightarrow> nat"
    and is_full :: "'q \<Rightarrow> bool"
    and is_empty :: "'q \<Rightarrow> bool"
    and put :: "'q \<Rightarrow> 'a \<Rightarrow> 'q option"
    and get :: "'q \<Rightarrow> ('a \<times> 'q) option"
  assumes cap_pos: "inv q \<Longrightarrow> 0 < cap q"
    and content_le_cap: "inv q \<Longrightarrow> length (content q) \<le> cap q"
    and full_iff: "inv q \<Longrightarrow> is_full q \<longleftrightarrow> length (content q) = cap q"
    and empty_iff: "inv q \<Longrightarrow> is_empty q \<longleftrightarrow> content q = []"
    and put_ok: "inv q \<Longrightarrow> \<not> is_full q \<Longrightarrow>
      \<exists>q'. put q v = Some q' \<and> inv q' \<and> content q' = content q @ [v] \<and> cap q' = cap q"
    and get_ok: "inv q \<Longrightarrow> \<not> is_empty q \<Longrightarrow>
      \<exists>q'. get q = Some (hd (content q), q') \<and> inv q' \<and> content q' = tl (content q) \<and> cap q' = cap q"
begin

lemma not_full_and_empty: "inv q \<Longrightarrow> \<not> (is_full q \<and> is_empty q)"
  using cap_pos [of q] full_iff [of q] empty_iff [of q] by auto

lemma put_SomeD:
  assumes "inv q" and "\<not> is_full q" and "put q v = Some q'"
  shows "inv q' \<and> content q' = content q @ [v] \<and> cap q' = cap q"
  using put_ok [OF assms(1,2), of v] assms(3) by auto

lemma get_SomeD:
  assumes "inv q" and "\<not> is_empty q" and "get q = Some (v, q')"
  shows "inv q' \<and> content q = v # content q' \<and> cap q' = cap q"
proof -
  from get_ok [OF assms(1,2)] assms(3)
  have "v = hd (content q)" "inv q'" "content q' = tl (content q)" "cap q' = cap q"
    by auto
  moreover have "content q \<noteq> []"
    using empty_iff [OF assms(1)] assms(2) by simp
  ultimately show ?thesis by simp
qed

end

end
