(* ===== verification/Ring_Slots.thy ===== *)
theory Ring_Slots
  imports CPrelude
begin

text \<open>
  The slot arithmetic of the ring buffers of \<open>SPSC_Ring_buffer/\<close>: two free-running 64-bit
  counters index a power-of-two array through a mask, and the ring holds the
  elements between them.  \<open>slots b t n\<close> is the list of the \<open>n\<close> elements from counter
  value \<open>t\<close> on; the lemmas say how it changes when an element is stored at the head or taken at the
  tail, including when a counter wraps around at \<open>2 ^ 64\<close>.
\<close>

definition slots :: "'a list \<Rightarrow> u64 \<Rightarrow> nat \<Rightarrow> 'a list" where
  "slots b t n = map (\<lambda>i. b ! ((unat t + i) mod length b)) [0..<n]"

lemma length_slots [simp]: "length (slots b t n) = n"
  by (simp add: slots_def)

lemma slots_0 [simp]: "slots b t 0 = []"
  by (simp add: slots_def)

lemma nth_slots: "i < n \<Longrightarrow> slots b t n ! i = b ! ((unat t + i) mod length b)"
  by (simp add: slots_def)

lemma mod_add_inj:
  fixes m :: nat
  assumes "(a + i) mod m = (a + j) mod m" and "i < m" and "j < m"
  shows "i = j"
proof -
  have le: "j' \<le> i'" if "(a + i') mod m = (a + j') mod m" "j' < m" for i' j'
  proof (rule ccontr)
    assume "\<not> j' \<le> i'"
    then have "m dvd j' - i'" and "0 < j' - i'"
      using that(1) mod_eq_dvd_iff_nat [of "a + i'" "a + j'" m] by auto
    then have "m \<le> j' - i'" by (rule dvd_imp_le)
    with \<open>j' < m\<close> show False by simp
  qed
  from le [OF assms(1,3)] le [OF assms(1) [symmetric] assms(2)] show ?thesis by simp
qed

text \<open>The index the code computes, \<open>counter & mask\<close>, is the counter modulo the array length.\<close>

lemma slot_index:
  assumes "k < 64" and "length b = 2 ^ k"
  shows "unat (x AND (2 ^ k - 1) :: u64) = unat x mod length b"
  using assms by (simp add: unat_and_pow2_minus_1)

lemma slot_index_add:
  assumes "k < 64" and "length b = 2 ^ k"
  shows "unat (t + of_nat n :: u64) mod length b = (unat t + n) mod length b"
proof -
  have "unat (t + of_nat n) mod 2 ^ k = (unat t + unat (of_nat n :: u64)) mod 2 ^ k"
    using assms(1) by (intro unat_add_mod_pow2) simp
  also have "\<dots> = (unat t + n) mod 2 ^ k"
  proof -
    have "(2 :: nat) ^ k dvd 2 ^ LENGTH(64)"
      using assms(1) by (intro le_imp_power_dvd) simp
    then have "unat (of_nat n :: u64) mod 2 ^ k = n mod 2 ^ k"
      unfolding unat_of_nat by (rule mod_mod_cancel)
    then show ?thesis by (metis mod_add_right_eq)
  qed
  finally show ?thesis by (simp add: assms(2))
qed

lemma slots_store:
  assumes "k < 64" and "length b = 2 ^ k" and "n < length b"
  shows "slots (b[unat (t + of_nat n) mod length b := v]) t (Suc n) = slots b t n @ [v]"
proof (rule nth_equalityI)
  fix i
  assume "i < length (slots (b[unat (t + of_nat n) mod length b := v]) t (Suc n))"
  then have i: "i < Suc n" by simp
  have pos: "0 < length b" using assms(2) by simp
  show "slots (b[unat (t + of_nat n) mod length b := v]) t (Suc n) ! i = (slots b t n @ [v]) ! i"
  proof (cases "i = n")
    case True
    then show ?thesis
      using pos by (simp add: nth_slots slot_index_add [OF assms(1,2)] nth_append)
  next
    case False
    with i have "i < n" by simp
    with assms(3) have "(unat t + n) mod length b \<noteq> (unat t + i) mod length b"
      using mod_add_inj [of "unat t" n "length b" i] by auto
    with \<open>i < n\<close> show ?thesis
      by (simp add: nth_slots slot_index_add [OF assms(1,2)] nth_append)
  qed
qed simp

lemma slots_take:
  assumes "k < 64" and "length b = 2 ^ k"
  shows "slots b t (Suc n) = b ! (unat t mod length b) # slots b (t + 1) n"
proof (rule nth_equalityI)
  fix i
  assume "i < length (slots b t (Suc n))"
  then have i: "i < Suc n" by simp
  have step: "(unat (t + 1) + j) mod length b = (unat t + Suc j) mod length b" for j
    using slot_index_add [OF assms, of t 1] by simp (metis Suc_eq_plus1 add_Suc mod_add_left_eq)
  show "slots b t (Suc n) ! i = (b ! (unat t mod length b) # slots b (t + 1) n) ! i"
    using i by (cases i) (simp_all add: nth_slots step)
qed simp

text \<open>The counters themselves: the distance between them, modulo \<open>2 ^ 64\<close>.\<close>

lemma distance_inc:
  assumes "unat (h - t :: u64) < 2 ^ 63"
  shows "unat (h + 1 - t) = Suc (unat (h - t))"
proof -
  have "h + 1 - t = (h - t) + 1" by (simp add: algebra_simps)
  moreover have "unat ((h - t) + 1) = unat (h - t) + 1"
    using assms by (intro unat_add_1) simp
  ultimately show ?thesis by (metis Suc_eq_plus1)
qed

lemma distance_dec:
  assumes "h \<noteq> (t :: u64)"
  shows "Suc (unat (h - (t + 1))) = unat (h - t)"
proof -
  have "h - t \<noteq> 0" using assms by simp
  then have "unat (h - t - 1) = unat (h - t) - 1" and "0 < unat (h - t)"
    by (simp_all add: unat_minus_one unat_gt_0)
  moreover have "h - (t + 1) = h - t - 1" by (simp add: algebra_simps)
  ultimately show ?thesis by (metis One_nat_def Suc_pred)
qed

lemma head_from_distance: "(t :: u64) + of_nat (unat (h - t)) = h"
  by simp

end
