(* ===== verification/Next_Pow2.thy ===== *)
theory Next_Pow2
  imports CPrelude "HOL-Library.While_Combinator"
begin

text \<open>
  \<open>next_pow2\<close> of \<open>SPSC_Ring_buffer/rb.c\<close> and \<open>SPSC_Ring_buffer/rb_lock.c\<close> (the two files have
  the same text): the smallest power of two that is at least the argument, by smearing the
  highest set bit downwards, in 64-bit arithmetic.  The loop is kept as a \<^const>\<open>while\<close>.
  The lemmas show what the smeared word is bit by bit; the properties say that the result is the
  least power of two above the argument, or 0 exactly when that power does not fit in 64 bits.
\<close>

subsection \<open>The code\<close>

definition smear :: "u64 \<Rightarrow> u64" where
  "smear c = snd (while (\<lambda>(shift, c). shift < 64)
     (\<lambda>(shift, c). (push_bit 1 shift, c OR drop_bit shift c)) (1 :: nat, c))"

definition next_pow2 :: "u64 \<Rightarrow> u64" where
  "next_pow2 c = (if c \<le> 1 then 1 else smear (c - 1) + 1)"

subsection \<open>What the loop computes\<close>

definition smear_step :: "nat \<Rightarrow> u64 \<Rightarrow> u64" where
  "smear_step s c = c OR drop_bit s c"

lemma smear_unfold:
  "smear c = smear_step 32 (smear_step 16 (smear_step 8
     (smear_step 4 (smear_step 2 (smear_step 1 c)))))"
  by (simp add: smear_def smear_step_def while_unfold push_bit_eq_mult)

text \<open>
  \<open>covers w n c c'\<close>: bit \<open>n\<close> of \<open>c'\<close> says whether \<open>c\<close> has a bit among
  \<open>n, \<dots>, n + w - 1\<close>.  One step doubles the window.
\<close>

definition covers :: "nat \<Rightarrow> u64 \<Rightarrow> u64 \<Rightarrow> bool" where
  "covers w c c' \<longleftrightarrow> (\<forall>n. bit c' n \<longleftrightarrow> (\<exists>j < w. bit c (n + j)))"

lemma covers_refl: "covers 1 c c"
  by (simp add: covers_def)

lemma covers_step:
  assumes "covers s c c'"
  shows "covers (2 * s) c (smear_step s c')"
proof -
  have "bit (smear_step s c') n \<longleftrightarrow> (\<exists>j < 2 * s. bit c (n + j))" for n
  proof -
    have "bit (smear_step s c') n \<longleftrightarrow> (\<exists>j < s. bit c (n + j)) \<or> (\<exists>j < s. bit c (n + s + j))"
      using assms by (simp add: smear_step_def covers_def bit_simps add.commute add.left_commute)
    also have "\<dots> \<longleftrightarrow> (\<exists>j < 2 * s. bit c (n + j))"
    proof
      assume "(\<exists>j < s. bit c (n + j)) \<or> (\<exists>j < s. bit c (n + s + j))"
      then show "\<exists>j < 2 * s. bit c (n + j)"
        by (metis add.assoc add_strict_left_mono mult_2 trans_less_add1)
    next
      assume "\<exists>j < 2 * s. bit c (n + j)"
      then obtain j where "j < 2 * s" "bit c (n + j)" by blast
      then show "(\<exists>j < s. bit c (n + j)) \<or> (\<exists>j < s. bit c (n + s + j))"
        by (cases "j < s") (auto intro: exI [of _ "j - s"])
    qed
    finally show ?thesis .
  qed
  then show ?thesis by (simp add: covers_def)
qed

lemma covers_smear: "covers 64 c (smear c)"
proof -
  have "covers 2 c (smear_step 1 c)" (is "covers _ _ ?c1")
    using covers_step [OF covers_refl [of c]] by simp
  then have "covers 4 c (smear_step 2 ?c1)" (is "covers _ _ ?c2")
    using covers_step [of 2 c ?c1] by simp
  then have "covers 8 c (smear_step 4 ?c2)" (is "covers _ _ ?c3")
    using covers_step [of 4 c ?c2] by simp
  then have "covers 16 c (smear_step 8 ?c3)" (is "covers _ _ ?c4")
    using covers_step [of 8 c ?c3] by simp
  then have "covers 32 c (smear_step 16 ?c4)" (is "covers _ _ ?c5")
    using covers_step [of 16 c ?c4] by simp
  then have "covers 64 c (smear_step 32 ?c5)"
    using covers_step [of 32 c ?c5] by simp
  then show ?thesis by (simp add: smear_unfold)
qed

lemma bit_smear: "bit (smear c) n \<longleftrightarrow> (\<exists>j. n \<le> j \<and> bit c j)"
proof -
  have "(\<exists>j < 64. bit c (n + j)) \<longleftrightarrow> (\<exists>j. n \<le> j \<and> bit c j)"
  proof
    assume "\<exists>j. n \<le> j \<and> bit c j"
    then obtain j where j: "n \<le> j" "bit c j" by blast
    then have "j < 64" using bit_imp_le_length [of c j] by simp
    with j show "\<exists>j < 64. bit c (n + j)"
      by (intro exI [of _ "j - n"]) simp
  qed (auto intro: le_add1)
  with covers_smear [of c] show ?thesis by (simp add: covers_def)
qed

text \<open>A nonzero word lies between two consecutive powers of two, and its smear is the upper one minus one.\<close>

lemma bit_top:
  assumes "2 ^ k \<le> unat (c :: u64)" and "unat c < 2 ^ Suc k"
  shows "bit c k"
proof -
  have "unat c div 2 ^ k = 1"
    using assms by (intro div_nat_eqI) auto
  then have "bit (unat c) k" by (simp add: bit_iff_odd)
  then show ?thesis by (simp add: bit_simps)
qed

lemma smear_eq_mask:
  assumes lo: "2 ^ k \<le> unat c" and hi: "unat c < 2 ^ Suc k"
  shows "smear c = mask (Suc k)"
proof (rule bit_eqI)
  fix n
  have top: "bit c k" using lo hi by (rule bit_top)
  have above: "\<not> bit c j" if "Suc k \<le> j" for j
  proof -
    have "unat c < 2 ^ j"
      using hi that by (meson less_le_trans one_le_numeral power_increasing)
    then have "\<not> bit (unat c) j" by (simp add: bit_iff_odd)
    then show ?thesis by (simp add: bit_simps)
  qed
  have "bit (smear c) n \<longleftrightarrow> n \<le> k"
  proof
    assume "bit (smear c) n"
    then obtain j where "n \<le> j" "bit c j" by (auto simp: bit_smear)
    moreover from \<open>bit c j\<close> have "j \<le> k" using above [of j] by (meson not_less_eq_eq)
    ultimately show "n \<le> k" by simp
  qed (use top in \<open>auto simp: bit_smear\<close>)
  moreover have "k < 64" using top bit_imp_le_length [of c k] by simp
  ultimately show "bit (smear c) n \<longleftrightarrow> bit (mask (Suc k) :: u64) n"
    by (auto simp: bit_mask_iff)
qed

lemma pow2_bracket:
  assumes "0 < (m :: nat)"
  obtains k where "2 ^ k \<le> m" and "m < 2 ^ Suc k"
  using ex_power_ivl1 [of 2 m] assms by (metis One_nat_def Suc_leI Suc_eq_plus1 le_refl one_add_one)

lemma next_pow2_bracket:
  assumes lo: "2 ^ k < unat c" and hi: "unat c \<le> 2 ^ Suc k"
  shows "next_pow2 c = 2 ^ Suc k"
proof -
  have c1: "\<not> c \<le> 1"
  proof -
    have "1 \<le> (2 :: nat) ^ k" by simp
    with lo have "1 < unat c" by linarith
    then show ?thesis by (simp add: word_le_nat_alt)
  qed
  then have "unat (c - 1) = unat c - 1"
    by (intro unat_minus_one) auto
  with lo hi have "smear (c - 1) = mask (Suc k)"
    by (intro smear_eq_mask) auto
  with c1 show ?thesis
    by (simp add: next_pow2_def mask_eq_exp_minus_1)
qed

text \<open>
  The test \<open>(capacity & (capacity - 1)) == 0\<close> both ring buffers use: among the nonzero words it
  holds of the powers of two only.
\<close>

lemma pow2_test:
  assumes "c \<noteq> (0 :: u64)"
  shows "c AND (c - 1) = 0 \<longleftrightarrow> (\<exists>k < 64. c = 2 ^ k)"
proof
  assume zero: "c AND (c - 1) = 0"
  from assms obtain k where k: "2 ^ k \<le> unat c" "unat c < 2 ^ Suc k"
    using pow2_bracket [of "unat c"] by (auto simp: unat_gt_0)
  then have top: "bit c k" by (rule bit_top)
  then have "k < 64" using bit_imp_le_length [of c k] by simp
  have "unat c = 2 ^ k"
  proof (rule ccontr)
    assume "unat c \<noteq> 2 ^ k"
    with k have "2 ^ k \<le> unat (c - 1)" "unat (c - 1) < 2 ^ Suc k"
      using assms by (simp_all add: unat_minus_one)
    then have "bit (c - 1) k" by (rule bit_top)
    with top have "bit (c AND (c - 1)) k" by (simp add: bit_and_iff)
    with zero show False by simp
  qed
  with \<open>k < 64\<close> have "c = 2 ^ k" by (simp add: word_unat_eq_iff unat_pow2)
  with \<open>k < 64\<close> show "\<exists>k < 64. c = 2 ^ k" by blast
next
  assume "\<exists>k < 64. c = 2 ^ k"
  then obtain k where "k < 64" "c = 2 ^ k" by blast
  then have "unat (c AND (c - 1)) = 0" by (simp add: unat_and_pow2_minus_1 unat_pow2)
  then show "c AND (c - 1) = 0" by (simp add: unat_eq_zero)
qed

subsection \<open>Properties\<close>

lemma Least_pow2_eq:
  assumes "2 ^ k < m" and "m \<le> 2 ^ Suc k"
  shows "(LEAST k. m \<le> (2 :: nat) ^ k) = Suc k"
proof (rule Least_equality)
  fix j
  assume "m \<le> 2 ^ j"
  with assms(1) have "(2 :: nat) ^ k < 2 ^ j" by linarith
  then show "Suc k \<le> j" by (simp add: power_less_imp_less_exp Suc_leI)
qed (rule assms(2))

text \<open>
  for every 64-bit argument, \<open>next_pow2\<close> returns the smallest power of two that is at least
  the argument when that power fits in 64 bits, and 0 when it does not.
\<close>

theorem next_pow2_least:
  "unat (next_pow2 c) =
     (let k = (LEAST k. unat c \<le> 2 ^ k) in if k < 64 then 2 ^ k else 0)"
proof (cases "unat c \<le> 1")
  case True
  then have "(LEAST k. unat c \<le> 2 ^ k) = 0"
    by (intro Least_equality) auto
  with True show ?thesis by (simp add: next_pow2_def word_le_nat_alt)
next
  case False
  then obtain k where k: "2 ^ k \<le> unat c - 1" "unat c - 1 < 2 ^ Suc k"
    using pow2_bracket [of "unat c - 1"] by auto
  with False have lo: "2 ^ k < unat c" and hi: "unat c \<le> 2 ^ Suc k" by auto
  have least: "(LEAST k. unat c \<le> 2 ^ k) = Suc k"
    using lo hi by (rule Least_pow2_eq)
  have "unat c < 2 ^ LENGTH(64)" by (rule unsigned_less)
  with lo have "(2 :: nat) ^ k < 2 ^ LENGTH(64)" by (rule less_trans)
  then have "k < LENGTH(64)" by (rule power_less_imp_less_exp [rotated]) simp
  then have "k < 64" by simp
  show ?thesis
  proof (cases "Suc k < 64")
    case True
    then show ?thesis using least next_pow2_bracket [OF lo hi] by (simp add: unat_pow2 del: power_Suc)
  next
    case False
    with \<open>k < 64\<close> have "k = 63" by simp
    then show ?thesis using least next_pow2_bracket [OF lo hi] by simp
  qed
qed

end
