(* ===== verification/Ring_Test.thy ===== *)
theory Ring_Test
  imports CPrelude
begin

text \<open>
  The single-threaded self test that \<open>rb.c\<close> and \<open>rb_lock.c\<close> share (\<open>test_single_thread\<close>), over the
  two non-blocking operations of the ring.  \<open>check\<close> exits the program when its condition is
  false, which is \<^const>\<open>None\<close> here.  The last loop reads until the ring is empty; it is a partial function,
  so a result other than \<^const>\<open>None\<close> also says that it ends.

  The locale \<open>try_queue\<close> is the contract of the two operations; the test is shown to pass for every
  implementation of that contract, and the two ring theories interpret it.
\<close>

subsection \<open>The code\<close>

type_synonym 'q try_write = "'q \<Rightarrow> u64 \<Rightarrow> (bool \<times> 'q) option"
type_synonym 'q try_read = "'q \<Rightarrow> (u64 option \<times> 'q) option"

primrec write_from :: "'q try_write \<Rightarrow> nat \<Rightarrow> u64 \<Rightarrow> 'q \<Rightarrow> 'q option" where
  "write_from tw 0 i q = Some q"
| "write_from tw (Suc n) i q =
     do { (ok, q) \<leftarrow> tw q i; _ \<leftarrow> c_assert ok; write_from tw n (i + 1) q }"

primrec read_from :: "'q try_read \<Rightarrow> nat \<Rightarrow> u64 \<Rightarrow> 'q \<Rightarrow> 'q option" where
  "read_from tr 0 i q = Some q"
| "read_from tr (Suc n) i q =
     do { (v, q) \<leftarrow> tr q; _ \<leftarrow> c_assert (v = Some i); read_from tr n (i + 1) q }"

primrec pump :: "'q try_write \<Rightarrow> 'q try_read \<Rightarrow> nat \<Rightarrow> u64 \<Rightarrow> u64 \<Rightarrow> 'q \<Rightarrow> (u64 \<times> u64 \<times> 'q) option" where
  "pump tw tr 0 next_in next_out q = Some (next_in, next_out, q)"
| "pump tw tr (Suc n) next_in next_out q =
     do { (ok, q) \<leftarrow> tw q next_in; _ \<leftarrow> c_assert ok;
          (v, q) \<leftarrow> tr q; _ \<leftarrow> c_assert (v = Some next_out);
          pump tw tr n (next_in + 1) (next_out + 1) q }"

partial_function (option) drain :: "'q try_read \<Rightarrow> u64 \<Rightarrow> 'q \<Rightarrow> (u64 \<times> 'q) option" where
  "drain tr next_out q =
     do { (v, q) \<leftarrow> tr q;
          case v of None \<Rightarrow> Some (next_out, q)
          | Some x \<Rightarrow> do { _ \<leftarrow> c_assert (x = next_out); drain tr (next_out + 1) q } }"

definition single_thread_test :: "'q try_write \<Rightarrow> 'q try_read \<Rightarrow> u64 \<Rightarrow> 'q \<Rightarrow> 'q option" where
  "single_thread_test tw tr capacity q =
     do { (v, q) \<leftarrow> tr q; _ \<leftarrow> c_assert (v = None);
          q \<leftarrow> write_from tw (unat capacity) 0 q;
          (ok, q) \<leftarrow> tw q 999; _ \<leftarrow> c_assert (\<not> ok);
          q \<leftarrow> read_from tr (unat capacity) 0 q;
          (v, q) \<leftarrow> tr q; _ \<leftarrow> c_assert (v = None);
          q \<leftarrow> write_from tw (unat (capacity div 2)) 0 q;
          (next_in, next_out, q) \<leftarrow> pump tw tr (unat (5 * capacity)) (capacity div 2) 0 q;
          (next_out, q) \<leftarrow> drain tr next_out q;
          _ \<leftarrow> c_assert (next_in = next_out);
          Some q }"

subsection \<open>The contract of the non-blocking operations\<close>

definition count_up :: "u64 \<Rightarrow> nat \<Rightarrow> u64 list" where
  "count_up v n = map (\<lambda>i. v + of_nat i) [0..<n]"

lemma count_up_0 [simp]: "count_up v 0 = []"
  by (simp add: count_up_def)

lemma length_count_up [simp]: "length (count_up v n) = n"
  by (simp add: count_up_def)

lemma count_up_Suc: "count_up v (Suc n) = v # count_up (v + 1) n"
  by (simp add: count_up_def map_upt_Suc algebra_simps del: upt_Suc)

lemma count_up_snoc: "count_up v (Suc n) = count_up v n @ [v + of_nat n]"
  by (simp add: count_up_def)

lemma count_up_add: "count_up v m @ count_up (v + of_nat m) n = count_up v (m + n)"
  by (induction n) (simp_all add: count_up_snoc algebra_simps flip: append_assoc)

locale try_queue =
  fixes inv :: "'q \<Rightarrow> bool"
    and content :: "'q \<Rightarrow> u64 list"
    and cap :: "'q \<Rightarrow> nat"
    and tw :: "'q try_write"
    and tr :: "'q try_read"
  assumes inv_cap_pos: "inv q \<Longrightarrow> 0 < cap q"
    and tw_room: "inv q \<Longrightarrow> length (content q) < cap q \<Longrightarrow>
      \<exists>q'. tw q v = Some (True, q') \<and> inv q' \<and> cap q' = cap q \<and> content q' = content q @ [v]"
    and tw_full: "inv q \<Longrightarrow> length (content q) = cap q \<Longrightarrow> tw q v = Some (False, q)"
    and tr_some: "inv q \<Longrightarrow> content q \<noteq> [] \<Longrightarrow>
      \<exists>q'. tr q = Some (Some (hd (content q)), q') \<and> inv q' \<and> cap q' = cap q \<and> content q' = tl (content q)"
    and tr_none: "inv q \<Longrightarrow> content q = [] \<Longrightarrow> tr q = Some (None, q)"
begin

lemma write_from_ok:
  assumes "inv q" and "length (content q) + n \<le> cap q"
  shows "\<exists>q'. write_from tw n v q = Some q' \<and> inv q' \<and> cap q' = cap q
           \<and> content q' = content q @ count_up v n"
  using assms
proof (induction n arbitrary: v q)
  case 0
  then show ?case by simp
next
  case (Suc n)
  then obtain q1 where q1: "tw q v = Some (True, q1)" "inv q1" "cap q1 = cap q" "content q1 = content q @ [v]"
    using tw_room [of q v] by auto
  with Suc.IH [of q1 "v + 1"] Suc.prems show ?case
    by (auto simp: count_up_Suc)
qed

lemma read_from_ok:
  assumes "inv q" and "content q = count_up v n @ rest"
  shows "\<exists>q'. read_from tr n v q = Some q' \<and> inv q' \<and> cap q' = cap q \<and> content q' = rest"
  using assms
proof (induction n arbitrary: v q)
  case 0
  then show ?case by simp
next
  case (Suc n)
  then obtain q1 where "tr q = Some (Some v, q1)" "inv q1" "cap q1 = cap q" "content q1 = count_up (v + 1) n @ rest"
    using tr_some [of q] by (auto simp: count_up_Suc)
  with Suc.IH [of q1 "v + 1"] show ?case by auto
qed

lemma pump_ok:
  assumes "inv q" and "content q = count_up v m" and "m < cap q"
  shows "\<exists>q'. pump tw tr n (v + of_nat m) v q = Some (v + of_nat n + of_nat m, v + of_nat n, q')
           \<and> inv q' \<and> cap q' = cap q \<and> content q' = count_up (v + of_nat n) m"
  using assms
proof (induction n arbitrary: v q)
  case 0
  then show ?case by simp
next
  case (Suc n)
  then obtain q1 where q1: "tw q (v + of_nat m) = Some (True, q1)" "inv q1" "cap q1 = cap q"
      "content q1 = v # count_up (v + 1) m"
    using tw_room [of q "v + of_nat m"] by (auto simp: count_up_snoc [symmetric] count_up_Suc)
  then obtain q2 where q2: "tr q1 = Some (Some v, q2)" "inv q2" "cap q2 = cap q" "content q2 = count_up (v + 1) m"
    using tr_some [of q1] by auto
  with Suc.IH [of q2 "v + 1"] Suc.prems q1 show ?case
    by (auto simp: algebra_simps)
qed

lemma drain_ok:
  assumes "inv q" and "content q = count_up v n"
  shows "\<exists>q'. drain tr v q = Some (v + of_nat n, q') \<and> inv q' \<and> cap q' = cap q \<and> content q' = []"
  using assms
proof (induction n arbitrary: v q)
  case 0
  then show ?case by (simp add: tr_none drain.simps [of tr v q])
next
  case (Suc n)
  then obtain q1 where "tr q = Some (Some v, q1)" "inv q1" "cap q1 = cap q" "content q1 = count_up (v + 1) n"
    using tr_some [of q] by (auto simp: count_up_Suc)
  with Suc.IH [of q1 "v + 1"] show ?case
    by (auto simp: drain.simps [of tr v q] algebra_simps)
qed

lemma single_thread_test_ok:
  assumes inv: "inv q" and empty: "content q = []" and c: "cap q = unat capacity"
  shows "\<exists>q'. single_thread_test tw tr capacity q = Some q' \<and> inv q' \<and> cap q' = cap q \<and> content q' = []"
proof -
  have pos: "0 < unat capacity" using inv_cap_pos [OF inv] c by simp
  have e: "tr q = Some (None, q)" using inv empty by (rule tr_none)
  obtain q1 where q1: "write_from tw (unat capacity) 0 q = Some q1" "inv q1" "cap q1 = cap q"
      "content q1 = count_up 0 (unat capacity)"
    using write_from_ok [OF inv, of "unat capacity" 0] empty c by auto
  then have f: "tw q1 999 = Some (False, q1)" using c by (intro tw_full) auto
  obtain q2 where q2: "read_from tr (unat capacity) 0 q1 = Some q2" "inv q2" "cap q2 = cap q" "content q2 = []"
    using read_from_ok [of q1 0 "unat capacity" "[]"] q1 by auto
  then have e2: "tr q2 = Some (None, q2)" by (intro tr_none) auto
  let ?m = "unat (capacity div 2)"
  have half: "?m < unat capacity" using pos by (simp add: unat_div)
  obtain q3 where q3: "write_from tw ?m 0 q2 = Some q3" "inv q3" "cap q3 = cap q" "content q3 = count_up 0 ?m"
    using write_from_ok [of q2 ?m 0] q2 half c by auto
  let ?n = "unat (5 * capacity)"
  obtain q4 where q4: "pump tw tr ?n (capacity div 2) 0 q3 = Some (5 * capacity + capacity div 2, 5 * capacity, q4)"
      "inv q4" "cap q4 = cap q" "content q4 = count_up (5 * capacity) ?m"
    using pump_ok [of q3 0 ?m ?n] q3 half c by auto
  obtain q5 where q5: "drain tr (5 * capacity) q4 = Some (5 * capacity + capacity div 2, q5)"
      "inv q5" "cap q5 = cap q" "content q5 = []"
    using drain_ok [of q4 "5 * capacity" ?m] q4 by auto
  have "single_thread_test tw tr capacity q = Some q5"
    by (simp add: single_thread_test_def e q1 f q2 e2 q3 q4 q5)
  with q5 show ?thesis by blast
qed

end

end
