(* ===== verification/Monitor.thy ===== *)
theory Monitor
  imports CPrelude "HOL-Library.Multiset"
begin

text \<open>
  The monitor protocol that \<open>rb_lock.c\<close> (\<open>ring_write\<close>, \<open>ring_read\<close>) and \<open>bounded_buffer.c\<close>
  (\<open>bq_put\<close>, \<open>bq_get\<close>) follow: lock; while the queue is full (empty) wait on a condition variable;
  put (get); signal the other condition variable; unlock.  The protocol is written once over the
  queue's tests and bodies; the two component theories instantiate it with their own.

  A state has the queue, the owner of the mutex and a list of threads, each with the calls it still
  has to make and the point it has reached in the current call.  One step is one thread taking
  one action; waiting releases the mutex and puts the thread to sleep in one step, a signal wakes one
  sleeper of the other kind if there is one, and a woken thread has to take the mutex
  again and repeat the test.  Spurious wake-ups are steps of their own.  \<open>puts\<close> and \<open>gets\<close> record the
  values put and got, in order.

  The lemmas show mutual exclusion, first-in-first-out delivery, that no wake-up is lost
  (so that some thread can always go on), and that without spurious wake-ups every run ends with all calls
  completed.
\<close>

subsection \<open>The protocol\<close>

datatype role = PUT | GET

datatype 'a job = Puts "'a list" | Gets nat

datatype mpc = Idle | Test | Asleep | Woken | Signal | Unlock

record 'a thr =
  job :: "'a job"
  pc :: mpc
  got :: "'a list"

record ('q, 'a) mon =
  mq :: 'q
  owner :: "nat option"
  thrs :: "'a thr list"
  puts :: "'a list"
  gets :: "'a list"

fun role_of :: "'a job \<Rightarrow> role" where
  "role_of (Puts vs) = PUT"
| "role_of (Gets n) = GET"

fun other :: "role \<Rightarrow> role" where
  "other PUT = GET"
| "other GET = PUT"

fun calls_left :: "'a job \<Rightarrow> nat" where
  "calls_left (Puts vs) = length vs"
| "calls_left (Gets n) = n"

fun vals_left :: "'a job \<Rightarrow> 'a multiset" where
  "vals_left (Puts vs) = mset vs"
| "vals_left (Gets n) = {#}"

definition blocked :: "('q \<Rightarrow> bool) \<Rightarrow> ('q \<Rightarrow> bool) \<Rightarrow> role \<Rightarrow> 'q \<Rightarrow> bool" where
  "blocked fl em r q = (case r of PUT \<Rightarrow> fl q | GET \<Rightarrow> em q)"

definition asleep :: "role \<Rightarrow> 'a thr \<Rightarrow> bool" where
  "asleep r t \<longleftrightarrow> role_of (job t) = r \<and> pc t = Asleep"

definition set_thr :: "nat \<Rightarrow> 'a thr \<Rightarrow> ('q, 'a) mon \<Rightarrow> ('q, 'a) mon" where
  "set_thr i t s = s\<lparr>thrs := (thrs s)[i := t]\<rparr>"

definition at :: "('q, 'a) mon \<Rightarrow> nat \<Rightarrow> mpc \<Rightarrow> bool" where
  "at s i p \<longleftrightarrow> i < length (thrs s) \<and> pc (thrs s ! i) = p"

definition goto :: "nat \<Rightarrow> mpc \<Rightarrow> ('q, 'a) mon \<Rightarrow> ('q, 'a) mon" where
  "goto i p s = set_thr i ((thrs s ! i)\<lparr>pc := p\<rparr>) s"

inductive mon_step ::
  "('q \<Rightarrow> bool) \<Rightarrow> ('q \<Rightarrow> bool) \<Rightarrow> ('q \<Rightarrow> 'a \<Rightarrow> 'q option) \<Rightarrow> ('q \<Rightarrow> ('a \<times> 'q) option) \<Rightarrow>
   ('q, 'a) mon \<Rightarrow> ('q, 'a) mon \<Rightarrow> bool"
  for fl em pt gt
where
  lock: "at s i Idle \<Longrightarrow> 0 < calls_left (job (thrs s ! i)) \<Longrightarrow> owner s = None \<Longrightarrow>
    mon_step fl em pt gt s ((goto i Test s)\<lparr>owner := Some i\<rparr>)"
| wait: "at s i Test \<Longrightarrow> owner s = Some i \<Longrightarrow> blocked fl em (role_of (job (thrs s ! i))) (mq s) \<Longrightarrow>
    mon_step fl em pt gt s ((goto i Asleep s)\<lparr>owner := None\<rparr>)"
| relock: "at s i Woken \<Longrightarrow> owner s = None \<Longrightarrow>
    mon_step fl em pt gt s ((goto i Test s)\<lparr>owner := Some i\<rparr>)"
| put: "at s i Test \<Longrightarrow> owner s = Some i \<Longrightarrow> job (thrs s ! i) = Puts (v # vs) \<Longrightarrow>
    \<not> fl (mq s) \<Longrightarrow> pt (mq s) v = Some q' \<Longrightarrow>
    mon_step fl em pt gt s
      ((set_thr i ((thrs s ! i)\<lparr>pc := Signal, job := Puts vs\<rparr>) s)\<lparr>mq := q', puts := puts s @ [v]\<rparr>)"
| get: "at s i Test \<Longrightarrow> owner s = Some i \<Longrightarrow> job (thrs s ! i) = Gets (Suc n) \<Longrightarrow>
    \<not> em (mq s) \<Longrightarrow> gt (mq s) = Some (v, q') \<Longrightarrow>
    mon_step fl em pt gt s
      ((set_thr i ((thrs s ! i)\<lparr>pc := Signal, job := Gets n, got := got (thrs s ! i) @ [v]\<rparr>) s)
         \<lparr>mq := q', gets := gets s @ [v]\<rparr>)"
| signal: "at s i Signal \<Longrightarrow> owner s = Some i \<Longrightarrow> j < length (thrs s) \<Longrightarrow>
    asleep (other (role_of (job (thrs s ! i)))) (thrs s ! j) \<Longrightarrow>
    mon_step fl em pt gt s (goto i Unlock (goto j Woken s))"
| signal_none: "at s i Signal \<Longrightarrow> owner s = Some i \<Longrightarrow>
    cnt (asleep (other (role_of (job (thrs s ! i))))) (thrs s) = 0 \<Longrightarrow>
    mon_step fl em pt gt s (goto i Unlock s)"
| unlock: "at s i Unlock \<Longrightarrow> owner s = Some i \<Longrightarrow>
    mon_step fl em pt gt s ((goto i Idle s)\<lparr>owner := None\<rparr>)"

inductive spurious :: "('q, 'a) mon \<Rightarrow> ('q, 'a) mon \<Rightarrow> bool" where
  wakeup: "at s i Asleep \<Longrightarrow> spurious s (goto i Woken s)"

definition mon_init :: "'q \<Rightarrow> 'a job list \<Rightarrow> ('q, 'a) mon" where
  "mon_init q jobs = \<lparr>mq = q, owner = None, thrs = map (\<lambda>j. \<lparr>job = j, pc = Idle, got = []\<rparr>) jobs,
     puts = [], gets = []\<rparr>"

definition finished :: "('q, 'a) mon \<Rightarrow> bool" where
  "finished s \<longleftrightarrow> (\<forall>t \<in> set (thrs s). calls_left (job t) = 0 \<and> pc t = Idle)"

inductive mon_reach ::
  "('q \<Rightarrow> bool) \<Rightarrow> ('q \<Rightarrow> bool) \<Rightarrow> ('q \<Rightarrow> 'a \<Rightarrow> 'q option) \<Rightarrow> ('q \<Rightarrow> ('a \<times> 'q) option) \<Rightarrow>
   ('q, 'a) mon \<Rightarrow> ('q, 'a) mon \<Rightarrow> bool"
  for fl em pt gt s0
where
  start: "mon_reach fl em pt gt s0 s0"
| step: "mon_reach fl em pt gt s0 s \<Longrightarrow> mon_step fl em pt gt s s' \<Longrightarrow>
    mon_reach fl em pt gt s0 s'"
| wake: "mon_reach fl em pt gt s0 s \<Longrightarrow> spurious s s' \<Longrightarrow> mon_reach fl em pt gt s0 s'"

subsection \<open>Sums over the threads\<close>

definition total :: "('t \<Rightarrow> 'b :: comm_monoid_add) \<Rightarrow> 't list \<Rightarrow> 'b" where
  "total f ts = sum_list (map f ts)"

lemma total_update:
  "i < length ts \<Longrightarrow> total f (ts[i := t]) + f (ts ! i) = total f ts + f t"
proof (induction ts arbitrary: i)
  case Nil
  then show ?case by simp
next
  case (Cons u us)
  then show ?case
    by (cases i) (simp_all add: total_def add.assoc add.commute add.left_commute)
qed

lemma total_update_same:
  fixes f :: "'t \<Rightarrow> 'b :: cancel_comm_monoid_add"
  assumes "i < length ts" and "f t = f (ts ! i)"
  shows "total f (ts[i := t]) = total f ts"
  using total_update [OF assms(1), of f t] assms(2) by simp

lemma cnt_update_same:
  assumes "i < length ts" and "P t = P (ts ! i)"
  shows "cnt P (ts[i := t]) = cnt P ts"
  using cnt_update [OF assms(1), of P t] assms(2) by simp

lemma total_all_zero: "(\<And>t. t \<in> set ts \<Longrightarrow> f t = 0) \<Longrightarrow> total f ts = 0"
  by (induction ts) (auto simp: total_def)

lemma total_zero_iff: "total f ts = (0 :: nat) \<longleftrightarrow> (\<forall>t \<in> set ts. f t = 0)"
  by (auto simp: total_def)

subsection \<open>The invariant, one part at a time\<close>

definition holds :: "'a thr \<Rightarrow> bool" where
  "holds t \<longleftrightarrow> pc t \<in> {Test, Signal, Unlock}"

definition own_inv :: "('q, 'a) mon \<Rightarrow> bool" where
  "own_inv s \<longleftrightarrow> (\<forall>i < length (thrs s). holds (thrs s ! i) \<longleftrightarrow> owner s = Some i)
     \<and> (\<forall>i. owner s = Some i \<longrightarrow> i < length (thrs s))"

definition work_inv :: "('q, 'a) mon \<Rightarrow> bool" where
  "work_inv s \<longleftrightarrow> (\<forall>i < length (thrs s). pc (thrs s ! i) \<in> {Test, Asleep, Woken} \<longrightarrow>
     0 < calls_left (job (thrs s ! i)))"

lemmas step_defs = set_thr_def goto_def at_def

lemma own_inv_step:
  assumes "mon_step fl em pt gt s s'" and "own_inv s"
  shows "own_inv s'"
  using assms
  by (induction rule: mon_step.induct)
     (auto simp: own_inv_def step_defs holds_def asleep_def nth_list_update split: if_splits)

lemma work_inv_step:
  assumes "mon_step fl em pt gt s s'" and "work_inv s"
  shows "work_inv s'"
  using assms
  by (induction rule: mon_step.induct)
     (auto simp: work_inv_def step_defs asleep_def nth_list_update split: if_splits)

lemma own_inv_spurious: "spurious s s' \<Longrightarrow> own_inv s \<Longrightarrow> own_inv s'"
  by (induction rule: spurious.induct)
     (auto simp: own_inv_def step_defs holds_def nth_list_update split: if_splits)

lemma work_inv_spurious: "spurious s s' \<Longrightarrow> work_inv s \<Longrightarrow> work_inv s'"
  by (induction rule: spurious.induct) (auto simp: work_inv_def step_defs nth_list_update)

definition ready :: "role \<Rightarrow> 'a thr \<Rightarrow> bool" where
  "ready r t \<longleftrightarrow> role_of (job t) = r \<and> pc t \<in> {Woken, Test}"

definition signalling :: "role \<Rightarrow> 'a thr \<Rightarrow> bool" where
  "signalling r t \<longleftrightarrow> role_of (job t) = r \<and> pc t = Signal"

text \<open>
  \<open>wake_ok r n ts\<close>, with \<open>n\<close> the number of calls of role \<open>r\<close> the queue could serve at once: if a thread of
  role \<open>r\<close> sleeps, then each of these \<open>n\<close> is accounted for by a thread of role \<open>r\<close> that is awake
  and on its way to the test, or by a thread of the other role that is about to signal.
\<close>

definition wake_ok :: "role \<Rightarrow> nat \<Rightarrow> 'a thr list \<Rightarrow> bool" where
  "wake_ok r n ts \<longleftrightarrow> (0 < cnt (asleep r) ts \<longrightarrow> n \<le> cnt (ready r) ts + cnt (signalling (other r)) ts)"

lemmas class_defs = asleep_def ready_def signalling_def

lemma role_neq_other [simp]: "r \<noteq> other r" "other r \<noteq> r"
  by (cases r; simp)+

lemma other_other [simp]: "other (other r) = r"
  by (cases r) simp_all

lemma other_eq_iff: "other r = r' \<longleftrightarrow> r \<noteq> r'"
  by (cases r; cases r') simp_all

lemma wake_ok_update:
  assumes i: "i < length ts" and w: "wake_ok r n ts" and role: "role_of (job t) = role_of (job (ts ! i))"
    and sleep: "pc t = Asleep \<and> role_of (job t) = r \<Longrightarrow> pc (ts ! i) = Asleep \<or> n' = 0"
    and le: "n' + (if ready r (ts ! i) \<or> signalling (other r) (ts ! i) then 1 else 0)
               \<le> n + (if ready r t \<or> signalling (other r) t then 1 else 0) \<or> n' = 0"
  shows "wake_ok r n' (ts[i := t])"
proof -
  note up = cnt_update [OF i, of "asleep r" t] cnt_update [OF i, of "ready r" t]
    cnt_update [OF i, of "signalling (other r)" t]
  show ?thesis
    unfolding wake_ok_def
  proof
    assume pos: "0 < cnt (asleep r) (ts[i := t])"
    show "n' \<le> cnt (ready r) (ts[i := t]) + cnt (signalling (other r)) (ts[i := t])"
    proof (cases "n' = 0")
      case False
      with sleep have "asleep r t \<Longrightarrow> asleep r (ts ! i)" using role by (auto simp: asleep_def)
      with pos up(1) have "0 < cnt (asleep r) ts" by (auto split: if_splits)
      with w have "n \<le> cnt (ready r) ts + cnt (signalling (other r)) ts" by (simp add: wake_ok_def)
      moreover have "\<not> (ready r u \<and> signalling (other r) u)" for u
        by (auto simp: class_defs)
      ultimately show ?thesis
        using up(2,3) le False by (auto split: if_splits)
    qed simp
  qed
qed

fun puts_of :: "'a job \<Rightarrow> nat" where
  "puts_of (Puts vs) = length vs"
| "puts_of (Gets n) = 0"

fun gets_of :: "'a job \<Rightarrow> nat" where
  "gets_of (Puts vs) = 0"
| "gets_of (Gets n) = n"

definition planned :: "'a job list \<Rightarrow> 'a multiset" where
  "planned js = total vals_left js"

text \<open>Every value and every call is accounted for: done already or still to do.\<close>

definition sum_inv :: "'a multiset \<Rightarrow> nat \<Rightarrow> ('q, 'a) mon \<Rightarrow> bool" where
  "sum_inv V G s \<longleftrightarrow>
     mset (puts s) + total (vals_left \<circ> job) (thrs s) = V
     \<and> length (gets s) + total (gets_of \<circ> job) (thrs s) = G
     \<and> mset (gets s) = total (mset \<circ> got) (thrs s)"

lemma sum_inv_update:
  assumes "sum_inv V G s" and "i < length (thrs s)" and "thrs s' = (thrs s)[i := t]"
    and "mset (puts s') + vals_left (job t) = mset (puts s) + vals_left (job (thrs s ! i))"
    and "length (gets s') + gets_of (job t) = length (gets s) + gets_of (job (thrs s ! i))"
    and "mset (gets s') + mset (got (thrs s ! i)) = mset (gets s) + mset (got t)"
  shows "sum_inv V G s'"
proof -
  note up = total_update [OF assms(2), of "vals_left \<circ> job" t] total_update [OF assms(2), of "gets_of \<circ> job" t]
    total_update [OF assms(2), of "mset \<circ> got" t]
  from assms(1) have inv: "mset (puts s) + total (vals_left \<circ> job) (thrs s) = V"
      "length (gets s) + total (gets_of \<circ> job) (thrs s) = G" "mset (gets s) = total (mset \<circ> got) (thrs s)"
    by (simp_all add: sum_inv_def)
  have "(mset (puts s') + total (vals_left \<circ> job) (thrs s')) + vals_left (job (thrs s ! i))
      = (mset (puts s') + vals_left (job t)) + total (vals_left \<circ> job) (thrs s)"
    using up(1) by (simp add: assms(3) ac_simps)
  also have "\<dots> = V + vals_left (job (thrs s ! i))"
    unfolding assms(4) inv(1) [symmetric] by (simp add: ac_simps)
  finally have "mset (puts s') + total (vals_left \<circ> job) (thrs s') = V"
    by simp
  moreover have "length (gets s') + total (gets_of \<circ> job) (thrs s') = G"
    using up(2) assms(5) inv(2) by (simp add: assms(3))
  moreover have "mset (gets s') + mset (got (thrs s ! i)) = total (mset \<circ> got) (thrs s') + mset (got (thrs s ! i))"
    using up(3) assms(6) inv(3) by (simp add: assms(3))
  ultimately show ?thesis by (simp add: sum_inv_def)
qed

lemma sum_inv_owner [simp]: "sum_inv V G (s\<lparr>owner := w\<rparr>) = sum_inv V G s"
  by (simp add: sum_inv_def)

lemma sum_inv_goto: "sum_inv V G s \<Longrightarrow> i < length (thrs s) \<Longrightarrow> sum_inv V G (goto i p s)"
  by (rule sum_inv_update [of V G s i _ "(thrs s ! i)\<lparr>pc := p\<rparr>"]) (simp_all add: step_defs)

lemma length_thrs_goto [simp]: "length (thrs (goto i p s)) = length (thrs s)"
  by (simp add: step_defs)

lemma sum_inv_step:
  assumes "mon_step fl em pt gt s s'" and "sum_inv V G s"
  shows "sum_inv V G s'"
  using assms
proof (induction rule: mon_step.induct)
  case (put s i v vs q')
  then show ?case
    by (intro sum_inv_update [OF put.prems, of i _ "(thrs s ! i)\<lparr>pc := Signal, job := Puts vs\<rparr>"])
       (simp_all add: step_defs)
next
  case (get s i n v q')
  then show ?case
    by (intro sum_inv_update [OF get.prems, of i _
          "(thrs s ! i)\<lparr>pc := Signal, job := Gets n, got := got (thrs s ! i) @ [v]\<rparr>"])
       (simp_all add: step_defs)
qed (simp_all add: sum_inv_goto at_def)

lemma sum_inv_spurious: "spurious s s' \<Longrightarrow> sum_inv V G s \<Longrightarrow> sum_inv V G s'"
  by (induction rule: spurious.induct) (simp add: sum_inv_goto at_def)

text \<open>With one putting thread the values are put in its order; with one getting thread it gets them all, in order.\<close>

definition lone_putter :: "nat \<Rightarrow> 'a list \<Rightarrow> ('q, 'a) mon \<Rightarrow> bool" where
  "lone_putter i vs s \<longleftrightarrow> (\<forall>j < length (thrs s). j \<noteq> i \<longrightarrow> role_of (job (thrs s ! j)) = GET)
     \<and> (\<exists>ws. i < length (thrs s) \<and> job (thrs s ! i) = Puts ws \<and> puts s @ ws = vs)"

definition lone_getter :: "nat \<Rightarrow> ('q, 'a) mon \<Rightarrow> bool" where
  "lone_getter i s \<longleftrightarrow> (\<forall>j < length (thrs s). j \<noteq> i \<longrightarrow> role_of (job (thrs s ! j)) = PUT)
     \<and> i < length (thrs s) \<and> gets s = got (thrs s ! i)"

lemma lone_putter_step:
  assumes "mon_step fl em pt gt s s'" and "lone_putter i vs s"
  shows "lone_putter i vs s'"
  using assms
  by (induction rule: mon_step.induct)
     (auto simp: lone_putter_def step_defs nth_list_update split: if_splits; force)+

lemma lone_getter_step:
  assumes "mon_step fl em pt gt s s'" and "lone_getter i s"
  shows "lone_getter i s'"
  using assms
  by (induction rule: mon_step.induct)
     (auto simp: lone_getter_def step_defs nth_list_update split: if_splits; force)+

lemma lone_spurious:
  assumes "spurious s s'"
  shows "lone_putter i vs s \<Longrightarrow> lone_putter i vs s'" and "lone_getter i s \<Longrightarrow> lone_getter i s'"
  using assms
  by (induction rule: spurious.induct)
     (simp_all add: lone_putter_def lone_getter_def step_defs nth_list_update)

lemma lone_putter_reach:
  "mon_reach fl em pt gt s0 s \<Longrightarrow> lone_putter i vs s0 \<Longrightarrow> lone_putter i vs s"
  by (induction rule: mon_reach.induct) (blast intro: lone_putter_step lone_spurious)+

lemma lone_getter_reach:
  "mon_reach fl em pt gt s0 s \<Longrightarrow> lone_getter i s0 \<Longrightarrow> lone_getter i s"
  by (induction rule: mon_reach.induct) (blast intro: lone_getter_step lone_spurious)+

subsection \<open>The monitor over any bounded queue\<close>

definition avail :: "('q \<Rightarrow> 'a list) \<Rightarrow> ('q \<Rightarrow> nat) \<Rightarrow> role \<Rightarrow> 'q \<Rightarrow> nat" where
  "avail content cap r q = (case r of PUT \<Rightarrow> cap q - length (content q) | GET \<Rightarrow> length (content q))"

definition data_inv :: "('q \<Rightarrow> bool) \<Rightarrow> ('q \<Rightarrow> 'a list) \<Rightarrow> ('q \<Rightarrow> nat) \<Rightarrow> nat \<Rightarrow> ('q, 'a) mon \<Rightarrow> bool" where
  "data_inv I content cap n s \<longleftrightarrow>
     I (mq s) \<and> cap (mq s) = n \<and> puts s = gets s @ content (mq s)"

definition wake_inv :: "('q \<Rightarrow> 'a list) \<Rightarrow> ('q \<Rightarrow> nat) \<Rightarrow> ('q, 'a) mon \<Rightarrow> bool" where
  "wake_inv content cap s \<longleftrightarrow> (\<forall>r. wake_ok r (avail content cap r (mq s)) (thrs s))"

definition mon_inv ::
  "('q \<Rightarrow> bool) \<Rightarrow> ('q \<Rightarrow> 'a list) \<Rightarrow> ('q \<Rightarrow> nat) \<Rightarrow> nat \<Rightarrow> 'a multiset \<Rightarrow> nat \<Rightarrow> ('q, 'a) mon \<Rightarrow> bool" where
  "mon_inv I content cap n V G s \<longleftrightarrow>
     own_inv s \<and> work_inv s \<and> data_inv I content cap n s \<and> wake_inv content cap s \<and> sum_inv V G s"

lemma wake_ok_goto:
  assumes "wake_ok r n (thrs s)" and "at s i p" and "p' \<noteq> Asleep \<or> (role_of (job (thrs s ! i)) = r \<longrightarrow> n = 0)"
    and "p \<in> {Idle, Asleep, Unlock} \<or> p = Test \<and> role_of (job (thrs s ! i)) \<noteq> r
      \<or> p \<in> {Test, Woken} \<and> p' \<in> {Woken, Test} \<or> p = Signal \<and> role_of (job (thrs s ! i)) = r \<or> n = 0"
  shows "wake_ok r n (thrs (goto i p' s))"
  using assms
  by (simp add: step_defs) (rule wake_ok_update [OF _ assms(1)], auto simp: class_defs other_eq_iff)

context bounded_fifo
begin

lemma data_inv_step:
  assumes "mon_step is_full is_empty put get s s'" and "data_inv inv content cap n s"
  shows "data_inv inv content cap n s'"
  using assms
proof (induction rule: mon_step.induct)
  case (put s i v vs q')
  then show ?case using put_SomeD [of "mq s" v q'] by (simp add: data_inv_def step_defs)
next
  case (get s i n v q')
  then show ?case using get_SomeD [of "mq s" v q'] by (simp add: data_inv_def step_defs)
qed (simp_all add: data_inv_def step_defs)

lemma wake_inv_step:
  assumes "mon_step is_full is_empty put get s s'" and "data_inv inv content cap n s" and "wake_inv content cap s"
  shows "wake_inv content cap s'"
  using assms
proof (induction rule: mon_step.induct)
  case (wait s i)
  have "wake_ok r (avail content cap r (mq s)) (thrs (goto i Asleep s))" for r
  proof (rule wake_ok_goto [OF _ wait.hyps(1)])
    show "wake_ok r (avail content cap r (mq s)) (thrs s)"
      using wait by (simp add: wake_inv_def)
    have "avail content cap r (mq s) = 0" if "role_of (job (thrs s ! i)) = r"
      using wait that by (cases r) (auto simp: blocked_def avail_def data_inv_def full_iff empty_iff)
    then show "Asleep \<noteq> Asleep \<or> (role_of (job (thrs s ! i)) = r \<longrightarrow> avail content cap r (mq s) = 0)"
      and "Test \<in> {Idle, Asleep, Unlock} \<or> Test = Test \<and> role_of (job (thrs s ! i)) \<noteq> r
        \<or> Test \<in> {Test, Woken} \<and> Asleep \<in> {Woken, Test}
        \<or> Test = Signal \<and> role_of (job (thrs s ! i)) = r \<or> avail content cap r (mq s) = 0"
      by auto
  qed
  then show ?case by (simp add: wake_inv_def goto_def set_thr_def)
next
  case (put s i v vs q')
  then have q: "inv (mq s)" "content q' = content (mq s) @ [v]" "cap q' = cap (mq s)"
    using put_SomeD [of "mq s" v q'] by (auto simp: data_inv_def)
  then have "length (content (mq s)) < cap (mq s)"
    using put.hyps full_iff [OF q(1)] content_le_cap [OF q(1)] by simp
  with q put show ?case
    unfolding wake_inv_def
    by (auto simp: step_defs avail_def class_defs intro!: wake_ok_update split: role.splits)
next
  case (get s i n v q')
  then have q: "inv (mq s)" "content (mq s) = v # content q'" "cap q' = cap (mq s)"
    using get_SomeD [of "mq s" v q'] by (auto simp: data_inv_def)
  then have "Suc (length (content q')) \<le> cap (mq s)"
    using content_le_cap [OF q(1)] by simp
  with q get show ?case
    unfolding wake_inv_def
    by (auto simp: step_defs avail_def class_defs intro!: wake_ok_update split: role.splits)
next
  case (signal s i j)
  let ?ts = "thrs s" and ?n = "\<lambda>r. avail content cap r (mq s)"
  let ?ts1 = "?ts[j := (?ts ! j)\<lparr>pc := Woken\<rparr>]"
  have ij: "i < length ?ts" "j < length ?ts" "i \<noteq> j" "pc (?ts ! i) = Signal" "pc (?ts ! j) = Asleep"
      "role_of (job (?ts ! j)) = other (role_of (job (?ts ! i)))"
    using signal by (auto simp: at_def asleep_def)
  have "wake_ok r (?n r) (?ts1[i := (?ts ! i)\<lparr>pc := Unlock\<rparr>])" for r
  proof (cases "role_of (job (?ts ! i)) = r")
    case True
    have "wake_ok r (?n r) ?ts1"
      using signal ij True by (intro wake_ok_update [of j]) (auto simp: wake_inv_def class_defs)
    then show ?thesis
      using ij True by (intro wake_ok_update [of i]) (auto simp: class_defs)
  next
    case False
    then have r: "role_of (job (?ts ! j)) = r" "role_of (job (?ts ! i)) = other r"
      using ij by (metis other_eq_iff)+
    have "wake_ok r (?n r) ?ts" using signal by (simp add: wake_inv_def)
    then have "wake_ok r (Suc (?n r)) ?ts1"
      using ij r by (intro wake_ok_update [of j]) (auto simp: class_defs)
    then show ?thesis
      using ij r by (intro wake_ok_update [of i]) (auto simp: class_defs)
  qed
  then show ?case using ij by (simp add: wake_inv_def step_defs)
next
  case (signal_none s i)
  have "wake_ok r (avail content cap r (mq s)) (thrs (goto i Unlock s))" for r
  proof (cases "role_of (job (thrs s ! i)) = r")
    case True
    with signal_none show ?thesis by (intro wake_ok_goto [of _ _ s i Signal]) (auto simp: wake_inv_def)
  next
    case False
    then have "cnt (asleep r) (thrs s) = 0"
      using signal_none by (metis other_eq_iff)
    moreover have "cnt (asleep r) (thrs (goto i Unlock s)) = cnt (asleep r) (thrs s)"
      using signal_none unfolding goto_def set_thr_def
      by (auto simp: at_def asleep_def intro!: cnt_update_same)
    ultimately show ?thesis by (simp add: wake_ok_def)
  qed
  then show ?case by (simp add: wake_inv_def goto_def set_thr_def)
next
  case (lock s i)
  then have "wake_ok r (avail content cap r (mq s)) (thrs (goto i Test s))" for r
    by (intro wake_ok_goto [of _ _ s i Idle]) (auto simp: wake_inv_def)
  then show ?case by (simp add: wake_inv_def goto_def set_thr_def)
next
  case (relock s i)
  then have "wake_ok r (avail content cap r (mq s)) (thrs (goto i Test s))" for r
    by (intro wake_ok_goto [of _ _ s i Woken]) (auto simp: wake_inv_def)
  then show ?case by (simp add: wake_inv_def goto_def set_thr_def)
next
  case (unlock s i)
  then have "wake_ok r (avail content cap r (mq s)) (thrs (goto i Idle s))" for r
    by (intro wake_ok_goto [of _ _ s i Unlock]) (auto simp: wake_inv_def)
  then show ?case by (simp add: wake_inv_def goto_def set_thr_def)
qed

lemma wake_inv_spurious:
  assumes "spurious s s'" and "wake_inv content cap s"
  shows "wake_inv content cap s'"
  using assms
proof (induction rule: spurious.induct)
  case (wakeup s i)
  then have "wake_ok r (avail content cap r (mq s)) (thrs (goto i Woken s))" for r
    by (intro wake_ok_goto [of _ _ s i Asleep]) (auto simp: wake_inv_def)
  then show ?case by (simp add: wake_inv_def goto_def set_thr_def)
qed

lemma data_inv_spurious:
  "spurious s s' \<Longrightarrow> data_inv inv content cap n s \<Longrightarrow> data_inv inv content cap n s'"
  by (induction rule: spurious.induct) (simp add: data_inv_def step_defs)

lemma mon_inv_init:
  assumes "inv q" and "content q = []"
  shows "mon_inv inv content cap (cap q) (planned js) (total gets_of js) (mon_init q js)"
proof -
  have none: "cnt (asleep r) (map (\<lambda>j. \<lparr>job = j, pc = Idle, got = []\<rparr>) js) = 0" for r
    by (induction js) (simp_all add: asleep_def)
  show ?thesis
    using assms none
    by (simp add: mon_inv_def mon_init_def own_inv_def work_inv_def data_inv_def wake_inv_def wake_ok_def
        sum_inv_def holds_def planned_def total_def comp_def)
qed

lemma mon_inv_reach:
  assumes "mon_reach is_full is_empty put get (mon_init q js) s" and "inv q" and "content q = []"
  shows "mon_inv inv content cap (cap q) (planned js) (total gets_of js) s"
  using assms(1)
proof (induction rule: mon_reach.induct)
  case start
  then show ?case using assms(2,3) by (rule mon_inv_init)
next
  case (step s s')
  then show ?case
    unfolding mon_inv_def
    by (blast intro: own_inv_step work_inv_step data_inv_step wake_inv_step sum_inv_step)
next
  case (wake s s')
  then show ?case
    unfolding mon_inv_def
    by (blast intro: own_inv_spurious work_inv_spurious data_inv_spurious wake_inv_spurious sum_inv_spurious)
qed

lemma owner_progress:
  assumes inv: "mon_inv inv content cap n V G s" and own: "owner s = Some i"
  shows "\<exists>s'. mon_step is_full is_empty put get s s'"
proof -
  let ?t = "thrs s ! i" and ?r = "role_of (job (thrs s ! i))"
  have i: "i < length (thrs s)" "holds ?t" "inv (mq s)"
    using inv own by (auto simp: mon_inv_def own_inv_def data_inv_def)
  from i(2) consider "pc ?t = Test" | "pc ?t = Signal" | "pc ?t = Unlock" by (auto simp: holds_def)
  then show ?thesis
  proof cases
    case 1
    then have at: "at s i Test" and work: "0 < calls_left (job ?t)"
      using i inv by (auto simp: at_def mon_inv_def work_inv_def)
    show ?thesis
    proof (cases "blocked is_full is_empty ?r (mq s)")
      case True
      with at own show ?thesis by (blast intro: mon_step.wait)
    next
      case False
      show ?thesis
      proof (cases "job ?t")
        case (Puts vs)
        with work obtain v ws where "job ?t = Puts (v # ws)" by (cases vs) auto
        moreover from this False have nf: "\<not> is_full (mq s)" by (simp add: blocked_def)
        moreover from put_ok [OF i(3) nf] obtain q' where "put (mq s) v = Some q'" by blast
        ultimately show ?thesis using at own by (blast intro: mon_step.put)
      next
        case (Gets k)
        with work obtain m where "job ?t = Gets (Suc m)" by (cases k) auto
        moreover from this False have ne: "\<not> is_empty (mq s)" by (simp add: blocked_def)
        moreover from get_ok [OF i(3) ne] obtain v q' where "get (mq s) = Some (v, q')" by blast
        ultimately show ?thesis using at own by (blast intro: mon_step.get)
      qed
    qed
  next
    case 2
    then have at: "at s i Signal" using i by (simp add: at_def)
    show ?thesis
    proof (cases "cnt (asleep (other ?r)) (thrs s) = 0")
      case True
      with at own show ?thesis by (blast intro: mon_step.signal_none)
    next
      case False
      then obtain j where "j < length (thrs s)" "asleep (other ?r) (thrs s ! j)"
        using cnt_pos_iff [of "asleep (other ?r)" "thrs s"] by auto
      with at own show ?thesis by (blast intro: mon_step.signal)
    qed
  next
    case 3
    then have "at s i Unlock" using i by (simp add: at_def)
    with own show ?thesis by (blast intro: mon_step.unlock)
  qed
qed

text \<open>
  With a free mutex, nobody about to take it and somebody asleep, all threads of the other role have
  returned, and the queue is full (putters asleep) or empty (getters asleep).
\<close>

lemma all_asleep:
  assumes inv: "mon_inv inv content cap n V G s" and free: "owner s = None"
    and still: "\<And>j. j < length (thrs s) \<Longrightarrow> pc (thrs s ! j) \<noteq> Woken"
    and i: "i < length (thrs s)" "pc (thrs s ! i) = Asleep"
  shows "avail content cap (role_of (job (thrs s ! i))) (mq s) = 0"
proof -
  let ?r = "role_of (job (thrs s ! i))"
  have nh: "\<not> holds (thrs s ! j)" if "j < length (thrs s)" for j
    using inv free that by (simp add: mon_inv_def own_inv_def)
  have "cnt (ready ?r) (thrs s) = 0" "cnt (signalling (other ?r)) (thrs s) = 0"
    using nh still by (auto simp: cnt_zero_iff class_defs holds_def)
  moreover have "0 < cnt (asleep ?r) (thrs s)"
    using i by (auto simp: cnt_pos_iff asleep_def)
  moreover have "wake_ok ?r (avail content cap ?r (mq s)) (thrs s)"
    using inv by (simp add: mon_inv_def wake_inv_def)
  ultimately show ?thesis by (simp add: wake_ok_def)
qed

lemma no_deadlock_aux:
  assumes inv: "mon_inv inv content cap n V G s" and bal: "size V = G" and free: "owner s = None"
    and still: "\<And>j. j < length (thrs s) \<Longrightarrow>
      pc (thrs s ! j) = Asleep \<or> pc (thrs s ! j) = Idle \<and> calls_left (job (thrs s ! j)) = 0"
    and i: "i < length (thrs s)" "pc (thrs s ! i) = Asleep"
  shows False
proof -
  let ?r = "role_of (job (thrs s ! i))"
  have q: "inv (mq s)" "puts s = gets s @ content (mq s)"
    and sum: "sum_inv V G s"
    using inv by (auto simp: mon_inv_def data_inv_def)
  have work: "0 < calls_left (job (thrs s ! i))"
    using inv i by (auto simp: mon_inv_def work_inv_def)
  have zero: "avail content cap (role_of (job (thrs s ! j))) (mq s) = 0"
    if "j < length (thrs s)" "pc (thrs s ! j) = Asleep" for j
    using still by (intro all_asleep [OF inv free _ that]) (metis mpc.distinct)
  have returned: "calls_left (job (thrs s ! j)) = 0"
    if "j < length (thrs s)" "role_of (job (thrs s ! j)) = other ?r" for j
  proof (rule ccontr)
    assume "calls_left (job (thrs s ! j)) \<noteq> 0"
    with still that have "avail content cap (other ?r) (mq s) = 0" using zero [of j] by fastforce
    with zero [OF i] cap_pos [OF q(1)] content_le_cap [OF q(1)] show False
      by (cases ?r) (auto simp: avail_def)
  qed
  show False
  proof (cases "job (thrs s ! i)")
    case (Puts vs)
    then have r: "?r = PUT" "other ?r = GET" by simp_all
    have "gets_of (job t) = 0" if t: "t \<in> set (thrs s)" for t
    proof -
      obtain j where "j < length (thrs s)" "t = thrs s ! j" using t by (auto simp: in_set_conv_nth)
      then show ?thesis using returned [of j] r by (cases "job t") auto
    qed
    then have "total (gets_of \<circ> job) (thrs s) = 0" by (simp add: total_zero_iff)
    then have "length (gets s) = size V" using sum bal by (simp add: sum_inv_def)
    moreover have "size V = length (puts s) + size (total (vals_left \<circ> job) (thrs s))"
      using sum by (metis size_union size_mset sum_inv_def)
    moreover have "0 < length (content (mq s))"
      using zero [OF i] r cap_pos [OF q(1)] content_le_cap [OF q(1)] by (simp add: avail_def)
    ultimately show False using q(2) by simp
  next
    case (Gets k)
    then have r: "?r = GET" "other ?r = PUT" by simp_all
    have "vals_left (job t) = {#}" if t: "t \<in> set (thrs s)" for t
    proof -
      obtain j where "j < length (thrs s)" "t = thrs s ! j" using t by (auto simp: in_set_conv_nth)
      then show ?thesis using returned [of j] r by (cases "job t") auto
    qed
    then have "total (vals_left \<circ> job) (thrs s) = {#}"
      by (intro total_all_zero) simp
    then have "length (puts s) = size V" using sum by (metis add.right_neutral size_mset sum_inv_def)
    moreover have "content (mq s) = []" using zero [OF i] r by (simp add: avail_def)
    moreover have "0 < total (gets_of \<circ> job) (thrs s)"
    proof -
      have "gets_of (job (thrs s ! i)) \<noteq> 0" using Gets work by simp
      then show ?thesis using i(1) total_zero_iff [of "gets_of \<circ> job" "thrs s"] by force
    qed
    ultimately show False using q(2) sum bal by (simp add: sum_inv_def)
  qed
qed

lemma progress:
  assumes inv: "mon_inv inv content cap n V G s" and bal: "size V = G" and open_calls: "\<not> finished s"
  shows "\<exists>s'. mon_step is_full is_empty put get s s'"
proof (cases "owner s")
  case (Some i)
  with inv show ?thesis by (rule owner_progress)
next
  case None
  show ?thesis
  proof (rule ccontr)
    assume stuck: "\<not> ?thesis"
    have nh: "\<not> holds (thrs s ! j)" if "j < length (thrs s)" for j
      using inv None that by (simp add: mon_inv_def own_inv_def)
    have still: "pc (thrs s ! j) = Asleep \<or> pc (thrs s ! j) = Idle \<and> calls_left (job (thrs s ! j)) = 0"
      if "j < length (thrs s)" for j
      using stuck None that nh [OF that]
        mon_step.lock [where fl = is_full and em = is_empty and pt = put and gt = get and s = s and i = j]
        mon_step.relock [where fl = is_full and em = is_empty and pt = put and gt = get and s = s and i = j]
      by (cases "pc (thrs s ! j)") (auto simp: at_def holds_def)
    from open_calls obtain i where "i < length (thrs s)"
        "\<not> (calls_left (job (thrs s ! i)) = 0 \<and> pc (thrs s ! i) = Idle)"
      by (auto simp: finished_def in_set_conv_nth)
    then have "pc (thrs s ! i) = Asleep" using still by blast
    with \<open>i < length (thrs s)\<close> still show False
      using no_deadlock_aux [OF inv bal None] by blast
  qed
qed

end

subsection \<open>Every run ends\<close>

fun pc_weight :: "mpc \<Rightarrow> nat" where
  "pc_weight Asleep = 0"
| "pc_weight Test = 1"
| "pc_weight Woken = 2"
| "pc_weight Idle = 2"
| "pc_weight Unlock = 3"
| "pc_weight Signal = 6"

definition steps_left :: "('q, 'a) mon \<Rightarrow> nat" where
  "steps_left s = total (\<lambda>t. 6 * calls_left (job t) + pc_weight (pc t)) (thrs s)"

lemma steps_left_update:
  assumes "i < length (thrs s)" and "thrs s' = (thrs s)[i := t]"
  shows "steps_left s' + (6 * calls_left (job (thrs s ! i)) + pc_weight (pc (thrs s ! i)))
    = steps_left s + (6 * calls_left (job t) + pc_weight (pc t))"
  unfolding steps_left_def assms(2)
  using total_update [OF assms(1), of "\<lambda>t. 6 * calls_left (job t) + pc_weight (pc t)" t] by simp

lemma steps_left_owner [simp]: "steps_left (s\<lparr>owner := w\<rparr>) = steps_left s"
  by (simp add: steps_left_def)

lemma steps_left_goto:
  assumes "at s i p"
  shows "steps_left (goto i p' s) + pc_weight p = steps_left s + pc_weight p'"
  using steps_left_update [of i s "goto i p' s" "(thrs s ! i)\<lparr>pc := p'\<rparr>"] assms
  by (simp add: step_defs)

lemma mon_step_decreases:
  assumes "mon_step fl em pt gt s s'"
  shows "steps_left s' < steps_left s"
  using assms
proof (induction rule: mon_step.induct)
  case (signal s i j)
  then have at: "at s j Asleep" "at (goto j Woken s) i Signal" by (auto simp: step_defs asleep_def nth_list_update)
  from steps_left_goto [OF at(1), of Woken] steps_left_goto [OF at(2), of Unlock] show ?case by simp
next
  case (put s i v vs q')
  then show ?case
    using steps_left_update [of i s "set_thr i ((thrs s ! i)\<lparr>pc := Signal, job := Puts vs\<rparr>) s
      \<lparr>mq := q', puts := puts s @ [v]\<rparr>" "(thrs s ! i)\<lparr>pc := Signal, job := Puts vs\<rparr>"]
    by (simp add: step_defs)
next
  case (get s i n v q')
  let ?t = "(thrs s ! i)\<lparr>pc := Signal, job := Gets n, got := got (thrs s ! i) @ [v]\<rparr>"
  from get show ?case
    using steps_left_update [of i s "set_thr i ?t s\<lparr>mq := q', gets := gets s @ [v]\<rparr>" ?t]
    by (simp add: step_defs)
next
  case (lock s i)
  from steps_left_goto [OF lock.hyps(1), of Test] show ?case by simp
next
  case (wait s i)
  from steps_left_goto [OF wait.hyps(1), of Asleep] show ?case by simp
next
  case (relock s i)
  from steps_left_goto [OF relock.hyps(1), of Test] show ?case by simp
next
  case (signal_none s i)
  from steps_left_goto [OF signal_none.hyps(1), of Unlock] show ?case by simp
next
  case (unlock s i)
  from steps_left_goto [OF unlock.hyps(1), of Idle] show ?case by simp
qed

context bounded_fifo
begin

lemma completes:
  assumes "mon_reach is_full is_empty put get (mon_init q js) s" and "inv q" and "content q = []"
    and "size (planned js) = total gets_of js"
  shows "\<exists>s'. (mon_step is_full is_empty put get)\<^sup>*\<^sup>* s s' \<and> finished s'"
  using assms(1)
proof (induction "steps_left s" arbitrary: s rule: less_induct)
  case less
  show ?case
  proof (cases "finished s")
    case True
    then show ?thesis by blast
  next
    case False
    then obtain s1 where s1: "mon_step is_full is_empty put get s s1"
      using progress [OF mon_inv_reach [OF less.prems assms(2,3)] assms(4)] by blast
    then have "steps_left s1 < steps_left s" by (rule mon_step_decreases)
    with less s1 obtain s' where "(mon_step is_full is_empty put get)\<^sup>*\<^sup>* s1 s'" "finished s'"
      using mon_reach.step [OF less.prems s1] by blast
    with s1 show ?thesis by (meson converse_rtranclp_into_rtranclp)
  qed
qed

lemma fifo_and_exclusion:
  assumes "mon_reach is_full is_empty put get (mon_init q js) s" and "inv q" and "content q = []"
  shows "puts s = gets s @ content (mq s) \<and> length (content (mq s)) \<le> cap q
    \<and> cnt holds (thrs s) \<le> 1"
proof -
  from mon_inv_reach [OF assms]
  have d: "data_inv inv content cap (cap q) s" and o: "own_inv s" by (auto simp: mon_inv_def)
  have "cnt holds (thrs s) \<le> 1"
  proof (cases "owner s")
    case None
    with o have "cnt holds (thrs s) = 0" by (auto simp: own_inv_def cnt_zero_iff)
    then show ?thesis by simp
  next
    case (Some i)
    then have i: "i < length (thrs s)" "\<And>j. j < length (thrs s) \<Longrightarrow> holds (thrs s ! j) \<longleftrightarrow> j = i"
      using o by (auto simp: own_inv_def)
    then have "cnt holds ((thrs s)[i := (thrs s ! i)\<lparr>pc := Idle\<rparr>]) = 0"
      by (auto simp: cnt_zero_iff holds_def nth_list_update)
    then show ?thesis
      using cnt_update [OF i(1), of holds "(thrs s ! i)\<lparr>pc := Idle\<rparr>"] i by (simp add: holds_def)
  qed
  with d show ?thesis using content_le_cap [of "mq s"] by (auto simp: data_inv_def)
qed

lemma all_delivered:
  assumes "mon_reach is_full is_empty put get (mon_init q js) s" and "inv q" and "content q = []"
    and "size (planned js) = total gets_of js" and "finished s"
  shows "mset (puts s) = planned js \<and> total (mset \<circ> got) (thrs s) = planned js \<and> content (mq s) = []"
proof -
  from mon_inv_reach [OF assms(1-3)]
  have sum: "sum_inv (planned js) (total gets_of js) s" and d: "puts s = gets s @ content (mq s)"
    by (auto simp: mon_inv_def data_inv_def)
  have left: "vals_left (job t) = {#}" "gets_of (job t) = 0" if "t \<in> set (thrs s)" for t
    using assms(5) that by (cases "job t"; force simp: finished_def)+
  have "total (vals_left \<circ> job) (thrs s) = {#}"
    by (rule total_all_zero) (simp add: left)
  moreover have "total (gets_of \<circ> job) (thrs s) = 0"
    by (rule total_all_zero) (simp add: left)
  ultimately have p: "mset (puts s) = planned js" and g: "length (gets s) = total gets_of js"
    using sum by (simp_all add: sum_inv_def)
  then have "length (puts s) = length (gets s)"
    using assms(4) by (metis size_mset)
  with d have "content (mq s) = []" and "puts s = gets s" by simp_all
  with p sum show ?thesis by (simp add: sum_inv_def)
qed

end

end
