(* ===== verification/Ring_Lock.thy ===== *)
theory Ring_Lock
  imports Ring_Slots Next_Pow2 Ring_Test Monitor
begin

text \<open>
  \<open>SPSC_Ring_buffer/rb_lock.c\<close>, the lock-based ring buffer: the data of \<open>struct Ring\<close> that the mutex
  guards, \<open>init_ring\<close>, \<open>kill_ring\<close>, the non-blocking operations, and the critical sections of the
  blocking ones.  Every operation of the file runs between one lock and one unlock of the ring's
  mutex, so its effect on the data is a function of the state; who gets the mutex when, sleeping
  and signalling are the subject of theory \<open>Monitor\<close>.

  \<open>malloc\<close> is a parameter: it takes the size in bytes and returns the array it points to, with
  unspecified contents, or \<^const>\<open>None\<close> for NULL.
\<close>

subsection \<open>The code\<close>

record ring =
  rcapacity :: u64
  rmask :: u64
  rbuf :: "u64 list option"
  rhead :: u64
  rtail :: u64

definition init_ring :: "(u64 \<Rightarrow> u64 list option) \<Rightarrow> ring \<Rightarrow> u64 \<Rightarrow> int \<times> ring" where
  "init_ring malloc ring capacity =
     (if capacity = 0 \<or> capacity AND (capacity - 1) \<noteq> 0 then (-1, ring)
      else case malloc (capacity * 8) of
        None \<Rightarrow> (-1, ring\<lparr>rbuf := None\<rparr>)
      | Some b \<Rightarrow>
          (0, ring\<lparr>rbuf := Some b, rcapacity := capacity, rmask := capacity - 1,
                rhead := 0, rtail := 0\<rparr>))"

definition kill_ring :: "ring \<Rightarrow> ring" where
  "kill_ring ring = ring\<lparr>rbuf := None\<rparr>"

definition ring_full :: "ring \<Rightarrow> bool" where
  "ring_full ring \<longleftrightarrow> rhead ring - rtail ring = rcapacity ring"

definition ring_empty :: "ring \<Rightarrow> bool" where
  "ring_empty ring \<longleftrightarrow> rhead ring = rtail ring"

text \<open>The critical section of a write after its full test, and of a read after its empty test.\<close>

definition ring_put :: "ring \<Rightarrow> u64 \<Rightarrow> ring option" where
  "ring_put ring value =
     do { b \<leftarrow> rbuf ring;
          b' \<leftarrow> wr b (unat (rhead ring AND rmask ring)) value;
          Some (ring\<lparr>rbuf := Some b', rhead := rhead ring + 1\<rparr>) }"

definition ring_get :: "ring \<Rightarrow> (u64 \<times> ring) option" where
  "ring_get ring =
     do { b \<leftarrow> rbuf ring;
          v \<leftarrow> rd b (unat (rtail ring AND rmask ring));
          Some (v, ring\<lparr>rtail := rtail ring + 1\<rparr>) }"

text \<open>A false result of the C functions is the first component; \<open>*out\<close> is written on success only.\<close>

definition ring_try_write :: "ring \<Rightarrow> u64 \<Rightarrow> (bool \<times> ring) option" where
  "ring_try_write ring value =
     (if ring_full ring then Some (False, ring)
      else do { ring' \<leftarrow> ring_put ring value; Some (True, ring') })"

definition ring_try_read :: "ring \<Rightarrow> (u64 option \<times> ring) option" where
  "ring_try_read ring =
     (if ring_empty ring then Some (None, ring)
      else do { (v, ring') \<leftarrow> ring_get ring; Some (Some v, ring') })"

definition test_single_thread :: "ring \<Rightarrow> ring option" where
  "test_single_thread ring = single_thread_test ring_try_write ring_try_read (rcapacity ring) ring"

subsection \<open>Invariant and abstraction to a list\<close>

definition ring_inv :: "ring \<Rightarrow> bool" where
  "ring_inv r \<longleftrightarrow>
     (\<exists>k b. k < 64 \<and> rcapacity r = 2 ^ k \<and> rmask r = 2 ^ k - 1 \<and> rbuf r = Some b \<and> length b = 2 ^ k
        \<and> unat (rhead r - rtail r) \<le> 2 ^ k)"

definition ring_content :: "ring \<Rightarrow> u64 list" where
  "ring_content r = (case rbuf r of None \<Rightarrow> [] | Some b \<Rightarrow> slots b (rtail r) (unat (rhead r - rtail r)))"

definition ring_cap :: "ring \<Rightarrow> nat" where
  "ring_cap r = unat (rcapacity r)"

lemma ring_invE:
  assumes "ring_inv r"
  obtains k b where "k < 64" "rcapacity r = 2 ^ k" "rmask r = 2 ^ k - 1" "rbuf r = Some b"
    "length b = 2 ^ k" "unat (rhead r - rtail r) \<le> 2 ^ k" "ring_cap r = 2 ^ k"
    "ring_content r = slots b (rtail r) (unat (rhead r - rtail r))"
  using assms by (auto simp: ring_inv_def ring_cap_def ring_content_def unat_pow2)

lemma ring_full_iff:
  assumes "ring_inv r"
  shows "ring_full r \<longleftrightarrow> length (ring_content r) = ring_cap r"
  using assms
  by (elim ring_invE) (simp add: ring_full_def word_unat_eq_iff unat_pow2)

lemma ring_empty_iff:
  assumes "ring_inv r"
  shows "ring_empty r \<longleftrightarrow> ring_content r = []"
proof -
  have "ring_content r = [] \<longleftrightarrow> unat (rhead r - rtail r) = 0"
    using assms by (elim ring_invE) (metis length_0_conv length_slots)
  then show ?thesis by (simp add: ring_empty_def unat_eq_zero)
qed

lemma ring_put_ok:
  assumes inv: "ring_inv r" and nf: "\<not> ring_full r"
  shows "\<exists>r'. ring_put r v = Some r' \<and> ring_inv r' \<and> ring_content r' = ring_content r @ [v]
           \<and> ring_cap r' = ring_cap r"
  using inv
proof (elim ring_invE)
  fix k b
  assume k: "k < 64" and c: "rcapacity r = 2 ^ k" and m: "rmask r = 2 ^ k - 1"
    and b: "rbuf r = Some b" and len: "length b = 2 ^ k" and le: "unat (rhead r - rtail r) \<le> 2 ^ k"
    and cap: "ring_cap r = 2 ^ k" and cont: "ring_content r = slots b (rtail r) (unat (rhead r - rtail r))"
  let ?n = "unat (rhead r - rtail r)" and ?i = "unat (rhead r) mod length b"
  have idx: "unat (rhead r AND rmask r) = ?i"
    unfolding m by (rule slot_index [OF k len])
  have i: "?i < length b" using len by simp
  have lt: "?n < 2 ^ k"
    using nf le ring_full_iff [OF inv] by (simp add: cont cap)
  have "(2 :: nat) ^ k \<le> 2 ^ 63" using k by (intro power_increasing) auto
  with lt have n': "unat (rhead r + 1 - rtail r) = Suc ?n"
    by (intro distance_inc) linarith
  let ?r = "r\<lparr>rbuf := Some (b[?i := v]), rhead := rhead r + 1\<rparr>"
  have "ring_put r v = Some ?r"
    using i by (simp add: ring_put_def b idx)
  moreover have "ring_inv ?r"
    unfolding ring_inv_def using k c m len lt n' by (intro exI [of _ k]) simp
  moreover have "ring_content ?r = ring_content r @ [v]"
    using slots_store [OF k len, of ?n "rtail r" v] lt len
    by (simp add: ring_content_def b n')
  ultimately show ?thesis by (auto simp: ring_cap_def)
qed

lemma ring_get_ok:
  assumes inv: "ring_inv r" and ne: "\<not> ring_empty r"
  shows "\<exists>r'. ring_get r = Some (hd (ring_content r), r') \<and> ring_inv r'
           \<and> ring_content r' = tl (ring_content r) \<and> ring_cap r' = ring_cap r"
  using inv
proof (elim ring_invE)
  fix k b
  assume k: "k < 64" and c: "rcapacity r = 2 ^ k" and m: "rmask r = 2 ^ k - 1"
    and b: "rbuf r = Some b" and len: "length b = 2 ^ k" and le: "unat (rhead r - rtail r) \<le> 2 ^ k"
    and cont: "ring_content r = slots b (rtail r) (unat (rhead r - rtail r))"
  let ?i = "unat (rtail r) mod length b" and ?r = "r\<lparr>rtail := rtail r + 1\<rparr>"
  have n: "Suc (unat (rhead r - (rtail r + 1))) = unat (rhead r - rtail r)"
    using ne by (intro distance_dec) (simp add: ring_empty_def)
  have idx: "unat (rtail r AND rmask r) = ?i"
    unfolding m by (rule slot_index [OF k len])
  have i: "?i < length b" using len by simp
  have split: "ring_content r = b ! ?i # ring_content ?r"
    unfolding cont n [symmetric]
    by (subst slots_take [OF k len]) (simp add: ring_content_def b)
  have "ring_get r = Some (b ! ?i, ?r)"
    using i by (simp add: ring_get_def b idx)
  moreover have "ring_inv ?r"
    unfolding ring_inv_def using k c m b len le n by (intro exI [of _ k]) simp
  ultimately show ?thesis using split by (auto simp: ring_cap_def)
qed

interpretation ring_fifo: bounded_fifo ring_inv ring_content ring_cap ring_full ring_empty ring_put ring_get
proof unfold_locales
  fix q :: ring
  assume "ring_inv q"
  then show "0 < ring_cap q" and "length (ring_content q) \<le> ring_cap q"
    by (elim ring_invE; simp)+
qed (use ring_full_iff ring_empty_iff ring_put_ok ring_get_ok in auto)

subsection \<open>Properties\<close>

text \<open>
  What the program relies on from \<open>malloc\<close>: a result that is not NULL is an array of as many
  8-byte elements as fit in the size asked for.
\<close>

definition malloc_u64 :: "(u64 \<Rightarrow> u64 list option) \<Rightarrow> bool" where
  "malloc_u64 malloc \<longleftrightarrow> (\<forall>n xs. malloc n = Some xs \<longrightarrow> length xs = unat n div 8)"

lemma capacity_bytes:
  assumes "unat (c :: u64) \<le> 2 ^ 60"
  shows "unat (c * 8) div 8 = unat c"
proof -
  have "unat (c * 8) = unat c * 8"
    using assms by (simp add: unat_word_ariths)
  then show ?thesis by simp
qed

lemma ring_try_write_cases:
  assumes "ring_inv r"
  shows "\<exists>r'. ring_try_write r v = Some (length (ring_content r) < ring_cap r, r') \<and> ring_inv r'
    \<and> ring_cap r' = ring_cap r
    \<and> ring_content r' = (if length (ring_content r) < ring_cap r then ring_content r @ [v] else ring_content r)"
proof (cases "ring_full r")
  case True
  then show ?thesis
    using assms by (simp add: ring_try_write_def ring_fifo.full_iff)
next
  case False
  then have "length (ring_content r) < ring_cap r"
    using ring_fifo.full_iff [OF assms] ring_fifo.content_le_cap [OF assms] by simp
  with False ring_fifo.put_ok [OF assms False, of v] show ?thesis
    by (auto simp: ring_try_write_def)
qed

lemma ring_try_read_cases:
  assumes "ring_inv r"
  shows "\<exists>r'. ring_try_read r = Some (if ring_content r = [] then None else Some (hd (ring_content r)), r')
    \<and> ring_inv r' \<and> ring_cap r' = ring_cap r \<and> ring_content r' = tl (ring_content r)"
proof (cases "ring_empty r")
  case True
  then show ?thesis
    using assms by (simp add: ring_try_read_def ring_fifo.empty_iff)
next
  case False
  with ring_fifo.get_ok [OF assms False] ring_fifo.empty_iff [OF assms] show ?thesis
    by (auto simp: ring_try_read_def)
qed

lemma ring_try_write_full:
  "ring_inv r \<Longrightarrow> length (ring_content r) = ring_cap r \<Longrightarrow> ring_try_write r v = Some (False, r)"
  by (simp add: ring_try_write_def ring_fifo.full_iff)

lemma ring_try_read_empty:
  "ring_inv r \<Longrightarrow> ring_content r = [] \<Longrightarrow> ring_try_read r = Some (None, r)"
  by (simp add: ring_try_read_def ring_fifo.empty_iff)

interpretation ring_try: try_queue ring_inv ring_content ring_cap ring_try_write ring_try_read
proof unfold_locales
  fix q :: ring and v :: u64
  assume q: "ring_inv q"
  from q show "0 < ring_cap q" by (rule ring_fifo.cap_pos)
  show "\<exists>q'. ring_try_write q v = Some (True, q') \<and> ring_inv q' \<and> ring_cap q' = ring_cap q
      \<and> ring_content q' = ring_content q @ [v]" if "length (ring_content q) < ring_cap q"
    using ring_try_write_cases [OF q, of v] that by auto
  show "\<exists>q'. ring_try_read q = Some (Some (hd (ring_content q)), q') \<and> ring_inv q'
      \<and> ring_cap q' = ring_cap q \<and> ring_content q' = tl (ring_content q)" if "ring_content q \<noteq> []"
    using ring_try_read_cases [OF q] that by auto
qed (simp_all add: ring_try_write_full ring_try_read_empty)

text \<open>
  A ring whose counters are about to wrap: two elements, the first stored under counter value
  \<open>2 ^ 64 - 1\<close> and the second under 0.
\<close>

definition wrapped_ring :: ring where
  "wrapped_ring = \<lparr>rcapacity = 4, rmask = 3, rbuf = Some [20, 0, 0, 10], rhead = 1, rtail = 0xFFFFFFFFFFFFFFFF\<rparr>"

lemma wrapped_ring_inv: "ring_inv wrapped_ring"
  unfolding ring_inv_def by (intro exI [of _ 2]) (simp add: wrapped_ring_def)

lemma wrapped_ring_content: "ring_content wrapped_ring = [10, 20]" "ring_cap wrapped_ring = 4"
  by (simp_all add: ring_content_def wrapped_ring_def slots_def ring_cap_def upt_conv_Cons)

text \<open>
  on every well-formed ring \<open>ring_try_write\<close> runs without undefined behaviour, returns true exactly
  when the ring is not full, and refines appending to a list: the new value becomes the last element,
  and a full ring is left unchanged. This includes counters that wrap around at 64 bits.
\<close>

theorem ring_try_write_refines:
  assumes "ring_inv r"
  shows "\<exists>r'. ring_try_write r v = Some (length (ring_content r) < ring_cap r, r') \<and> ring_inv r'
    \<and> ring_cap r' = ring_cap r
    \<and> ring_content r' = (if length (ring_content r) < ring_cap r then ring_content r @ [v] else ring_content r)"
  using assms by (rule ring_try_write_cases)

theorem ring_try_write_refines_witness:
  "\<exists>r'. ring_try_write wrapped_ring 30 = Some (True, r') \<and> ring_content r' = [10, 20, 30]"
  using ring_try_write_refines [OF wrapped_ring_inv, of 30] by (simp add: wrapped_ring_content) blast

text \<open>
  on every well-formed ring \<open>ring_try_read\<close> runs without undefined behaviour, fails exactly when
  the ring is empty, and otherwise returns and removes the oldest element.
\<close>

theorem ring_try_read_refines:
  assumes "ring_inv r"
  shows "\<exists>r'. ring_try_read r = Some (if ring_content r = [] then None else Some (hd (ring_content r)), r')
    \<and> ring_inv r' \<and> ring_cap r' = ring_cap r \<and> ring_content r' = tl (ring_content r)"
  using assms by (rule ring_try_read_cases)

theorem ring_try_read_refines_witness:
  "\<exists>r'. ring_try_read wrapped_ring = Some (Some 10, r') \<and> ring_content r' = [20]"
  using ring_try_read_refines [OF wrapped_ring_inv] by (simp add: wrapped_ring_content) blast

text \<open>
  \<open>init_ring\<close> returns 0 exactly for a power of two for which \<open>malloc\<close> gives memory, and up to
  \<open>2 ^ 60\<close> elements the ring it builds is well formed, empty and of that capacity.
\<close>

theorem init_ring_ok:
  assumes "malloc_u64 malloc"
  shows "(fst (init_ring malloc r c) = 0 \<longleftrightarrow> (\<exists>k < 64. c = 2 ^ k) \<and> malloc (c * 8) \<noteq> None)
    \<and> (fst (init_ring malloc r c) = 0 \<and> unat c \<le> 2 ^ 60 \<longrightarrow>
        ring_inv (snd (init_ring malloc r c)) \<and> ring_content (snd (init_ring malloc r c)) = []
        \<and> ring_cap (snd (init_ring malloc r c)) = unat c)"
proof (cases "(\<exists>k < 64. c = 2 ^ k) \<and> malloc (c * 8) \<noteq> None")
  case True
  then obtain k b where k: "k < 64" "c = 2 ^ k" and b: "malloc (c * 8) = Some b" by auto
  have c0: "c \<noteq> 0" using k by (simp add: unat_pow2 flip: unat_gt_0)
  then have init: "init_ring malloc r c =
      (0, r\<lparr>rbuf := Some b, rcapacity := c, rmask := c - 1, rhead := 0, rtail := 0\<rparr>)"
    using pow2_test [OF c0] k b by (auto simp: init_ring_def)
  have "length b = 2 ^ k" if "unat c \<le> 2 ^ 60"
    using assms b capacity_bytes [OF that] k by (simp add: malloc_u64_def unat_pow2)
  then show ?thesis
    using init True k by (auto simp: ring_inv_def ring_content_def ring_cap_def)
next
  case False
  then have "fst (init_ring malloc r c) = -1"
    using pow2_test [of c] by (auto simp: init_ring_def)
  with False show ?thesis by auto
qed

definition calloc_u64 :: "u64 \<Rightarrow> u64 list option" where
  "calloc_u64 n = Some (replicate (unat n div 8) 0)"

lemma calloc_u64_ok: "malloc_u64 calloc_u64"
  by (simp add: malloc_u64_def calloc_u64_def)

theorem init_ring_ok_witness:
  "fst (init_ring calloc_u64 wrapped_ring 8) = 0
   \<and> ring_inv (snd (init_ring calloc_u64 wrapped_ring 8))
   \<and> ring_cap (snd (init_ring calloc_u64 wrapped_ring 8)) = 8"
proof -
  have "fst (init_ring calloc_u64 wrapped_ring 8) = 0"
    by (simp add: init_ring_def calloc_u64_def)
  then show ?thesis using init_ring_ok [OF calloc_u64_ok, of wrapped_ring 8] by simp
qed

text \<open>
  C39: the size \<open>capacity * sizeof(uint64_t)\<close> wraps around: for the power of two \<open>2 ^ 61\<close>
  the program asks \<open>malloc\<close> for 0 bytes, and if it gets a pointer \<open>init_ring\<close> reports success
  although the first write is then outside the buffer.
\<close>

theorem init_ring_size_wraps:
  assumes "malloc_u64 malloc" and "malloc 0 \<noteq> None"
  shows "fst (init_ring malloc r (2 ^ 61)) = 0
    \<and> ring_try_write (snd (init_ring malloc r (2 ^ 61))) v = None"
proof -
  obtain b where b: "malloc 0 = Some b" using assms(2) by auto
  then have nil: "b = []" using assms(1) by (force simp: malloc_u64_def)
  have bytes: "(2 ^ 61 * 8 :: u64) = 0"
    by (simp add: word_unat_eq_iff unat_word_ariths)
  let ?r = "r\<lparr>rbuf := Some [], rcapacity := 2 ^ 61, rmask := 2 ^ 61 - 1, rhead := 0, rtail := 0\<rparr>"
  have init: "init_ring malloc r (2 ^ 61) = (0, ?r)"
    unfolding init_ring_def bytes b nil by simp
  show ?thesis
    unfolding init by (simp add: ring_try_write_def ring_full_def ring_put_def wr_def)
qed

theorem init_ring_size_wraps_witness:
  "fst (init_ring calloc_u64 wrapped_ring (2 ^ 61)) = 0
   \<and> ring_try_write (snd (init_ring calloc_u64 wrapped_ring (2 ^ 61))) 7 = None"
  by (rule init_ring_size_wraps [OF calloc_u64_ok]) (simp add: calloc_u64_def)

text \<open>
  the program's own single-threaded test passes for every well-formed empty ring, whatever its
  capacity and wherever its counters stand, ends, and leaves the ring empty.
\<close>

theorem test_single_thread_passes:
  assumes "ring_inv r" and "ring_content r = []"
  shows "\<exists>r'. test_single_thread r = Some r' \<and> ring_inv r' \<and> ring_content r' = []"
  using ring_try.single_thread_test_ok [OF assms, of "rcapacity r"]
  by (auto simp: test_single_thread_def ring_cap_def)

theorem test_single_thread_passes_witness:
  "\<exists>r'. test_single_thread \<lparr>rcapacity = 4, rmask = 3, rbuf = Some [0, 0, 0, 0], rhead = 5, rtail = 5\<rparr> = Some r'
    \<and> ring_inv r' \<and> ring_content r' = []"
proof (rule test_single_thread_passes)
  show "ring_inv \<lparr>rcapacity = 4, rmask = 3, rbuf = Some [0, 0, 0, 0], rhead = 5, rtail = 5\<rparr>"
    unfolding ring_inv_def by (intro exI [of _ 2]) simp
qed (simp add: ring_content_def)

end
