(* ===== verification/Ring_Threads.thy ===== *)
theory Ring_Threads
  imports Ring_Lock
begin

text \<open>
  The threads of \<open>SPSC_Ring_buffer/rb_lock.c\<close>: \<open>ring_write\<close> and \<open>ring_read\<close> from lock to unlock (an
  instance of theory \<open>Monitor\<close>), and \<open>test_two_threads\<close> with its \<open>producer\<close>, which writes
  \<open>0, 1, \<dots>\<close>, and its \<open>consumer\<close>, which checks that it reads them in that order.
\<close>

abbreviation ring_step :: "(ring, u64) mon \<Rightarrow> (ring, u64) mon \<Rightarrow> bool" where
  "ring_step \<equiv> mon_step ring_full ring_empty ring_put ring_get"

definition ring_reach :: "ring \<Rightarrow> u64 job list \<Rightarrow> (ring, u64) mon \<Rightarrow> bool" where
  "ring_reach r js = mon_reach ring_full ring_empty ring_put ring_get (mon_init r js)"

definition producer :: "nat \<Rightarrow> u64 job" where
  "producer n_items = Puts (map of_nat [0..<n_items])"

definition consumer :: "nat \<Rightarrow> u64 job" where
  "consumer n_items = Gets n_items"

definition test_two_threads :: "nat \<Rightarrow> u64 job list" where
  "test_two_threads n_items = [consumer n_items, producer n_items]"

lemma two_threads_balanced: "size (planned (test_two_threads n)) = total gets_of (test_two_threads n)"
  by (simp add: planned_def total_def test_two_threads_def producer_def consumer_def)

lemma two_threads_lone:
  "lone_getter 0 (mon_init r (test_two_threads n))"
  "lone_putter 1 (map of_nat [0..<n]) (mon_init r (test_two_threads n))"
  by (auto simp: lone_getter_def lone_putter_def mon_init_def test_two_threads_def producer_def consumer_def
      less_Suc_eq)

lemma prefix_of_counting:
  assumes "xs @ ys = map f [0..<n]"
  shows "\<exists>k \<le> n. xs = map f [0..<k]"
proof -
  have "xs = take (length xs) (map f [0..<n])" by (metis assms append_eq_conv_conj)
  moreover have "length xs \<le> n" using assms by (metis le_add1 length_append length_map length_upt minus_nat.diff_0)
  ultimately show ?thesis by (intro exI [of _ "length xs"]) (simp add: take_map)
qed

text \<open>
  In the two-thread test of the lock-based ring, for every well-formed empty ring, every number of
  items and every interleaving with spurious wake-ups, what the consumer has read so far is \<open>0, 1, 2, \<dots>\<close>
  without gap or repetition, the threads can always run to completion, and then all items have been read.
\<close>

theorem ring_two_threads_fifo:
  assumes "ring_inv r" and "ring_content r = []" and "ring_reach r (test_two_threads n) s"
  shows "(\<exists>k \<le> n. got (thrs s ! 0) = map of_nat [0..<k])
    \<and> (\<exists>s'. ring_step\<^sup>*\<^sup>* s s' \<and> finished s')
    \<and> (finished s \<longrightarrow> got (thrs s ! 0) = map of_nat [0..<n])"
proof -
  have reach: "mon_reach ring_full ring_empty ring_put ring_get (mon_init r (test_two_threads n)) s"
    using assms(3) by (simp add: ring_reach_def)
  have get: "gets s = got (thrs s ! 0)"
    using lone_getter_reach [OF reach two_threads_lone(1)] by (simp add: lone_getter_def)
  have fifo: "puts s = gets s @ ring_content (mq s)"
    using ring_fifo.fifo_and_exclusion [OF reach assms(1,2)] by simp
  obtain ws where put: "puts s @ ws = map of_nat [0..<n]" "job (thrs s ! 1) = Puts ws" "1 < length (thrs s)"
    using lone_putter_reach [OF reach two_threads_lone(2)] by (auto simp: lone_putter_def)
  from put(1) have "gets s @ (ring_content (mq s) @ ws) = map of_nat [0..<n]" by (simp add: fifo)
  then have "\<exists>k \<le> n. gets s = map of_nat [0..<k]" by (rule prefix_of_counting)
  moreover have "gets s = map of_nat [0..<n]" if fin: "finished s"
  proof -
    have "calls_left (job (thrs s ! 1)) = 0" using fin put(3) by (simp add: finished_def)
    then have "ws = []" using put(2) by simp
    moreover have "ring_content (mq s) = []"
      using ring_fifo.all_delivered [OF reach assms(1,2) two_threads_balanced fin] by simp
    ultimately show ?thesis using put(1) fifo by simp
  qed
  ultimately show ?thesis
    using get ring_fifo.completes [OF reach assms(1,2) two_threads_balanced] by simp
qed

theorem ring_two_threads_fifo_witness:
  "\<exists>s'. ring_step\<^sup>*\<^sup>* (mon_init \<lparr>rcapacity = 1, rmask = 0, rbuf = Some [0], rhead = 0, rtail = 0\<rparr> (test_two_threads 3)) s'
    \<and> finished s'"
proof -
  let ?r = "\<lparr>rcapacity = 1, rmask = 0, rbuf = Some [0], rhead = 0, rtail = 0\<rparr>"
  have "ring_inv ?r" unfolding ring_inv_def by (intro exI [of _ 0]) simp
  moreover have "ring_content ?r = []" by (simp add: ring_content_def)
  ultimately show ?thesis
    using ring_two_threads_fifo [of ?r 3 "mon_init ?r (test_two_threads 3)"]
    by (simp add: ring_reach_def mon_reach.start)
qed

end
