(* ===== verification/Spsc.thy ===== *)
theory Spsc
  imports Ring_Lock
begin

text \<open>
  \<open>SPSC_Ring_buffer/rb.c\<close>, the lock-free ring for one producer and one consumer thread.

  First the operations as one thread sees them (\<open>init_ring\<close>, \<open>kill_ring\<close>, \<open>ring_write\<close>, \<open>ring_read\<close>
  and the single-threaded test); \<open>struct Ring\<close> has the same fields as in \<open>rb_lock.c\<close>, so the record
  \<open>ring\<close> is shared.

  Then the two threads of \<open>test_two_threads\<close> with one step per memory access.  Each counter is
  stored by one thread only, with release order, and loaded by the other with acquire order.  Such a load
  may return an old value, but never one older than the thread has already seen; the model lets
  the loading thread see any such value.  \<open>sent\<close> and \<open>recvd\<close> list the values published and taken so far, \<open>pseen\<close> and
  \<open>cseen\<close> are the positions in these histories of the last values loaded.  The array slots are plain
  memory; that a load sees the value last stored there is justified by the theorem that the
  two threads never access the same slot at the same time.
\<close>

subsection \<open>The operations, single-threaded\<close>

definition init_ring :: "(u64 \<Rightarrow> u64 list option) \<Rightarrow> ring \<Rightarrow> u64 \<Rightarrow> int \<times> ring" where
  "init_ring malloc ring capacity =
     (if capacity = 0 \<or> capacity AND (capacity - 1) \<noteq> 0 then (-1, ring)
      else case malloc (capacity * 8) of
        None \<Rightarrow> (-1, ring\<lparr>rbuf := None\<rparr>)
      | Some b \<Rightarrow>
          (0, ring\<lparr>rbuf := Some b, rcapacity := capacity, rmask := capacity - 1,
                rhead := 0, rtail := 0\<rparr>))"

definition kill_ring :: "ring \<Rightarrow> ring" where
  "kill_ring ring = ring\<lparr>rbuf := None\<rparr>"

definition ring_write :: "ring \<Rightarrow> u64 \<Rightarrow> (bool \<times> ring) option" where
  "ring_write ring value =
     (let head = rhead ring; tail = rtail ring in
      if head - tail = rcapacity ring then Some (False, ring)
      else do { b \<leftarrow> rbuf ring;
                b' \<leftarrow> wr b (unat (head AND rmask ring)) value;
                Some (True, ring\<lparr>rbuf := Some b', rhead := head + 1\<rparr>) })"

definition ring_read :: "ring \<Rightarrow> (u64 option \<times> ring) option" where
  "ring_read ring =
     (let tail = rtail ring; head = rhead ring in
      if head = tail then Some (None, ring)
      else do { b \<leftarrow> rbuf ring;
                v \<leftarrow> rd b (unat (tail AND rmask ring));
                Some (Some v, ring\<lparr>rtail := tail + 1\<rparr>) })"

definition test_single_thread :: "ring \<Rightarrow> ring option" where
  "test_single_thread ring = single_thread_test ring_write ring_read (rcapacity ring) ring"

subsection \<open>The two threads, one step per memory access\<close>

datatype ppc = P_Load_Head | P_Load_Tail | P_Check | P_Store_Slot | P_Store_Head

datatype cpc = C_Load_Tail | C_Load_Head | C_Check | C_Load_Slot | C_Store_Tail

record spsc =
  scapacity :: u64
  smask :: u64
  sbuf :: "u64 list"
  shead :: u64
  stail :: u64
  todo :: "u64 list"
  ppc :: ppc
  phead :: u64
  ptail :: u64
  pseen :: nat
  cpc :: cpc
  chead :: u64
  ctail :: u64
  cval :: u64
  cseen :: nat
  sent :: "u64 list"
  recvd :: "u64 list"

text \<open>\<open>base\<close> is the value both counters had when the threads were started.\<close>

inductive spsc_step :: "u64 \<Rightarrow> spsc \<Rightarrow> spsc \<Rightarrow> bool" for base where
  p_load_head: "ppc s = P_Load_Head \<Longrightarrow> todo s \<noteq> [] \<Longrightarrow>
    spsc_step base s (s\<lparr>phead := shead s, ppc := P_Load_Tail\<rparr>)"
| p_load_tail: "ppc s = P_Load_Tail \<Longrightarrow> pseen s \<le> m \<Longrightarrow> m \<le> length (recvd s) \<Longrightarrow>
    spsc_step base s (s\<lparr>ptail := base + of_nat m, pseen := m, ppc := P_Check\<rparr>)"
| p_full: "ppc s = P_Check \<Longrightarrow> phead s - ptail s = scapacity s \<Longrightarrow>
    spsc_step base s (s\<lparr>ppc := P_Load_Head\<rparr>)"
| p_room: "ppc s = P_Check \<Longrightarrow> phead s - ptail s \<noteq> scapacity s \<Longrightarrow>
    spsc_step base s (s\<lparr>ppc := P_Store_Slot\<rparr>)"
| p_store_slot: "ppc s = P_Store_Slot \<Longrightarrow> todo s = v # vs \<Longrightarrow>
    wr (sbuf s) (unat (phead s AND smask s)) v = Some b \<Longrightarrow>
    spsc_step base s (s\<lparr>sbuf := b, ppc := P_Store_Head\<rparr>)"
| p_store_head: "ppc s = P_Store_Head \<Longrightarrow> todo s = v # vs \<Longrightarrow>
    spsc_step base s (s\<lparr>shead := phead s + 1, todo := vs, sent := sent s @ [v], ppc := P_Load_Head\<rparr>)"
| c_load_tail: "cpc s = C_Load_Tail \<Longrightarrow>
    spsc_step base s (s\<lparr>ctail := stail s, cpc := C_Load_Head\<rparr>)"
| c_load_head: "cpc s = C_Load_Head \<Longrightarrow> cseen s \<le> m \<Longrightarrow> m \<le> length (sent s) \<Longrightarrow>
    spsc_step base s (s\<lparr>chead := base + of_nat m, cseen := m, cpc := C_Check\<rparr>)"
| c_empty: "cpc s = C_Check \<Longrightarrow> chead s = ctail s \<Longrightarrow>
    spsc_step base s (s\<lparr>cpc := C_Load_Tail\<rparr>)"
| c_some: "cpc s = C_Check \<Longrightarrow> chead s \<noteq> ctail s \<Longrightarrow>
    spsc_step base s (s\<lparr>cpc := C_Load_Slot\<rparr>)"
| c_load_slot: "cpc s = C_Load_Slot \<Longrightarrow> rd (sbuf s) (unat (ctail s AND smask s)) = Some v \<Longrightarrow>
    spsc_step base s (s\<lparr>cval := v, cpc := C_Store_Tail\<rparr>)"
| c_store_tail: "cpc s = C_Store_Tail \<Longrightarrow>
    spsc_step base s (s\<lparr>stail := ctail s + 1, recvd := recvd s @ [cval s], cpc := C_Load_Tail\<rparr>)"

definition spsc_start :: "ring \<Rightarrow> u64 list \<Rightarrow> u64 list \<Rightarrow> spsc" where
  "spsc_start r b vs = \<lparr>scapacity = rcapacity r, smask = rmask r, sbuf = b, shead = rhead r, stail = rtail r,
     todo = vs, ppc = P_Load_Head, phead = 0, ptail = 0, pseen = 0,
     cpc = C_Load_Tail, chead = 0, ctail = 0, cval = 0, cseen = 0, sent = [], recvd = []\<rparr>"

definition spsc_reach :: "ring \<Rightarrow> u64 list \<Rightarrow> u64 list \<Rightarrow> spsc \<Rightarrow> bool" where
  "spsc_reach r b vs s = (spsc_step (rtail r))\<^sup>*\<^sup>* (spsc_start r b vs) s"

subsection \<open>The invariant of the two threads\<close>

definition slot :: "spsc \<Rightarrow> u64 \<Rightarrow> nat \<Rightarrow> nat" where
  "slot s base j = (unat base + j) mod length (sbuf s)"

definition mem_inv :: "nat \<Rightarrow> u64 \<Rightarrow> u64 list \<Rightarrow> spsc \<Rightarrow> bool" where
  "mem_inv k base vs s \<longleftrightarrow> k < 64 \<and> scapacity s = 2 ^ k \<and> smask s = 2 ^ k - 1 \<and> length (sbuf s) = 2 ^ k
     \<and> shead s = base + of_nat (length (sent s)) \<and> stail s = base + of_nat (length (recvd s))
     \<and> sent s @ todo s = vs \<and> recvd s = take (length (recvd s)) (sent s)
     \<and> (\<forall>j. length (recvd s) \<le> j \<and> j < length (sent s) \<longrightarrow> sbuf s ! slot s base j = sent s ! j)"

definition prod_inv :: "nat \<Rightarrow> u64 \<Rightarrow> spsc \<Rightarrow> bool" where
  "prod_inv k base s \<longleftrightarrow> pseen s \<le> length (recvd s) \<and> length (sent s) \<le> pseen s + 2 ^ k
     \<and> (ppc s \<noteq> P_Load_Head \<longrightarrow> phead s = base + of_nat (length (sent s)) \<and> todo s \<noteq> [])
     \<and> (ppc s = P_Check \<longrightarrow> ptail s = base + of_nat (pseen s))
     \<and> (ppc s \<in> {P_Store_Slot, P_Store_Head} \<longrightarrow> length (sent s) < pseen s + 2 ^ k)
     \<and> (ppc s = P_Store_Head \<longrightarrow> sbuf s ! slot s base (length (sent s)) = hd (todo s))"

definition cons_inv :: "u64 \<Rightarrow> spsc \<Rightarrow> bool" where
  "cons_inv base s \<longleftrightarrow> cseen s \<le> length (sent s) \<and> length (recvd s) \<le> cseen s
     \<and> (cpc s \<noteq> C_Load_Tail \<longrightarrow> ctail s = base + of_nat (length (recvd s)))
     \<and> (cpc s = C_Check \<longrightarrow> chead s = base + of_nat (cseen s))
     \<and> (cpc s \<in> {C_Load_Slot, C_Store_Tail} \<longrightarrow> length (recvd s) < cseen s)
     \<and> (cpc s = C_Store_Tail \<longrightarrow> cval s = sent s ! length (recvd s))"

definition spsc_inv :: "nat \<Rightarrow> u64 \<Rightarrow> u64 list \<Rightarrow> spsc \<Rightarrow> bool" where
  "spsc_inv k base vs s \<longleftrightarrow> mem_inv k base vs s \<and> prod_inv k base s \<and> cons_inv base s"

lemma counter_diff:
  assumes "b \<le> a"
  shows "(base + of_nat a) - (base + of_nat b) = (of_nat (a - b) :: u64)"
  using assms by (simp add: of_nat_diff)

lemma counter_diff_eq:
  assumes "b \<le> a" and "a - b \<le> 2 ^ k" and "k < 64"
  shows "(base + of_nat a) - (base + of_nat b) = (2 ^ k :: u64) \<longleftrightarrow> a - b = 2 ^ k"
proof -
  have "(2 :: nat) ^ k < 2 ^ LENGTH(64)" using assms(3) by (intro power_strict_increasing) auto
  then have "unat (of_nat (a - b) :: u64) = a - b"
    using assms(2) by (intro unat_of_nat_small) linarith
  then show ?thesis
    unfolding counter_diff [OF assms(1)] word_unat_eq_iff using assms(3) unat_pow2 [of k, where ?'a = 64] by simp
qed

lemma counter_eq:
  assumes "b \<le> a" and "a - b \<le> 2 ^ k" and "k < 64"
  shows "base + of_nat a = (base + of_nat b :: u64) \<longleftrightarrow> a = b"
proof -
  have "(2 :: nat) ^ k < 2 ^ LENGTH(64)" using assms(3) by (intro power_strict_increasing) auto
  then have "unat (of_nat (a - b) :: u64) = a - b"
    using assms(2) by (intro unat_of_nat_small) linarith
  moreover have "base + of_nat a = (base + of_nat b :: u64) \<longleftrightarrow> (of_nat (a - b) :: u64) = 0"
    using counter_diff [OF assms(1), of base] by (metis eq_iff_diff_eq_0)
  ultimately show ?thesis using assms(1) by (metis diff_is_0_eq le_antisym unat_0 diff_self_eq_0 of_nat_0)
qed

lemma slot_of_counter:
  assumes "mem_inv k base vs s"
  shows "unat ((base + of_nat j) AND smask s) = slot s base j"
proof -
  have k: "k < 64" "length (sbuf s) = 2 ^ k" "smask s = 2 ^ k - 1"
    using assms by (auto simp: mem_inv_def)
  then show ?thesis
    using slot_index [OF k(1,2), of "base + of_nat j"] slot_index_add [OF k(1,2), of base j]
    by (simp add: slot_def)
qed

lemma slot_less:
  assumes "mem_inv k base vs s"
  shows "slot s base j < length (sbuf s)"
  using assms by (auto simp: mem_inv_def slot_def)

lemma slot_distinct:
  assumes "mem_inv k base vs s" and "i < j" and "j < i + 2 ^ k"
  shows "slot s base i \<noteq> slot s base j"
proof
  assume "slot s base i = slot s base j"
  moreover have "length (sbuf s) = 2 ^ k" using assms(1) by (simp add: mem_inv_def)
  ultimately have "(unat base + i + (j - i)) mod 2 ^ k = (unat base + i + 0) mod 2 ^ k"
    using assms(2) by (simp add: slot_def)
  then have "j - i = 0"
    by (rule mod_add_inj) (use assms(2,3) in linarith, simp)
  with assms(2) show False by simp
qed

lemma mem_inv_step:
  assumes "spsc_step base s s'" and "spsc_inv k base vs s"
  shows "mem_inv k base vs s'"
  using assms
proof (induction rule: spsc_step.induct)
  case (p_store_slot s v ws b)
  then have m: "mem_inv k base vs s" and p: "phead s = base + of_nat (length (sent s))"
      and lim: "length (sent s) < length (recvd s) + 2 ^ k"
    by (auto simp: spsc_inv_def prod_inv_def)
  have b: "b = (sbuf s)[slot s base (length (sent s)) := v]"
    using p_store_slot.hyps(3) slot_of_counter [OF m] by (simp add: p wr_eq_Some_iff)
  have "slot s base (length (sent s)) \<noteq> slot s base j" if "length (recvd s) \<le> j" "j < length (sent s)" for j
    using that lim by (intro slot_distinct [OF m, symmetric]) auto
  then have "b ! slot s base j = sent s ! j" if "length (recvd s) \<le> j" "j < length (sent s)" for j
    using m that by (simp add: b mem_inv_def)
  moreover have "slot (s\<lparr>sbuf := b, ppc := P_Store_Head\<rparr>) base j = slot s base j" for j
    by (simp add: slot_def b)
  ultimately show ?case using m by (simp add: mem_inv_def b)
next
  case (p_store_head s v ws)
  then have m: "mem_inv k base vs s" and p: "phead s = base + of_nat (length (sent s))"
      and sl: "sbuf s ! slot s base (length (sent s)) = v" and le: "length (recvd s) \<le> length (sent s)"
    by (auto simp: spsc_inv_def prod_inv_def cons_inv_def)
  have "recvd s = take (length (recvd s)) (sent s)" using m by (simp add: mem_inv_def)
  then have "recvd s = take (length (recvd s)) (sent s @ [v])" using le by simp
  with m p sl p_store_head.hyps show ?case
    unfolding mem_inv_def
    by (auto simp: slot_def nth_append less_Suc_eq algebra_simps)
next
  case (c_store_tail s)
  then have m: "mem_inv k base vs s" and c: "ctail s = base + of_nat (length (recvd s))"
      and lt: "length (recvd s) < length (sent s)" and v: "cval s = sent s ! length (recvd s)"
    by (auto simp: spsc_inv_def cons_inv_def)
  have "recvd s = take (length (recvd s)) (sent s)" using m by (simp add: mem_inv_def)
  then have "recvd s @ [cval s] = take (Suc (length (recvd s))) (sent s)"
    using lt v by (simp add: take_Suc_conv_app_nth)
  moreover have "\<forall>j. Suc (length (recvd s)) \<le> j \<and> j < length (sent s) \<longrightarrow> sbuf s ! slot s base j = sent s ! j"
    using m by (simp add: mem_inv_def)
  ultimately show ?case
    using m c lt unfolding mem_inv_def by (simp add: slot_def)
qed (auto simp: spsc_inv_def mem_inv_def slot_def)

lemma prod_inv_step:
  assumes "spsc_step base s s'" and "spsc_inv k base vs s"
  shows "prod_inv k base s'"
  using assms
proof (induction rule: spsc_step.induct)
  case (p_room s)
  then have i: "prod_inv k base s" "cons_inv base s" "k < 64" "scapacity s = 2 ^ k"
    by (simp_all add: spsc_inv_def mem_inv_def)
  have "pseen s \<le> length (recvd s)" "length (sent s) \<le> pseen s + 2 ^ k"
    using i(1) by (simp_all add: prod_inv_def)
  moreover have "length (recvd s) \<le> cseen s" "cseen s \<le> length (sent s)"
    using i(2) by (simp_all add: cons_inv_def)
  ultimately have le: "pseen s \<le> length (sent s)" "length (sent s) - pseen s \<le> 2 ^ k"
    by linarith+
  have "phead s = base + of_nat (length (sent s))" "ptail s = base + of_nat (pseen s)"
    using i(1) p_room.hyps(1) by (simp_all add: prod_inv_def)
  then have "length (sent s) - pseen s \<noteq> 2 ^ k"
    using p_room.hyps(2) i(4) counter_diff_eq [OF le i(3), of base] by metis
  with le have "length (sent s) < pseen s + 2 ^ k" by linarith
  with i p_room.hyps show ?case by (simp add: prod_inv_def)
next
  case (p_store_slot s v ws b)
  then have m: "mem_inv k base vs s" and p: "phead s = base + of_nat (length (sent s))"
    by (auto simp: spsc_inv_def prod_inv_def)
  have b: "b = (sbuf s)[slot s base (length (sent s)) := v]"
    using p_store_slot.hyps(3) slot_of_counter [OF m] by (simp add: p wr_eq_Some_iff)
  have "slot (s\<lparr>sbuf := b, ppc := P_Store_Head\<rparr>) base (length (sent s)) = slot s base (length (sent s))"
    by (simp add: slot_def b)
  with p_store_slot slot_less [OF m, of "length (sent s)"] show ?case
    by (simp add: spsc_inv_def prod_inv_def b)
next
  case (p_load_head s)
  then have "shead s = base + of_nat (length (sent s))" by (simp add: spsc_inv_def mem_inv_def)
  with p_load_head show ?case by (simp add: spsc_inv_def prod_inv_def)
qed (simp_all add: spsc_inv_def prod_inv_def slot_def)

lemma cons_inv_step:
  assumes "spsc_step base s s'" and "spsc_inv k base vs s"
  shows "cons_inv base s'"
  using assms
proof (induction rule: spsc_step.induct)
  case (c_load_slot s v)
  then have m: "mem_inv k base vs s" and c: "ctail s = base + of_nat (length (recvd s))"
      and lt: "length (recvd s) < length (sent s)"
    by (auto simp: spsc_inv_def cons_inv_def)
  have "v = sent s ! length (recvd s)"
    using c_load_slot.hyps(2) slot_of_counter [OF m] m lt
    by (auto simp: c rd_eq_Some_iff mem_inv_def)
  with c_load_slot show ?case by (auto simp: spsc_inv_def cons_inv_def)
next
  case (p_store_head s v ws)
  then show ?case by (auto simp: spsc_inv_def cons_inv_def nth_append)
next
  case (c_load_tail s)
  then have "stail s = base + of_nat (length (recvd s))" by (simp add: spsc_inv_def mem_inv_def)
  with c_load_tail show ?case by (simp add: spsc_inv_def cons_inv_def)
qed (auto simp: spsc_inv_def cons_inv_def nat_less_le)

lemma spsc_inv_step:
  "spsc_step base s s' \<Longrightarrow> spsc_inv k base vs s \<Longrightarrow> spsc_inv k base vs s'"
  using mem_inv_step prod_inv_step cons_inv_step by (simp add: spsc_inv_def) blast

lemma spsc_inv_start:
  assumes "ring_inv r" and "ring_content r = []" and "rbuf r = Some b"
  obtains k where "spsc_inv k (rtail r) vs (spsc_start r b vs)"
proof -
  from assms have "rhead r = rtail r"
    using ring_empty_iff [OF assms(1)] by (simp add: ring_empty_def)
  moreover from assms obtain k where "k < 64" "rcapacity r = 2 ^ k" "rmask r = 2 ^ k - 1" "length b = 2 ^ k"
    by (auto elim: ring_invE)
  ultimately have "spsc_inv k (rtail r) vs (spsc_start r b vs)"
    by (simp add: spsc_inv_def mem_inv_def prod_inv_def cons_inv_def spsc_start_def)
  then show thesis by (rule that)
qed

lemma spsc_inv_reach:
  assumes "ring_inv r" and "ring_content r = []" and "rbuf r = Some b" and "spsc_reach r b vs s"
  obtains k where "spsc_inv k (rtail r) vs s"
proof -
  obtain k where start: "spsc_inv k (rtail r) vs (spsc_start r b vs)"
    using spsc_inv_start [OF assms(1-3)] .
  have "(spsc_step (rtail r))\<^sup>*\<^sup>* (spsc_start r b vs) s" using assms(4) by (simp add: spsc_reach_def)
  then have "spsc_inv k (rtail r) vs s"
    by (induction rule: rtranclp_induct) (use start spsc_inv_step in auto)
  then show thesis by (rule that)
qed

subsection \<open>Progress\<close>

definition can :: "u64 \<Rightarrow> (spsc \<Rightarrow> bool) \<Rightarrow> spsc \<Rightarrow> bool" where
  "can base P s \<longleftrightarrow> (\<exists>s'. (spsc_step base)\<^sup>*\<^sup>* s s' \<and> P s')"

lemma can_now: "P s \<Longrightarrow> can base P s"
  by (auto simp: can_def)

lemma can_step: "spsc_step base s s1 \<Longrightarrow> can base P s1 \<Longrightarrow> can base P s"
  by (auto simp: can_def intro: converse_rtranclp_into_rtranclp)

lemma can_trans: "can base P s \<Longrightarrow> (\<And>s1. (spsc_step base)\<^sup>*\<^sup>* s s1 \<Longrightarrow> P s1 \<Longrightarrow> can base Q s1) \<Longrightarrow> can base Q s"
  unfolding can_def by (meson rtranclp_trans)

text \<open>From any point of its current call the producer can publish one more value when the ring has room.\<close>

abbreviation published :: "spsc \<Rightarrow> spsc \<Rightarrow> bool" where
  "published s s' \<equiv> length (sent s') = Suc (length (sent s)) \<and> recvd s' = recvd s"

lemma publish_from_store_slot:
  assumes "spsc_inv k base vs s" and "ppc s \<in> {P_Store_Slot, P_Store_Head}"
  shows "can base (published s) s"
proof -
  have m: "mem_inv k base vs s" and t: "todo s \<noteq> []" "phead s = base + of_nat (length (sent s))"
    using assms by (auto simp: spsc_inv_def prod_inv_def)
  then obtain v ws where vs: "todo s = v # ws" by (cases "todo s") auto
  have last: "can base (published s) u" if "ppc u = P_Store_Head" "todo u = v # ws" "sent u = sent s" "recvd u = recvd s" for u
    by (rule can_step [OF spsc_step.p_store_head [OF that(1,2)]], rule can_now) (simp add: that)
  show ?thesis
  proof (cases "ppc s = P_Store_Head")
    case True
    with vs show ?thesis by (intro last) auto
  next
    case False
    then have pc: "ppc s = P_Store_Slot" using assms(2) by simp
    have "unat (phead s AND smask s) < length (sbuf s)"
      using slot_of_counter [OF m] slot_less [OF m] by (simp add: t(2))
    then have "spsc_step base s (s\<lparr>sbuf := (sbuf s)[unat (phead s AND smask s) := v], ppc := P_Store_Head\<rparr>)"
      by (intro spsc_step.p_store_slot [OF pc vs]) simp
    then show ?thesis by (rule can_step) (intro last; simp add: vs)
  qed
qed

lemma publish_from_load_tail:
  assumes inv: "spsc_inv k base vs s" and pc: "ppc s = P_Load_Tail"
    and room: "length (sent s) < length (recvd s) + 2 ^ k"
  shows "can base (published s) s"
proof -
  let ?s1 = "s\<lparr>ptail := base + of_nat (length (recvd s)), pseen := length (recvd s), ppc := P_Check\<rparr>"
  have st1: "spsc_step base s ?s1"
    using inv pc by (intro spsc_step.p_load_tail) (auto simp: spsc_inv_def prod_inv_def)
  then have inv1: "spsc_inv k base vs ?s1" using inv by (rule spsc_inv_step)
  have f: "k < 64" "scapacity s = 2 ^ k" "phead s = base + of_nat (length (sent s))" "length (recvd s) \<le> length (sent s)"
    using inv pc by (simp_all add: spsc_inv_def mem_inv_def prod_inv_def cons_inv_def)
  have "length (sent s) - length (recvd s) \<le> 2 ^ k" "length (sent s) - length (recvd s) \<noteq> 2 ^ k"
    using room f(4) by linarith+
  then have "phead s - (base + of_nat (length (recvd s))) \<noteq> 2 ^ k"
    unfolding f(3) using counter_diff_eq [OF f(4) _ f(1), of base] by metis
  then have st2: "spsc_step base ?s1 (?s1\<lparr>ppc := P_Store_Slot\<rparr>)"
    using f(2) by (intro spsc_step.p_room) simp_all
  then have "spsc_inv k base vs (?s1\<lparr>ppc := P_Store_Slot\<rparr>)" using inv1 by (rule spsc_inv_step)
  then have "can base (published (?s1\<lparr>ppc := P_Store_Slot\<rparr>)) (?s1\<lparr>ppc := P_Store_Slot\<rparr>)"
    by (rule publish_from_store_slot) simp
  then have "can base (published s) (?s1\<lparr>ppc := P_Store_Slot\<rparr>)" by simp
  with st1 st2 show ?thesis by (blast intro: can_step)
qed

lemma publish_from_load_head:
  assumes inv: "spsc_inv k base vs s" and pc: "ppc s = P_Load_Head" and "todo s \<noteq> []"
    and room: "length (sent s) < length (recvd s) + 2 ^ k"
  shows "can base (published s) s"
proof -
  let ?s1 = "s\<lparr>phead := shead s, ppc := P_Load_Tail\<rparr>"
  have st: "spsc_step base s ?s1" using assms(2,3) by (rule spsc_step.p_load_head)
  then have "spsc_inv k base vs ?s1" using inv by (rule spsc_inv_step)
  then have "can base (published ?s1) ?s1" using room by (intro publish_from_load_tail) simp_all
  with st show ?thesis by (intro can_step [OF st]) simp
qed

lemma publish:
  assumes inv: "spsc_inv k base vs s" and work: "todo s \<noteq> []"
    and room: "length (sent s) < length (recvd s) + 2 ^ k"
  shows "can base (published s) s"
proof (cases "ppc s")
  case P_Check
  show ?thesis
  proof (cases "phead s - ptail s = scapacity s")
    case True
    let ?s1 = "s\<lparr>ppc := P_Load_Head\<rparr>"
    have st: "spsc_step base s ?s1" using P_Check True by (rule spsc_step.p_full)
    then have "spsc_inv k base vs ?s1" using inv by (rule spsc_inv_step)
    then have "can base (published ?s1) ?s1" using room work by (intro publish_from_load_head) simp_all
    with st show ?thesis by (intro can_step [OF st]) simp
  next
    case False
    let ?s1 = "s\<lparr>ppc := P_Store_Slot\<rparr>"
    have st: "spsc_step base s ?s1" using P_Check False by (rule spsc_step.p_room)
    then have "spsc_inv k base vs ?s1" using inv by (rule spsc_inv_step)
    then have "can base (published ?s1) ?s1" by (rule publish_from_store_slot) simp
    with st show ?thesis by (intro can_step [OF st]) simp
  qed
next
  case P_Load_Head
  with inv show ?thesis using work room by (rule publish_from_load_head)
next
  case P_Load_Tail
  with inv show ?thesis using room by (rule publish_from_load_tail)
qed (use publish_from_store_slot [OF inv] in simp_all)

text \<open>Likewise the consumer can take one more value when one is published.\<close>

abbreviation taken :: "spsc \<Rightarrow> spsc \<Rightarrow> bool" where
  "taken s s' \<equiv> length (recvd s') = Suc (length (recvd s))"

lemma take_from_load_slot:
  assumes "spsc_inv k base vs s" and "cpc s \<in> {C_Load_Slot, C_Store_Tail}"
  shows "can base (taken s) s"
proof -
  have m: "mem_inv k base vs s" and t: "ctail s = base + of_nat (length (recvd s))"
    using assms by (auto simp: spsc_inv_def cons_inv_def)
  have last: "can base (taken s) u" if "cpc u = C_Store_Tail" "recvd u = recvd s" for u
    by (rule can_step [OF spsc_step.c_store_tail [OF that(1)]], rule can_now) (simp add: that)
  show ?thesis
  proof (cases "cpc s = C_Store_Tail")
    case True
    then show ?thesis by (intro last) auto
  next
    case False
    then have pc: "cpc s = C_Load_Slot" using assms(2) by simp
    let ?i = "unat (ctail s AND smask s)"
    have "?i < length (sbuf s)"
      using slot_of_counter [OF m] slot_less [OF m] by (simp add: t)
    then have "spsc_step base s (s\<lparr>cval := sbuf s ! ?i, cpc := C_Store_Tail\<rparr>)"
      by (intro spsc_step.c_load_slot [OF pc]) simp
    then show ?thesis by (rule can_step) (intro last; simp)
  qed
qed

lemma take_from_check:
  assumes inv: "spsc_inv k base vs s" and pc: "cpc s = C_Check" and "chead s \<noteq> ctail s"
  shows "can base (taken s) s"
proof -
  let ?s1 = "s\<lparr>cpc := C_Load_Slot\<rparr>"
  have st: "spsc_step base s ?s1" using assms(2,3) by (rule spsc_step.c_some)
  then have "spsc_inv k base vs ?s1" using inv by (rule spsc_inv_step)
  then have "can base (taken ?s1) ?s1" by (rule take_from_load_slot) simp
  with st show ?thesis by (intro can_step [OF st]) simp
qed

lemma take_from_load_head:
  assumes inv: "spsc_inv k base vs s" and pc: "cpc s = C_Load_Head"
    and some: "length (recvd s) < length (sent s)"
  shows "can base (taken s) s"
proof -
  let ?s1 = "s\<lparr>chead := base + of_nat (length (sent s)), cseen := length (sent s), cpc := C_Check\<rparr>"
  have st: "spsc_step base s ?s1"
    using inv pc by (intro spsc_step.c_load_head) (auto simp: spsc_inv_def cons_inv_def)
  then have inv1: "spsc_inv k base vs ?s1" using inv by (rule spsc_inv_step)
  have f: "k < 64" "ctail s = base + of_nat (length (recvd s))" "length (sent s) \<le> pseen s + 2 ^ k" "pseen s \<le> length (recvd s)"
    using inv pc by (simp_all add: spsc_inv_def mem_inv_def prod_inv_def cons_inv_def)
  have le: "length (recvd s) \<le> length (sent s)" "length (sent s) - length (recvd s) \<le> 2 ^ k"
    using some f(3,4) by linarith+
  have "chead ?s1 \<noteq> ctail ?s1"
    using counter_eq [OF le f(1), of base] some by (simp add: f(2))
  then have "can base (taken ?s1) ?s1" using inv1 by (intro take_from_check) simp_all
  with st show ?thesis by (intro can_step [OF st]) simp
qed

lemma take_from_load_tail:
  assumes inv: "spsc_inv k base vs s" and pc: "cpc s = C_Load_Tail"
    and some: "length (recvd s) < length (sent s)"
  shows "can base (taken s) s"
proof -
  let ?s1 = "s\<lparr>ctail := stail s, cpc := C_Load_Head\<rparr>"
  have st: "spsc_step base s ?s1" using pc by (rule spsc_step.c_load_tail)
  then have "spsc_inv k base vs ?s1" using inv by (rule spsc_inv_step)
  then have "can base (taken ?s1) ?s1" using some by (intro take_from_load_head) simp_all
  with st show ?thesis by (intro can_step [OF st]) simp
qed

lemma take_one:
  assumes inv: "spsc_inv k base vs s" and some: "length (recvd s) < length (sent s)"
  shows "can base (taken s) s"
proof (cases "cpc s")
  case C_Check
  show ?thesis
  proof (cases "chead s = ctail s")
    case True
    let ?s1 = "s\<lparr>cpc := C_Load_Tail\<rparr>"
    have st: "spsc_step base s ?s1" using C_Check True by (rule spsc_step.c_empty)
    then have "spsc_inv k base vs ?s1" using inv by (rule spsc_inv_step)
    then have "can base (taken ?s1) ?s1" using some by (intro take_from_load_tail) simp_all
    with st show ?thesis by (intro can_step [OF st]) simp
  next
    case False
    with inv C_Check show ?thesis by (rule take_from_check)
  qed
next
  case C_Load_Head
  with inv show ?thesis using some by (rule take_from_load_head)
next
  case C_Load_Tail
  with inv show ?thesis using some by (rule take_from_load_tail)
qed (use take_from_load_slot [OF inv] in simp_all)

lemma spsc_inv_steps:
  "(spsc_step base)\<^sup>*\<^sup>* s s' \<Longrightarrow> spsc_inv k base vs s \<Longrightarrow> spsc_inv k base vs s'"
  by (induction rule: rtranclp_induct) (auto intro: spsc_inv_step)

lemma can_finish:
  assumes "spsc_inv k base vs s"
  shows "can base (\<lambda>s'. recvd s' = vs) s"
  using assms
proof (induction "length vs - length (recvd s)" arbitrary: s rule: less_induct)
  case less
  have m: "sent s @ todo s = vs" "recvd s = take (length (recvd s)) (sent s)" "length (recvd s) \<le> length (sent s)"
    using less.prems by (auto simp: spsc_inv_def mem_inv_def cons_inv_def)
  have on: "can base (\<lambda>s'. recvd s' = vs) u"
    if u: "spsc_inv k base vs u" "recvd u = recvd s" "length (recvd u) < length (sent u)" for u
  proof (rule can_trans [OF take_one [OF u(1,3)]])
    fix s1
    assume "(spsc_step base)\<^sup>*\<^sup>* u s1" and t: "taken u s1"
    then have inv1: "spsc_inv k base vs s1" using u(1) by (blast intro: spsc_inv_steps)
    then have "length (recvd s1) \<le> length (sent s1)" "sent s1 @ todo s1 = vs"
      by (auto simp: spsc_inv_def mem_inv_def cons_inv_def)
    then have "length (recvd s1) \<le> length vs" by auto
    with t u(2) have "length vs - length (recvd s1) < length vs - length (recvd s)" by simp
    then show "can base (\<lambda>s'. recvd s' = vs) s1" using inv1 by (rule less.hyps)
  qed
  consider "length (recvd s) < length (sent s)" | "length (recvd s) = length (sent s)" "todo s \<noteq> []"
    | "length (recvd s) = length (sent s)" "todo s = []"
    using m(3) by fastforce
  then show ?case
  proof cases
    case 1
    with less.prems show ?thesis by (intro on) auto
  next
    case 2
    have "can base (published s) s" by (rule publish [OF less.prems 2(2)]) (simp add: 2)
    then show ?thesis
      by (rule can_trans) (intro on; use less.prems spsc_inv_steps 2 in force)
  next
    case 3
    with m have "recvd s = vs" by simp
    then show ?thesis by (rule can_now)
  qed
qed

subsection \<open>Properties\<close>

lemma ring_write_eq: "ring_write r v = ring_try_write r v"
  by (simp add: ring_write_def ring_try_write_def ring_full_def ring_put_def Let_def)

lemma ring_read_eq: "ring_read r = ring_try_read r"
  by (simp add: ring_read_def ring_try_read_def ring_empty_def ring_get_def Let_def)

interpretation spsc_try: try_queue ring_inv ring_content ring_cap ring_write ring_read
  unfolding ring_write_eq ring_read_eq by (rule ring_try.try_queue_axioms)

text \<open>
  the lock-free ring passes its own single-threaded test too, for every well-formed empty ring.
\<close>

theorem spsc_single_thread_passes:
  assumes "ring_inv r" and "ring_content r = []"
  shows "\<exists>r'. test_single_thread r = Some r' \<and> ring_inv r' \<and> ring_content r' = []"
  using spsc_try.single_thread_test_ok [OF assms, of "rcapacity r"]
  by (auto simp: test_single_thread_def ring_cap_def)

definition small_ring :: ring where
  "small_ring = \<lparr>rcapacity = 2, rmask = 1, rbuf = Some [0, 0], rhead = 0xFFFFFFFFFFFFFFFF, rtail = 0xFFFFFFFFFFFFFFFF\<rparr>"

lemma small_ring_ok: "ring_inv small_ring" "ring_content small_ring = []" "rbuf small_ring = Some [0, 0]"
proof -
  show "ring_inv small_ring"
    unfolding ring_inv_def by (intro exI [of _ 1]) (simp add: small_ring_def)
qed (simp_all add: small_ring_def ring_content_def)

theorem spsc_single_thread_passes_witness:
  "\<exists>r'. test_single_thread small_ring = Some r' \<and> ring_inv r' \<and> ring_content r' = []"
  by (rule spsc_single_thread_passes) (rule small_ring_ok)+

text \<open>
  The two spinning threads can always finish: from every reachable state some continuation
  delivers every value, so neither a full nor an empty ring nor a stale load can block them for good.
\<close>

theorem spsc_can_finish:
  assumes "ring_inv r" and "ring_content r = []" and "rbuf r = Some b" and "spsc_reach r b vs s"
  shows "\<exists>s'. (spsc_step (rtail r))\<^sup>*\<^sup>* s s' \<and> recvd s' = vs"
proof -
  obtain k where "spsc_inv k (rtail r) vs s" using spsc_inv_reach [OF assms] .
  then show ?thesis using can_finish by (auto simp: can_def)
qed

theorem spsc_can_finish_witness:
  "\<exists>s'. (spsc_step (rtail small_ring))\<^sup>*\<^sup>* (spsc_start small_ring [0, 0] [5, 6, 7]) s' \<and> recvd s' = [5, 6, 7]"
  by (rule spsc_can_finish [OF small_ring_ok]) (simp add: spsc_reach_def)

text \<open>
  C1: the lock-free ring under concurrency, with every interleaving of the two threads' memory accesses and
  every stale value an acquire load may return: what the consumer has taken is a prefix of what the
  producer was given, at most the capacity is in flight, both threads index inside the buffer,
  and they never access the same slot at the same time.
\<close>

theorem spsc_fifo_race_free:
  assumes "ring_inv r" and "ring_content r = []" and "rbuf r = Some b" and "spsc_reach r b vs s"
  shows "recvd s = take (length (recvd s)) vs
    \<and> length (sent s) \<le> length (recvd s) + length (sbuf s)
    \<and> \<not> (ppc s = P_Store_Slot \<and> length (sbuf s) \<le> unat (phead s AND smask s))
    \<and> \<not> (cpc s = C_Load_Slot \<and> length (sbuf s) \<le> unat (ctail s AND smask s))
    \<and> \<not> (ppc s = P_Store_Slot \<and> cpc s = C_Load_Slot \<and> phead s AND smask s = ctail s AND smask s)"
proof -
  obtain k where inv: "spsc_inv k (rtail r) vs s" using spsc_inv_reach [OF assms] .
  then have m: "mem_inv k (rtail r) vs s" and p: "prod_inv k (rtail r) s" and c: "cons_inv (rtail r) s"
    by (simp_all add: spsc_inv_def)
  have len: "length (sbuf s) = 2 ^ k" "sent s @ todo s = vs" "recvd s = take (length (recvd s)) (sent s)"
    using m by (simp_all add: mem_inv_def)
  have le: "length (recvd s) \<le> cseen s" "cseen s \<le> length (sent s)" "pseen s \<le> length (recvd s)"
      "length (sent s) \<le> pseen s + 2 ^ k"
    using p c by (simp_all add: prod_inv_def cons_inv_def)
  have pre: "recvd s = take (length (recvd s)) vs"
    unfolding len(2) [symmetric] using len(3) le by simp
  have pidx: "unat (phead s AND smask s) = slot s (rtail r) (length (sent s))"
      "length (sent s) < pseen s + 2 ^ k" if "ppc s = P_Store_Slot"
    using p that slot_of_counter [OF m, of "length (sent s)"] by (simp_all add: prod_inv_def)
  have cidx: "unat (ctail s AND smask s) = slot s (rtail r) (length (recvd s))"
      "length (recvd s) < cseen s" if "cpc s = C_Load_Slot"
    using c that slot_of_counter [OF m, of "length (recvd s)"] by (simp_all add: cons_inv_def)
  have "phead s AND smask s \<noteq> ctail s AND smask s" if "ppc s = P_Store_Slot" "cpc s = C_Load_Slot"
  proof -
    have "slot s (rtail r) (length (recvd s)) \<noteq> slot s (rtail r) (length (sent s))"
      using pidx(2) [OF that(1)] cidx(2) [OF that(2)] le by (intro slot_distinct [OF m]) linarith+
    then show ?thesis using pidx(1) [OF that(1)] cidx(1) [OF that(2)] by metis
  qed
  moreover have "length (sent s) \<le> length (recvd s) + length (sbuf s)" using le len(1) by linarith
  moreover have "unat (phead s AND smask s) < length (sbuf s)" if "ppc s = P_Store_Slot"
    unfolding pidx(1) [OF that] by (rule slot_less [OF m])
  moreover have "unat (ctail s AND smask s) < length (sbuf s)" if "cpc s = C_Load_Slot"
    unfolding cidx(1) [OF that] by (rule slot_less [OF m])
  ultimately show ?thesis using pre by (meson not_less)
qed

theorem spsc_fifo_race_free_witness:
  "\<exists>s. spsc_reach small_ring [0, 0] [5, 6, 7] s \<and> recvd s = [5, 6, 7] \<and> length (sent s) \<le> 3 + length (sbuf s)
    \<and> \<not> (ppc s = P_Store_Slot \<and> cpc s = C_Load_Slot \<and> phead s AND smask s = ctail s AND smask s)"
proof -
  obtain s where s: "(spsc_step (rtail small_ring))\<^sup>*\<^sup>* (spsc_start small_ring [0, 0] [5, 6, 7]) s" "recvd s = [5, 6, 7]"
    using spsc_can_finish_witness by blast
  then have "spsc_reach small_ring [0, 0] [5, 6, 7] s" by (simp add: spsc_reach_def)
  then show ?thesis using spsc_fifo_race_free [OF small_ring_ok, of "[5, 6, 7]" s] s(2) by auto
qed

end
