(* ===== verification/Ring_Main.thy ===== *)
theory Ring_Main
  imports Ring_Threads Spsc
begin

text \<open>
  \<open>main\<close> of \<open>SPSC_Ring_buffer/rb_lock.c\<close> and of \<open>SPSC_Ring_buffer/rb.c\<close>: the capacity from the command line, \<open>init_ring\<close>, the
  single-threaded test and the start of the two-thread test.  The two functions are the same text over the \<open>init_ring\<close> and
  \<open>test_single_thread\<close> of their file, so they are two instances of one definition.

  \<open>argc\<close>, the value \<open>c\<close> that \<open>atol\<close> gives, \<open>malloc\<close> and the results of the two \<open>pthread_create\<close> calls are arguments.  The result is \<open>Inl 1\<close> for the
  exit status 1, \<open>Inr ring\<close> for the ring the two threads are started on, and \<^const>\<open>None\<close> for a failed \<open>check\<close> or an access
  outside the buffer.
\<close>

subsection \<open>The code\<close>

definition N_ITEMS :: nat where
  "N_ITEMS = 2 ^ 22"

definition main_capacity :: "int \<Rightarrow> int \<Rightarrow> u64 option" where
  "main_capacity argc c =
     (if argc > 2 then None
      else if argc = 2 then (if c \<le> 0 then None else Some (next_pow2 (word_of_int c)))
      else Some 1024)"

definition ring_main ::
  "((u64 \<Rightarrow> u64 list option) \<Rightarrow> ring \<Rightarrow> u64 \<Rightarrow> int \<times> ring) \<Rightarrow> (ring \<Rightarrow> ring option) \<Rightarrow>
   (u64 \<Rightarrow> u64 list option) \<Rightarrow> ring \<Rightarrow> int \<Rightarrow> int \<Rightarrow> bool \<Rightarrow> bool \<Rightarrow> (int + ring) option" where
  "ring_main init single_thread malloc junk argc c cons_ok prod_ok =
     (case main_capacity argc c of
        None \<Rightarrow> Some (Inl 1)
      | Some capacity \<Rightarrow>
          (let (res, ring) = init malloc junk capacity in
           if res < 0 then Some (Inl 1)
           else do {
             ring \<leftarrow> single_thread ring;
             if \<not> cons_ok \<or> \<not> prod_ok then Some (Inl 1) else Some (Inr ring)
           }))"

definition rb_lock_main :: "(u64 \<Rightarrow> u64 list option) \<Rightarrow> ring \<Rightarrow> int \<Rightarrow> int \<Rightarrow> bool \<Rightarrow> bool \<Rightarrow> (int + ring) option" where
  "rb_lock_main = ring_main Ring_Lock.init_ring Ring_Lock.test_single_thread"

definition rb_main :: "(u64 \<Rightarrow> u64 list option) \<Rightarrow> ring \<Rightarrow> int \<Rightarrow> int \<Rightarrow> bool \<Rightarrow> bool \<Rightarrow> (int + ring) option" where
  "rb_main = ring_main Spsc.init_ring Spsc.test_single_thread"

subsection \<open>The capacity\<close>

definition requested :: "int \<Rightarrow> int \<Rightarrow> nat" where
  "requested argc c = (if argc = 2 then 2 ^ (LEAST k. nat c \<le> 2 ^ k) else 1024)"

lemma least_exp_le: "n \<le> 2 ^ m \<Longrightarrow> (LEAST k. n \<le> (2 :: nat) ^ k) \<le> m"
  by (rule Least_le)

lemma main_capacity_eq:
  assumes "c \<le> 2 ^ 60"
  shows "main_capacity argc c = None \<longleftrightarrow> argc > 2 \<or> argc = 2 \<and> c \<le> 0"
    and "main_capacity argc c = Some capacity \<Longrightarrow> unat capacity = requested argc c \<and> unat capacity \<le> 2 ^ 60"
proof -
  show "main_capacity argc c = None \<longleftrightarrow> argc > 2 \<or> argc = 2 \<and> c \<le> 0" by (simp add: main_capacity_def)
  assume cap: "main_capacity argc c = Some capacity"
  show "unat capacity = requested argc c \<and> unat capacity \<le> 2 ^ 60"
  proof (cases "argc = 2")
    case True
    then have c: "0 < c" "capacity = next_pow2 (word_of_int c)" using cap by (auto simp: main_capacity_def split: if_splits)
    have "unat (word_of_int c :: u64) = nat c" using c(1) assms by (simp add: unat_eq_nat_uint uint_word_of_int)
    moreover have k: "(LEAST k. nat c \<le> 2 ^ k) \<le> 60" using assms by (intro least_exp_le) simp
    ultimately have "unat capacity = 2 ^ (LEAST k. nat c \<le> 2 ^ k)" using next_pow2_least [of "word_of_int c"] c(2) by (simp add: Let_def)
    moreover have "(2 :: nat) ^ (LEAST k. nat c \<le> 2 ^ k) \<le> 2 ^ 60" using k by (rule power_increasing) simp
    ultimately show ?thesis using True by (simp add: requested_def)
  next
    case False
    then show ?thesis using cap by (auto simp: main_capacity_def requested_def split: if_splits)
  qed
qed

lemma spsc_init_ring_eq: "Spsc.init_ring = Ring_Lock.init_ring"
  by (intro ext) (simp add: Spsc.init_ring_def Ring_Lock.init_ring_def)

lemma requested_pow2: "\<exists>k. requested argc c = 2 ^ k"
proof (cases "argc = 2")
  case False
  then have "requested argc c = 2 ^ 10" by (simp add: requested_def)
  then show ?thesis by blast
qed (auto simp: requested_def)

lemma capacity_pow2:
  assumes "unat (capacity :: u64) = requested argc c"
  shows "\<exists>k < 64. capacity = 2 ^ k"
proof -
  obtain k where k: "unat capacity = 2 ^ k" using requested_pow2 [of argc c] assms by auto
  have "unat capacity < 2 ^ LENGTH(64)" by (rule unsigned_less)
  then have "(2 :: nat) ^ k < 2 ^ LENGTH(64)" using k by simp
  then have "k < LENGTH(64)" by (rule power_less_imp_less_exp [rotated]) simp
  then have "k < 64" by simp
  moreover from this have "capacity = 2 ^ k" using k by (simp add: word_unat_eq_iff unat_pow2)
  ultimately show ?thesis by blast
qed

subsection \<open>The run up to the two-thread test\<close>

text \<open>The reasons to leave with status 1: the arguments, the memory, the threads.\<close>

definition gives_up :: "(u64 \<Rightarrow> u64 list option) \<Rightarrow> int \<Rightarrow> int \<Rightarrow> bool \<Rightarrow> bool \<Rightarrow> bool" where
  "gives_up malloc argc c cons_ok prod_ok \<longleftrightarrow> argc > 2 \<or> argc = 2 \<and> c \<le> 0
     \<or> malloc (of_nat (requested argc c * 8)) = None \<or> \<not> cons_ok \<or> \<not> prod_ok"

lemma ring_main_result:
  assumes "malloc_u64 malloc" and "c \<le> 2 ^ 60"
    and test: "\<And>r. ring_inv r \<Longrightarrow> ring_content r = [] \<Longrightarrow>
      \<exists>r'. single r = Some r' \<and> ring_inv r' \<and> ring_content r' = [] \<and> ring_cap r' = ring_cap r"
  shows "if gives_up malloc argc c cons_ok prod_ok
    then ring_main Ring_Lock.init_ring single malloc junk argc c cons_ok prod_ok = Some (Inl 1)
    else \<exists>r. ring_main Ring_Lock.init_ring single malloc junk argc c cons_ok prod_ok = Some (Inr r)
          \<and> ring_inv r \<and> ring_content r = [] \<and> ring_cap r = requested argc c"
proof (cases "main_capacity argc c")
  case (Some capacity)
  then have cap: "unat capacity = requested argc c" "unat capacity \<le> 2 ^ 60" using main_capacity_eq(2) [OF assms(2), of argc capacity] by auto
  have args: "\<not> (argc > 2 \<or> argc = 2 \<and> c \<le> 0)" using Some main_capacity_eq(1) [OF assms(2), of argc] by auto
  have bytes: "of_nat (requested argc c * 8) = capacity * 8" using cap(1) by (simp flip: cap(1))
  have init: "fst (Ring_Lock.init_ring malloc junk capacity) = 0 \<longleftrightarrow> malloc (capacity * 8) \<noteq> None"
    using init_ring_ok [OF assms(1), of junk capacity] capacity_pow2 [OF cap(1)] by blast
  have neg: "fst (Ring_Lock.init_ring malloc junk capacity) < 0 \<longleftrightarrow> fst (Ring_Lock.init_ring malloc junk capacity) \<noteq> 0"
    by (simp add: Ring_Lock.init_ring_def split: option.splits)
  obtain res r where r: "Ring_Lock.init_ring malloc junk capacity = (res, r)" by fastforce
  show ?thesis
  proof (cases "malloc (capacity * 8)")
    case None
    then show ?thesis using init neg r Some bytes by (simp add: ring_main_def gives_up_def)
  next
    case mem: (Some b)
    then have "ring_inv r" "ring_content r = []" "ring_cap r = unat capacity"
      using init_ring_ok [OF assms(1), of junk capacity] init r cap(2) by auto
    then obtain r' where "single r = Some r'" "ring_inv r'" "ring_content r' = []" "ring_cap r' = ring_cap r" using test by blast
    then show ?thesis using args mem init neg r Some bytes cap(1) \<open>ring_cap r = unat capacity\<close> by (auto simp: ring_main_def gives_up_def)
  qed
next
  case None
  then show ?thesis using main_capacity_eq(1) [OF assms(2), of argc] by (auto simp: ring_main_def gives_up_def)
qed

lemma spsc_prefix:
  assumes "ring_inv r" and "ring_content r = []" and "rbuf r = Some b" and "spsc_reach r b vs s"
  shows "recvd s = take (length (recvd s)) vs"
proof -
  obtain k where "spsc_inv k (rtail r) vs s" using spsc_inv_reach [OF assms] .
  then have "sent s @ todo s = vs" "recvd s = take (length (recvd s)) (sent s)" by (simp_all add: spsc_inv_def mem_inv_def)
  then obtain ys where "recvd s @ ys = vs" by (metis append_assoc append_take_drop_id)
  then show ?thesis by (metis append_eq_conv_conj)
qed

subsection \<open>Properties\<close>

text \<open>
  C21: \<open>rb_lock\<close> as a whole, for every argument up to \<open>2 ^ 60\<close>: it leaves with status 1 exactly when the arguments are wrong, \<open>malloc\<close> fails or
  a thread cannot be created; otherwise the ring has the smallest power of two that is at least the argument as its capacity, its
  single-threaded test passes, and in the two-thread test that follows the consumer reads \<open>0, 1, 2, \<dots>\<close> in order under every
  interleaving, the threads can always finish, and then all \<open>N_ITEMS\<close> values have been read.
\<close>

theorem rb_lock_main_delivers:
  assumes "malloc_u64 malloc" and "c \<le> 2 ^ 60"
  shows "if gives_up malloc argc c cons_ok prod_ok then rb_lock_main malloc junk argc c cons_ok prod_ok = Some (Inl 1)
    else \<exists>r. rb_lock_main malloc junk argc c cons_ok prod_ok = Some (Inr r) \<and> ring_cap r = requested argc c
      \<and> (\<forall>s. ring_reach r (test_two_threads N_ITEMS) s \<longrightarrow>
           (\<exists>k \<le> N_ITEMS. got (thrs s ! 0) = map of_nat [0..<k])
         \<and> (\<exists>s'. ring_step\<^sup>*\<^sup>* s s' \<and> finished s')
         \<and> (finished s \<longrightarrow> got (thrs s ! 0) = map of_nat [0..<N_ITEMS]))"
proof -
  have "\<exists>r'. Ring_Lock.test_single_thread r = Some r' \<and> ring_inv r' \<and> ring_content r' = [] \<and> ring_cap r' = ring_cap r"
    if "ring_inv r" "ring_content r = []" for r
    using ring_try.single_thread_test_ok [OF that, of "rcapacity r"] by (auto simp: Ring_Lock.test_single_thread_def ring_cap_def)
  from ring_main_result [of malloc c Ring_Lock.test_single_thread, OF assms this, of argc cons_ok prod_ok junk]
  show ?thesis unfolding rb_lock_main_def using ring_two_threads_fifo [where n = N_ITEMS] by (auto split: if_splits)
qed

theorem rb_lock_main_delivers_witness:
  "\<exists>r. rb_lock_main calloc_u64 wrapped_ring 2 5 True True = Some (Inr r) \<and> ring_cap r = requested 2 5"
proof -
  have "\<not> gives_up calloc_u64 2 5 True True" by (simp add: gives_up_def calloc_u64_def)
  then show ?thesis using rb_lock_main_delivers [OF calloc_u64_ok, of 5 2 True True wrapped_ring] by auto
qed

text \<open>
  C28: the same for the lock-free program \<open>rb\<close>: after its capacity, its allocation and its single-threaded test, every reachable state of the two
  spinning threads has consumed a prefix of \<open>0, 1, 2, \<dots>\<close>, and from every such state the threads can still deliver all \<open>N_ITEMS\<close>
  values, whatever stale counter values the loads have returned.
\<close>

theorem rb_main_delivers:
  assumes "malloc_u64 malloc" and "c \<le> 2 ^ 60"
  shows "if gives_up malloc argc c cons_ok prod_ok then rb_main malloc junk argc c cons_ok prod_ok = Some (Inl 1)
    else \<exists>r b. rb_main malloc junk argc c cons_ok prod_ok = Some (Inr r) \<and> ring_cap r = requested argc c \<and> rbuf r = Some b
      \<and> (\<forall>s. spsc_reach r b (map of_nat [0..<N_ITEMS]) s \<longrightarrow>
           recvd s = take (length (recvd s)) (map of_nat [0..<N_ITEMS])
         \<and> (\<exists>s'. (spsc_step (rtail r))\<^sup>*\<^sup>* s s' \<and> recvd s' = map of_nat [0..<N_ITEMS]))"
proof -
  have test: "\<exists>r'. Spsc.test_single_thread r = Some r' \<and> ring_inv r' \<and> ring_content r' = [] \<and> ring_cap r' = ring_cap r"
    if "ring_inv r" "ring_content r = []" for r
    using spsc_try.single_thread_test_ok [OF that, of "rcapacity r"] by (auto simp: Spsc.test_single_thread_def ring_cap_def)
  note main = ring_main_result [of malloc c Spsc.test_single_thread, OF assms test, of argc cons_ok prod_ok junk, folded spsc_init_ring_eq]
  show ?thesis
  proof (cases "gives_up malloc argc c cons_ok prod_ok")
    case False
    then obtain r where r: "rb_main malloc junk argc c cons_ok prod_ok = Some (Inr r)" "ring_inv r" "ring_content r = []" "ring_cap r = requested argc c"
      using main by (auto simp: rb_main_def)
    then obtain b where "rbuf r = Some b" by (auto simp: ring_inv_def)
    then show ?thesis using False r spsc_prefix [OF r(2,3)] spsc_can_finish [OF r(2,3)] by auto
  qed (use main in \<open>simp add: rb_main_def\<close>)
qed

theorem rb_main_delivers_witness:
  "\<exists>r. rb_main calloc_u64 wrapped_ring 1 0 True True = Some (Inr r) \<and> ring_cap r = 1024"
proof -
  have "\<not> gives_up calloc_u64 1 0 True True" by (simp add: gives_up_def calloc_u64_def)
  then show ?thesis using rb_main_delivers [OF calloc_u64_ok, of 0 1 True True wrapped_ring] by (auto simp: requested_def)
qed

end
