(* ===== verification/Bounded_Buffer.thy ===== *)
theory Bounded_Buffer
  imports Monitor
begin

text \<open>
  \<open>Interview/bounded_buffer.c\<close>: a bounded queue for several producers and consumers.  The
  structure, \<open>bq_init\<close> with its undo chain, \<open>bq_destroy\<close>, the critical sections of \<open>bq_put\<close> and
  \<open>bq_get\<close>, the monitor protocol around them (an instance of theory \<open>Monitor\<close>), the two
  thread functions and what \<open>main\<close> asserts after joining them.

  \<open>bq_init\<close> takes what \<open>malloc\<close> and the three \<open>pthread\<close> initialisers return as parameters and returns,
  beside the C result, the acquisitions and releases it made in order.
\<close>

subsection \<open>The code\<close>

record bq =
  bbuf :: "int list option"
  bhead :: u64
  btail :: u64
  bcount :: u64
  bcap :: u64

datatype resource = Buf | Mutex | Not_Empty | Not_Full

datatype event = Acquire resource | Release resource

definition bq_destroy :: "bq \<Rightarrow> bq \<times> event list" where
  "bq_destroy q = (q\<lparr>bbuf := None\<rparr>,
     [Release Not_Full, Release Not_Empty, Release Mutex, Release Buf])"

definition bq_init ::
  "(u64 \<Rightarrow> int list option) \<Rightarrow> int \<Rightarrow> int \<Rightarrow> int \<Rightarrow> bq \<Rightarrow> u64 \<Rightarrow> bool \<times> bq \<times> event list" where
  "bq_init malloc mutex_init not_empty_init not_full_init q cap =
     (if cap = 0 then (False, q, [])
      else let q = q\<lparr>bhead := 0, btail := 0, bcount := 0, bcap := cap\<rparr> in
      case malloc (cap * 4) of
        None \<Rightarrow> (False, q\<lparr>bbuf := None\<rparr>, [])
      | Some b \<Rightarrow>
        let q = q\<lparr>bbuf := Some b\<rparr>;
            err_buf = (\<lambda>tr. (False, q\<lparr>bbuf := None\<rparr>, tr @ [Release Buf]));
            err_mutex = (\<lambda>tr. err_buf (tr @ [Release Mutex]));
            err_not_empty = (\<lambda>tr. err_mutex (tr @ [Release Not_Empty])) in
        if mutex_init \<noteq> 0 then err_buf [Acquire Buf]
        else if not_empty_init \<noteq> 0 then err_mutex [Acquire Buf, Acquire Mutex]
        else if not_full_init \<noteq> 0 then err_not_empty [Acquire Buf, Acquire Mutex, Acquire Not_Empty]
        else (True, q, [Acquire Buf, Acquire Mutex, Acquire Not_Empty, Acquire Not_Full]))"

definition bq_full :: "bq \<Rightarrow> bool" where
  "bq_full q \<longleftrightarrow> bcount q = bcap q"

definition bq_empty :: "bq \<Rightarrow> bool" where
  "bq_empty q \<longleftrightarrow> bcount q = 0"

definition bq_put :: "bq \<Rightarrow> int \<Rightarrow> bq option" where
  "bq_put q v =
     do { b \<leftarrow> bbuf q;
          b' \<leftarrow> wr b (unat (bhead q)) v;
          Some (q\<lparr>bbuf := Some b', bhead := (bhead q + 1) mod bcap q, bcount := bcount q + 1\<rparr>) }"

definition bq_get :: "bq \<Rightarrow> (int \<times> bq) option" where
  "bq_get q =
     do { b \<leftarrow> bbuf q;
          v \<leftarrow> rd b (unat (btail q));
          Some (v, q\<lparr>btail := (btail q + 1) mod bcap q, bcount := bcount q - 1\<rparr>) }"

text \<open>The two blocking calls, lock to unlock, by any number of threads.\<close>

abbreviation bq_step :: "(bq, int) mon \<Rightarrow> (bq, int) mon \<Rightarrow> bool" where
  "bq_step \<equiv> mon_step bq_full bq_empty bq_put bq_get"

definition bq_reach :: "bq \<Rightarrow> int job list \<Rightarrow> (bq, int) mon \<Rightarrow> bool" where
  "bq_reach q js = mon_reach bq_full bq_empty bq_put bq_get (mon_init q js)"

text \<open>
  \<open>producer\<close> puts \<open>id * n + i\<close> for \<open>i\<close> from 0 below \<open>n\<close>, computed as \<open>size_t\<close> and converted to \<open>int\<close>;
  \<open>consumer\<close> makes \<open>n\<close> calls and counts each value in \<open>seen\<close>; \<open>main\<close> starts three of each.
\<close>

definition producer :: "u64 \<Rightarrow> u64 \<Rightarrow> int job" where
  "producer ident n = Puts (map (\<lambda>i. sint (ucast (ident * n + of_nat i) :: u32)) [0..<unat n])"

definition consumer :: "u64 \<Rightarrow> int job" where
  "consumer n = Gets (unat n)"

definition main_jobs :: "u64 \<Rightarrow> int job list" where
  "main_jobs n = map (\<lambda>i. producer (of_nat i) n) [0..<3] @ replicate 3 (consumer n)"

definition seen :: "(bq, int) mon \<Rightarrow> nat \<Rightarrow> nat" where
  "seen s i = count (total (mset \<circ> got) (thrs s)) (int i)"

text \<open>
  \<open>main\<close> around the threads: the lists tell which of the \<open>pthread_create\<close> and \<open>pthread_join\<close> calls for the writers and the readers succeed.
  The result is the exit status and how many threads that were started have not been joined when \<open>bq_destroy\<close> runs; \<open>None\<close> is the failure of
  the final assertion.
\<close>

definition running :: "bool list \<Rightarrow> nat" where
  "running oks = length (takeWhile id oks)"

definition bq_main :: "bool \<Rightarrow> bool list \<Rightarrow> bool list \<Rightarrow> bool list \<Rightarrow> bool list \<Rightarrow> nat \<Rightarrow> (nat \<Rightarrow> nat) \<Rightarrow> (int \<times> nat) option" where
  "bq_main init_ok writers readers wjoins rjoins n counts =
     (if \<not> init_ok then Some (1, 0)
      else if \<not> list_all id writers then Some (1, running writers)
      else if \<not> list_all id readers then Some (1, length writers + running readers)
      else if \<not> list_all id wjoins then Some (1, length writers + length readers - running wjoins)
      else if \<not> list_all id rjoins then Some (1, length readers - running rjoins)
      else do { c_assert (list_all (\<lambda>i. counts i = 1) [0..<3 * n]); Some (0, 0) })"

subsection \<open>Invariant and abstraction\<close>

definition bq_inv :: "bq \<Rightarrow> bool" where
  "bq_inv q \<longleftrightarrow> (\<exists>b. bbuf q = Some b \<and> length b = unat (bcap q)) \<and> 0 < bcap q \<and> btail q < bcap q
     \<and> bcount q \<le> bcap q \<and> unat (bhead q) = (unat (btail q) + unat (bcount q)) mod unat (bcap q)"

definition bq_content :: "bq \<Rightarrow> int list" where
  "bq_content q = (case bbuf q of None \<Rightarrow> []
     | Some b \<Rightarrow> map (\<lambda>i. b ! ((unat (btail q) + i) mod length b)) [0..<unat (bcount q)])"

definition bq_capacity :: "bq \<Rightarrow> nat" where
  "bq_capacity q = unat (bcap q)"

lemma bq_invE:
  assumes "bq_inv q"
  obtains b where "bbuf q = Some b" "length b = unat (bcap q)" "0 < unat (bcap q)"
    "unat (btail q) < unat (bcap q)" "unat (bcount q) \<le> unat (bcap q)"
    "unat (bhead q) = (unat (btail q) + unat (bcount q)) mod unat (bcap q)"
    "bq_content q = map (\<lambda>i. b ! ((unat (btail q) + i) mod length b)) [0..<unat (bcount q)]"
  using assms by (auto simp: bq_inv_def bq_content_def word_less_nat_alt word_le_nat_alt unat_gt_0)

lemma unat_inc_mod:
  assumes "unat (x :: u64) < unat c"
  shows "unat ((x + 1) mod c) = (unat x + 1) mod unat c"
proof -
  have "unat x + 1 < 2 ^ LENGTH(64)"
    using assms unsigned_less [of c, where ?'a = nat] by linarith
  then have "unat (x + 1) = unat x + 1" by (rule unat_add_1)
  then show ?thesis by (simp add: unat_mod)
qed

lemma mod_add_neq:
  assumes "i < j" and "j < (m :: nat)"
  shows "(a + j) mod m \<noteq> (a + i) mod m"
proof
  assume "(a + j) mod m = (a + i) mod m"
  then have "m dvd j - i" using assms mod_eq_dvd_iff_nat [of "a + i" "a + j" m] by simp
  with assms show False by (simp add: nat_dvd_not_less)
qed

lemma bq_put_ok:
  assumes inv: "bq_inv q" and nf: "\<not> bq_full q"
  shows "\<exists>q'. bq_put q v = Some q' \<and> bq_inv q' \<and> bq_content q' = bq_content q @ [v]
    \<and> bq_capacity q' = bq_capacity q"
  using inv
proof (rule bq_invE)
  fix b
  assume b: "bbuf q = Some b" "length b = unat (bcap q)" "0 < unat (bcap q)"
    "unat (btail q) < unat (bcap q)" "unat (bcount q) \<le> unat (bcap q)"
    "unat (bhead q) = (unat (btail q) + unat (bcount q)) mod unat (bcap q)"
    and c: "bq_content q = map (\<lambda>i. b ! ((unat (btail q) + i) mod length b)) [0..<unat (bcount q)]"
  let ?q = "q\<lparr>bbuf := Some (b[unat (bhead q) := v]), bhead := (bhead q + 1) mod bcap q, bcount := bcount q + 1\<rparr>"
  have h: "unat (bhead q) < unat (bcap q)" using b(3,6) by simp
  have lt: "unat (bcount q) < unat (bcap q)"
    using nf b(5) by (simp add: bq_full_def word_unat_eq_iff)
  then have "unat (bcount q) + 1 < 2 ^ LENGTH(64)"
    using unsigned_less [of "bcap q", where ?'a = nat] by linarith
  then have n: "unat (bcount q + 1) = Suc (unat (bcount q))" using unat_add_1 by fastforce
  have "bq_put q v = Some ?q" using b h by (simp add: bq_put_def)
  moreover have "bq_inv ?q"
    unfolding bq_inv_def using b lt n h
    by (simp add: word_less_nat_alt word_le_nat_alt unat_inc_mod mod_Suc_eq)
  moreover have "bq_content ?q = bq_content q @ [v]"
  proof (rule nth_equalityI)
    fix i
    assume "i < length (bq_content ?q)"
    then have i: "i < Suc (unat (bcount q))" by (simp add: bq_content_def n)
    show "bq_content ?q ! i = (bq_content q @ [v]) ! i"
    proof (cases "i = unat (bcount q)")
      case True
      with b h show ?thesis by (simp add: bq_content_def n c nth_append del: upt_Suc)
    next
      case False
      with i have "i < unat (bcount q)" by simp
      with b lt mod_add_neq [of i "unat (bcount q)" "unat (bcap q)" "unat (btail q)"] show ?thesis
        by (simp add: bq_content_def n c nth_append del: upt_Suc)
    qed
  qed (simp add: bq_content_def n c b)
  ultimately show ?thesis by (auto simp: bq_capacity_def)
qed

lemma bq_get_ok:
  assumes inv: "bq_inv q" and ne: "\<not> bq_empty q"
  shows "\<exists>q'. bq_get q = Some (hd (bq_content q), q') \<and> bq_inv q' \<and> bq_content q' = tl (bq_content q)
    \<and> bq_capacity q' = bq_capacity q"
  using inv
proof (rule bq_invE)
  fix b
  assume b: "bbuf q = Some b" "length b = unat (bcap q)" "0 < unat (bcap q)"
    "unat (btail q) < unat (bcap q)" "unat (bcount q) \<le> unat (bcap q)"
    "unat (bhead q) = (unat (btail q) + unat (bcount q)) mod unat (bcap q)"
    and c: "bq_content q = map (\<lambda>i. b ! ((unat (btail q) + i) mod length b)) [0..<unat (bcount q)]"
  let ?q = "q\<lparr>btail := (btail q + 1) mod bcap q, bcount := bcount q - 1\<rparr>"
  have n: "unat (bcount q) = Suc (unat (bcount q - 1))"
    using ne by (simp add: bq_empty_def unat_minus_one unat_gt_0)
  have t: "unat ((btail q + 1) mod bcap q) = (unat (btail q) + 1) mod unat (bcap q)"
    using b(4) by (rule unat_inc_mod)
  have split: "bq_content q = b ! unat (btail q) # bq_content ?q"
  proof -
    have "bq_content ?q = map (\<lambda>i. b ! ((unat (btail q) + Suc i) mod length b)) [0..<unat (bcount q - 1)]"
      using b by (simp add: bq_content_def t mod_simps)
    then show ?thesis using b by (simp add: c n map_upt_Suc del: upt_Suc)
  qed
  have "bq_get q = Some (b ! unat (btail q), ?q)" using b by (simp add: bq_get_def)
  moreover have "bq_inv ?q"
    unfolding bq_inv_def using b n t
    by (auto simp: word_less_nat_alt word_le_nat_alt mod_simps)
  ultimately show ?thesis using split by (auto simp: bq_capacity_def)
qed

interpretation bq_fifo: bounded_fifo bq_inv bq_content bq_capacity bq_full bq_empty bq_put bq_get
proof unfold_locales
  fix q :: bq
  assume q: "bq_inv q"
  then show "0 < bq_capacity q" "length (bq_content q) \<le> bq_capacity q"
      "bq_full q = (length (bq_content q) = bq_capacity q)" "bq_empty q = (bq_content q = [])"
    by (elim bq_invE; auto simp: bq_capacity_def bq_full_def bq_empty_def word_unat_eq_iff)+
qed (use bq_put_ok bq_get_ok in auto)

subsection \<open>Properties\<close>

definition malloc_int :: "(u64 \<Rightarrow> int list option) \<Rightarrow> bool" where
  "malloc_int malloc \<longleftrightarrow> (\<forall>n xs. malloc n = Some xs \<longrightarrow> length xs = unat n div 4)"

definition calloc_int :: "u64 \<Rightarrow> int list option" where
  "calloc_int n = Some (replicate (unat n div 4) 0)"

lemma calloc_int_ok: "malloc_int calloc_int"
  by (simp add: malloc_int_def calloc_int_def)

text \<open>
  C38: \<open>bq_init\<close> either succeeds, and then holds its four resources, which \<open>bq_destroy\<close> releases in
  reverse order, and (below \<open>2 ^ 61\<close> elements) the queue is well formed, empty and of the capacity asked
  for; or it fails, and then has released exactly what it acquired, in reverse order, whichever of
  its steps failed.
\<close>

theorem bq_init_all_or_nothing:
  assumes "malloc_int malloc" and "bq_init malloc m ne nf q cap = (ok, q', tr)"
  shows "\<exists>acq. tr = map Acquire acq @ (if ok then [] else map Release (rev acq))
    \<and> (ok \<longrightarrow> snd (bq_destroy q') = map Release (rev acq))
    \<and> (ok \<and> unat cap < 2 ^ 61 \<longrightarrow> bq_inv q' \<and> bq_content q' = [] \<and> bq_capacity q' = unat cap)"
proof (cases "cap = 0 \<or> malloc (cap * 4) = None")
  case True
  with assms(2) have "tr = []" "\<not> ok" by (auto simp: bq_init_def Let_def split: if_splits)
  then show ?thesis by (intro exI [of _ "[]"]) simp
next
  case False
  then obtain b where cap: "0 < unat cap" and b: "malloc (cap * 4) = Some b" by (auto simp: unat_gt_0)
  show ?thesis
  proof (cases ok)
    case True
    with False b assms(2) have tr: "tr = map Acquire [Buf, Mutex, Not_Empty, Not_Full]"
        and q': "q' = q\<lparr>bhead := 0, btail := 0, bcount := 0, bcap := cap, bbuf := Some b\<rparr>"
      by (auto simp: bq_init_def Let_def split: if_splits)
    have "length b = unat cap" if "unat cap < 2 ^ 61"
    proof -
      have "unat (cap * 4) = unat cap * 4" using that by (simp add: unat_word_ariths)
      then show ?thesis using assms(1) b by (simp add: malloc_int_def)
    qed
    with tr True cap show ?thesis
      by (intro exI [of _ "[Buf, Mutex, Not_Empty, Not_Full]"])
         (auto simp: q' bq_destroy_def bq_inv_def bq_content_def bq_capacity_def word_less_nat_alt)
  next
    case fail: False
    with False b assms(2) consider "tr = map Acquire [Buf] @ map Release [Buf]"
      | "tr = map Acquire [Buf, Mutex] @ map Release [Mutex, Buf]"
      | "tr = map Acquire [Buf, Mutex, Not_Empty] @ map Release [Not_Empty, Mutex, Buf]"
      by (auto simp: bq_init_def Let_def split: if_splits)
    then show ?thesis
      by cases (use fail in \<open>intro exI [of _ "[Buf]"] exI [of _ "[Buf, Mutex]"] exI [of _ "[Buf, Mutex, Not_Empty]"]; simp; fail\<close>)+
  qed
qed

theorem bq_init_all_or_nothing_witness:
  "bq_inv (fst (snd (bq_init calloc_int 0 0 0 \<lparr>bbuf = None, bhead = 9, btail = 9, bcount = 9, bcap = 9\<rparr> 4)))"
proof -
  let ?q = "\<lparr>bbuf = None, bhead = 9, btail = 9, bcount = 9, bcap = 9\<rparr>"
  have "bq_init calloc_int 0 0 0 ?q 4 = (True, \<lparr>bbuf = Some (replicate 4 0), bhead = 0, btail = 0, bcount = 0, bcap = 4\<rparr>,
      [Acquire Buf, Acquire Mutex, Acquire Not_Empty, Acquire Not_Full])"
    by (simp add: bq_init_def calloc_int_def Let_def)
  with bq_init_all_or_nothing [OF calloc_int_ok this] show ?thesis by auto
qed

text \<open>
  whatever the threads and their interleaving, spurious wake-ups included, the values come out of
  the queue in exactly the order they went in, the queue never holds more than its capacity, and
  at most one thread is inside the mutex.
\<close>

theorem bq_fifo_order:
  assumes "bq_inv q" and "bq_content q = []" and "bq_reach q js s"
  shows "puts s = gets s @ bq_content (mq s) \<and> length (bq_content (mq s)) \<le> bq_capacity q
    \<and> cnt holds (thrs s) \<le> 1"
  using bq_fifo.fifo_and_exclusion [OF _ assms(1,2)] assms(3) by (simp add: bq_reach_def)

definition empty_bq :: bq where
  "empty_bq = \<lparr>bbuf = Some [0, 0, 0, 0], bhead = 0, btail = 0, bcount = 0, bcap = 4\<rparr>"

lemma empty_bq_ok: "bq_inv empty_bq" "bq_content empty_bq = []" "bq_capacity empty_bq = 4"
  by (simp_all add: empty_bq_def bq_inv_def bq_content_def bq_capacity_def)

theorem bq_fifo_order_witness:
  "length (bq_content (mq (mon_init empty_bq [Puts [7 :: int], Gets 1]))) \<le> 4"
  using bq_fifo_order [OF empty_bq_ok(1,2), of "[Puts [7], Gets 1]" "mon_init empty_bq [Puts [7], Gets 1]"]
  by (simp add: bq_reach_def mon_reach.start empty_bq_ok)

lemma sint_ucast_of_nat:
  assumes "k < 2 ^ 31"
  shows "sint (ucast (of_nat k :: u64) :: u32) = int k"
proof -
  have "(ucast (of_nat k :: u64) :: u32) = of_nat k"
    by (simp add: unsigned_of_nat take_bit_nat_eq_self assms order_less_trans [OF assms])
  moreover have "sint (of_nat k :: u32) = int k"
    using assms by (simp add: signed_of_nat signed_take_bit_int_eq_self)
  ultimately show ?thesis by simp
qed

lemma producer_values:
  assumes "ident * unat n + unat n \<le> 2 ^ 31"
  shows "producer (of_nat ident) n = Puts (map int [ident * unat n ..< ident * unat n + unat n])"
proof -
  have "sint (ucast (of_nat ident * n + of_nat i) :: u32) = int (ident * unat n + i)" if "i < unat n" for i
  proof -
    have "of_nat ident * n + of_nat i = (of_nat (ident * unat n + i) :: u64)" by simp
    with assms that show ?thesis by (simp only: sint_ucast_of_nat)
  qed
  then show ?thesis
    by (simp add: producer_def) (intro nth_equalityI; simp)
qed

lemma planned_main:
  assumes "3 * unat n \<le> 2 ^ 31"
  shows "planned (main_jobs n) = mset (map int [0..<3 * unat n])" "total gets_of (main_jobs n) = 3 * unat n"
proof -
  let ?m = "unat n"
  have split: "[0..<3 * ?m] = [0..<?m] @ [?m..<2 * ?m] @ [2 * ?m..<3 * ?m]"
    using upt_add_eq_append [of 0 "?m" "2 * ?m"] upt_add_eq_append [of "?m" "2 * ?m" "?m"] by (simp add: algebra_simps)
  have jobs: "main_jobs n = [Puts (map int [0..<?m]), Puts (map int [?m..<2 * ?m]), Puts (map int [2 * ?m..<3 * ?m]),
      Gets ?m, Gets ?m, Gets ?m]"
  proof -
    have "[0..<3] = [0, 1, 2 :: nat]" "replicate 3 (Gets ?m) = [Gets ?m, Gets ?m, Gets ?m :: int job]"
      by (simp_all add: upt_rec numeral_3_eq_3)
    moreover have "producer (of_nat 0) n = Puts (map int [0..<?m])"
      using producer_values [of 0 n] assms by simp
    moreover have "producer (of_nat 1) n = Puts (map int [?m..<2 * ?m])"
      using producer_values [of 1 n] assms by (simp add: mult_2)
    moreover have "producer (of_nat 2) n = Puts (map int [2 * ?m..<3 * ?m])"
      using producer_values [of 2 n] assms by (simp del: of_nat_numeral)
    ultimately show ?thesis by (simp add: main_jobs_def consumer_def del: of_nat_numeral of_nat_1 of_nat_0 of_nat_Suc)
  qed
  show "planned (main_jobs n) = mset (map int [0..<3 * ?m])"
    unfolding split jobs by (simp add: planned_def total_def)
  show "total gets_of (main_jobs n) = 3 * ?m"
    unfolding jobs by (simp add: total_def)
qed

lemma bq_main_balanced: "3 * unat n \<le> 2 ^ 31 \<Longrightarrow> size (planned (main_jobs n)) = total gets_of (main_jobs n)"
  by (simp add: planned_main)

lemma bq_main_all_seen:
  assumes "bq_inv q" and "bq_content q = []" and "3 * unat n \<le> 2 ^ 31" and "bq_reach q (main_jobs n) s" and "finished s"
    and "i < 3 * unat n"
  shows "seen s i = 1"
proof -
  have "total (mset \<circ> got) (thrs s) = mset (map int [0..<3 * unat n])"
    using bq_fifo.all_delivered [OF _ assms(1,2) bq_main_balanced [OF assms(3)] assms(5)] assms(4) planned_main [OF assms(3)]
    by (simp add: bq_reach_def)
  moreover have "distinct (map int [0..<3 * unat n])" by (simp add: distinct_map inj_on_def)
  then have "count (mset (map int [0..<3 * unat n])) (int i) = 1"
    using assms(6) by (simp add: distinct_count_atmost_1)
  ultimately show ?thesis by (simp add: seen_def)
qed

text \<open>
  C7: On an initialised and empty queue, and for \<open>3 * n\<close> at most \<open>2 ^ 31\<close>, as the items are \<open>int\<close>s (\<open>main\<close> has 100000), \<open>main\<close> with three producers and three consumers of \<open>n\<close> items each cannot deadlock or lose a wake-up:
  from every reachable state the threads can run to completion, every step of theirs brings the
  end nearer, and whenever they have all returned the assertion \<open>seen[i] == 1\<close> holds for every \<open>i\<close>.
\<close>

theorem bq_main_delivers:
  assumes "bq_inv q" and "bq_content q = []" and "3 * unat n \<le> 2 ^ 31" and "bq_reach q (main_jobs n) s"
  shows "(\<exists>s'. bq_step\<^sup>*\<^sup>* s s' \<and> finished s') \<and> (\<forall>s'. bq_step s s' \<longrightarrow> steps_left s' < steps_left s)
    \<and> (finished s \<longrightarrow> (\<forall>i < 3 * unat n. seen s i = 1))"
proof -
  have r: "mon_reach bq_full bq_empty bq_put bq_get (mon_init q (main_jobs n)) s"
    using assms(4) by (simp add: bq_reach_def)
  show ?thesis
    using bq_fifo.completes [OF r assms(1,2) bq_main_balanced [OF assms(3)]] bq_main_all_seen [OF assms]
    by (auto intro: mon_step_decreases)
qed

theorem bq_main_delivers_witness:
  "\<exists>s'. bq_step\<^sup>*\<^sup>* (mon_init empty_bq (main_jobs 2)) s' \<and> finished s'"
  using bq_main_delivers [OF empty_bq_ok(1,2), of 2 "mon_init empty_bq (main_jobs 2)"]
  by (simp add: bq_reach_def mon_reach.start)

text \<open>
  The exit status of \<open>main\<close>: when the threads could all be started and joined, and have run to their end, the final assertion passes and the status is 0;
  when a creation fails, the status is 1 and \<open>bq_destroy\<close> takes the queue away from every thread that was started.
\<close>

theorem bq_main_status:
  assumes "bq_inv q" and "bq_content q = []" and "3 * unat n \<le> 2 ^ 31" and "bq_reach q (main_jobs n) s" and "finished s"
  shows "list_all id (ws @ rs @ wj @ rj) \<Longrightarrow> bq_main True ws rs wj rj (unat n) (seen s) = Some (0, 0)"
    and "\<not> list_all id (ws @ rs) \<Longrightarrow> bq_main True ws rs wj rj (unat n) (seen s) = Some (1, running (ws @ rs))"
proof -
  have "list_all (\<lambda>i. seen s i = 1) [0..<3 * unat n]" using bq_main_all_seen [OF assms] by (simp add: list_all_iff)
  then show "list_all id (ws @ rs @ wj @ rj) \<Longrightarrow> bq_main True ws rs wj rj (unat n) (seen s) = Some (0, 0)"
    by (simp add: bq_main_def)
  show "\<not> list_all id (ws @ rs) \<Longrightarrow> bq_main True ws rs wj rj (unat n) (seen s) = Some (1, running (ws @ rs))"
  proof (cases "list_all id ws")
    case True
    then have "takeWhile id (ws @ rs) = ws @ takeWhile id rs" by (intro takeWhile_append2) (auto simp: list_all_iff)
    moreover assume "\<not> list_all id (ws @ rs)"
    ultimately show ?thesis using True by (simp add: bq_main_def running_def)
  next
    case False
    then have "takeWhile id (ws @ rs) = takeWhile id ws" by (auto simp: list_all_iff)
    then show ?thesis using False by (simp add: bq_main_def running_def)
  qed
qed

end
