(* ===== verification/Region_Spec.thy ===== *)
theory Region_Spec
  imports CPrelude
begin

text \<open>
  What \<open>Interview/mock1.c\<close> and \<open>Interview/mock1_rcu.c\<close> both implement: a set of disjoint guest-physical
  regions, each mapped to a host-virtual range, with registration and address translation.
  A region covers a half-open range of guest addresses.  The two programs compute with 64-bit words; the
  lemmas here relate their tests to the ranges as sets of natural numbers.

  The locale \<open>region_map\<close> is the contract of the two operations; what a client can rely on
  (translation after registration, no wrap-around of a translated address) is proved from it once.
\<close>

record region =
  guest_physical_start :: u64
  memsize :: u64
  host_virtual :: u64

definition span :: "region \<Rightarrow> nat set" where
  "span r = {unat (guest_physical_start r) ..< unat (guest_physical_start r) + unat (memsize r)}"

text \<open>The registration test: not empty, and neither range reaches the end of the address space.\<close>

definition wraps :: "region \<Rightarrow> bool" where
  "wraps r \<longleftrightarrow> - 1 - memsize r < guest_physical_start r \<or> - 1 - memsize r < host_virtual r"

definition wf_region :: "region \<Rightarrow> bool" where
  "wf_region r \<longleftrightarrow> 0 < unat (memsize r)
     \<and> unat (guest_physical_start r) + unat (memsize r) < 2 ^ 64
     \<and> unat (host_virtual r) + unat (memsize r) < 2 ^ 64"

lemma unat_max_minus: "unat (- 1 - x :: u64) = 2 ^ 64 - 1 - unat x"
proof -
  have "unat (- 1 - x) = unat (- 1 :: u64) - unat x" by (rule unat_sub) simp
  then show ?thesis by (simp add: unsigned_minus_1_eq_mask mask_eq_exp_minus_1)
qed

lemma max_minus_less: "- 1 - x < (y :: u64) \<longleftrightarrow> 2 ^ 64 \<le> unat x + unat y"
proof -
  have "unat x < 2 ^ LENGTH(64)" by (rule unsigned_less)
  then show ?thesis unfolding word_less_nat_alt unat_max_minus by auto
qed

lemma wf_region_iff: "wf_region r \<longleftrightarrow> memsize r \<noteq> 0 \<and> \<not> wraps r"
  unfolding wf_region_def wraps_def max_minus_less by (auto simp: unat_gt_0 add.commute)

lemma region_end:
  assumes "wf_region r"
  shows "unat (guest_physical_start r + memsize r) = unat (guest_physical_start r) + unat (memsize r)"
  using assms by (simp add: wf_region_def unat_word_ariths)

lemma in_span_iff:
  "unat gpa \<in> span r \<longleftrightarrow> guest_physical_start r \<le> gpa \<and> gpa - guest_physical_start r < memsize r"
proof (cases "guest_physical_start r \<le> gpa")
  case True
  then have "unat (gpa - guest_physical_start r) = unat gpa - unat (guest_physical_start r)"
    by (simp add: unat_sub word_le_nat_alt)
  with True show ?thesis by (auto simp: span_def word_le_nat_alt word_less_nat_alt)
next
  case False
  then show ?thesis by (simp add: span_def word_le_nat_alt)
qed

lemma spans_meet_iff:
  assumes "wf_region a" and "wf_region b"
  shows "span a \<inter> span b \<noteq> {} \<longleftrightarrow>
    \<not> (guest_physical_start a + memsize a \<le> guest_physical_start b
       \<or> guest_physical_start b + memsize b \<le> guest_physical_start a)"
proof -
  have pos: "0 < unat (memsize a)" "0 < unat (memsize b)" using assms by (auto simp: wf_region_def)
  have "span a \<inter> span b \<noteq> {} \<longleftrightarrow>
      unat (guest_physical_start a) < unat (guest_physical_start b) + unat (memsize b)
      \<and> unat (guest_physical_start b) < unat (guest_physical_start a) + unat (memsize a)"
  proof
    assume "unat (guest_physical_start a) < unat (guest_physical_start b) + unat (memsize b)
      \<and> unat (guest_physical_start b) < unat (guest_physical_start a) + unat (memsize a)"
    with pos have "max (unat (guest_physical_start a)) (unat (guest_physical_start b)) \<in> span a \<inter> span b"
      by (auto simp: span_def)
    then show "span a \<inter> span b \<noteq> {}" by blast
  qed (auto simp: span_def)
  then show ?thesis
    by (simp add: word_le_nat_alt region_end [OF assms(1)] region_end [OF assms(2)]) linarith
qed

definition disjoint_regions :: "region set \<Rightarrow> bool" where
  "disjoint_regions R \<longleftrightarrow> (\<forall>a \<in> R. \<forall>b \<in> R. a \<noteq> b \<longrightarrow> span a \<inter> span b = {})"

definition mapped :: "region \<Rightarrow> u64 \<Rightarrow> u64" where
  "mapped r gpa = host_virtual r + (gpa - guest_physical_start r)"

lemma unat_mapped:
  assumes "wf_region r" and "unat gpa \<in> span r"
  shows "unat (mapped r gpa) = unat (host_virtual r) + (unat gpa - unat (guest_physical_start r))"
proof -
  have off: "unat (gpa - guest_physical_start r) = unat gpa - unat (guest_physical_start r)"
    using assms(2) by (simp add: in_span_iff unat_sub word_le_nat_alt)
  have "unat gpa - unat (guest_physical_start r) < unat (memsize r)"
    using assms(2) by (auto simp: span_def)
  with off assms(1) show ?thesis by (simp add: mapped_def wf_region_def unat_word_ariths)
qed

subsection \<open>The contract\<close>

locale region_map =
  fixes inv :: "'t \<Rightarrow> bool"
    and regs :: "'t \<Rightarrow> region set"
    and add :: "'t \<Rightarrow> region \<Rightarrow> 't option"
    and translate :: "'t \<Rightarrow> u64 \<Rightarrow> u64 option"
  assumes regs_wf: "inv t \<Longrightarrow> (\<forall>r \<in> regs t. wf_region r) \<and> disjoint_regions (regs t)"
    and add_ok: "inv t \<Longrightarrow> add t r = Some t' \<Longrightarrow> inv t' \<and> regs t' = insert r (regs t)"
    and translate_hit: "inv t \<Longrightarrow> r \<in> regs t \<Longrightarrow> unat gpa \<in> span r \<Longrightarrow> translate t gpa = Some (mapped r gpa)"
    and translate_miss: "inv t \<Longrightarrow> (\<And>r. r \<in> regs t \<Longrightarrow> unat gpa \<notin> span r) \<Longrightarrow> translate t gpa = None"
begin

lemma translate_after_add:
  assumes "inv t" and "add t r = Some t'"
  shows "translate t' gpa = (if unat gpa \<in> span r then Some (mapped r gpa) else translate t gpa)"
proof -
  have t': "inv t'" "regs t' = insert r (regs t)" using add_ok [OF assms] by auto
  show ?thesis
  proof (cases "\<exists>q \<in> regs t'. unat gpa \<in> span q")
    case True
    then obtain q where q: "q \<in> regs t'" "unat gpa \<in> span q" by blast
    have hit: "translate t' gpa = Some (mapped q gpa)" using t'(1) q by (rule translate_hit)
    show ?thesis
    proof (cases "unat gpa \<in> span r")
      case True
      have "q = r"
      proof (rule ccontr)
        assume "q \<noteq> r"
        with q t' have "span q \<inter> span r = {}" using regs_wf [OF t'(1)] by (auto simp: disjoint_regions_def)
        with q(2) True show False by blast
      qed
      with hit True show ?thesis by simp
    next
      case False
      with q t'(2) have "q \<in> regs t" by auto
      with False hit translate_hit [OF assms(1) _ q(2)] show ?thesis by simp
    qed
  next
    case False
    then have none: "translate t' gpa = None" using translate_miss [OF t'(1), of gpa] by blast
    have "translate t gpa = None" using False t'(2) translate_miss [OF assms(1), of gpa] by blast
    with none False t'(2) show ?thesis by simp
  qed
qed

lemma translate_SomeD:
  assumes "inv t" and "translate t gpa = Some hva"
  shows "\<exists>r \<in> regs t. unat gpa \<in> span r
    \<and> unat hva = unat (host_virtual r) + (unat gpa - unat (guest_physical_start r))"
proof -
  have "\<exists>r \<in> regs t. unat gpa \<in> span r"
    using assms translate_miss [of t gpa] by fastforce
  then obtain r where r: "r \<in> regs t" "unat gpa \<in> span r" by blast
  then have "hva = mapped r gpa" using assms translate_hit [of t r gpa] by simp
  then show ?thesis using r regs_wf [OF assms(1)] unat_mapped [of r gpa] by auto
qed

end

end
