(* ===== verification/Regions.thy ===== *)
theory Regions
  imports Region_Spec
begin

text \<open>
  \<open>Interview/mock1.c\<close>: a table of up to 512 guest-physical regions in an array, searched linearly.
  \<open>region_table\<close> is the C structure; \<open>region_add\<close> and \<open>translate\<close> are the two operations, with the
  loops \<open>overlap_from\<close> and \<open>translate_from\<close>.  The result of an operation is \<^const>\<open>None\<close> when the code
  would read or write outside the array.  \<open>translate\<close> returns the address it stores in \<open>*hva\<close>, or
  \<open>Some None\<close> for \<open>false\<close>.
\<close>

definition NUM_REGIONS :: size_t where "NUM_REGIONS = push_bit 9 1"

datatype register_codes = REGISTER_SUCCESS | REGION_OVERLAP | SIZE_ZERO | ADDRESS_OVERFLOW | REGIONS_FULL

record region_table =
  regions :: "region list"
  registered :: size_t

function overlap_from :: "region_table \<Rightarrow> u64 \<Rightarrow> u64 \<Rightarrow> nat \<Rightarrow> bool option" where
  "overlap_from tbl new_start new_end i =
     (if i < unat (registered tbl) then do {
        old \<leftarrow> rd (regions tbl) i;
        let old_end = guest_physical_start old + memsize old;
        if \<not> (new_end \<le> guest_physical_start old \<or> new_start \<ge> old_end) then Some True
        else overlap_from tbl new_start new_end (i + 1)
      } else Some False)"
  by pat_completeness auto
termination by (relation "measure (\<lambda>(tbl, _, _, i). unat (registered tbl) - i)") auto

definition region_add :: "region_table \<Rightarrow> region \<Rightarrow> (register_codes \<times> region_table) option" where
  "region_add tbl rgn =
     (if memsize rgn = 0 then Some (SIZE_ZERO, tbl)
      else if - 1 - memsize rgn < guest_physical_start rgn then Some (ADDRESS_OVERFLOW, tbl)
      else if - 1 - memsize rgn < host_virtual rgn then Some (ADDRESS_OVERFLOW, tbl)
      else if registered tbl = NUM_REGIONS then Some (REGIONS_FULL, tbl)
      else do {
        let new_start = guest_physical_start rgn;
        let new_end = new_start + memsize rgn;
        overlap \<leftarrow> overlap_from tbl new_start new_end 0;
        if overlap then Some (REGION_OVERLAP, tbl)
        else do {
          rs \<leftarrow> wr (regions tbl) (unat (registered tbl)) rgn;
          Some (REGISTER_SUCCESS, \<lparr>regions = rs, registered = registered tbl + 1\<rparr>)
        }
      })"

function translate_from :: "region_table \<Rightarrow> u64 \<Rightarrow> nat \<Rightarrow> u64 option option" where
  "translate_from tbl gpa i =
     (if i < unat (registered tbl) then do {
        r \<leftarrow> rd (regions tbl) i;
        if gpa \<ge> guest_physical_start r \<and> gpa - guest_physical_start r < memsize r
        then Some (Some (host_virtual r + (gpa - guest_physical_start r)))
        else translate_from tbl gpa (i + 1)
      } else Some None)"
  by pat_completeness auto
termination by (relation "measure (\<lambda>(tbl, _, i). unat (registered tbl) - i)") auto

definition translate :: "region_table \<Rightarrow> u64 \<Rightarrow> u64 option option" where
  "translate tbl gpa = translate_from tbl gpa 0"

declare overlap_from.simps [simp del] translate_from.simps [simp del]

text \<open>The static table of \<open>main\<close>: all bytes zero.\<close>

definition zero_table :: region_table where
  "zero_table = \<lparr>regions = replicate (unat NUM_REGIONS)
     \<lparr>guest_physical_start = 0, memsize = 0, host_virtual = 0\<rparr>, registered = 0\<rparr>"

definition expect_add :: "register_codes \<Rightarrow> u64 \<Rightarrow> u64 \<Rightarrow> u64 \<Rightarrow> region_table \<Rightarrow> region_table option" where
  "expect_add code start sz hva tbl = do {
     (res, tbl) \<leftarrow> region_add tbl \<lparr>guest_physical_start = start, memsize = sz, host_virtual = hva\<rparr>;
     c_assert (res = code);
     Some tbl
   }"

definition expect_translate :: "u64 option \<Rightarrow> u64 \<Rightarrow> region_table \<Rightarrow> region_table option" where
  "expect_translate hva gpa tbl = do {
     res \<leftarrow> translate tbl gpa;
     c_assert (res = hva);
     Some tbl
   }"

definition main :: "region_table \<Rightarrow> region_table option" where
  "main tbl = do {
     tbl \<leftarrow> expect_add REGISTER_SUCCESS 0x1000 0x1000 0x7f0000000000 tbl;
     tbl \<leftarrow> expect_translate (Some 0x7f0000000000) 0x1000 tbl;
     tbl \<leftarrow> expect_translate (Some 0x7f0000000fff) 0x1fff tbl;
     tbl \<leftarrow> expect_translate None 0x2000 tbl;
     tbl \<leftarrow> expect_translate None 0x0fff tbl;
     tbl \<leftarrow> expect_add REGION_OVERLAP 0x1800 0x1000 0x7f0000100000 tbl;
     tbl \<leftarrow> expect_add REGION_OVERLAP 0x0000 0x1800 0x7f0000100000 tbl;
     tbl \<leftarrow> expect_add REGION_OVERLAP 0x0000 0x4000 0x7f0000100000 tbl;
     tbl \<leftarrow> expect_add REGISTER_SUCCESS 0x3000 0x1000 0x7f0000100000 tbl;
     tbl \<leftarrow> expect_add REGISTER_SUCCESS 0x2000 0x1000 0x7f0000200000 tbl;
     tbl \<leftarrow> expect_translate (Some 0x7f0000200000) 0x2000 tbl;
     tbl \<leftarrow> expect_add SIZE_ZERO 0x9000 0 0x7f0000300000 tbl;
     expect_add ADDRESS_OVERFLOW (- 1 - 0xfff) 0x1000 0x7f0000300000 tbl
   }"

subsection \<open>The invariant\<close>

definition valid :: "region_table \<Rightarrow> region list" where
  "valid tbl = take (unat (registered tbl)) (regions tbl)"

definition disjoint_list :: "region list \<Rightarrow> bool" where
  "disjoint_list = sorted_wrt (\<lambda>a b. span a \<inter> span b = {})"

definition table_inv :: "region_table \<Rightarrow> bool" where
  "table_inv tbl \<longleftrightarrow> length (regions tbl) = unat NUM_REGIONS \<and> registered tbl \<le> NUM_REGIONS
     \<and> (\<forall>r \<in> set (valid tbl). wf_region r) \<and> disjoint_list (valid tbl)"

lemma unat_NUM_REGIONS [simp]: "unat NUM_REGIONS = 512"
  by (simp add: NUM_REGIONS_def push_bit_eq_mult)

lemma table_inv_zero: "table_inv zero_table"
  by (simp add: table_inv_def zero_table_def valid_def disjoint_list_def)

lemma table_invD:
  assumes "table_inv tbl"
  shows "length (regions tbl) = 512" and "unat (registered tbl) \<le> 512"
    and "length (valid tbl) = unat (registered tbl)"
  using assms by (simp_all add: table_inv_def valid_def word_le_nat_alt)

lemma overlap_from_eq:
  assumes "table_inv tbl" and "wf_region rgn"
  shows "overlap_from tbl (guest_physical_start rgn) (guest_physical_start rgn + memsize rgn) i
    = Some (\<exists>old \<in> set (drop i (valid tbl)). span rgn \<inter> span old \<noteq> {})"
proof (induction "unat (registered tbl) - i" arbitrary: i)
  case 0
  then show ?case using table_invD [OF assms(1)] by (simp add: overlap_from.simps)
next
  case (Suc n)
  then have i: "i < unat (registered tbl)" by simp
  let ?old = "regions tbl ! i"
  have nth: "valid tbl ! i = ?old" using i by (simp add: valid_def)
  have dr: "drop i (valid tbl) = ?old # drop (Suc i) (valid tbl)"
    using i nth table_invD(3) [OF assms(1)] by (metis Cons_nth_drop_Suc)
  have "valid tbl ! i \<in> set (valid tbl)" using i table_invD(3) [OF assms(1)] by simp
  then have "wf_region ?old" using assms(1) nth by (simp add: table_inv_def)
  note meet = spans_meet_iff [OF assms(2) this]
  have "n = unat (registered tbl) - Suc i" using Suc.hyps(2) by simp
  note IH = Suc.hyps(1) [OF this]
  show ?case
    using i table_invD [OF assms(1)] meet
    by (subst overlap_from.simps) (auto simp: dr IH Let_def)
qed

lemma translate_from_eq:
  assumes "table_inv tbl"
  shows "translate_from tbl gpa i
    = Some (map_option (\<lambda>r. mapped r gpa) (List.find (\<lambda>r. unat gpa \<in> span r) (drop i (valid tbl))))"
proof (induction "unat (registered tbl) - i" arbitrary: i)
  case 0
  then show ?case using table_invD [OF assms(1)] by (simp add: translate_from.simps)
next
  case (Suc n)
  then have i: "i < unat (registered tbl)" by simp
  have dr: "drop i (valid tbl) = regions tbl ! i # drop (Suc i) (valid tbl)"
    using i table_invD(3) [OF assms(1)] Cons_nth_drop_Suc [of i "valid tbl"] by (simp add: valid_def)
  have "n = unat (registered tbl) - Suc i" using Suc.hyps(2) by simp
  note IH = Suc.hyps(1) [OF this]
  show ?case
    using i table_invD [OF assms(1)]
    by (subst translate_from.simps) (auto simp: dr IH Let_def in_span_iff mapped_def)
qed

lemma disjoint_listD:
  "disjoint_list rs \<Longrightarrow> a \<in> set rs \<Longrightarrow> b \<in> set rs \<Longrightarrow> a \<noteq> b \<Longrightarrow> span a \<inter> span b = {}"
  unfolding disjoint_list_def sorted_wrt_iff_nth_less in_set_conv_nth
  by (metis Int_commute nat_neq_iff)

lemma disjoint_list_snoc:
  "disjoint_list (rs @ [r]) \<longleftrightarrow> disjoint_list rs \<and> (\<forall>q \<in> set rs. span r \<inter> span q = {})"
  by (auto simp: disjoint_list_def sorted_wrt_append)

lemma valid_store:
  assumes "table_inv tbl" and "registered tbl \<noteq> NUM_REGIONS"
  shows "unat (registered tbl) < 512" and "unat (registered tbl + 1) = unat (registered tbl) + 1"
    and "valid \<lparr>regions = (regions tbl)[unat (registered tbl) := r], registered = registered tbl + 1\<rparr>
       = valid tbl @ [r]"
proof -
  have "unat (registered tbl) \<noteq> unat NUM_REGIONS" using assms(2) unsigned_word_eqI by blast
  with table_invD(2) [OF assms(1)] show lt: "unat (registered tbl) < 512" by simp
  then show inc: "unat (registered tbl + 1) = unat (registered tbl) + 1" by (simp add: unat_add_1)
  show "valid \<lparr>regions = (regions tbl)[unat (registered tbl) := r], registered = registered tbl + 1\<rparr>
       = valid tbl @ [r]"
    using lt table_invD(1) [OF assms(1)] by (simp add: valid_def inc take_Suc_conv_app_nth)
qed

text \<open>The outcome of \<open>region_add\<close> in the order of its tests.\<close>

lemma region_add_eq:
  assumes "table_inv tbl"
  shows "region_add tbl rgn = Some
    (if memsize rgn = 0 then (SIZE_ZERO, tbl)
     else if wraps rgn then (ADDRESS_OVERFLOW, tbl)
     else if length (valid tbl) = 512 then (REGIONS_FULL, tbl)
     else if \<exists>old \<in> set (valid tbl). span rgn \<inter> span old \<noteq> {} then (REGION_OVERLAP, tbl)
     else (REGISTER_SUCCESS, \<lparr>regions = (regions tbl)[unat (registered tbl) := rgn],
             registered = registered tbl + 1\<rparr>))"
proof (cases "wf_region rgn")
  case False
  then show ?thesis by (auto simp: region_add_def wf_region_iff wraps_def)
next
  case wf: True
  then have guards: "memsize rgn \<noteq> 0" "\<not> wraps rgn" by (auto simp: wf_region_iff)
  note ov = overlap_from_eq [OF assms wf, of 0]
  show ?thesis
  proof (cases "registered tbl = NUM_REGIONS")
    case True
    then show ?thesis using guards table_invD(3) [OF assms] by (simp add: region_add_def wraps_def)
  next
    case False
    note st = valid_store [OF assms this]
    show ?thesis
      using guards st(1) False table_invD [OF assms] by (simp add: region_add_def wraps_def ov Let_def)
  qed
qed

lemma region_add_inv:
  assumes "table_inv tbl" and "region_add tbl rgn = Some (res, tbl')"
  shows "table_inv tbl'
    \<and> valid tbl' = (if res = REGISTER_SUCCESS then valid tbl @ [rgn] else valid tbl)"
proof (cases "res = REGISTER_SUCCESS")
  case False
  then have "tbl' = tbl" using assms(2) by (simp add: region_add_eq [OF assms(1)] split: if_splits)
  with False assms(1) show ?thesis by simp
next
  case True
  with assms(2) have g: "memsize rgn \<noteq> 0" "\<not> wraps rgn" "length (valid tbl) \<noteq> 512"
      "\<forall>old \<in> set (valid tbl). span rgn \<inter> span old = {}"
    and tbl': "tbl' = \<lparr>regions = (regions tbl)[unat (registered tbl) := rgn], registered = registered tbl + 1\<rparr>"
    by (auto simp: region_add_eq [OF assms(1)] split: if_splits)
  from g(3) have "registered tbl \<noteq> NUM_REGIONS" using table_invD(3) [OF assms(1)] by auto
  note st = valid_store [OF assms(1) this]
  have "wf_region rgn" using g(1,2) by (simp add: wf_region_iff)
  then have "table_inv tbl'"
    unfolding table_inv_def using st g assms(1) table_invD [OF assms(1)]
    by (simp add: tbl' disjoint_list_snoc word_le_nat_alt table_inv_def)
  with True st(3) show ?thesis by (simp add: tbl')
qed

subsection \<open>The table provides the contract\<close>

definition add_opt :: "region_table \<Rightarrow> region \<Rightarrow> region_table option" where
  "add_opt tbl r = do {
     (res, tbl') \<leftarrow> region_add tbl r;
     if res = REGISTER_SUCCESS then Some tbl' else None
   }"

lemma add_opt_iff: "add_opt tbl r = Some tbl' \<longleftrightarrow> region_add tbl r = Some (REGISTER_SUCCESS, tbl')"
  by (auto simp: add_opt_def split: Option.bind_splits if_splits)

lemma translate_eq:
  assumes "table_inv tbl"
  shows "translate tbl gpa = Some (map_option (\<lambda>r. mapped r gpa) (List.find (\<lambda>r. unat gpa \<in> span r) (valid tbl)))"
  unfolding translate_def by (subst translate_from_eq [OF assms]) simp

interpretation region_array: region_map table_inv "\<lambda>tbl. set (valid tbl)" add_opt "\<lambda>tbl gpa. Option.bind (translate tbl gpa) (\<lambda>x. x)"
proof
  fix tbl r tbl' and gpa :: u64
  show "table_inv tbl \<Longrightarrow> (\<forall>r \<in> set (valid tbl). wf_region r) \<and> disjoint_regions (set (valid tbl))"
    by (auto simp: table_inv_def disjoint_regions_def dest: disjoint_listD)
  show "table_inv tbl \<Longrightarrow> add_opt tbl r = Some tbl' \<Longrightarrow> table_inv tbl' \<and> set (valid tbl') = insert r (set (valid tbl))"
    using region_add_inv [of tbl r REGISTER_SUCCESS tbl'] by (simp add: add_opt_iff)
  show "Option.bind (translate tbl gpa) (\<lambda>x. x) = Some (mapped r gpa)"
    if inv: "table_inv tbl" and r: "r \<in> set (valid tbl)" "unat gpa \<in> span r"
  proof -
    obtain q where q: "List.find (\<lambda>r. unat gpa \<in> span r) (valid tbl) = Some q"
      using r find_None_iff [of "\<lambda>r. unat gpa \<in> span r" "valid tbl"] by fastforce
    then have "q \<in> set (valid tbl)" "unat gpa \<in> span q" by (auto simp: find_Some_iff)
    with r inv have "q = r" using disjoint_listD [of "valid tbl" q r] by (auto simp: table_inv_def)
    with q show ?thesis by (simp add: translate_eq [OF inv])
  qed
  show "Option.bind (translate tbl gpa) (\<lambda>x. x) = None"
    if inv: "table_inv tbl" and miss: "\<And>r. r \<in> set (valid tbl) \<Longrightarrow> unat gpa \<notin> span r"
    using miss find_None_iff [of "\<lambda>r. unat gpa \<in> span r" "valid tbl"] by (simp add: translate_eq [OF inv])
qed

subsection \<open>Properties\<close>

text \<open>
  On a table whose valid entries are non-empty, non-wrapping and pairwise disjoint, \<open>region_add\<close>
  always returns, without touching memory outside the array.  It reports the first error
  that applies, in the order size zero, overflow of either range, table full, overlap with a registered
  region (as sets of addresses), and only on success is the region appended; the invariant holds afterwards.
\<close>

theorem region_add_result:
  assumes "table_inv tbl"
  shows "\<exists>res tbl'. region_add tbl rgn = Some (res, tbl') \<and> table_inv tbl'
    \<and> valid tbl' = (if res = REGISTER_SUCCESS then valid tbl @ [rgn] else valid tbl)
    \<and> res = (if memsize rgn = 0 then SIZE_ZERO
        else if 2 ^ 64 \<le> unat (guest_physical_start rgn) + unat (memsize rgn)
             \<or> 2 ^ 64 \<le> unat (host_virtual rgn) + unat (memsize rgn) then ADDRESS_OVERFLOW
        else if length (valid tbl) = 512 then REGIONS_FULL
        else if \<exists>old \<in> set (valid tbl). span rgn \<inter> span old \<noteq> {} then REGION_OVERLAP
        else REGISTER_SUCCESS)"
proof -
  have "\<exists>x. region_add tbl rgn = Some x" unfolding region_add_eq [OF assms] by (rule exI, rule refl)
  then obtain res tbl' where add: "region_add tbl rgn = Some (res, tbl')" by auto
  note inv = region_add_inv [OF assms add]
  have w: "wraps rgn \<longleftrightarrow> 2 ^ 64 \<le> unat (guest_physical_start rgn) + unat (memsize rgn)
             \<or> 2 ^ 64 \<le> unat (host_virtual rgn) + unat (memsize rgn)"
    unfolding wraps_def max_minus_less by (simp add: add.commute)
  have res: "res = (if memsize rgn = 0 then SIZE_ZERO else if wraps rgn then ADDRESS_OVERFLOW
        else if length (valid tbl) = 512 then REGIONS_FULL
        else if \<exists>old \<in> set (valid tbl). span rgn \<inter> span old \<noteq> {} then REGION_OVERLAP
        else REGISTER_SUCCESS)"
  proof -
    have "res = fst (the (region_add tbl rgn))" by (simp add: add)
    then show ?thesis by (simp only: region_add_eq [OF assms] option.sel if_distrib [of fst] fst_conv)
  qed
  show ?thesis
    by (intro exI conjI, rule add, rule inv [THEN conjunct1], rule inv [THEN conjunct2], rule res [unfolded w])
qed

theorem region_add_result_witness:
  "\<exists>res tbl'. region_add zero_table \<lparr>guest_physical_start = 4096, memsize = 16, host_virtual = 0\<rparr> = Some (res, tbl')
    \<and> table_inv tbl' \<and> res = REGISTER_SUCCESS"
  using region_add_result [OF table_inv_zero, of "\<lparr>guest_physical_start = 4096, memsize = 16, host_virtual = 0\<rparr>"]
  by (auto simp: valid_def zero_table_def)

text \<open>
  C25: After a successful registration an address in the new region translates to the host address at
  the same offset, and every other address translates as before (to a hit of an earlier region or a miss).
\<close>

theorem region_translate_after_add:
  assumes "table_inv tbl" and "region_add tbl rgn = Some (REGISTER_SUCCESS, tbl')"
  shows "translate tbl' gpa = (if unat gpa \<in> span rgn then Some (Some (mapped rgn gpa)) else translate tbl gpa)"
proof -
  have "table_inv tbl'" using region_add_inv [OF assms] by simp
  with assms show ?thesis
    using region_array.translate_after_add [of tbl rgn tbl' gpa]
    by (auto simp: add_opt_iff translate_eq)
qed

theorem region_translate_after_add_witness:
  "\<exists>tbl'. region_add zero_table \<lparr>guest_physical_start = 4096, memsize = 16, host_virtual = 77\<rparr>
      = Some (REGISTER_SUCCESS, tbl')
    \<and> translate tbl' 4100 = Some (Some 81) \<and> translate tbl' 4112 = Some None"
proof -
  let ?r = "\<lparr>guest_physical_start = 4096, memsize = 16, host_virtual = 77\<rparr>"
  obtain tbl' where add: "region_add zero_table ?r = Some (REGISTER_SUCCESS, tbl')"
    using region_add_eq [OF table_inv_zero, of ?r] by (auto simp: wraps_def valid_def zero_table_def)
  have none: "translate zero_table 4112 = Some None" unfolding translate_eq [OF table_inv_zero]
    by (simp add: valid_def zero_table_def)
  note t = region_translate_after_add [OF table_inv_zero add]
  have "translate tbl' 4100 = Some (Some 81)" using t [of 4100] by (simp add: span_def mapped_def)
  moreover have "translate tbl' 4112 = Some None" using t [of 4112] none by (simp add: span_def)
  ultimately show ?thesis using add by blast
qed

text \<open>
  The program's own test passes: every \<open>assert\<close> of \<open>main\<close> holds on the zero-initialised table, and
  exactly the three successful registrations are in the table at the end.
\<close>

theorem region_main_passes:
  "map_option valid (main zero_table) = Some
    [\<lparr>guest_physical_start = 0x1000, memsize = 0x1000, host_virtual = 0x7f0000000000\<rparr>,
     \<lparr>guest_physical_start = 0x3000, memsize = 0x1000, host_virtual = 0x7f0000100000\<rparr>,
     \<lparr>guest_physical_start = 0x2000, memsize = 0x1000, host_virtual = 0x7f0000200000\<rparr>]"
  by code_simp

end
