(* ===== verification/Region_Cow.thy ===== *)
theory Region_Cow
  imports Region_Spec
begin

text \<open>
  The tables of \<open>Interview/mock1_rcu.c\<close>: immutable, sorted by guest address and searched by bisection; a
  registration builds a new table.  The structure \<open>region\<close> is the one of \<open>Region_Spec\<close>
  (its fields are called \<open>gpa_start\<close>, \<open>size\<close>, \<open>hva\<close> in this file).  \<open>lookup\<close> and \<open>build\<close> (the part of
  \<open>region_add\<close> between taking the lock and publishing) are shown to provide the same contract
  \<open>region_map\<close> as the array table of \<open>Regions\<close>, hence to agree with it.  Publication and reclamation of tables
  are in \<open>Rcu_Grace\<close>.
\<close>

definition MAX_REGIONS :: size_t where "MAX_REGIONS = 512"

datatype add_result = ADD_OK | ADD_BAD_SIZE | ADD_WRAPS | ADD_OVERLAP | ADD_FULL | ADD_NOMEM

record cow_table =
  tab_n :: size_t
  tab_r :: "region list"

text \<open>\<open>lo\<close> and \<open>hi\<close> stay between 0 and \<open>n\<close>, so the word arithmetic of the loop is that of naturals.\<close>

function bisect :: "cow_table \<Rightarrow> u64 \<Rightarrow> nat \<Rightarrow> nat \<Rightarrow> nat option" where
  "bisect t gpa lo hi =
     (if lo < hi then do {
        let mid = lo + (hi - lo) div 2;
        r \<leftarrow> rd (tab_r t) mid;
        if guest_physical_start r \<le> gpa then bisect t gpa (mid + 1) hi else bisect t gpa lo mid
      } else Some lo)"
  by pat_completeness auto
termination by (relation "measure (\<lambda>(_, _, lo, hi). hi - lo)") (auto simp: Let_def)

definition lookup :: "cow_table \<Rightarrow> u64 \<Rightarrow> u64 option option" where
  "lookup t gpa = do {
     lo \<leftarrow> bisect t gpa 0 (unat (tab_n t));
     if lo = 0 then Some None
     else do {
       r \<leftarrow> rd (tab_r t) (lo - 1);
       if gpa - guest_physical_start r \<ge> memsize r then Some None
       else Some (Some (host_virtual r + (gpa - guest_physical_start r)))
     }
   }"

function insert_pos :: "cow_table \<Rightarrow> region \<Rightarrow> nat \<Rightarrow> nat option" where
  "insert_pos old rgn pos =
     (if pos < unat (tab_n old) then do {
        r \<leftarrow> rd (tab_r old) pos;
        if guest_physical_start r < guest_physical_start rgn then insert_pos old rgn (pos + 1) else Some pos
      } else Some pos)"
  by pat_completeness auto
termination by (relation "measure (\<lambda>(old, _, pos). unat (tab_n old) - pos)") auto

declare bisect.simps [simp del] insert_pos.simps [simp del]

definition left_overlap :: "cow_table \<Rightarrow> region \<Rightarrow> nat \<Rightarrow> bool option" where
  "left_overlap old rgn pos =
     (if pos > 0 then do {
        r \<leftarrow> rd (tab_r old) (pos - 1);
        Some (guest_physical_start r + memsize r > guest_physical_start rgn)
      } else Some False)"

definition right_overlap :: "cow_table \<Rightarrow> region \<Rightarrow> nat \<Rightarrow> bool option" where
  "right_overlap old rgn pos =
     (if pos < unat (tab_n old) then do {
        r \<leftarrow> rd (tab_r old) pos;
        Some (guest_physical_start r < guest_physical_start rgn + memsize rgn)
      } else Some False)"

text \<open>The copy: the regions before \<open>pos\<close>, the new one, the \<open>n - pos\<close> others.\<close>

definition copy_with :: "cow_table \<Rightarrow> region \<Rightarrow> nat \<Rightarrow> cow_table" where
  "copy_with old rgn pos =
     \<lparr>tab_n = tab_n old + 1,
      tab_r = take pos (tab_r old) @ [rgn] @ take (unat (tab_n old) - pos) (drop pos (tab_r old))\<rparr>"

text \<open>
  The critical section of \<open>region_add\<close> up to the publication: the result code, and the new table when it
  is \<open>ADD_OK\<close>.  \<open>mem\<close> tells whether \<open>malloc\<close> succeeds.
\<close>

definition build :: "bool \<Rightarrow> cow_table \<Rightarrow> region \<Rightarrow> (add_result \<times> cow_table option) option" where
  "build mem old rgn =
     (if tab_n old = MAX_REGIONS then Some (ADD_FULL, None)
      else do {
        pos \<leftarrow> insert_pos old rgn 0;
        left \<leftarrow> left_overlap old rgn pos;
        if left then Some (ADD_OVERLAP, None)
        else do {
          right \<leftarrow> right_overlap old rgn pos;
          if right then Some (ADD_OVERLAP, None)
          else if \<not> mem then Some (ADD_NOMEM, None)
          else Some (ADD_OK, Some (copy_with old rgn pos))
        }
      })"

definition prepare :: "bool \<Rightarrow> cow_table \<Rightarrow> region \<Rightarrow> (add_result \<times> cow_table option) option" where
  "prepare mem old rgn =
     (if memsize rgn = 0 then Some (ADD_BAD_SIZE, None)
      else if - 1 - memsize rgn < guest_physical_start rgn \<or> - 1 - memsize rgn < host_virtual rgn
      then Some (ADD_WRAPS, None)
      else build mem old rgn)"

definition empty_table :: cow_table where
  "empty_table = \<lparr>tab_n = 0, tab_r = []\<rparr>"

subsection \<open>The invariant: sorted, hence disjoint\<close>

definition before :: "region \<Rightarrow> region \<Rightarrow> bool" where
  "before a b \<longleftrightarrow> unat (guest_physical_start a) + unat (memsize a) \<le> unat (guest_physical_start b)"

definition cow_inv :: "cow_table \<Rightarrow> bool" where
  "cow_inv t \<longleftrightarrow> length (tab_r t) = unat (tab_n t) \<and> unat (tab_n t) \<le> 512
     \<and> (\<forall>r \<in> set (tab_r t). wf_region r) \<and> sorted_wrt before (tab_r t)"

lemma cow_inv_empty: "cow_inv empty_table"
  by (simp add: cow_inv_def empty_table_def)

lemma before_disjoint: "before a b \<Longrightarrow> span a \<inter> span b = {}"
  by (auto simp: before_def span_def)

lemma cow_inv_before: "cow_inv t \<Longrightarrow> i < j \<Longrightarrow> j < length (tab_r t) \<Longrightarrow> before (tab_r t ! i) (tab_r t ! j)"
  by (simp add: cow_inv_def sorted_wrt_iff_nth_less)

lemma cow_inv_wf: "cow_inv t \<Longrightarrow> i < length (tab_r t) \<Longrightarrow> wf_region (tab_r t ! i)"
  by (simp add: cow_inv_def)

lemma cow_inv_starts:
  assumes "cow_inv t" and "i < j" and "j < length (tab_r t)"
  shows "guest_physical_start (tab_r t ! i) < guest_physical_start (tab_r t ! j)"
  using cow_inv_before [OF assms] cow_inv_wf [OF assms(1), of i] assms(2,3)
  by (simp add: before_def wf_region_def word_less_nat_alt)

subsection \<open>The searches\<close>

lemma bisect_eq:
  assumes "cow_inv t"
    and "lo \<le> hi" and "hi \<le> length (tab_r t)"
    and "\<And>k. k < lo \<Longrightarrow> guest_physical_start (tab_r t ! k) \<le> gpa"
    and "\<And>k. hi \<le> k \<Longrightarrow> k < length (tab_r t) \<Longrightarrow> gpa < guest_physical_start (tab_r t ! k)"
  shows "\<exists>p \<le> length (tab_r t). bisect t gpa lo hi = Some p
    \<and> (\<forall>k < length (tab_r t). guest_physical_start (tab_r t ! k) \<le> gpa \<longleftrightarrow> k < p)"
  using assms(2-)
proof (induction "hi - lo" arbitrary: lo hi rule: less_induct)
  case less
  show ?case
  proof (cases "lo < hi")
    case False
    then have "bisect t gpa lo hi = Some lo" by (simp add: bisect.simps)
    moreover have "guest_physical_start (tab_r t ! k) \<le> gpa \<longleftrightarrow> k < lo" if "k < length (tab_r t)" for k
      using False less.prems(3) [of k] less.prems(4) [OF _ that] that by (cases "k < lo") (auto simp: not_le)
    ultimately show ?thesis using False less.prems(1,2) by (intro exI [of _ lo]) auto
  next
    case True
    let ?mid = "lo + (hi - lo) div 2"
    have mid: "lo \<le> ?mid" "?mid < hi" using True by auto
    with less.prems(2) have len: "?mid < length (tab_r t)" by simp
    show ?thesis
    proof (cases "guest_physical_start (tab_r t ! ?mid) \<le> gpa")
      case c: True
      have low: "guest_physical_start (tab_r t ! k) \<le> gpa" if "k < ?mid + 1" for k
        using that c cow_inv_starts [OF assms(1) _ len, of k] by (cases "k = ?mid") auto
      have eq: "bisect t gpa lo hi = bisect t gpa (?mid + 1) hi"
        using True c len by (subst bisect.simps) (simp add: Let_def)
      show ?thesis unfolding eq
        by (rule less.hyps) (use mid less.prems low in auto)
    next
      case c: False
      have high: "gpa < guest_physical_start (tab_r t ! k)" if "?mid \<le> k" "k < length (tab_r t)" for k
        using that c cow_inv_starts [OF assms(1), of ?mid k] by (cases "k = ?mid") auto
      have eq: "bisect t gpa lo hi = bisect t gpa lo ?mid"
        using True c len by (subst bisect.simps) (simp add: Let_def)
      show ?thesis unfolding eq
        by (rule less.hyps) (use mid less.prems high in auto)
    qed
  qed
qed

lemma insert_pos_eq:
  assumes "cow_inv t" and "pos \<le> length (tab_r t)"
    and "\<And>k. k < pos \<Longrightarrow> guest_physical_start (tab_r t ! k) < guest_physical_start rgn"
  shows "\<exists>p \<le> length (tab_r t). insert_pos t rgn pos = Some p
    \<and> (\<forall>k < length (tab_r t). guest_physical_start (tab_r t ! k) < guest_physical_start rgn \<longleftrightarrow> k < p)"
  using assms(2-)
proof (induction "length (tab_r t) - pos" arbitrary: pos)
  case 0
  then have "insert_pos t rgn pos = Some pos" using assms(1) by (simp add: insert_pos.simps cow_inv_def)
  with 0 show ?case by (intro exI [of _ pos]) auto
next
  case (Suc n)
  then have pos: "pos < length (tab_r t)" by simp
  then have lt: "pos < unat (tab_n t)" using assms(1) by (simp add: cow_inv_def)
  show ?case
  proof (cases "guest_physical_start (tab_r t ! pos) < guest_physical_start rgn")
    case True
    have eq: "insert_pos t rgn pos = insert_pos t rgn (Suc pos)"
      using True pos lt by (subst insert_pos.simps) simp
    show ?thesis unfolding eq
      by (rule Suc.hyps(1)) (use Suc.hyps(2) Suc.prems True pos in \<open>auto simp: less_Suc_eq\<close>)
  next
    case False
    have "insert_pos t rgn pos = Some pos" using False pos lt by (subst insert_pos.simps) simp
    moreover have "guest_physical_start (tab_r t ! k) < guest_physical_start rgn \<longleftrightarrow> k < pos"
      if "k < length (tab_r t)" for k
    proof (cases k pos rule: linorder_cases)
      case greater
      then show ?thesis using False cow_inv_starts [OF assms(1) greater that] by simp
    qed (use False Suc.prems(2) in auto)
    ultimately show ?thesis using pos by (intro exI [of _ pos]) auto
  qed
qed

lemma lookup_eq:
  assumes "cow_inv t"
  shows "lookup t gpa = Some (map_option (\<lambda>r. mapped r gpa) (List.find (\<lambda>r. unat gpa \<in> span r) (tab_r t)))"
proof -
  have n: "unat (tab_n t) = length (tab_r t)" using assms by (simp add: cow_inv_def)
  obtain p where p: "p \<le> length (tab_r t)" "bisect t gpa 0 (length (tab_r t)) = Some p"
    "\<And>k. k < length (tab_r t) \<Longrightarrow> guest_physical_start (tab_r t ! k) \<le> gpa \<longleftrightarrow> k < p"
    using bisect_eq [OF assms, of 0 "length (tab_r t)" gpa] by auto
  have hit: "k = p - 1" if "k < length (tab_r t)" "unat gpa \<in> span (tab_r t ! k)" for k
  proof -
    have "k < p" using p(3) that by (simp add: in_span_iff)
    moreover have "\<not> k < p - 1"
    proof
      assume k: "k < p - 1"
      then have "p - 1 < length (tab_r t)" using p(1) by simp
      then have "before (tab_r t ! k) (tab_r t ! (p - 1))" and "guest_physical_start (tab_r t ! (p - 1)) \<le> gpa"
        using cow_inv_before [OF assms k] p(3) [of "p - 1"] k by auto
      with that(2) show False by (simp add: before_def span_def word_le_nat_alt)
    qed
    ultimately show ?thesis by simp
  qed
  show ?thesis
  proof (cases "0 < p \<and> unat gpa \<in> span (tab_r t ! (p - 1))")
    case True
    then have "List.find (\<lambda>r. unat gpa \<in> span r) (tab_r t) = Some (tab_r t ! (p - 1))"
    proof -
      have len: "p - 1 < length (tab_r t)" using True p(1) by linarith
      have "unat gpa \<notin> span (tab_r t ! j)" if "j < p - 1" for j
        using hit [of j] that len by linarith
      then show ?thesis unfolding find_Some_iff using True len by blast
    qed
    moreover have "p - 1 < length (tab_r t)" using True p(1) by linarith
    ultimately show ?thesis using True p(2) by (simp add: lookup_def n in_span_iff mapped_def not_le)
  next
    case False
    have "unat gpa \<notin> span (tab_r t ! k)" if k: "k < length (tab_r t)" for k
    proof
      assume sp: "unat gpa \<in> span (tab_r t ! k)"
      then have "k < p" using p(3) [OF k] by (simp add: in_span_iff)
      with hit [OF k sp] sp False show False by simp
    qed
    then have none: "List.find (\<lambda>r. unat gpa \<in> span r) (tab_r t) = None"
      by (auto simp: find_None_iff in_set_conv_nth)
    show ?thesis
    proof (cases "p = 0")
      case True
      with p(2) none show ?thesis by (simp add: lookup_def n)
    next
      case pos: False
      then have len: "p - 1 < length (tab_r t)" using p(1) by linarith
      then have "guest_physical_start (tab_r t ! (p - 1)) \<le> gpa" using p(3) pos by simp
      then have "memsize (tab_r t ! (p - 1)) \<le> gpa - guest_physical_start (tab_r t ! (p - 1))"
        using False pos by (simp add: in_span_iff not_less)
      with len pos p(2) none show ?thesis by (simp add: lookup_def n)
    qed
  qed
qed

subsection \<open>Building a new table\<close>

text \<open>Only the neighbours of the insertion point can overlap the new region.\<close>

lemma neighbours_suffice:
  assumes inv: "cow_inv t" and wf: "wf_region rgn" and p: "p \<le> length (tab_r t)"
    and split: "\<And>k. k < length (tab_r t) \<Longrightarrow> guest_physical_start (tab_r t ! k) < guest_physical_start rgn \<longleftrightarrow> k < p"
  shows "(0 < p \<and> guest_physical_start (tab_r t ! (p - 1)) + memsize (tab_r t ! (p - 1)) > guest_physical_start rgn
      \<or> p < length (tab_r t) \<and> guest_physical_start (tab_r t ! p) < guest_physical_start rgn + memsize rgn)
    \<longleftrightarrow> (\<exists>old \<in> set (tab_r t). span rgn \<inter> span old \<noteq> {})" (is "?near \<longleftrightarrow> ?any")
    and "\<not> (\<exists>old \<in> set (tab_r t). span rgn \<inter> span old \<noteq> {}) \<Longrightarrow> (\<forall>k < p. before (tab_r t ! k) rgn)
      \<and> (\<forall>k < length (tab_r t). p \<le> k \<longrightarrow> before rgn (tab_r t ! k))"
proof -
  have ends: "unat (guest_physical_start (tab_r t ! k) + memsize (tab_r t ! k))
      = unat (guest_physical_start (tab_r t ! k)) + unat (memsize (tab_r t ! k))" if "k < length (tab_r t)" for k
    using region_end cow_inv_wf [OF inv that] by blast
  have near: "?near \<longleftrightarrow> 0 < p \<and> \<not> before (tab_r t ! (p - 1)) rgn \<or> p < length (tab_r t) \<and> \<not> before rgn (tab_r t ! p)"
    using ends [of "p - 1"] p region_end [OF wf]
    by (cases p) (auto simp: before_def word_less_nat_alt not_le)
  have meet: "span rgn \<inter> span (tab_r t ! k) \<noteq> {}"
    if k: "k < length (tab_r t)" and nb: "\<not> before (tab_r t ! k) rgn" "\<not> before rgn (tab_r t ! k)" for k
    using spans_meet_iff [OF wf cow_inv_wf [OF inv k]] nb ends [OF k] region_end [OF wf]
    by (auto simp: before_def word_le_nat_alt)
  have lefts: "before (tab_r t ! k) rgn" if "0 < p" "before (tab_r t ! (p - 1)) rgn" "k < p" for k
  proof (cases "k = p - 1")
    case False
    with that p have "k < p - 1" "p - 1 < length (tab_r t)" by auto
    from cow_inv_before [OF inv this] that(2) show ?thesis by (simp add: before_def)
  qed (use that in simp)
  have rights: "before rgn (tab_r t ! k)" if "p \<le> k" "k < length (tab_r t)" "before rgn (tab_r t ! p)" for k
    using that cow_inv_before [OF inv, of p k] by (cases "k = p") (auto simp: before_def)
  have not_near: "(\<forall>k < p. before (tab_r t ! k) rgn) \<and> (\<forall>k < length (tab_r t). p \<le> k \<longrightarrow> before rgn (tab_r t ! k))"
    if "\<not> ?near"
  proof -
    from that have "0 < p \<longrightarrow> before (tab_r t ! (p - 1)) rgn" "p < length (tab_r t) \<longrightarrow> before rgn (tab_r t ! p)"
      unfolding near by blast+
    then show ?thesis using lefts rights by auto
  qed
  have "?any" if ?near
  proof -
    from that consider "0 < p" "\<not> before (tab_r t ! (p - 1)) rgn" | "p < length (tab_r t)" "\<not> before rgn (tab_r t ! p)"
      unfolding near by blast
    then show ?thesis
    proof cases
      case 1
      then have "guest_physical_start (tab_r t ! (p - 1)) < guest_physical_start rgn" using split [of "p - 1"] p by auto
      then have "\<not> before rgn (tab_r t ! (p - 1))" by (simp add: before_def word_less_nat_alt)
      with 1 p show ?thesis using meet [of "p - 1"] by (intro bexI [of _ "tab_r t ! (p - 1)"]) auto
    next
      case 2
      then have "\<not> guest_physical_start (tab_r t ! p) < guest_physical_start rgn" using split [of p] by auto
      then have "\<not> before (tab_r t ! p) rgn"
        using cow_inv_wf [OF inv 2(1)] by (simp add: before_def word_less_nat_alt wf_region_def)
      with 2 show ?thesis using meet [of p] by (intro bexI [of _ "tab_r t ! p"]) auto
    qed
  qed
  moreover have "\<not> ?any" if "\<not> ?near"
  proof -
    have "span rgn \<inter> span (tab_r t ! k) = {}" if "k < length (tab_r t)" for k
      using not_near [OF \<open>\<not> ?near\<close>] that before_disjoint by (metis Int_commute not_le)
    then show ?thesis by (metis in_set_conv_nth)
  qed
  ultimately show "?near \<longleftrightarrow> ?any" by blast
  with not_near show "\<not> ?any \<Longrightarrow> (\<forall>k < p. before (tab_r t ! k) rgn)
      \<and> (\<forall>k < length (tab_r t). p \<le> k \<longrightarrow> before rgn (tab_r t ! k))" by blast
qed

lemma cow_inv_copy:
  assumes "cow_inv t" and "wf_region rgn" and "tab_n t \<noteq> MAX_REGIONS" and "p \<le> length (tab_r t)"
    and "\<forall>k < p. before (tab_r t ! k) rgn" and "\<forall>k < length (tab_r t). p \<le> k \<longrightarrow> before rgn (tab_r t ! k)"
  shows "cow_inv (copy_with t rgn p) \<and> set (tab_r (copy_with t rgn p)) = insert rgn (set (tab_r t))"
proof -
  have n: "unat (tab_n t) = length (tab_r t)" using assms(1) by (simp add: cow_inv_def)
  have "unat (tab_n t) \<noteq> 512"
  proof
    assume "unat (tab_n t) = 512"
    then have "unat (tab_n t) = unat MAX_REGIONS" by (simp add: MAX_REGIONS_def)
    with assms(3) show False by (simp add: word_unat_eq_iff)
  qed
  with assms(1) have lt: "unat (tab_n t) < 512" by (simp add: cow_inv_def)
  then have inc: "unat (tab_n t + 1) = unat (tab_n t) + 1" by (simp add: unat_add_1)
  have r: "tab_r (copy_with t rgn p) = take p (tab_r t) @ rgn # drop p (tab_r t)"
    using assms(4) n by (simp add: copy_with_def)
  have "set (take p (tab_r t)) \<union> set (drop p (tab_r t)) = set (tab_r t)"
    by (metis append_take_drop_id set_append)
  then have set: "set (tab_r (copy_with t rgn p)) = insert rgn (set (tab_r t))" unfolding r by auto
  have "sorted_wrt before (take p (tab_r t) @ drop p (tab_r t))" using assms(1) by (simp add: cow_inv_def)
  then have "sorted_wrt before (take p (tab_r t))" "sorted_wrt before (drop p (tab_r t))"
    "\<forall>a \<in> set (take p (tab_r t)). \<forall>b \<in> set (drop p (tab_r t)). before a b"
    unfolding sorted_wrt_append by blast+
  moreover have "\<forall>a \<in> set (take p (tab_r t)). before a rgn"
    using assms(4,5) by (auto simp: in_set_conv_nth)
  moreover have "\<forall>b \<in> set (drop p (tab_r t)). before rgn b"
    using assms(4,6) by (auto simp: in_set_conv_nth)
  ultimately have "sorted_wrt before (tab_r (copy_with t rgn p))"
    unfolding r by (auto simp: sorted_wrt_append)
  moreover have "length (tab_r (copy_with t rgn p)) = unat (tab_n (copy_with t rgn p))"
    unfolding r using assms(4) inc n by (simp add: copy_with_def)
  moreover have "unat (tab_n (copy_with t rgn p)) \<le> 512" using inc lt by (simp add: copy_with_def)
  ultimately show ?thesis using set assms(1,2) by (auto simp: cow_inv_def)
qed

lemma build_eq:
  assumes inv: "cow_inv t" and wf: "wf_region rgn"
  shows "\<exists>new. build mem t rgn = Some
    (if tab_n t = MAX_REGIONS then (ADD_FULL, None)
     else if \<exists>old \<in> set (tab_r t). span rgn \<inter> span old \<noteq> {} then (ADD_OVERLAP, None)
     else if \<not> mem then (ADD_NOMEM, None)
     else (ADD_OK, Some new))
   \<and> (tab_n t \<noteq> MAX_REGIONS \<longrightarrow> (\<forall>old \<in> set (tab_r t). span rgn \<inter> span old = {}) \<longrightarrow>
       cow_inv new \<and> set (tab_r new) = insert rgn (set (tab_r t)))"
proof -
  have n: "unat (tab_n t) = length (tab_r t)" using inv by (simp add: cow_inv_def)
  obtain p where p: "p \<le> length (tab_r t)" "insert_pos t rgn 0 = Some p"
    "\<And>k. k < length (tab_r t) \<Longrightarrow> guest_physical_start (tab_r t ! k) < guest_physical_start rgn \<longleftrightarrow> k < p"
    using insert_pos_eq [OF inv, of 0 rgn] by auto
  note near = neighbours_suffice [OF inv wf p(1) p(3)]
  define l where "l = (0 < p \<and> guest_physical_start (tab_r t ! (p - 1)) + memsize (tab_r t ! (p - 1)) > guest_physical_start rgn)"
  define r where "r = (p < length (tab_r t) \<and> guest_physical_start (tab_r t ! p) < guest_physical_start rgn + memsize rgn)"
  have lr: "left_overlap t rgn p = Some l" "right_overlap t rgn p = Some r"
    using p(1) by (auto simp: left_overlap_def right_overlap_def l_def r_def n)
  have "build mem t rgn = Some (if tab_n t = MAX_REGIONS then (ADD_FULL, None)
     else if l \<or> r then (ADD_OVERLAP, None)
     else if \<not> mem then (ADD_NOMEM, None)
     else (ADD_OK, Some (copy_with t rgn p)))"
    by (simp add: build_def p(2) lr)
  moreover have "l \<or> r \<longleftrightarrow> (\<exists>old \<in> set (tab_r t). span rgn \<inter> span old \<noteq> {})"
    using near(1) by (simp only: l_def r_def)
  ultimately show ?thesis
    using near(2) cow_inv_copy [OF inv wf _ p(1)] by (intro exI [of _ "copy_with t rgn p"]) auto
qed

text \<open>Every outcome of \<open>region_add\<close> before the publication, in the order of the code's tests.\<close>

lemma prepare_eq:
  assumes inv: "cow_inv t"
  shows "\<exists>new. prepare mem t rgn = Some
    (if memsize rgn = 0 then (ADD_BAD_SIZE, None)
     else if wraps rgn then (ADD_WRAPS, None)
     else if tab_n t = MAX_REGIONS then (ADD_FULL, None)
     else if \<exists>old \<in> set (tab_r t). span rgn \<inter> span old \<noteq> {} then (ADD_OVERLAP, None)
     else if \<not> mem then (ADD_NOMEM, None)
     else (ADD_OK, Some new))
   \<and> (wf_region rgn \<longrightarrow> tab_n t \<noteq> MAX_REGIONS \<longrightarrow> (\<forall>old \<in> set (tab_r t). span rgn \<inter> span old = {}) \<longrightarrow>
       cow_inv new \<and> set (tab_r new) = insert rgn (set (tab_r t)))"
proof (cases "wf_region rgn")
  case True
  then have "memsize rgn \<noteq> 0" "\<not> wraps rgn" by (auto simp: wf_region_iff)
  then show ?thesis using build_eq [OF inv True, of mem] True by (simp add: prepare_def wraps_def)
next
  case False
  then show ?thesis by (auto simp: prepare_def wraps_def wf_region_iff)
qed

lemma prepare_ok:
  assumes "cow_inv t" and "prepare mem t rgn = Some (res, new)"
  shows "(res = ADD_OK \<longrightarrow> (\<exists>t'. new = Some t' \<and> cow_inv t' \<and> set (tab_r t') = insert rgn (set (tab_r t))))
    \<and> (res \<noteq> ADD_OK \<longrightarrow> new = None)"
  using prepare_eq [OF assms(1), of mem rgn] assms(2) by (auto simp: wf_region_iff split: if_splits)

definition cow_add :: "cow_table \<Rightarrow> region \<Rightarrow> cow_table option" where
  "cow_add t r = Option.bind (prepare True t r) snd"

interpretation region_cow: region_map cow_inv "\<lambda>t. set (tab_r t)" cow_add "\<lambda>t gpa. Option.bind (lookup t gpa) (\<lambda>x. x)"
proof
  fix t r t' and gpa :: u64
  have disj: "a = b" if inv: "cow_inv t" and ab: "a \<in> set (tab_r t)" "b \<in> set (tab_r t)" and "span a \<inter> span b \<noteq> {}" for a b
  proof -
    obtain i j where ij: "i < length (tab_r t)" "j < length (tab_r t)" "a = tab_r t ! i" "b = tab_r t ! j"
      using ab by (auto simp: in_set_conv_nth)
    then show ?thesis
      using \<open>span a \<inter> span b \<noteq> {}\<close> before_disjoint cow_inv_before [OF inv, of i j] cow_inv_before [OF inv, of j i]
      by (cases i j rule: linorder_cases) blast+
  qed
  show "cow_inv t \<Longrightarrow> (\<forall>r \<in> set (tab_r t). wf_region r) \<and> disjoint_regions (set (tab_r t))"
    using disj by (auto simp: cow_inv_def disjoint_regions_def)
  show "cow_inv t' \<and> set (tab_r t') = insert r (set (tab_r t))" if inv: "cow_inv t" and add: "cow_add t r = Some t'"
  proof -
    obtain res where "prepare True t r = Some (res, Some t')"
      using add by (auto simp: cow_add_def split: Option.bind_splits)
    from prepare_ok [OF inv this] show ?thesis by auto
  qed
  show "Option.bind (lookup t gpa) (\<lambda>x. x) = Some (mapped r gpa)"
    if inv: "cow_inv t" and r: "r \<in> set (tab_r t)" "unat gpa \<in> span r"
  proof -
    obtain q where q: "List.find (\<lambda>r. unat gpa \<in> span r) (tab_r t) = Some q"
      using r find_None_iff [of "\<lambda>r. unat gpa \<in> span r" "tab_r t"] by fastforce
    then have "q \<in> set (tab_r t)" "unat gpa \<in> span q" by (auto simp: find_Some_iff)
    with r inv have "q = r" using disj [of q r] by blast
    with q show ?thesis by (simp add: lookup_eq [OF inv])
  qed
  show "Option.bind (lookup t gpa) (\<lambda>x. x) = None"
    if inv: "cow_inv t" and miss: "\<And>r. r \<in> set (tab_r t) \<Longrightarrow> unat gpa \<notin> span r"
    using miss find_None_iff [of "\<lambda>r. unat gpa \<in> span r" "tab_r t"] by (simp add: lookup_eq [OF inv])
qed

subsection \<open>Properties\<close>

text \<open>
  C13: On a sorted table the bisection of \<open>lookup\<close> never reads outside the table and returns what a
  linear search for a region containing the address returns, so a miss means that no region
  contains it.
\<close>

theorem cow_lookup_linear:
  assumes "cow_inv t"
  shows "lookup t gpa = Some (map_option (\<lambda>r. host_virtual r + (gpa - guest_physical_start r))
    (List.find (\<lambda>r. unat gpa \<in> span r) (tab_r t)))"
  using lookup_eq [OF assms] by (simp add: mapped_def)

definition two_regions :: cow_table where
  "two_regions = \<lparr>tab_n = 2, tab_r =
     [\<lparr>guest_physical_start = 0, memsize = 16, host_virtual = 1000\<rparr>,
      \<lparr>guest_physical_start = 32, memsize = 16, host_virtual = 2000\<rparr>]\<rparr>"

lemma cow_inv_two_regions: "cow_inv two_regions"
  by (simp add: cow_inv_def two_regions_def wf_region_def before_def)

theorem cow_lookup_linear_witness:
  "lookup two_regions 40 = Some (Some 2008) \<and> lookup two_regions 20 = Some None"
  using cow_lookup_linear [OF cow_inv_two_regions, of 40] cow_lookup_linear [OF cow_inv_two_regions, of 20]
  by (simp add: two_regions_def span_def)

text \<open>
  Checking only the two neighbours of the insertion point is enough: on a sorted table
  \<open>region_add\<close> reports an overlap exactly when some region of the table meets the new one, it
  reports the other errors in the code's order, and otherwise it builds a table
  that is again sorted and has exactly the new region added.
\<close>

theorem cow_prepare_result:
  assumes "cow_inv t"
  shows "\<exists>res new. prepare mem t rgn = Some (res, new)
    \<and> res = (if memsize rgn = 0 then ADD_BAD_SIZE
       else if wraps rgn then ADD_WRAPS
       else if tab_n t = MAX_REGIONS then ADD_FULL
       else if \<exists>old \<in> set (tab_r t). span rgn \<inter> span old \<noteq> {} then ADD_OVERLAP
       else if \<not> mem then ADD_NOMEM
       else ADD_OK)
    \<and> (res = ADD_OK \<longrightarrow> (\<exists>t'. new = Some t' \<and> cow_inv t' \<and> set (tab_r t') = insert rgn (set (tab_r t))))
    \<and> (res \<noteq> ADD_OK \<longrightarrow> new = None)"
proof -
  define res where "res = (if memsize rgn = 0 then ADD_BAD_SIZE
       else if wraps rgn then ADD_WRAPS
       else if tab_n t = MAX_REGIONS then ADD_FULL
       else if \<exists>old \<in> set (tab_r t). span rgn \<inter> span old \<noteq> {} then ADD_OVERLAP
       else if \<not> mem then ADD_NOMEM
       else ADD_OK)"
  obtain x where x: "prepare mem t rgn = Some x" "fst x = res"
    using prepare_eq [OF assms, of mem rgn] unfolding res_def
    by (elim exE conjE) (simp only: if_distrib [of fst] fst_conv)
  then have p: "prepare mem t rgn = Some (res, snd x)" by (metis prod.collapse)
  show ?thesis
    using p prepare_ok [OF assms p] unfolding res_def by (intro exI conjI) (rule refl | blast)+
qed

theorem cow_prepare_result_witness:
  "\<exists>t'. prepare True two_regions \<lparr>guest_physical_start = 16, memsize = 16, host_virtual = 5\<rparr> = Some (ADD_OK, Some t')
     \<and> cow_inv t'"
proof -
  have "\<not> wraps \<lparr>guest_physical_start = 16, memsize = 16, host_virtual = 5\<rparr>" by (simp add: wraps_def)
  moreover have "tab_n two_regions \<noteq> MAX_REGIONS" by (simp add: two_regions_def MAX_REGIONS_def)
  moreover have "\<forall>old \<in> set (tab_r two_regions). span \<lparr>guest_physical_start = 16, memsize = 16, host_virtual = 5\<rparr> \<inter> span old = {}"
    by (auto simp: two_regions_def span_def)
  ultimately show ?thesis
    using cow_prepare_result [OF cow_inv_two_regions, of True "\<lparr>guest_physical_start = 16, memsize = 16, host_virtual = 5\<rparr>"]
    by auto
qed

end
