(* ===== verification/Rcu_Grace.thy ===== *)
theory Rcu_Grace
  imports Region_Cow
begin

text \<open>
  Publication and reclamation in \<open>Interview/mock1_rcu.c\<close>, as a step relation.  A state has the heap of
  tables (addresses to tables, \<^const>\<open>None\<close> when not allocated), the pointer \<open>current\<close>, one record per
  reader with its sequence counter and program position, and the position of the thread that
  holds \<open>writer_lock\<close> (the lock lets one writer at a time into \<open>region_add\<close>).  \<open>fault\<close> becomes
  true when a thread uses a table that is not allocated.

  A reader's position carries, for the statements only, the regions registered when its section began and
  the table it loaded.  The counters are 64-bit words and may wrap.  Each atomic access is one step.  The
  store of \<open>read_end\<close> is only a release store, so the writer's loads may miss it for some time:
  \<open>wait_for_readers\<close> may read the value before the last \<open>read_end\<close> (\<open>seen_seq\<close>), and the spinning load
  may stay unsuccessful arbitrarily long.  A lookup is one step, because the table it reads is immutable;
  that the table stays allocated during the whole section is what is proved.
\<close>

datatype rpc =
    Outside
  | Entered "region set"
  | Inside nat cow_table "region set"
  | Looked nat cow_table "region set" u64 "u64 option"

record reader_state =
  seq :: u64
  rpc :: rpc

datatype wpc = Idle | Built nat nat | Scan nat nat | Spin nat nat u64

record rcu =
  heap :: "nat \<Rightarrow> cow_table option"
  current :: nat
  readers :: "reader_state list"
  wpc :: wpc
  fault :: bool

definition MAX_READERS :: nat where "MAX_READERS = 8"

definition regs_at :: "rcu \<Rightarrow> nat \<Rightarrow> region set" where
  "regs_at s a = (case heap s a of None \<Rightarrow> {} | Some t \<Rightarrow> set (tab_r t))"

definition set_reader :: "rcu \<Rightarrow> nat \<Rightarrow> u64 \<Rightarrow> rpc \<Rightarrow> rcu" where
  "set_reader s i q p = s\<lparr>readers := (readers s)[i := \<lparr>seq = q, rpc = p\<rparr>]\<rparr>"

text \<open>\<open>read_begin\<close> is the store (\<open>read_enter\<close>) and the load (\<open>read_load\<close>); \<open>read_end\<close> is one store.\<close>

definition read_enter :: "rcu \<Rightarrow> nat \<Rightarrow> rcu option" where
  "read_enter s i =
     (case rpc (readers s ! i) of
        Outside \<Rightarrow> Some (set_reader s i (seq (readers s ! i) + 1) (Entered (regs_at s (current s))))
      | _ \<Rightarrow> None)"

definition read_load :: "rcu \<Rightarrow> nat \<Rightarrow> rcu option" where
  "read_load s i =
     (case rpc (readers s ! i) of
        Entered S \<Rightarrow>
          (case heap s (current s) of
             None \<Rightarrow> Some (s\<lparr>fault := True\<rparr>)
           | Some t \<Rightarrow> Some (set_reader s i (seq (readers s ! i)) (Inside (current s) t S)))
      | _ \<Rightarrow> None)"

definition read_lookup :: "rcu \<Rightarrow> nat \<Rightarrow> u64 \<Rightarrow> rcu option" where
  "read_lookup s i gpa =
     (case rpc (readers s ! i) of
        Inside a t S \<Rightarrow>
          (case Option.bind (heap s a) (\<lambda>t. lookup t gpa) of
             None \<Rightarrow> Some (s\<lparr>fault := True\<rparr>)
           | Some res \<Rightarrow> Some (set_reader s i (seq (readers s ! i)) (Looked a t S gpa res)))
      | _ \<Rightarrow> None)"

definition read_end :: "rcu \<Rightarrow> nat \<Rightarrow> rcu option" where
  "read_end s i =
     (case rpc (readers s ! i) of
        Looked a t S gpa res \<Rightarrow> Some (set_reader s i (seq (readers s ! i) + 1) Outside)
      | _ \<Rightarrow> None)"

text \<open>What the writer's load of a counter may return: its value, or the value before the last \<open>read_end\<close>.\<close>

definition seen_seq :: "reader_state \<Rightarrow> u64 \<Rightarrow> bool" where
  "seen_seq r v \<longleftrightarrow> v = seq r \<or> (rpc r = Outside \<and> v = seq r - 1)"

definition write_build :: "rcu \<Rightarrow> bool \<Rightarrow> region \<Rightarrow> nat \<Rightarrow> rcu option" where
  "write_build s mem rgn a =
     (if wpc s = Idle \<and> heap s a = None
      then (case Option.bind (heap s (current s)) (\<lambda>old. prepare mem old rgn) of
              None \<Rightarrow> Some (s\<lparr>fault := True\<rparr>)
            | Some (res, Some new) \<Rightarrow> Some (s\<lparr>heap := (heap s)(a \<mapsto> new), wpc := Built (current s) a\<rparr>)
            | Some (res, None) \<Rightarrow> Some s)
      else None)"

definition publish :: "rcu \<Rightarrow> rcu option" where
  "publish s = (case wpc s of
      Built old new \<Rightarrow> Some (s\<lparr>current := new, wpc := Scan old 0\<rparr>)
    | _ \<Rightarrow> None)"

text \<open>\<open>wait_for_readers\<close>: one iteration of the \<open>for\<close> loop up to the spin, and the end of a spin.\<close>

definition scan_reader :: "rcu \<Rightarrow> u64 \<Rightarrow> rcu option" where
  "scan_reader s v = (case wpc s of
      Scan old i \<Rightarrow>
        if i < length (readers s) \<and> seen_seq (readers s ! i) v
        then Some (s\<lparr>wpc := (if v AND 1 = 0 then Scan old (i + 1) else Spin old i v)\<rparr>)
        else None
    | _ \<Rightarrow> None)"

definition spin_end :: "rcu \<Rightarrow> rcu option" where
  "spin_end s = (case wpc s of
      Spin old i v \<Rightarrow> if seq (readers s ! i) \<noteq> v then Some (s\<lparr>wpc := Scan old (i + 1)\<rparr>) else None
    | _ \<Rightarrow> None)"

definition free_old :: "rcu \<Rightarrow> rcu option" where
  "free_old s = (case wpc s of
      Scan old i \<Rightarrow>
        if i = length (readers s)
        then if heap s old = None then Some (s\<lparr>fault := True\<rparr>)
             else Some (s\<lparr>heap := (heap s)(old := None), wpc := Idle\<rparr>)
        else None
    | _ \<Rightarrow> None)"

inductive rcu_step :: "rcu \<Rightarrow> rcu \<Rightarrow> bool" where
  enter: "i < length (readers s) \<Longrightarrow> read_enter s i = Some s' \<Longrightarrow> rcu_step s s'"
| load: "i < length (readers s) \<Longrightarrow> read_load s i = Some s' \<Longrightarrow> rcu_step s s'"
| look: "i < length (readers s) \<Longrightarrow> read_lookup s i gpa = Some s' \<Longrightarrow> rcu_step s s'"
| leave: "i < length (readers s) \<Longrightarrow> read_end s i = Some s' \<Longrightarrow> rcu_step s s'"
| build: "write_build s mem rgn a = Some s' \<Longrightarrow> rcu_step s s'"
| publish: "publish s = Some s' \<Longrightarrow> rcu_step s s'"
| scan: "scan_reader s v = Some s' \<Longrightarrow> rcu_step s s'"
| spin: "spin_end s = Some s' \<Longrightarrow> rcu_step s s'"
| free: "free_old s = Some s' \<Longrightarrow> rcu_step s s'"

definition rcu_init :: "nat \<Rightarrow> rcu" where
  "rcu_init n = \<lparr>heap = [0 \<mapsto> empty_table], current = 0,
     readers = replicate n \<lparr>seq = 0, rpc = Outside\<rparr>, wpc = Idle, fault = False\<rparr>"

inductive rcu_reach :: "nat \<Rightarrow> rcu \<Rightarrow> bool" for n where
  init: "rcu_reach n (rcu_init n)"
| step: "rcu_reach n s \<Longrightarrow> rcu_step s s' \<Longrightarrow> rcu_reach n s'"

subsection \<open>The invariant\<close>

fun retires :: "wpc \<Rightarrow> nat \<Rightarrow> bool" where
  "retires (Scan old i) a \<longleftrightarrow> old = a"
| "retires (Spin old i v) a \<longleftrightarrow> old = a"
| "retires _ a \<longleftrightarrow> False"

fun has_table :: "rpc \<Rightarrow> nat \<Rightarrow> bool" where
  "has_table (Inside a t S) b \<longleftrightarrow> a = b"
| "has_table (Looked a t S gpa res) b \<longleftrightarrow> a = b"
| "has_table _ b \<longleftrightarrow> False"

fun reader_ok :: "rcu \<Rightarrow> rpc \<Rightarrow> bool" where
  "reader_ok s Outside \<longleftrightarrow> True"
| "reader_ok s (Entered S) \<longleftrightarrow> S \<subseteq> regs_at s (current s)"
| "reader_ok s (Inside a t S) \<longleftrightarrow> heap s a = Some t \<and> cow_inv t \<and> S \<subseteq> set (tab_r t) \<and> (a = current s \<or> retires (wpc s) a)"
| "reader_ok s (Looked a t S gpa res) \<longleftrightarrow> heap s a = Some t \<and> cow_inv t \<and> S \<subseteq> set (tab_r t)
     \<and> (a = current s \<or> retires (wpc s) a) \<and> lookup t gpa = Some res"

fun writer_ok :: "rcu \<Rightarrow> wpc \<Rightarrow> bool" where
  "writer_ok s Idle \<longleftrightarrow> True"
| "writer_ok s (Built old new) \<longleftrightarrow> old = current s \<and> new \<noteq> old
     \<and> (\<exists>t. heap s new = Some t \<and> cow_inv t \<and> regs_at s old \<subseteq> set (tab_r t))"
| "writer_ok s (Scan old i) \<longleftrightarrow> old \<noteq> current s \<and> heap s old \<noteq> None \<and> i \<le> length (readers s)
     \<and> (\<forall>j < i. \<not> has_table (rpc (readers s ! j)) old)"
| "writer_ok s (Spin old i v) \<longleftrightarrow> odd (unat v) \<and> old \<noteq> current s \<and> heap s old \<noteq> None \<and> i < length (readers s)
     \<and> (\<forall>j < i. \<not> has_table (rpc (readers s ! j)) old)
     \<and> (has_table (rpc (readers s ! i)) old \<longrightarrow> seq (readers s ! i) = v)"

definition rcu_inv :: "rcu \<Rightarrow> bool" where
  "rcu_inv s \<longleftrightarrow> \<not> fault s
     \<and> (\<exists>t. heap s (current s) = Some t \<and> cow_inv t)
     \<and> (\<forall>i < length (readers s). reader_ok s (rpc (readers s ! i))
          \<and> (odd (unat (seq (readers s ! i))) \<longleftrightarrow> rpc (readers s ! i) \<noteq> Outside))
     \<and> writer_ok s (wpc s)"

lemma odd_inc: "odd (unat (x + 1 :: u64)) \<longleftrightarrow> even (unat x)"
proof -
  have "unat (x + 1) mod 2 ^ 1 = (unat x + unat (1 :: u64)) mod 2 ^ 1"
    by (rule unat_add_mod_pow2) simp
  then have "unat (x + 1) mod 2 = (unat x + 1) mod 2" by simp
  then show ?thesis by presburger
qed

lemma and_one_zero: "v AND 1 = 0 \<longleftrightarrow> even (unat (v :: u64))"
proof -
  have "unat (v AND (2 ^ 1 - 1)) = unat v mod 2 ^ 1" by (rule unat_and_pow2_minus_1) simp
  then have "unat (v AND 1) = unat v mod 2" by simp
  then show ?thesis by (metis even_iff_mod_2_eq_zero unat_eq_zero)
qed

lemma set_reader_simps [simp]:
  "heap (set_reader s i q p) = heap s"
  "current (set_reader s i q p) = current s"
  "wpc (set_reader s i q p) = wpc s"
  "fault (set_reader s i q p) = fault s"
  "length (readers (set_reader s i q p)) = length (readers s)"
  "regs_at (set_reader s i q p) a = regs_at s a"
  by (simp_all add: set_reader_def regs_at_def)

lemma set_reader_nth:
  "j < length (readers s) \<Longrightarrow>
   readers (set_reader s i q p) ! j = (if j = i then \<lparr>seq = q, rpc = p\<rparr> else readers s ! j)"
  by (simp add: set_reader_def nth_list_update)

lemma reader_ok_set_reader [simp]: "reader_ok (set_reader s i q p) = reader_ok s"
  by (rule ext, rename_tac r, case_tac r) simp_all

text \<open>A reader's step keeps the invariant when it does not pick up a table that is being retired.\<close>

lemma writer_ok_set_reader:
  assumes "writer_ok s (wpc s)" and "i < length (readers s)"
    and "\<And>a. has_table p a \<Longrightarrow> retires (wpc s) a \<Longrightarrow> has_table (rpc (readers s ! i)) a \<and> q = seq (readers s ! i)"
  shows "writer_ok (set_reader s i q p) (wpc s)"
  using assms by (cases "wpc s") (auto simp: set_reader_nth)

lemma rcu_inv_set_reader:
  assumes "rcu_inv s" and "i < length (readers s)"
    and "reader_ok s p" and "odd (unat q) \<longleftrightarrow> p \<noteq> Outside"
    and "\<And>a. has_table p a \<Longrightarrow> retires (wpc s) a \<Longrightarrow> has_table (rpc (readers s ! i)) a \<and> q = seq (readers s ! i)"
  shows "rcu_inv (set_reader s i q p)"
  using assms writer_ok_set_reader [OF _ assms(2,5)]
  unfolding rcu_inv_def by (auto simp: set_reader_nth)

lemma rcu_invD:
  assumes "rcu_inv s"
  shows "\<not> fault s" and "\<exists>t. heap s (current s) = Some t \<and> cow_inv t"
    and "i < length (readers s) \<Longrightarrow> reader_ok s (rpc (readers s ! i))"
    and "i < length (readers s) \<Longrightarrow> odd (unat (seq (readers s ! i))) \<longleftrightarrow> rpc (readers s ! i) \<noteq> Outside"
    and "writer_ok s (wpc s)"
  using assms by (auto simp: rcu_inv_def)

lemma current_not_retired: "rcu_inv s \<Longrightarrow> \<not> retires (wpc s) (current s)"
  using rcu_invD(5) [of s] by (cases "wpc s") auto

lemma rcu_inv_enter:
  assumes "rcu_inv s" and "i < length (readers s)" and "read_enter s i = Some s'"
  shows "rcu_inv s'"
proof -
  have out: "rpc (readers s ! i) = Outside"
    and s': "s' = set_reader s i (seq (readers s ! i) + 1) (Entered (regs_at s (current s)))"
    using assms(3) by (auto simp: read_enter_def split: rpc.splits)
  have "odd (unat (seq (readers s ! i) + 1))" using rcu_invD(4) [OF assms(1,2)] out by (simp add: odd_inc)
  then show ?thesis unfolding s' by (intro rcu_inv_set_reader [OF assms(1,2)]) auto
qed

lemma rcu_inv_load:
  assumes "rcu_inv s" and "i < length (readers s)" and "read_load s i = Some s'"
  shows "rcu_inv s'"
proof -
  obtain t where t: "heap s (current s) = Some t" "cow_inv t" using rcu_invD(2) [OF assms(1)] by blast
  obtain S where pc: "rpc (readers s ! i) = Entered S"
    and s': "s' = set_reader s i (seq (readers s ! i)) (Inside (current s) t S)"
    using assms(3) t(1) by (auto simp: read_load_def split: rpc.splits)
  have "S \<subseteq> set (tab_r t)" using rcu_invD(3) [OF assms(1,2)] pc t(1) by (simp add: regs_at_def)
  then show ?thesis unfolding s'
    using rcu_invD(4) [OF assms(1,2)] pc t current_not_retired [OF assms(1)]
    by (intro rcu_inv_set_reader [OF assms(1,2)]) auto
qed

lemma rcu_inv_look:
  assumes "rcu_inv s" and "i < length (readers s)" and "read_lookup s i gpa = Some s'"
  shows "rcu_inv s'"
proof -
  obtain a t S where pc: "rpc (readers s ! i) = Inside a t S"
    using assms(3) by (auto simp: read_lookup_def split: rpc.splits)
  have ok: "heap s a = Some t" "cow_inv t" using rcu_invD(3) [OF assms(1,2)] pc by auto
  obtain res where res: "lookup t gpa = Some res" using lookup_eq [OF ok(2)] by blast
  have s': "s' = set_reader s i (seq (readers s ! i)) (Looked a t S gpa res)"
    using assms(3) pc ok(1) res by (simp add: read_lookup_def)
  show ?thesis unfolding s'
    using rcu_invD(3,4) [OF assms(1,2)] pc res
    by (intro rcu_inv_set_reader [OF assms(1,2)]) auto
qed

lemma rcu_inv_leave:
  assumes "rcu_inv s" and "i < length (readers s)" and "read_end s i = Some s'"
  shows "rcu_inv s'"
proof -
  have pc: "rpc (readers s ! i) \<noteq> Outside"
    and s': "s' = set_reader s i (seq (readers s ! i) + 1) Outside"
    using assms(3) by (auto simp: read_end_def split: rpc.splits)
  have "even (unat (seq (readers s ! i) + 1))" using rcu_invD(4) [OF assms(1,2)] pc odd_inc by blast
  then show ?thesis unfolding s' by (intro rcu_inv_set_reader [OF assms(1,2)]) auto
qed

text \<open>Steps of the writer that leave the readers alone.\<close>

lemma rcu_inv_writer:
  assumes "rcu_inv s" and "readers s' = readers s" and "\<not> fault s'"
    and "\<exists>t. heap s' (current s') = Some t \<and> cow_inv t"
    and "\<And>i. i < length (readers s) \<Longrightarrow> reader_ok s (rpc (readers s ! i)) \<Longrightarrow> reader_ok s' (rpc (readers s ! i))"
    and "writer_ok s' (wpc s')"
  shows "rcu_inv s'"
  using assms by (auto simp: rcu_inv_def)

lemma rcu_inv_build:
  assumes "rcu_inv s" and "write_build s mem rgn a = Some s'"
  shows "rcu_inv s'"
proof -
  obtain t where t: "heap s (current s) = Some t" "cow_inv t" using rcu_invD(2) [OF assms(1)] by blast
  have idle: "wpc s = Idle" and fresh: "heap s a = None" using assms(2) by (auto simp: write_build_def split: if_splits)
  obtain res new where p: "prepare mem t rgn = Some (res, new)" using cow_prepare_result [OF t(2)] by blast
  show ?thesis
  proof (cases new)
    case None
    then have "s' = s" using assms(2) t(1) p idle fresh by (simp add: write_build_def)
    with assms(1) show ?thesis by simp
  next
    case (Some t')
    then have s': "s' = s\<lparr>heap := (heap s)(a \<mapsto> t'), wpc := Built (current s) a\<rparr>"
      using assms(2) t(1) p idle fresh by (simp add: write_build_def)
    have t': "cow_inv t'" "set (tab_r t) \<subseteq> set (tab_r t')" using prepare_ok [OF t(2) p] Some by auto
    have ne: "a \<noteq> current s" using t(1) fresh by auto
    have "reader_ok s' p" if "reader_ok s p" for p
      using that ne fresh idle by (cases p) (auto simp: s' regs_at_def)
    then show ?thesis
      using t t' ne rcu_invD(1) [OF assms(1)]
      by (intro rcu_inv_writer [OF assms(1)]) (auto simp: s' regs_at_def)
  qed
qed

lemma rcu_inv_publish:
  assumes "rcu_inv s" and "publish s = Some s'"
  shows "rcu_inv s'"
proof -
  obtain old new where w: "wpc s = Built old new" and s': "s' = s\<lparr>current := new, wpc := Scan old 0\<rparr>"
    using assms(2) by (auto simp: publish_def split: wpc.splits)
  obtain t where ok: "old = current s" "new \<noteq> old" "heap s new = Some t" "cow_inv t" "regs_at s old \<subseteq> set (tab_r t)"
    using rcu_invD(5) [OF assms(1)] w by auto
  obtain u where u: "heap s old = Some u" using rcu_invD(2) [OF assms(1)] ok(1) by blast
  have "reader_ok s' p" if "reader_ok s p" for p
    using that ok w by (cases p) (auto simp: s' regs_at_def)
  then show ?thesis
    using ok u rcu_invD(1) [OF assms(1)] by (intro rcu_inv_writer [OF assms(1)]) (auto simp: s')
qed

lemma reader_ok_retire: 
  assumes "reader_ok s p" and "heap s' = heap s" and "current s' = current s"
    and "\<And>a. retires (wpc s) a \<Longrightarrow> retires (wpc s') a"
  shows "reader_ok s' p"
  using assms by (cases p) (auto simp: regs_at_def)

lemma rcu_inv_scan:
  assumes "rcu_inv s" and "scan_reader s v = Some s'"
  shows "rcu_inv s'"
proof -
  obtain old i where w: "wpc s = Scan old i" and i: "i < length (readers s)" "seen_seq (readers s ! i) v"
    and s': "s' = s\<lparr>wpc := (if v AND 1 = 0 then Scan old (i + 1) else Spin old i v)\<rparr>"
    using assms(2) by (auto simp: scan_reader_def split: wpc.splits if_splits)
  have parity: "odd (unat (seq (readers s ! i))) \<longleftrightarrow> rpc (readers s ! i) \<noteq> Outside"
    by (rule rcu_invD(4) [OF assms(1) i(1)])
  have inside: "v = seq (readers s ! i) \<and> odd (unat v)" if "has_table (rpc (readers s ! i)) old"
    using that parity i(2) by (auto simp: seen_seq_def)
  have "writer_ok s' (wpc s')"
    using rcu_invD(5) [OF assms(1)] w i(1) inside by (auto simp: s' and_one_zero less_Suc_eq)
  then show ?thesis
    using rcu_invD(1,2) [OF assms(1)] w
    by (intro rcu_inv_writer [OF assms(1)]) (auto simp: s' intro: reader_ok_retire)
qed

lemma rcu_inv_spin:
  assumes "rcu_inv s" and "spin_end s = Some s'"
  shows "rcu_inv s'"
proof -
  obtain old i v where w: "wpc s = Spin old i v" and v: "seq (readers s ! i) \<noteq> v"
    and s': "s' = s\<lparr>wpc := Scan old (i + 1)\<rparr>"
    using assms(2) by (auto simp: spin_end_def split: wpc.splits if_splits)
  have "writer_ok s' (wpc s')"
    using rcu_invD(5) [OF assms(1)] w v by (auto simp: s' less_Suc_eq)
  then show ?thesis
    using rcu_invD(1,2) [OF assms(1)] w
    by (intro rcu_inv_writer [OF assms(1)]) (auto simp: s' intro: reader_ok_retire)
qed

lemma rcu_inv_free:
  assumes "rcu_inv s" and "free_old s = Some s'"
  shows "rcu_inv s'"
proof -
  obtain old where w: "wpc s = Scan old (length (readers s))"
    using assms(2) by (auto simp: free_old_def split: wpc.splits if_splits)
  then have ok: "old \<noteq> current s" "heap s old \<noteq> None" "\<forall>j < length (readers s). \<not> has_table (rpc (readers s ! j)) old"
    using rcu_invD(5) [OF assms(1)] by auto
  have s': "s' = s\<lparr>heap := (heap s)(old := None), wpc := Idle\<rparr>"
    using assms(2) w ok(2) by (simp add: free_old_def)
  have "reader_ok s' p" if "reader_ok s p" "\<not> has_table p old" for p
    using that ok(1) w by (cases p) (auto simp: s' regs_at_def)
  then show ?thesis
    using ok rcu_invD(1,2) [OF assms(1)] by (intro rcu_inv_writer [OF assms(1)]) (auto simp: s')
qed

lemma rcu_inv_init: "rcu_inv (rcu_init n)"
  by (simp add: rcu_inv_def rcu_init_def cow_inv_empty)

lemma rcu_inv_step: "rcu_step s s' \<Longrightarrow> rcu_inv s \<Longrightarrow> rcu_inv s'"
  by (induction rule: rcu_step.induct)
    (auto intro: rcu_inv_enter rcu_inv_load rcu_inv_look rcu_inv_leave rcu_inv_build rcu_inv_publish
      rcu_inv_scan rcu_inv_spin rcu_inv_free)

lemma rcu_inv_reach: "rcu_reach n s \<Longrightarrow> rcu_inv s"
  by (induction rule: rcu_reach.induct) (auto intro: rcu_inv_init rcu_inv_step)

subsection \<open>The wait ends\<close>

text \<open>
  The steps that end a grace period: the readers go through the sections they are in and leave them, and the writer goes on with
  the registration it has begun.  No reader enters a section and no registration begins.
\<close>

inductive drain_step :: "rcu \<Rightarrow> rcu \<Rightarrow> bool" where
  load: "i < length (readers s) \<Longrightarrow> read_load s i = Some s' \<Longrightarrow> drain_step s s'"
| look: "i < length (readers s) \<Longrightarrow> read_lookup s i gpa = Some s' \<Longrightarrow> drain_step s s'"
| leave: "i < length (readers s) \<Longrightarrow> read_end s i = Some s' \<Longrightarrow> drain_step s s'"
| publish: "publish s = Some s' \<Longrightarrow> drain_step s s'"
| scan: "scan_reader s v = Some s' \<Longrightarrow> drain_step s s'"
| spin: "spin_end s = Some s' \<Longrightarrow> drain_step s s'"
| free: "free_old s = Some s' \<Longrightarrow> drain_step s s'"

lemma drain_rcu_step: "drain_step s s' \<Longrightarrow> rcu_step s s'"
  by (induction rule: drain_step.induct) (auto intro: rcu_step.intros)

text \<open>The writer replaces the table at \<open>old\<close> by the one at \<open>new\<close>.\<close>

definition replacing :: "rcu \<Rightarrow> nat \<Rightarrow> nat \<Rightarrow> bool" where
  "replacing s old new \<longleftrightarrow> (case wpc s of
      Idle \<Rightarrow> False
    | Built a b \<Rightarrow> a = old \<and> b = new
    | Scan a i \<Rightarrow> a = old \<and> current s = new
    | Spin a i v \<Rightarrow> a = old \<and> current s = new)"

fun reader_rank :: "rpc \<Rightarrow> nat" where
  "reader_rank Outside = 0"
| "reader_rank (Entered S) = 3"
| "reader_rank (Inside a t S) = 2"
| "reader_rank (Looked a t S gpa res) = 1"

fun writer_rank :: "nat \<Rightarrow> wpc \<Rightarrow> nat" where
  "writer_rank n Idle = 0"
| "writer_rank n (Built old new) = 2 * n + 2"
| "writer_rank n (Scan old i) = 2 * (n - i) + 1"
| "writer_rank n (Spin old i v) = 2 * (n - i)"

definition drain_rank :: "rcu \<Rightarrow> nat" where
  "drain_rank s = sum_list (map (\<lambda>r. reader_rank (rpc r)) (readers s)) + writer_rank (length (readers s)) (wpc s)"

lemma set_reader_rank:
  assumes "i < length (readers s)" and "reader_rank p < reader_rank (rpc (readers s ! i))"
  shows "drain_rank (set_reader s i q p) < drain_rank s"
proof -
  let ?f = "\<lambda>r. reader_rank (rpc r)"
  have "?f (readers s ! i) \<le> sum_list (map ?f (readers s))"
    using assms(1) by (intro member_le_sum_list) simp_all
  then show ?thesis
    using assms by (simp add: drain_rank_def set_reader_def map_update sum_list_update)
qed

lemma writer_moves_rank:
  assumes "readers s' = readers s" and "writer_rank (length (readers s)) (wpc s') < writer_rank (length (readers s)) (wpc s)"
  shows "drain_rank s' < drain_rank s"
  using assms by (simp add: drain_rank_def)

text \<open>What a step of a reader and a step of the writer change.\<close>

lemma drain_cases:
  assumes "drain_step s s'" and inv: "rcu_inv s"
  obtains (reader) i q p where "i < length (readers s)" "s' = set_reader s i q p"
      "reader_rank p < reader_rank (rpc (readers s ! i))"
    | (writer) "readers s' = readers s" "heap s' = heap s" "\<And>old new. replacing s old new \<Longrightarrow> replacing s' old new"
      "writer_rank (length (readers s)) (wpc s') < writer_rank (length (readers s)) (wpc s)"
    | (free) old i where "wpc s = Scan old i" "s' = s\<lparr>heap := (heap s)(old := None), wpc := Idle\<rparr>"
  using assms(1)
proof (cases rule: drain_step.cases)
  case (load i)
  obtain t where t: "heap s (current s) = Some t" using rcu_invD(2) [OF inv] by blast
  obtain S where pc: "rpc (readers s ! i) = Entered S" using load(2) by (auto simp: read_load_def split: rpc.splits)
  have "s' = set_reader s i (seq (readers s ! i)) (Inside (current s) t S)" using load(2) t pc by (simp add: read_load_def)
  from reader [OF load(1) this] show ?thesis by (simp add: pc)
next
  case (look i gpa)
  obtain a t S where pc: "rpc (readers s ! i) = Inside a t S" using look(2) by (auto simp: read_lookup_def split: rpc.splits)
  have ok: "heap s a = Some t" "cow_inv t" using rcu_invD(3) [OF inv look(1)] pc by auto
  obtain res where res: "lookup t gpa = Some res" using lookup_eq [OF ok(2)] by blast
  have "s' = set_reader s i (seq (readers s ! i)) (Looked a t S gpa res)" using look(2) pc ok(1) res by (simp add: read_lookup_def)
  from reader [OF look(1) this] show ?thesis by (simp add: pc)
next
  case (leave i)
  then have "s' = set_reader s i (seq (readers s ! i) + 1) Outside" "0 < reader_rank (rpc (readers s ! i))"
    by (auto simp: read_end_def split: rpc.splits)
  with reader [OF leave(1)] show ?thesis by simp
next
  case publish
  then obtain old new where "wpc s = Built old new" "s' = s\<lparr>current := new, wpc := Scan old 0\<rparr>"
    by (auto simp: publish_def split: wpc.splits)
  then show ?thesis by (intro writer) (auto simp: replacing_def)
next
  case (scan v)
  then obtain old i where "wpc s = Scan old i" "i < length (readers s)"
    "s' = s\<lparr>wpc := (if v AND 1 = 0 then Scan old (i + 1) else Spin old i v)\<rparr>"
    by (auto simp: scan_reader_def split: wpc.splits if_splits)
  then show ?thesis by (intro writer) (auto simp: replacing_def)
next
  case spin
  then obtain old i v where w: "wpc s = Spin old i v" "s' = s\<lparr>wpc := Scan old (i + 1)\<rparr>"
    by (auto simp: spin_end_def split: wpc.splits if_splits)
  then have "i < length (readers s)" using rcu_invD(5) [OF inv] by simp
  then show ?thesis using w by (intro writer) (auto simp: replacing_def)
next
  case free
  then obtain old where w: "wpc s = Scan old (length (readers s))" by (auto simp: free_old_def split: wpc.splits if_splits)
  then have "heap s old \<noteq> None" using rcu_invD(5) [OF inv] by simp
  then have "s' = s\<lparr>heap := (heap s)(old := None), wpc := Idle\<rparr>" using free w by (auto simp: free_old_def)
  then show ?thesis by (rule that(3) [OF w])
qed

lemma drain_rank_decreases:
  assumes "drain_step s s'" and "rcu_inv s"
  shows "drain_rank s' < drain_rank s"
  using assms
proof (cases rule: drain_cases)
  case (reader i q p)
  then show ?thesis using set_reader_rank by simp
next
  case writer
  show ?thesis by (rule writer_moves_rank [OF writer(1,4)])
next
  case (free old i)
  then show ?thesis by (intro writer_moves_rank) simp_all
qed

text \<open>Until it is freed the old table stays, then it alone is gone and the new one is published.\<close>

definition replaced :: "rcu \<Rightarrow> nat \<Rightarrow> nat \<Rightarrow> rcu \<Rightarrow> bool" where
  "replaced s old new s' \<longleftrightarrow> replacing s' old new \<and> heap s' = heap s
     \<or> wpc s' = Idle \<and> heap s' = (heap s)(old := None) \<and> current s' = new"

lemma drain_replaced:
  assumes "drain_step s1 s2" and "rcu_inv s1" and "replaced s old new s1"
  shows "replaced s old new s2"
  using assms(1,2)
proof (cases rule: drain_cases)
  case (reader i q p)
  then show ?thesis using assms(3) by (auto simp: replaced_def replacing_def set_reader_def split: wpc.splits)
next
  case writer
  then show ?thesis using assms(3) by (cases "wpc s1 = Idle") (auto simp: replaced_def replacing_def)
next
  case (free a i)
  then show ?thesis using assms(3) by (auto simp: replaced_def replacing_def)
qed

lemma drain_runs:
  assumes "(drain_step ^^ k) s s'" and "rcu_inv s" and "replaced s0 old new s"
  shows "rcu_inv s' \<and> replaced s0 old new s' \<and> k + drain_rank s' \<le> drain_rank s"
  using assms(1)
proof (induction k arbitrary: s')
  case 0
  then show ?case using assms(2,3) by simp
next
  case (Suc k)
  then obtain s1 where s1: "(drain_step ^^ k) s s1" "drain_step s1 s'" by auto
  have ih: "rcu_inv s1" "replaced s0 old new s1" "k + drain_rank s1 \<le> drain_rank s" using Suc.IH [OF s1(1)] by auto
  then show ?case
    using drain_rank_decreases [OF s1(2)] drain_replaced [OF s1(2)] rcu_inv_step [OF drain_rcu_step [OF s1(2)]] by fastforce
qed

text \<open>A reader in its section, and a writer when all readers are outside, can always step.\<close>

lemma reader_drains:
  assumes inv: "rcu_inv s" and i: "i < length (readers s)" and pc: "rpc (readers s ! i) \<noteq> Outside"
  shows "\<exists>s'. drain_step s s'"
proof (cases "rpc (readers s ! i)")
  case (Entered S)
  obtain t where "heap s (current s) = Some t" using rcu_invD(2) [OF inv] by blast
  then show ?thesis using drain_step.load [OF i] Entered by (auto simp: read_load_def)
next
  case (Inside a t S)
  have "read_lookup s i 0 \<noteq> None" by (simp add: read_lookup_def Inside split: option.splits)
  then show ?thesis using drain_step.look [OF i] by blast
next
  case (Looked a t S gpa res)
  then show ?thesis using drain_step.leave [OF i] by (auto simp: read_end_def)
qed (use pc in simp)

lemma writer_drains:
  assumes inv: "rcu_inv s" and out: "\<forall>i < length (readers s). rpc (readers s ! i) = Outside" and w: "wpc s \<noteq> Idle"
  shows "\<exists>s'. drain_step s s'"
proof (cases "wpc s")
  case (Built old new)
  then have "publish s \<noteq> None" by (simp add: publish_def)
  then show ?thesis using drain_step.publish by blast
next
  case (Scan old i)
  show ?thesis
  proof (cases "i < length (readers s)")
    case True
    then have "scan_reader s (seq (readers s ! i)) \<noteq> None" using Scan by (simp add: scan_reader_def seen_seq_def)
    then show ?thesis using drain_step.scan by blast
  next
    case False
    then have "i = length (readers s)" using rcu_invD(5) [OF inv] Scan by simp
    then have "free_old s \<noteq> None" using Scan by (simp add: free_old_def)
    then show ?thesis using drain_step.free by blast
  qed
next
  case (Spin old i v)
  then have "i < length (readers s)" "odd (unat v)" using rcu_invD(5) [OF inv] by auto
  then have "seq (readers s ! i) \<noteq> v" using rcu_invD(4) [OF inv] out by blast
  then have "spin_end s \<noteq> None" using Spin by (simp add: spin_end_def)
  then show ?thesis using drain_step.spin by blast
qed (use w in simp)

lemma reach_readers: "rcu_reach n s \<Longrightarrow> length (readers s) = n"
proof (induction rule: rcu_reach.induct)
  case (step s s')
  from step.hyps(2) have "length (readers s') = length (readers s)"
    by (cases rule: rcu_step.cases)
      (auto simp: read_enter_def read_load_def read_lookup_def read_end_def write_build_def publish_def scan_reader_def
        spin_end_def free_old_def set_reader_def split: rpc.splits wpc.splits option.splits prod.splits if_splits)
  then show ?case using step.IH by simp
qed (simp add: rcu_init_def)

lemma drain_rank_le: "drain_rank s \<le> 5 * length (readers s) + 2"
proof -
  have le: "reader_rank (rpc r) \<le> 3" for r :: reader_state by (cases "rpc r") simp_all
  have "sum_list (map (\<lambda>r. reader_rank (rpc r)) rs) \<le> 3 * length rs" for rs :: "reader_state list"
  proof (induction rs)
    case (Cons r rs)
    then show ?case using le [of r] by simp
  qed simp
  from this [of "readers s"] have "sum_list (map (\<lambda>r. reader_rank (rpc r)) (readers s)) \<le> 3 * length (readers s)" .
  moreover have "writer_rank n w \<le> 2 * n + 2" for n w by (cases w) simp_all
  from this [of "length (readers s)" "wpc s"] have "writer_rank (length (readers s)) (wpc s) \<le> 2 * length (readers s) + 2" .
  ultimately show ?thesis by (simp add: drain_rank_def)
qed

subsection \<open>A concrete run\<close>

definition demo_region :: region where
  "demo_region = \<lparr>guest_physical_start = 0, memsize = 16, host_virtual = 1000\<rparr>"

definition demo_table :: cow_table where
  "demo_table = \<lparr>tab_n = 1, tab_r = [demo_region]\<rparr>"

text \<open>One region has been published, the writer is about to scan the readers, and the reader is at \<open>p\<close>.\<close>

definition demo_state :: "u64 \<Rightarrow> rpc \<Rightarrow> rcu" where
  "demo_state q p = \<lparr>heap = [0 \<mapsto> empty_table, 1 \<mapsto> demo_table], current = 1,
     readers = [\<lparr>seq = q, rpc = p\<rparr>], wpc = Scan 0 0, fault = False\<rparr>"

lemma demo_prepare: "prepare True empty_table demo_region = Some (ADD_OK, Some demo_table)"
  by (simp add: prepare_def build_def empty_table_def demo_region_def demo_table_def MAX_REGIONS_def
      insert_pos.simps left_overlap_def right_overlap_def copy_with_def)

lemma demo_published: "rcu_reach 1 (demo_state 0 Outside)"
proof -
  let ?s1 = "(rcu_init 1)\<lparr>heap := [0 \<mapsto> empty_table, 1 \<mapsto> demo_table], wpc := Built 0 1\<rparr>"
  have "write_build (rcu_init 1) True demo_region 1 = Some ?s1"
    by (simp add: write_build_def rcu_init_def demo_prepare)
  then have "rcu_reach 1 ?s1" by (intro rcu_reach.step [OF rcu_reach.init] rcu_step.build)
  moreover have "publish ?s1 = Some (demo_state 0 Outside)"
    by (simp add: publish_def demo_state_def rcu_init_def)
  ultimately show ?thesis by (rule rcu_reach.step [OF _ rcu_step.publish])
qed

lemma demo_inside: "rcu_reach 1 (demo_state 1 (Inside 1 demo_table {demo_region}))"
proof -
  have "rcu_reach 1 (demo_state 1 (Entered {demo_region}))"
    by (rule rcu_reach.step [OF demo_published rcu_step.enter [of 0]])
      (simp_all add: demo_state_def read_enter_def set_reader_def regs_at_def demo_table_def)
  then show ?thesis
    by (rule rcu_reach.step [OF _ rcu_step.load [of 0]])
      (simp_all add: demo_state_def read_load_def set_reader_def)
qed

lemma demo_looked: "rcu_reach 1 (demo_state 1 (Looked 1 demo_table {demo_region} 4 (Some 1004)))"
  by (rule rcu_reach.step [OF demo_inside rcu_step.look [of 0 _ 4]])
    (simp_all add: demo_state_def read_lookup_def set_reader_def demo_table_def demo_region_def
      lookup_def bisect.simps)

subsection \<open>Properties\<close>

text \<open>
  C2: No table is used after it was freed.  In every reachable state no thread has used a table that is
  not allocated, and every reader inside a section has a table that is still allocated and unchanged since
  the reader loaded the pointer; the published table is always allocated.
\<close>

theorem rcu_no_use_after_free:
  assumes "rcu_reach n s"
  shows "\<not> fault s \<and> heap s (current s) \<noteq> None
    \<and> (\<forall>i < length (readers s). \<forall>a t S. rpc (readers s ! i) = Inside a t S \<longrightarrow> heap s a = Some t)"
  using rcu_invD(1-3) [OF rcu_inv_reach [OF assms]] by fastforce

theorem rcu_no_use_after_free_witness:
  "\<not> fault (demo_state 1 (Inside 1 demo_table {demo_region}))
   \<and> heap (demo_state 1 (Inside 1 demo_table {demo_region})) 1 = Some demo_table"
  using rcu_no_use_after_free [OF demo_inside] by (simp add: demo_state_def)

text \<open>
  A translation that runs concurrently with registrations is correct for an up-to-date table: its
  address is one of a registered, disjoint set of regions that contains every region registered before
  the reader entered its section; so an address of such a region is always translated, by that region.
\<close>

theorem rcu_translation_correct:
  assumes "rcu_reach n s" and "i < length (readers s)" and "rpc (readers s ! i) = Looked a t S gpa res"
  shows "S \<subseteq> set (tab_r t) \<and> disjoint_regions (set (tab_r t))
    \<and> (\<forall>r \<in> S. unat gpa \<in> span r \<longrightarrow> res = Some (mapped r gpa))
    \<and> (\<forall>hva. res = Some hva \<longrightarrow> (\<exists>r \<in> set (tab_r t). unat gpa \<in> span r
          \<and> unat hva = unat (host_virtual r) + (unat gpa - unat (guest_physical_start r))))"
proof -
  have ok: "cow_inv t" "S \<subseteq> set (tab_r t)" "lookup t gpa = Some res"
    using rcu_invD(3) [OF rcu_inv_reach [OF assms(1)] assms(2)] assms(3) by auto
  then show ?thesis
    using region_cow.regs_wf [OF ok(1)] region_cow.translate_hit [OF ok(1), of _ gpa]
      region_cow.translate_SomeD [OF ok(1), of gpa]
    by (auto simp del: not_None_eq)
qed

theorem rcu_translation_correct_witness:
  "disjoint_regions (set (tab_r demo_table)) \<and> Some 1004 = Some (mapped demo_region 4)"
  using rcu_translation_correct [OF demo_looked, of 0 1 demo_table "{demo_region}" 4 "Some 1004"]
  by (simp add: demo_state_def demo_region_def span_def)

text \<open>
  C27: The writer cannot be stuck in \<open>wait_for_readers\<close>, and \<open>region_add\<close> frees the table it replaces.  Let the writer be replacing the table
  \<open>old\<close> by \<open>new\<close>, anywhere between building \<open>new\<close> and freeing \<open>old\<close>.  When from then on no reader enters a section, then, however the threads are
  scheduled, after at most \<open>5 n + 2\<close> steps with \<open>n\<close> readers no further step is possible, and then every reader has left the section it was in, the writer
  has returned, \<open>new\<close> is published, and of the tables exactly \<open>old\<close>, allocated until then, is freed.
\<close>

theorem rcu_writer_completes:
  assumes "rcu_reach n s" and "replacing s old new"
  shows "heap s old \<noteq> None
    \<and> (\<forall>k s'. (drain_step ^^ k) s s' \<longrightarrow> k \<le> 5 * n + 2)
    \<and> (\<forall>s'. drain_step\<^sup>*\<^sup>* s s' \<longrightarrow> (\<nexists>s''. drain_step s' s'')
        \<longrightarrow> wpc s' = Idle \<and> current s' = new \<and> heap s' = (heap s)(old := None)
          \<and> (\<forall>i < length (readers s'). rpc (readers s' ! i) = Outside))"
proof -
  have inv: "rcu_inv s" by (rule rcu_inv_reach [OF assms(1)])
  have start: "replaced s old new s" using assms(2) by (simp add: replaced_def)
  note run = drain_runs [OF _ inv start]
  have old: "heap s old \<noteq> None"
    using rcu_invD(2,5) [OF inv] assms(2) by (cases "wpc s") (auto simp: replacing_def)
  have bound: "k \<le> 5 * n + 2" if "(drain_step ^^ k) s s'" for k s'
    using run [OF that] drain_rank_le [of s] reach_readers [OF assms(1)] by simp
  have ends: "wpc s' = Idle \<and> current s' = new \<and> heap s' = (heap s)(old := None)
      \<and> (\<forall>i < length (readers s'). rpc (readers s' ! i) = Outside)"
    if steps: "drain_step\<^sup>*\<^sup>* s s'" and stop: "\<nexists>s''. drain_step s' s''" for s'
  proof -
    obtain k where "(drain_step ^^ k) s s'" using steps rtranclp_imp_relpowp by fastforce
    then have inv': "rcu_inv s'" and rep: "replaced s old new s'" using run by auto
    have out: "\<forall>i < length (readers s'). rpc (readers s' ! i) = Outside" using reader_drains [OF inv'] stop by blast
    then have "wpc s' = Idle" using writer_drains [OF inv' out] stop by blast
    then show ?thesis using rep out by (auto simp: replaced_def replacing_def)
  qed
  show ?thesis using old bound ends by blast
qed

lemma drain_ends: "rcu_inv s \<Longrightarrow> \<exists>s'. drain_step\<^sup>*\<^sup>* s s' \<and> (\<nexists>s''. drain_step s' s'')"
proof (induction "drain_rank s" arbitrary: s rule: less_induct)
  case less
  show ?case
  proof (cases "\<exists>s1. drain_step s s1")
    case True
    then obtain s1 where s1: "drain_step s s1" by blast
    from less.hyps [OF drain_rank_decreases [OF s1 less.prems] rcu_inv_step [OF drain_rcu_step [OF s1] less.prems]]
    show ?thesis using s1 by (meson converse_rtranclp_into_rtranclp)
  qed blast
qed

theorem rcu_writer_completes_witness:
  "\<exists>s'. drain_step\<^sup>*\<^sup>* (demo_state 1 (Inside 1 demo_table {demo_region})) s' \<and> wpc s' = Idle \<and> current s' = 1
     \<and> heap (demo_state 1 (Inside 1 demo_table {demo_region})) 0 = Some empty_table \<and> heap s' 0 = None \<and> heap s' 1 = Some demo_table"
proof -
  let ?s = "demo_state 1 (Inside 1 demo_table {demo_region})"
  have "replacing ?s 0 1" by (simp add: demo_state_def replacing_def)
  note all = rcu_writer_completes [OF demo_inside this]
  obtain s' where s': "drain_step\<^sup>*\<^sup>* ?s s'" "\<nexists>s''. drain_step s' s''" using drain_ends [OF rcu_inv_reach [OF demo_inside]] by blast
  with all have "wpc s' = Idle" "current s' = 1" "heap s' = (heap ?s)(0 := None)" by blast+
  with s'(1) show ?thesis by (intro exI [of _ s']) (simp add: demo_state_def)
qed

end
