(* ===== verification/Rcu_Stress.thy ===== *)
theory Rcu_Stress
  imports Rcu_Grace
begin

text \<open>
  The test of \<open>Interview/mock1_rcu.c\<close>: vCPU threads translate addresses while \<open>main\<close> registers 300 regions in a scrambled order.  The
  concurrent part is the step relation of \<open>Rcu_Grace\<close> restricted to what the test does: every region that is added is a
  \<open>chunk\<close>, and the vCPUs run only once region 0 is registered.  Every vCPU \<open>i\<close> has the state \<open>xs i\<close> of its generator, advances it before a
  translation and takes the address from it.  The number of vCPUs is arbitrary; the counters of hits and misses are only printed and are not modelled.
\<close>

definition BASE_HVA :: u64 where
  "BASE_HVA = 0x7f0000000000"

definition CHUNK :: u64 where
  "CHUNK = 0x100000"

definition NUM_ADDS :: nat where
  "NUM_ADDS = 300"

definition chunk :: "nat \<Rightarrow> region" where
  "chunk i = \<lparr>guest_physical_start = of_nat i * CHUNK, memsize = CHUNK, host_virtual = BASE_HVA + of_nat i * CHUNK\<rparr>"

definition xorshift :: "u64 \<Rightarrow> u64" where
  "xorshift x = (let x = x XOR push_bit 13 x; x = x XOR drop_bit 7 x in x XOR push_bit 17 x)"

definition vcpu_seed :: "nat \<Rightarrow> u64" where
  "vcpu_seed i = 0x9e3779b97f4a7c15 * (of_nat i + 1)"

definition vcpu_gpa :: "u64 \<Rightarrow> u64" where
  "vcpu_gpa x = x mod (CHUNK * (of_nat NUM_ADDS + 2))"

text \<open>The assertions of \<open>vcpu\<close> on the result of one translation.\<close>

definition vcpu_check :: "u64 \<Rightarrow> u64 option \<Rightarrow> unit option" where
  "vcpu_check gpa res = (case res of Some hva \<Rightarrow> c_assert (hva = BASE_HVA + gpa) | None \<Rightarrow> c_assert (gpa \<ge> CHUNK))"

inductive stress :: "nat \<Rightarrow> rcu \<Rightarrow> (nat \<Rightarrow> u64) \<Rightarrow> bool" for n where
  init: "stress n (rcu_init n) vcpu_seed"
| add: "stress n s xs \<Longrightarrow> i \<le> NUM_ADDS \<Longrightarrow> write_build s mem (chunk i) a = Some s' \<Longrightarrow> stress n s' xs"
| publish: "stress n s xs \<Longrightarrow> publish s = Some s' \<Longrightarrow> stress n s' xs"
| scan: "stress n s xs \<Longrightarrow> scan_reader s v = Some s' \<Longrightarrow> stress n s' xs"
| spin: "stress n s xs \<Longrightarrow> spin_end s = Some s' \<Longrightarrow> stress n s' xs"
| free: "stress n s xs \<Longrightarrow> free_old s = Some s' \<Longrightarrow> stress n s' xs"
| enter: "stress n s xs \<Longrightarrow> chunk 0 \<in> regs_at s (current s) \<Longrightarrow> i < length (readers s) \<Longrightarrow> read_enter s i = Some s' \<Longrightarrow> stress n s' (xs(i := xorshift (xs i)))"
| load: "stress n s xs \<Longrightarrow> i < length (readers s) \<Longrightarrow> read_load s i = Some s' \<Longrightarrow> stress n s' xs"
| look: "stress n s xs \<Longrightarrow> i < length (readers s) \<Longrightarrow> read_lookup s i (vcpu_gpa (xs i)) = Some s' \<Longrightarrow> stress n s' xs"
| leave: "stress n s xs \<Longrightarrow> i < length (readers s) \<Longrightarrow> read_end s i = Some s' \<Longrightarrow> stress n s' xs"

text \<open>The registrations of \<open>main\<close>, one after the other, each with the assertion on its result; \<open>order\<close> is the scrambled order.\<close>

definition order :: "nat list" where
  "order = map (\<lambda>k. 1 + (k * 7) mod NUM_ADDS) [0..<NUM_ADDS]"

fun add_all :: "cow_table \<Rightarrow> nat list \<Rightarrow> cow_table option" where
  "add_all t [] = Some t"
| "add_all t (i # is) = do {
     (res, new) \<leftarrow> prepare True t (chunk i);
     c_assert (res = ADD_OK);
     t \<leftarrow> new;
     add_all t is
   }"

definition expect_hit :: "cow_table \<Rightarrow> u64 \<Rightarrow> unit option" where
  "expect_hit t gpa = do { res \<leftarrow> lookup t gpa; c_assert (res \<noteq> None) }"

fun check_hits :: "cow_table \<Rightarrow> nat list \<Rightarrow> unit option" where
  "check_hits t [] = Some ()"
| "check_hits t (i # is) = do {
     expect_hit t (of_nat i * CHUNK);
     expect_hit t (of_nat i * CHUNK + CHUNK - 1);
     check_hits t is
   }"

definition main :: "unit option" where
  "main = do {
     t \<leftarrow> add_all empty_table [0];
     (res, new) \<leftarrow> prepare True t \<lparr>guest_physical_start = CHUNK div 2, memsize = CHUNK, host_virtual = BASE_HVA + CHUNK div 2\<rparr>;
     c_assert (res = ADD_OVERLAP);
     t \<leftarrow> add_all t order;
     check_hits t [0..<NUM_ADDS + 1];
     res \<leftarrow> lookup t ((of_nat NUM_ADDS + 1) * CHUNK);
     c_assert (res = None)
   }"

subsection \<open>Chunks\<close>

lemma unat_chunk_start: "i \<le> 301 \<Longrightarrow> unat (of_nat i * CHUNK) = i * 2 ^ 20"
proof -
  assume "i \<le> 301"
  then have "unat (of_nat (i * 2 ^ 20) :: u64) = i * 2 ^ 20" by (intro unat_of_nat_small) simp
  then show ?thesis by (simp add: CHUNK_def)
qed

lemma unat_chunk_host: "i \<le> 301 \<Longrightarrow> unat (BASE_HVA + of_nat i * CHUNK) = 0x7f0000000000 + i * 2 ^ 20"
proof -
  assume "i \<le> 301"
  then have "unat (of_nat (0x7f0000000000 + i * 2 ^ 20) :: u64) = 0x7f0000000000 + i * 2 ^ 20" by (intro unat_of_nat_small) simp
  then show ?thesis by (simp add: CHUNK_def BASE_HVA_def)
qed

lemma unat_CHUNK: "unat CHUNK = 2 ^ 20"
  by (simp add: CHUNK_def)

lemma span_chunk: "i \<le> 301 \<Longrightarrow> span (chunk i) = {i * 2 ^ 20 ..< (i + 1) * 2 ^ 20}"
  unfolding span_def chunk_def region.simps using unat_chunk_start [of i] unat_CHUNK by (simp add: add.commute)

lemma wf_chunk: "i \<le> 301 \<Longrightarrow> wf_region (chunk i)"
  unfolding wf_region_def chunk_def region.simps using unat_chunk_start [of i] unat_chunk_host [of i] unat_CHUNK by simp

lemma spans_chunk:
  assumes "i \<le> 301" and "j \<le> 301" and "i \<noteq> j"
  shows "span (chunk i) \<inter> span (chunk j) = {}"
proof -
  have "i + 1 \<le> j \<or> j + 1 \<le> i" using assms(3) by auto
  then have "(i + 1) * 2 ^ 20 \<le> j * 2 ^ 20 \<or> (j + 1) * 2 ^ 20 \<le> i * (2 ^ 20 :: nat)" by (meson mult_le_mono1)
  then show ?thesis unfolding span_chunk [OF assms(1)] span_chunk [OF assms(2)] by auto
qed

lemma mapped_chunk: "mapped (chunk i) gpa = BASE_HVA + gpa"
  by (simp add: mapped_def chunk_def)

definition chunks :: "region set" where
  "chunks = chunk ` {..NUM_ADDS}"

subsection \<open>The registrations\<close>

definition covers :: "cow_table \<Rightarrow> nat set \<Rightarrow> bool" where
  "covers t A \<longleftrightarrow> cow_inv t \<and> set (tab_r t) = chunk ` A \<and> A \<subseteq> {..NUM_ADDS}"

lemma distinct_table: "cow_inv t \<Longrightarrow> distinct (tab_r t)"
proof -
  have "sorted_wrt before rs \<Longrightarrow> \<forall>r \<in> set rs. wf_region r \<Longrightarrow> distinct rs" for rs
    by (induction rs) (fastforce simp: before_def wf_region_def)+
  then show "cow_inv t \<Longrightarrow> distinct (tab_r t)" by (simp add: cow_inv_def)
qed

lemma covers_room:
  assumes "covers t A"
  shows "tab_n t \<noteq> MAX_REGIONS"
proof -
  have inv: "cow_inv t" "set (tab_r t) = chunk ` A" "A \<subseteq> {..300}" using assms by (simp_all add: covers_def NUM_ADDS_def)
  have "unat (tab_n t) = card (set (tab_r t))" using inv(1) distinct_card [OF distinct_table [OF inv(1)]] by (simp add: cow_inv_def)
  also have "\<dots> \<le> card A" unfolding inv(2) using inv(3) by (intro card_image_le) (auto intro: finite_subset)
  also have "\<dots> \<le> card {..(300 :: nat)}" using inv(3) by (intro card_mono) simp_all
  finally have "unat (tab_n t) \<noteq> unat MAX_REGIONS" by (simp add: MAX_REGIONS_def)
  then show ?thesis by auto
qed

lemma covers_add:
  assumes "covers t A" and "i \<le> NUM_ADDS" and "i \<notin> A"
  shows "\<exists>t'. prepare True t (chunk i) = Some (ADD_OK, Some t') \<and> covers t' (insert i A)"
proof -
  have A: "A \<subseteq> {..300}" "i \<le> 300" using assms by (simp_all add: covers_def NUM_ADDS_def)
  have wf: "wf_region (chunk i)" using wf_chunk A(2) by simp
  have free: "\<forall>old \<in> set (tab_r t). span (chunk i) \<inter> span old = {}"
  proof
    fix old
    assume "old \<in> set (tab_r t)"
    then obtain j where "j \<in> A" "old = chunk j" using assms(1) by (auto simp: covers_def)
    moreover from this have "j \<le> 301" "i \<noteq> j" using A(1) assms(3) by auto
    ultimately show "span (chunk i) \<inter> span old = {}" using spans_chunk [of i j] A(2) by simp
  qed
  have inv: "cow_inv t" using assms(1) by (simp add: covers_def)
  obtain t' where "prepare True t (chunk i) = Some (ADD_OK, Some t')" "cow_inv t'" "set (tab_r t') = insert (chunk i) (set (tab_r t))"
    using prepare_eq [OF inv, of True "chunk i"] wf covers_room [OF assms(1)] free by (auto simp: wf_region_iff)
  then show ?thesis using assms by (auto simp: covers_def)
qed

lemma add_all_covers:
  assumes "covers t A" and "distinct is" and "set is \<subseteq> {..NUM_ADDS} - A"
  shows "\<exists>t'. add_all t is = Some t' \<and> covers t' (A \<union> set is)"
  using assms
proof (induction "is" arbitrary: t A)
  case (Cons i "is")
  obtain t1 where t1: "prepare True t (chunk i) = Some (ADD_OK, Some t1)" "covers t1 (insert i A)"
    using covers_add [OF Cons.prems(1), of i] Cons.prems(3) by auto
  then obtain t' where "add_all t1 is = Some t'" "covers t' (insert i A \<union> set is)"
    using Cons.IH [OF t1(2)] Cons.prems(2,3) by auto
  then show ?case using t1(1) by simp
qed simp

lemma lookup_chunk:
  assumes "covers t A" and "i \<in> A" and "unat gpa \<in> span (chunk i)"
  shows "lookup t gpa = Some (Some (BASE_HVA + gpa))"
proof -
  have inv: "cow_inv t" "set (tab_r t) = chunk ` A" using assms(1) by (simp_all add: covers_def)
  have "\<exists>r. List.find (\<lambda>r. unat gpa \<in> span r) (tab_r t) = Some r"
    using assms(2,3) inv(2) by (metis (mono_tags, lifting) find_None_iff imageI not_None_eq)
  then obtain r where r: "List.find (\<lambda>r. unat gpa \<in> span r) (tab_r t) = Some r" by blast
  then have "r \<in> chunk ` A" using inv(2) by (metis find_Some_iff nth_mem)
  then show ?thesis using lookup_eq [OF inv(1), of gpa] r mapped_chunk by auto
qed

lemma check_hits_pass:
  assumes "covers t A" and "set is \<subseteq> A"
  shows "check_hits t is = Some ()"
  using assms(2)
proof (induction "is")
  case (Cons i "is")
  then have i: "i \<in> A" "i \<le> 300" using assms(1) by (auto simp: covers_def NUM_ADDS_def)
  have start: "unat (of_nat i * CHUNK) = i * 2 ^ 20" using unat_chunk_start [of i] i(2) by simp
  have pred: "unat (CHUNK - 1) = 2 ^ 20 - 1" by (simp add: CHUNK_def)
  have "of_nat i * CHUNK + CHUNK - 1 = of_nat i * CHUNK + (CHUNK - 1)" by (simp add: algebra_simps)
  then have "unat (of_nat i * CHUNK + CHUNK - 1) = unat (of_nat i * CHUNK + (CHUNK - 1))" by (rule arg_cong)
  also have "\<dots> = unat (of_nat i * CHUNK) + unat (CHUNK - 1)"
    by (rule unat_add_lem [THEN iffD1]) (use start pred i(2) in simp)
  finally have "unat (of_nat i * CHUNK + CHUNK - 1) = i * 2 ^ 20 + (2 ^ 20 - 1)" unfolding start pred .
  then have "unat (of_nat i * CHUNK) \<in> span (chunk i)" "unat (of_nat i * CHUNK + CHUNK - 1) \<in> span (chunk i)"
    using span_chunk [of i] unat_chunk_start [of i] i(2) by simp_all
  then show ?case using Cons lookup_chunk [OF assms(1) i(1)] by (simp add: expect_hit_def)
qed simp

text \<open>7 is invertible modulo 300, with inverse 43, so the order visits every index once.\<close>

lemma order_perm: "distinct order" "set order = {1..NUM_ADDS}"
proof -
  have inv: "(k * 7 mod 300) * 43 mod 300 = k" if "k < 300" for k :: nat
  proof -
    have "(k * 7 mod 300) * 43 mod 300 = (k * 7) * 43 mod 300" by (rule mod_mult_left_eq)
    also have "(k * 7) * 43 = k + k * 300" by simp
    also have "(k + k * 300) mod 300 = k mod 300" by (rule mod_mult_self1)
    finally show ?thesis using that by (simp only: mod_less)
  qed
  have inj: "inj_on (\<lambda>k. 1 + k * 7 mod 300 :: nat) {0..<300}"
    by (rule inj_on_inverseI [of _ "\<lambda>y. (y - 1) * 43 mod 300"]) (simp add: inv)
  then show "distinct order" by (simp add: order_def distinct_map NUM_ADDS_def)
  have "(\<lambda>k. 1 + k * 7 mod 300) ` {0..<300} = {1..300 :: nat}"
  proof (rule card_subset_eq)
    show "(\<lambda>k. 1 + k * 7 mod 300) ` {0..<300} \<subseteq> {1..300 :: nat}" by (auto simp: Suc_le_eq)
    show "card ((\<lambda>k. 1 + k * 7 mod 300) ` {0..<300 :: nat}) = card {1..300 :: nat}" using card_image [OF inj] by simp
  qed simp
  then show "set order = {1..NUM_ADDS}" by (simp add: order_def NUM_ADDS_def)
qed

lemma lookup_beyond:
  assumes "covers t A"
  shows "lookup t ((of_nat NUM_ADDS + 1) * CHUNK) = Some None"
proof -
  have inv: "cow_inv t" "set (tab_r t) = chunk ` A" "A \<subseteq> {..300}" using assms by (simp_all add: covers_def NUM_ADDS_def)
  have "(of_nat NUM_ADDS + 1) * CHUNK = of_nat 301 * CHUNK" by (simp add: NUM_ADDS_def)
  then have gpa: "unat ((of_nat NUM_ADDS + 1) * CHUNK) = 301 * 2 ^ 20" using unat_chunk_start [of 301] by simp
  have "301 * 2 ^ 20 \<notin> span (chunk i)" if "i \<in> A" for i
  proof -
    have "i \<le> 300" using that inv(3) by auto
    then have "(i + 1) * 2 ^ 20 \<le> 301 * (2 ^ 20 :: nat)" by (intro mult_right_mono) simp_all
    then show ?thesis using span_chunk [of i] \<open>i \<le> 300\<close> by simp
  qed
  then have "List.find (\<lambda>r. unat ((of_nat NUM_ADDS + 1) * CHUNK) \<in> span r) (tab_r t) = None"
    unfolding gpa using inv(2) by (auto simp: find_None_iff)
  then show ?thesis using lookup_eq [OF inv(1)] by simp
qed

lemma main_passes_stress: "main = Some ()"
proof -
  have none: "covers empty_table {}" using cow_inv_empty by (simp add: covers_def empty_table_def)
  obtain t0 where t0: "add_all empty_table [0] = Some t0" "covers t0 {0}" using add_all_covers [OF none, of "[0]"] by auto
  let ?half = "\<lparr>guest_physical_start = CHUNK div 2, memsize = CHUNK, host_virtual = BASE_HVA + CHUNK div 2\<rparr>"
  have half: "wf_region ?half" "span ?half \<inter> span (chunk 0) \<noteq> {}"
    by (simp_all add: wf_region_def CHUNK_def BASE_HVA_def span_def chunk_def)
  have "set order \<subseteq> {..NUM_ADDS} - {0}" unfolding order_perm(2) by auto
  then obtain t where t: "add_all t0 order = Some t" "covers t ({0} \<union> {1..NUM_ADDS})"
    using add_all_covers [OF t0(2) order_perm(1)] unfolding order_perm(2) by blast
  have "{0} \<union> {1..NUM_ADDS} = {..NUM_ADDS}" by auto
  then have all: "covers t {..NUM_ADDS}" using t(2) by simp
  have "\<exists>new. prepare True t0 ?half = Some (ADD_OVERLAP, new)"
    using prepare_eq [of t0 True ?half] t0(2) covers_room [OF t0(2)] half by (auto simp: covers_def wf_region_iff)
  moreover have "check_hits t [0..<NUM_ADDS + 1] = Some ()" by (rule check_hits_pass [OF all]) auto
  moreover have "lookup t ((of_nat NUM_ADDS + 1) * CHUNK) = Some None" by (rule lookup_beyond [OF all])
  ultimately show ?thesis using t0(1) t(1) by (auto simp: main_def)
qed

subsection \<open>The vCPUs\<close>

lemma stress_reach: "stress n s xs \<Longrightarrow> rcu_reach n s"
  by (induction rule: stress.induct) (blast intro: rcu_reach.intros rcu_step.intros)+

text \<open>The regions registered when the section of a reader began include region 0.\<close>

fun began :: "rpc \<Rightarrow> bool" where
  "began Outside \<longleftrightarrow> True"
| "began (Entered S) \<longleftrightarrow> chunk 0 \<in> S"
| "began (Inside a t S) \<longleftrightarrow> chunk 0 \<in> S"
| "began (Looked a t S gpa res) \<longleftrightarrow> chunk 0 \<in> S"

definition only_chunks :: "rcu \<Rightarrow> bool" where
  "only_chunks s \<longleftrightarrow> (\<forall>a t. heap s a = Some t \<longrightarrow> set (tab_r t) \<subseteq> chunks)"

definition all_began :: "rcu \<Rightarrow> bool" where
  "all_began s \<longleftrightarrow> (\<forall>i < length (readers s). began (rpc (readers s ! i)))"

lemma build_only_chunks:
  assumes "only_chunks s" and "rcu_inv s" and "i \<le> NUM_ADDS" and "write_build s mem (chunk i) a = Some s'"
  shows "only_chunks s'"
proof -
  obtain old where old: "heap s (current s) = Some old" "cow_inv old" using rcu_invD(2) [OF assms(2)] by blast
  have "\<exists>r. prepare mem old (chunk i) = Some r" using prepare_eq [OF old(2), of mem "chunk i"] by blast
  then obtain res new where p: "prepare mem old (chunk i) = Some (res, new)" by force
  have sub: "set (tab_r old) \<subseteq> chunks" "chunk i \<in> chunks" using assms(1,3) old(1) by (auto simp: only_chunks_def chunks_def)
  show ?thesis
  proof (cases new)
    case None
    then have "s' = s" using assms(4) old(1) p by (simp add: write_build_def split: if_splits)
    then show ?thesis using assms(1) by simp
  next
    case (Some t)
    then have "set (tab_r t) \<subseteq> chunks" using prepare_ok [OF old(2) p] sub by (cases "res = ADD_OK") auto
    moreover have "s' = s\<lparr>heap := (heap s)(a \<mapsto> t), wpc := Built (current s) a\<rparr>"
      using assms(4) old(1) p Some by (simp add: write_build_def split: if_splits)
    ultimately show ?thesis using assms(1) by (simp add: only_chunks_def)
  qed
qed

lemma writer_steps:
  assumes "publish s = Some s' \<or> scan_reader s v = Some s' \<or> spin_end s = Some s' \<or> free_old s = Some s'"
  shows "readers s' = readers s" and "heap s' a = heap s a \<or> heap s' a = None"
  using assms by (cases "wpc s"; auto simp: publish_def scan_reader_def spin_end_def free_old_def split: if_splits)+

lemma all_began_set_reader: "all_began s \<Longrightarrow> began p \<Longrightarrow> all_began (set_reader s i q p)"
  by (simp add: all_began_def set_reader_nth)

lemma read_steps_heap:
  "read_enter s i = Some s' \<Longrightarrow> heap s' = heap s" "read_load s i = Some s' \<Longrightarrow> heap s' = heap s"
  "read_lookup s i gpa = Some s' \<Longrightarrow> heap s' = heap s" "read_end s i = Some s' \<Longrightarrow> heap s' = heap s"
  by (auto simp: read_enter_def read_load_def read_lookup_def read_end_def split: rpc.splits option.splits)

lemma read_steps_began:
  assumes "all_began s" and "i < length (readers s)"
  shows "read_enter s i = Some s' \<Longrightarrow> chunk 0 \<in> regs_at s (current s) \<Longrightarrow> all_began s'"
    and "read_load s i = Some s' \<Longrightarrow> all_began s'"
    and "read_lookup s i gpa = Some s' \<Longrightarrow> all_began s'"
    and "read_end s i = Some s' \<Longrightarrow> all_began s'"
proof -
  have i: "began (rpc (readers s ! i))" using assms by (simp add: all_began_def)
  have fault: "all_began (s\<lparr>fault := True\<rparr>)" using assms(1) by (simp add: all_began_def)
  show "read_enter s i = Some s' \<Longrightarrow> chunk 0 \<in> regs_at s (current s) \<Longrightarrow> all_began s'"
    by (auto simp: read_enter_def intro!: all_began_set_reader [OF assms(1)] split: rpc.splits)
  show "read_load s i = Some s' \<Longrightarrow> all_began s'" using i fault
    by (auto simp: read_load_def intro!: all_began_set_reader [OF assms(1)] split: rpc.splits option.splits)
  show "read_lookup s i gpa = Some s' \<Longrightarrow> all_began s'" using i fault
    by (auto simp: read_lookup_def intro!: all_began_set_reader [OF assms(1)] split: rpc.splits option.splits)
  show "read_end s i = Some s' \<Longrightarrow> all_began s'"
    by (auto simp: read_end_def intro!: all_began_set_reader [OF assms(1)] split: rpc.splits)
qed

lemma stress_inv: "stress n s xs \<Longrightarrow> only_chunks s \<and> all_began s"
proof (induction rule: stress.induct)
  case init
  then show ?case by (simp add: rcu_init_def only_chunks_def all_began_def empty_table_def)
next
  case (add s xs i mem a s')
  have "rcu_inv s" by (rule rcu_inv_reach [OF stress_reach [OF add.hyps(1)]])
  moreover have "readers s' = readers s" using add.hyps(3) by (auto simp: write_build_def split: if_splits option.splits)
  ultimately show ?case using add build_only_chunks by (auto simp: all_began_def)
next
  case (publish s xs s')
  then show ?case using writer_steps [of s s'] unfolding only_chunks_def all_began_def by (metis option.distinct(1))
next
  case (scan s xs v s')
  then show ?case using writer_steps [of s s' v] unfolding only_chunks_def all_began_def by (metis option.distinct(1))
next
  case (spin s xs s')
  then show ?case using writer_steps [of s s'] unfolding only_chunks_def all_began_def by (metis option.distinct(1))
next
  case (free s xs s')
  then show ?case using writer_steps [of s s'] unfolding only_chunks_def all_began_def by (metis option.distinct(1))
next
  case (enter s xs i s')
  then show ?case using read_steps_heap(1) read_steps_began(1) by (fastforce simp: only_chunks_def)
next
  case (load s xs i s')
  then show ?case using read_steps_heap(2) read_steps_began(2) by (fastforce simp: only_chunks_def)
next
  case (look s xs i s')
  then show ?case using read_steps_heap(3) read_steps_began(3) by (fastforce simp: only_chunks_def)
next
  case (leave s xs i s')
  then show ?case using read_steps_heap(4) read_steps_began(4) by (fastforce simp: only_chunks_def)
qed

subsection \<open>Properties\<close>

text \<open>
  C26: The assertions of the vCPU threads never fail, whatever the interleaving of the threads, the registrations and the grace periods:
  a translation that hits gives \<open>BASE_HVA + gpa\<close>, and one that misses has an address outside region 0.
\<close>

theorem stress_assertions_hold:
  assumes "stress n s xs" and "i < length (readers s)" and "rpc (readers s ! i) = Looked a t S gpa res"
  shows "vcpu_check gpa res = Some ()"
proof -
  have inv: "cow_inv t" "heap s a = Some t" "S \<subseteq> set (tab_r t)" "lookup t gpa = Some res"
    using rcu_invD(3) [OF rcu_inv_reach [OF stress_reach [OF assms(1)]] assms(2)] assms(3) by simp_all
  have "set (tab_r t) \<subseteq> chunks" "chunk 0 \<in> S"
    using stress_inv [OF assms(1)] inv(2) assms(2,3) unfolding only_chunks_def all_began_def by (blast, metis began.simps(4))
  then have all: "covers t {j. j \<le> NUM_ADDS \<and> chunk j \<in> set (tab_r t)}" "chunk 0 \<in> set (tab_r t)"
    using inv(1,3) by (auto simp: covers_def chunks_def)
  let ?f = "List.find (\<lambda>r. unat gpa \<in> span r) (tab_r t)"
  have res: "res = map_option (\<lambda>r. mapped r gpa) ?f" using lookup_eq [OF inv(1), of gpa] inv(4) by simp
  show ?thesis
  proof (cases ?f)
    case None
    then have "unat gpa \<notin> span (chunk 0)" using all(2) by (auto simp: find_None_iff)
    then have "\<not> gpa < CHUNK" using span_chunk [of 0] unat_CHUNK by (auto simp: word_less_nat_alt)
    then show ?thesis using None res by (simp add: vcpu_check_def not_less)
  next
    case (Some r)
    then have "r \<in> set (tab_r t)" by (metis find_Some_iff nth_mem)
    then have "\<exists>j. r = chunk j" using all(1) by (auto simp: covers_def)
    then have "res = Some (BASE_HVA + gpa)" using res Some mapped_chunk by auto
    then show ?thesis by (simp add: vcpu_check_def)
  qed
qed

text \<open>A run with one vCPU that translates an address of region 0.\<close>

lemma stress_run:
  "\<exists>s xs a t S res. stress 1 s xs \<and> length (readers s) = 1 \<and> rpc (readers s ! 0) = Looked a t S (vcpu_gpa (xorshift (vcpu_seed 0))) res"
proof -
  have none: "covers empty_table {}" using cow_inv_empty by (simp add: covers_def empty_table_def)
  obtain t where t: "prepare True empty_table (chunk 0) = Some (ADD_OK, Some t)" "covers t {0}" using covers_add [OF none, of 0] by auto
  define S where "S = set (tab_r t)"
  define st where "st q p = \<lparr>heap = [0 \<mapsto> empty_table, 1 \<mapsto> t], current = 1, readers = [\<lparr>seq = q, rpc = p\<rparr>], wpc = Scan 0 0, fault = False\<rparr>" for q p
  define b where "b = \<lparr>heap = [0 \<mapsto> empty_table, 1 \<mapsto> t], current = 0, readers = [\<lparr>seq = 0, rpc = Outside\<rparr>], wpc = Built 0 1, fault = False\<rparr>"
  have zero: "chunk 0 \<in> S" "cow_inv t" using t(2) by (auto simp: covers_def S_def)
  obtain res where res: "lookup t (vcpu_gpa (xorshift (vcpu_seed 0))) = Some res" using lookup_eq [OF zero(2)] by blast
  have st: "length (readers (st q p)) = 1" "rpc (readers (st q p) ! 0) = p" "regs_at (st q p) (current (st q p)) = S" for q p
    by (simp_all add: st_def regs_at_def S_def)
  have "0 < length (readers (st q p))" for q p by (simp add: st_def)
  note len = this
  have steps: "write_build (rcu_init 1) True (chunk 0) 1 = Some b" "publish b = Some (st 0 Outside)"
    "read_enter (st 0 Outside) 0 = Some (st 1 (Entered S))" "read_load (st 1 (Entered S)) 0 = Some (st 1 (Inside 1 t S))"
    "read_lookup (st 1 (Inside 1 t S)) 0 (vcpu_gpa (xorshift (vcpu_seed 0))) = Some (st 1 (Looked 1 t S (vcpu_gpa (xorshift (vcpu_seed 0))) res))"
    using t(1) res by (simp_all add: write_build_def rcu_init_def b_def st_def publish_def read_enter_def regs_at_def S_def
      read_load_def read_lookup_def set_reader_def)
  have "stress 1 b vcpu_seed" by (rule stress.add [OF stress.init _ steps(1)]) simp
  note stress.publish [OF this steps(2)]
  note stress.enter [OF this _ len steps(3)]
  then have "stress 1 (st 1 (Entered S)) (vcpu_seed(0 := xorshift (vcpu_seed 0)))" using st(3) zero(1) by simp
  from stress.load [OF this len steps(4)] have inside: "stress 1 (st 1 (Inside 1 t S)) (vcpu_seed(0 := xorshift (vcpu_seed 0)))" .
  have "stress 1 (st 1 (Looked 1 t S (vcpu_gpa (xorshift (vcpu_seed 0))) res)) (vcpu_seed(0 := xorshift (vcpu_seed 0)))"
    by (rule stress.look [OF inside len]) (use steps(5) in simp)
  then show ?thesis using st by blast
qed

theorem stress_assertions_hold_witness:
  "\<exists>s xs a t S res. stress 1 s xs \<and> rpc (readers s ! 0) = Looked a t S (vcpu_gpa (xorshift (vcpu_seed 0))) res \<and> vcpu_check (vcpu_gpa (xorshift (vcpu_seed 0))) res = Some ()"
proof -
  obtain s xs a t S res where "stress 1 s xs" "length (readers s) = 1" "rpc (readers s ! 0) = Looked a t S (vcpu_gpa (xorshift (vcpu_seed 0))) res" using stress_run by blast
  then show ?thesis using stress_assertions_hold [of 1 s xs 0] by fastforce
qed

end
