(* ===== verification/Messages.thy ===== *)
theory Messages
  imports CPrelude
begin

text \<open>
  \<open>Interview/mock4.c\<close>: a parser for a buffer a guest wrote, a sequence of messages with a two-byte type, a
  two-byte length (little endian) and a payload.  The globals that \<open>handle_msg\<close> writes are the record
  \<open>globals\<close>; a payload pointer is its offset in the buffer.  The parser is a \<open>partial_function\<close>, since
  \<open>i + len + 4\<close> is computed in 64 bits and the loop need not end for an arbitrary \<open>size\<close>: that it returns
  for every object of less than \<open>2 ^ 63\<close> bytes, without reading outside the buffer, is part of the theorems.
\<close>

record globals =
  last_type :: u16
  last_len :: u16
  calls :: u16
  last_payload :: nat

definition handle_msg :: "u16 \<Rightarrow> nat \<Rightarrow> u16 \<Rightarrow> globals \<Rightarrow> globals" where
  "handle_msg type payload len g =
     g\<lparr>last_payload := payload, calls := calls g + 1, last_type := type, last_len := len\<rparr>"

definition le16 :: "u8 \<Rightarrow> u8 \<Rightarrow> u16" where
  "le16 hi lo = push_bit 8 (ucast hi) + ucast lo"

partial_function (option) parse_from ::
  "u8 list \<Rightarrow> size_t \<Rightarrow> size_t \<Rightarrow> u16 \<Rightarrow> globals \<Rightarrow> (int \<times> globals) option" where
  "parse_from buf sz i counter g =
     (if i < sz then
        if i + 4 > sz then Some (- 1, g)
        else do {
          hi \<leftarrow> rd buf (unat (i + 1));
          lo \<leftarrow> rd buf (unat i);
          let type = le16 hi lo;
          if type \<noteq> 1 \<and> type \<noteq> 2 \<and> type \<noteq> 3 then Some (- 1, g)
          else do {
            hi \<leftarrow> rd buf (unat (i + 3));
            lo \<leftarrow> rd buf (unat (i + 2));
            let len = le16 hi lo;
            if i + ucast len + 4 > sz then Some (- 1, g)
            else parse_from buf sz (i + ucast len + 4) (counter + 1) (handle_msg type (unat (i + 4)) len g)
          }
        }
      else Some (uint counter, g))"

declare parse_from.simps [code]

definition parse_msgs :: "u8 list \<Rightarrow> size_t \<Rightarrow> globals \<Rightarrow> (int \<times> globals) option" where
  "parse_msgs buf sz g = parse_from buf sz 0 0 g"

subsection \<open>The format\<close>

type_synonym msg = "u16 \<times> u8 list"

definition valid_msg :: "msg \<Rightarrow> bool" where
  "valid_msg m \<longleftrightarrow> fst m \<in> {1, 2, 3} \<and> length (snd m) < 2 ^ 16"

definition encode :: "msg \<Rightarrow> u8 list" where
  "encode m = (let len = of_nat (length (snd m)) :: u16 in
     [ucast (fst m), ucast (drop_bit 8 (fst m)), ucast len, ucast (drop_bit 8 len)] @ snd m)"

fun handle_all :: "nat \<Rightarrow> msg list \<Rightarrow> globals \<Rightarrow> globals" where
  "handle_all off [] g = g"
| "handle_all off (m # ms) g =
     handle_all (off + 4 + length (snd m)) ms (handle_msg (fst m) (off + 4) (of_nat (length (snd m))) g)"

lemma length_encode [simp]: "length (encode m) = 4 + length (snd m)"
  by (simp add: encode_def Let_def)

lemma unat_ucast_8: "unat (ucast (x :: u16) :: u8) = unat x mod 256"
  by (simp add: unsigned_ucast_eq take_bit_eq_mod)

lemma unat_drop_bit_8: "unat (ucast (drop_bit 8 (x :: u16)) :: u8) = unat x div 256"
proof -
  have "unat x < 2 ^ LENGTH(16)" by (rule unsigned_less)
  then have "unat x div 256 < 256" by simp
  then show ?thesis by (simp add: unat_ucast_8 drop_bit_eq_div unat_div)
qed

lemma unat_le16: "unat (le16 hi lo) = 256 * unat hi + unat lo"
proof -
  have "unat hi < 2 ^ LENGTH(8)" "unat lo < 2 ^ LENGTH(8)" by (rule unsigned_less)+
  then show ?thesis
    by (simp add: le16_def push_bit_eq_mult unat_word_ariths unsigned_ucast_eq take_bit_eq_mod)
qed

lemma le16_bytes [simp]: "le16 (ucast (drop_bit 8 x)) (ucast (x :: u16)) = x"
  by (simp only: word_unat_eq_iff unat_le16 unat_drop_bit_8) (simp add: unat_ucast_8)

lemma bytes_le16 [simp]: "ucast (le16 hi lo) = lo" "ucast (drop_bit 8 (le16 hi lo)) = hi"
proof -
  have "unat lo < 2 ^ LENGTH(8)" by (rule unsigned_less)
  then show "ucast (le16 hi lo) = lo" "ucast (drop_bit 8 (le16 hi lo)) = hi"
    by (simp_all only: word_unat_eq_iff unat_drop_bit_8) (simp_all add: unat_ucast_8 unat_le16)
qed

lemma encode_header:
  "encode m = b0 # b1 # b2 # b3 # pl \<longleftrightarrow>
     fst m = le16 b1 b0 \<and> of_nat (length pl) = le16 b3 b2 \<and> snd m = pl"
  unfolding encode_def Let_def by auto

text \<open>What the parser does with the bytes from offset \<open>i\<close> on.\<close>

definition parsed :: "u8 list \<Rightarrow> nat \<Rightarrow> u16 \<Rightarrow> globals \<Rightarrow> (int \<times> globals) option \<Rightarrow> bool" where
  "parsed bs off counter g res \<longleftrightarrow> (\<exists>ms rest. (\<forall>m \<in> set ms. valid_msg m) \<and> bs = concat (map encode ms) @ rest
     \<and> res = Some (if rest = [] then uint (counter + of_nat (length ms)) else - 1, handle_all off ms g)
     \<and> (rest \<noteq> [] \<longrightarrow> (\<forall>m tail. valid_msg m \<longrightarrow> rest \<noteq> encode m @ tail)))"

lemma parsed_empty: "parsed [] off counter g (Some (uint counter, g))"
  unfolding parsed_def by (intro exI [of _ "[]"]) simp

lemma parsed_error:
  assumes "bs \<noteq> []" and "\<And>m tail. valid_msg m \<Longrightarrow> bs \<noteq> encode m @ tail"
  shows "parsed bs off counter g (Some (- 1, g))"
  unfolding parsed_def using assms by (intro exI [of _ "[]"] exI [of _ bs]) auto

lemma parsed_Cons:
  assumes "valid_msg m"
    and "parsed bs (off + 4 + length (snd m)) (counter + 1) (handle_msg (fst m) (off + 4) (of_nat (length (snd m))) g) res"
  shows "parsed (encode m @ bs) off counter g res"
proof -
  obtain ms rest where ms: "\<forall>m \<in> set ms. valid_msg m" "bs = concat (map encode ms) @ rest"
    "res = Some (if rest = [] then uint (counter + 1 + of_nat (length ms)) else - 1,
      handle_all (off + 4 + length (snd m)) ms (handle_msg (fst m) (off + 4) (of_nat (length (snd m))) g))"
    "rest \<noteq> [] \<longrightarrow> (\<forall>m tail. valid_msg m \<longrightarrow> rest \<noteq> encode m @ tail)"
    using assms(2) unfolding parsed_def by blast
  with assms(1) show ?thesis unfolding parsed_def
    by (intro exI [of _ "m # ms"] exI [of _ rest]) (simp add: add.assoc)
qed

lemma parse_from_parsed:
  assumes "length buf = unat sz" and "unat sz < 2 ^ 63" and "unat i \<le> length buf"
  shows "parsed (drop (unat i) buf) (unat i) counter g (parse_from buf sz i counter g)"
  using assms(3)
proof (induction "length buf - unat i" arbitrary: i counter g rule: less_induct)
  case less
  have small: "unat (i + k) = unat i + unat k" if "unat k < 2 ^ 17" for k
  proof -
    have "unat i + unat k < 2 ^ 64" using less.prems assms(1,2) that by simp
    then show ?thesis by (simp add: unat_word_ariths)
  qed
  have k: "unat (i + 1) = unat i + 1" "unat (i + 2) = unat i + 2" "unat (i + 3) = unat i + 3" "unat (i + 4) = unat i + 4"
    using small [of 1] small [of 2] small [of 3] small [of 4] by simp_all
  consider "unat i = length buf" | "unat i < length buf" "length buf < unat i + 4" | "unat i + 4 \<le> length buf"
    using less.prems by linarith
  then show ?case
  proof cases
    case 1
    then have "parse_from buf sz i counter g = Some (uint counter, g)"
      using assms(1) by (simp add: parse_from.simps word_less_nat_alt)
    with 1 show ?thesis by (simp add: parsed_empty)
  next
    case 2
    then have "parse_from buf sz i counter g = Some (- 1, g)"
      using assms(1) k by (simp add: parse_from.simps word_less_nat_alt)
    moreover have "drop (unat i) buf \<noteq> encode m @ tail" for m tail
    proof
      assume "drop (unat i) buf = encode m @ tail"
      from arg_cong [OF this, of length] 2 show False by simp
    qed
    ultimately show ?thesis using 2 by (simp add: parsed_error)
  next
    case 3
    define pl where "pl = drop (unat i + 4) buf"
    let ?b = "\<lambda>k. buf ! (unat i + k)"
    have dr: "drop (unat i) buf = ?b 0 # ?b 1 # ?b 2 # ?b 3 # pl"
      using 3 unfolding pl_def by (simp add: Cons_nth_drop_Suc numeral_eq_Suc)
    have lenpl: "length pl = length buf - (unat i + 4)" by (simp add: pl_def)
    let ?type = "le16 (?b 1) (?b 0)" and ?len = "le16 (?b 3) (?b 2)"
    have ulen: "unat (ucast ?len :: u64) = unat ?len" "unat ?len < 2 ^ 16"
    proof -
      have "unat ?len < 2 ^ LENGTH(16)" by (rule unsigned_less)
      then show "unat (ucast ?len :: u64) = unat ?len" "unat ?len < 2 ^ 16"
        by (simp_all add: unsigned_ucast_eq take_bit_eq_mod)
    qed
    have next_i: "unat (i + ucast ?len + 4) = unat i + unat ?len + 4"
    proof -
      have "unat (ucast ?len + 4 :: u64) = unat ?len + 4" using ulen by (simp add: unat_word_ariths)
      then show ?thesis using small [of "ucast ?len + 4"] ulen(2) by (simp add: add.assoc)
    qed
    have step: "parse_from buf sz i counter g =
       (if ?type \<noteq> 1 \<and> ?type \<noteq> 2 \<and> ?type \<noteq> 3 then Some (- 1, g)
        else if length pl < unat ?len then Some (- 1, g)
        else parse_from buf sz (i + ucast ?len + 4) (counter + 1) (handle_msg ?type (unat i + 4) ?len g))"
      using 3 assms(1) k next_i
      by (subst parse_from.simps) (auto simp: word_less_nat_alt Let_def lenpl)
    have no_msg: "?type \<in> {1, 2, 3} \<and> unat ?len \<le> length pl"
      if "valid_msg m" "drop (unat i) buf = encode m @ tail" for m tail
    proof -
      have "length (snd m) < 2 ^ 16" "fst m \<in> {1, 2, 3}" using that(1) by (auto simp: valid_msg_def)
      moreover from that(2) have "fst m = ?type" "of_nat (length (snd m)) = ?len" "pl = snd m @ tail"
        unfolding dr by (auto simp: encode_def Let_def)
      ultimately show ?thesis using unat_of_nat_small [of "length (snd m)", where ?'a = 16] by auto
    qed
    show ?thesis
    proof (cases "?type \<in> {1, 2, 3} \<and> unat ?len \<le> length pl")
      case False
      then have "parse_from buf sz i counter g = Some (- 1, g)" unfolding step by auto
      moreover have "drop (unat i) buf \<noteq> []" using dr by simp
      ultimately show ?thesis using no_msg False parsed_error [of "drop (unat i) buf"] by metis
    next
      case True
      let ?m = "(?type, take (unat ?len) pl)"
      have enc: "drop (unat i) buf = encode ?m @ drop (unat ?len) pl"
        unfolding dr using True by (simp add: encode_def Let_def)
      have valid: "valid_msg ?m" using True ulen(2) by (auto simp: valid_msg_def)
      have IH: "parsed (drop (unat (i + ucast ?len + 4)) buf) (unat (i + ucast ?len + 4)) (counter + 1)
          (handle_msg ?type (unat i + 4) ?len g)
          (parse_from buf sz (i + ucast ?len + 4) (counter + 1) (handle_msg ?type (unat i + 4) ?len g))"
        by (rule less.hyps) (use True 3 lenpl next_i in auto)
      have eq: "parse_from buf sz i counter g
          = parse_from buf sz (i + ucast ?len + 4) (counter + 1) (handle_msg ?type (unat i + 4) ?len g)"
        unfolding step using True by auto
      have off: "unat (i + ucast ?len + 4) = unat i + 4 + length (snd ?m)"
        and len: "(of_nat (length (snd ?m)) :: u16) = ?len"
        unfolding next_i using True by simp_all
      have "drop (unat i + 4 + length (snd ?m)) buf = drop (unat ?len) pl"
        unfolding pl_def drop_drop using True by (intro arg_cong [where f = "\<lambda>k. drop k buf"]) (simp add: lenpl)
      then show ?thesis unfolding enc eq
        using IH unfolding off by (intro parsed_Cons [OF valid]) (simp only: len fst_conv)
    qed
  qed
qed

lemma parse_msgs_parsed:
  "length buf = unat sz \<Longrightarrow> unat sz < 2 ^ 63 \<Longrightarrow> parsed buf 0 0 g (parse_msgs buf sz g)"
  using parse_from_parsed [of buf sz 0] by (simp add: parse_msgs_def)

text \<open>The encoding of a message determines it, also when bytes follow.\<close>

lemma encode_prefix_free:
  assumes "valid_msg m" and "valid_msg m'" and "encode m @ x = encode m' @ y"
  shows "m = m' \<and> x = y"
proof -
  from assms(3) have hd: "ucast (fst m) = (ucast (fst m') :: u8)"
    "ucast (drop_bit 8 (fst m)) = (ucast (drop_bit 8 (fst m')) :: u8)"
    "ucast (of_nat (length (snd m)) :: u16) = (ucast (of_nat (length (snd m')) :: u16) :: u8)"
    "ucast (drop_bit 8 (of_nat (length (snd m)) :: u16)) = (ucast (drop_bit 8 (of_nat (length (snd m')) :: u16)) :: u8)"
    and pl: "snd m @ x = snd m' @ y"
    by (simp_all add: encode_def Let_def)
  have "fst m = fst m'" and "(of_nat (length (snd m)) :: u16) = of_nat (length (snd m'))"
    using le16_bytes hd by metis+
  moreover have "length (snd m) < 2 ^ 16" "length (snd m') < 2 ^ 16" using assms(1,2) by (auto simp: valid_msg_def)
  ultimately have "fst m = fst m'" "length (snd m) = length (snd m')"
    using unat_of_nat_small [where ?'a = 16] by (auto, metis)
  with pl show ?thesis by (simp add: prod_eq_iff)
qed

lemma encodings_unique:
  assumes "\<forall>m \<in> set ms. valid_msg m" and "\<forall>m \<in> set ms'. valid_msg m"
    and "concat (map encode ms) = concat (map encode ms') @ rest"
    and "rest \<noteq> [] \<longrightarrow> (\<forall>m tail. valid_msg m \<longrightarrow> rest \<noteq> encode m @ tail)"
  shows "ms' = ms \<and> rest = []"
  using assms
proof (induction ms arbitrary: ms')
  case Nil
  then have "concat (map encode ms') = []" "rest = []" by simp_all
  then show ?case by (cases ms') (auto simp: encode_def Let_def)
next
  case (Cons m ms)
  show ?case
  proof (cases ms')
    case Nil
    with Cons.prems(3) have rest: "rest = encode m @ concat (map encode ms)" by simp
    then have "rest \<noteq> []" by (simp add: encode_def Let_def)
    with Cons.prems(1,4) rest show ?thesis by (metis list.set_intros(1))
  next
    case c: (Cons m' ms'')
    have v: "valid_msg m" "valid_msg m'" "\<forall>m \<in> set ms. valid_msg m" "\<forall>m \<in> set ms''. valid_msg m"
      using Cons.prems(1,2) c by simp_all
    have "encode m @ concat (map encode ms) = encode m' @ (concat (map encode ms'') @ rest)"
      using Cons.prems(3) c by simp
    note eq = encode_prefix_free [OF v(1,2) this]
    from Cons.IH [OF v(3,4) conjunct2 [OF eq] Cons.prems(4)] eq c show ?thesis by simp
  qed
qed

lemma parse_encoded:
  assumes "\<forall>m \<in> set ms. valid_msg m" and "length (concat (map encode ms)) < 2 ^ 63"
  shows "parse_msgs (concat (map encode ms)) (of_nat (length (concat (map encode ms)))) g
    = Some (int (length ms mod 2 ^ 16), handle_all 0 ms g)"
proof -
  let ?buf = "concat (map encode ms)"
  have len: "length ?buf = unat (of_nat (length ?buf) :: size_t)"
    using assms(2) by (intro unat_of_nat_small [symmetric]) simp
  then have "unat (of_nat (length ?buf) :: size_t) < 2 ^ 63" using assms(2) by simp
  from parse_msgs_parsed [OF len this, of g] obtain ms' rest where
    ms': "\<forall>m \<in> set ms'. valid_msg m" "?buf = concat (map encode ms') @ rest"
    "parse_msgs ?buf (of_nat (length ?buf)) g = Some (if rest = [] then uint (0 + of_nat (length ms') :: u16) else - 1, handle_all 0 ms' g)"
    "rest \<noteq> [] \<longrightarrow> (\<forall>m tail. valid_msg m \<longrightarrow> rest \<noteq> encode m @ tail)"
    unfolding parsed_def by blast
  with encodings_unique [OF assms(1) ms'(1,2,4)] show ?thesis by (simp add: uint_nat unat_of_nat)
qed

subsection \<open>The program's test\<close>

definition check :: "u8 list \<Rightarrow> size_t \<Rightarrow> int \<Rightarrow> u16 \<Rightarrow> globals \<Rightarrow> globals option" where
  "check buf sz res n g = do {
     (r, g) \<leftarrow> parse_msgs buf sz (g\<lparr>calls := 0\<rparr>);
     c_assert (r = res);
     c_assert (calls g = n);
     Some g
   }"

definition main :: "globals option" where
  "main = do {
     let g = \<lparr>last_type = 0, last_len = 0, calls = 0, last_payload = 0\<rparr>;
     g \<leftarrow> check [0x01, 0x00, 0x03, 0x00, 97, 98, 99] 7 1 1 g;
     c_assert (last_len g = 3);
     c_assert (last_type g = 1);
     c_assert (last_payload g = 4);
     g \<leftarrow> check [0x01, 0x00, 0x03, 0x00, 97, 98, 99, 0x02, 0x00, 0x00, 0x00] 11 2 2 g;
     c_assert (last_type g = 2 \<and> last_len g = 0);
     c_assert (last_payload g = 11);
     g \<leftarrow> check [0x01, 0x00, 0x05, 0x00, 0xAA] 5 (- 1) 0 g;
     g \<leftarrow> check [0x01, 0x00, 0x03, 0x00, 97, 98, 99, 0x02, 0x00, 0x00, 0x00, 0x01, 0x00] 13 (- 1) 2 g;
     g \<leftarrow> check [0x07, 0x00, 0x00, 0x00] 4 (- 1) 0 g;
     check [0x07, 0x00, 0x00, 0x00] 0 0 0 g
   }"

subsection \<open>Properties\<close>

text \<open>
  C6: On any buffer of less than \<open>2 ^ 63\<close> bytes \<open>parse_msgs\<close> returns and never reads outside the buffer.
  It splits the bytes into a longest sequence of well-formed messages and a rest that does not start
  with one, hands exactly these messages to \<open>handle_msg\<close> in order with the right
  type, length and offset, and returns \<open>-1\<close> exactly when there is a rest, else
  the number of messages modulo \<open>2 ^ 16\<close>.
\<close>

theorem parse_msgs_correct:
  assumes "length buf = unat sz" and "unat sz < 2 ^ 63"
  shows "\<exists>ms rest. (\<forall>m \<in> set ms. valid_msg m) \<and> buf = concat (map encode ms) @ rest
    \<and> (rest \<noteq> [] \<longrightarrow> (\<forall>m tail. valid_msg m \<longrightarrow> rest \<noteq> encode m @ tail))
    \<and> parse_msgs buf sz g = Some (if rest = [] then int (length ms mod 2 ^ 16) else - 1, handle_all 0 ms g)"
proof -
  have n: "uint (0 + of_nat n :: u16) = int (n mod 2 ^ 16)" for n
    by (simp add: uint_nat unat_of_nat)
  show ?thesis using parse_msgs_parsed [OF assms, of g] unfolding parsed_def n by blast
qed

theorem parse_msgs_correct_witness:
  "\<exists>ms rest. (\<forall>m \<in> set ms. valid_msg m) \<and> [1, 0, 1, 0, 65, 9] = concat (map encode ms) @ rest
    \<and> parse_msgs [1, 0, 1, 0, 65, 9] 6 \<lparr>last_type = 0, last_len = 0, calls = 0, last_payload = 0\<rparr>
      = Some (if rest = [] then int (length ms mod 2 ^ 16) else - 1,
          handle_all 0 ms \<lparr>last_type = 0, last_len = 0, calls = 0, last_payload = 0\<rparr>)"
proof -
  have "length [1, 0, 1, 0, 65, 9 :: u8] = unat (6 :: size_t)" "unat (6 :: size_t) < 2 ^ 63" by simp_all
  from parse_msgs_correct [OF this, of "\<lparr>last_type = 0, last_len = 0, calls = 0, last_payload = 0\<rparr>"]
  show ?thesis by blast
qed

text \<open>
  Round trip: parsing the concatenated encodings of any list of well-formed messages hands
  exactly these messages to the handler, in order, and reports how many they are, modulo \<open>2 ^ 16\<close>: the count is kept in 16 bits, so
  65536 messages are reported as 0.
\<close>

theorem parse_msgs_encode:
  assumes "\<forall>m \<in> set ms. valid_msg m" and "length (concat (map encode ms)) < 2 ^ 63"
  shows "parse_msgs (concat (map encode ms)) (of_nat (length (concat (map encode ms)))) g
    = Some (int (length ms mod 2 ^ 16), handle_all 0 ms g)"
  using assms by (rule parse_encoded)

theorem parse_msgs_encode_witness:
  "parse_msgs [1, 0, 1, 0, 65, 3, 0, 0, 0] 9 \<lparr>last_type = 0, last_len = 0, calls = 0, last_payload = 0\<rparr>
   = Some (2, \<lparr>last_type = 3, last_len = 0, calls = 2, last_payload = 9\<rparr>)"
proof -
  have "\<forall>m \<in> set [(1, [65]), (3, [])]. valid_msg m" "length (concat (map encode [(1, [65]), (3, [])])) < 2 ^ 63"
    by (simp_all add: valid_msg_def)
  from parse_msgs_encode [OF this, of "\<lparr>last_type = 0, last_len = 0, calls = 0, last_payload = 0\<rparr>"]
  show ?thesis by (simp add: encode_def handle_msg_def)
qed

text \<open>
  Every \<open>assert\<close> of the program's test holds.
\<close>

theorem message_main_passes:
  "main = Some \<lparr>last_type = 2, last_len = 0, calls = 0, last_payload = 11\<rparr>"
  by code_simp

end
