(* ===== verification/Futex_Mutex.thy ===== *)
theory Futex_Mutex
  imports CPrelude
begin

text \<open>
  \<open>concurrency/01-mutex/mutex.c\<close>: a mutex built on one atomic word and the futex system call, and the worker
  threads that increment a shared counter under it.  A state has the lock word, the counter and the
  threads, each with its program position and the iterations it still has to do.  Every
  atomic exchange, every system call and each half of the non-atomic increment is one step.

  The kernel's futex: \<open>FUTEX_WAIT\<close> compares the word with 2 and puts the caller to sleep in one
  atomic action, or returns at once (\<open>EAGAIN\<close>); \<open>FUTEX_WAKE\<close> wakes one sleeper if there is one; a
  sleeper may also return without a wake-up (\<open>EINTR\<close>).  The counter is a \<open>long long\<close>: an increment past its range,
  undefined in C, is no step of the model.
\<close>

datatype pc =
    Start      \<comment> \<open>at the first exchange of \<open>my_lock\<close>, or done when no iteration is left\<close>
  | Slow       \<comment> \<open>at the exchange in the loop condition\<close>
  | Wait       \<comment> \<open>at the system call \<open>FUTEX_WAIT\<close>\<close>
  | Asleep     \<comment> \<open>in the kernel's queue\<close>
  | Crit       \<comment> \<open>holds the lock, before it reads the counter\<close>
  | Upd int    \<comment> \<open>has read the counter\<close>
  | Unlock     \<comment> \<open>at the exchange of \<open>my_unlock\<close>\<close>
  | Wake       \<comment> \<open>at the system call \<open>FUTEX_WAKE\<close>\<close>

record worker_thread =
  pc :: pc
  left :: nat

record mutex_state =
  lock_word :: int
  counter :: int
  threads :: "worker_thread list"

definition goto :: "mutex_state \<Rightarrow> nat \<Rightarrow> pc \<Rightarrow> mutex_state" where
  "goto s i p = s\<lparr>threads := (threads s)[i := (threads s ! i)\<lparr>pc := p\<rparr>]\<rparr>"

definition next_iter :: "mutex_state \<Rightarrow> nat \<Rightarrow> mutex_state" where
  "next_iter s i = s\<lparr>threads := (threads s)[i := \<lparr>pc = Start, left = left (threads s ! i) - 1\<rparr>]\<rparr>"

definition my_lock :: "mutex_state \<Rightarrow> nat \<Rightarrow> mutex_state option" where
  "my_lock s i = (case pc (threads s ! i) of
      Start \<Rightarrow> if left (threads s ! i) = 0 then None
               else Some ((goto s i (if lock_word s = 0 then Crit else Slow))\<lparr>lock_word := 1\<rparr>)
    | Slow \<Rightarrow> Some ((goto s i (if lock_word s = 0 then Crit else Wait))\<lparr>lock_word := 2\<rparr>)
    | Wait \<Rightarrow> Some (goto s i (if lock_word s = 2 then Asleep else Slow))
    | _ \<Rightarrow> None)"

definition increment :: "mutex_state \<Rightarrow> nat \<Rightarrow> mutex_state option" where
  "increment s i = (case pc (threads s ! i) of
      Crit \<Rightarrow> Some (goto s i (Upd (counter s)))
    | Upd v \<Rightarrow> do { c \<leftarrow> to_i64 (v + 1); Some ((goto s i Unlock)\<lparr>counter := c\<rparr>) }
    | _ \<Rightarrow> None)"

definition my_unlock :: "mutex_state \<Rightarrow> nat \<Rightarrow> mutex_state option" where
  "my_unlock s i = (case pc (threads s ! i) of
      Unlock \<Rightarrow> Some ((if lock_word s = 2 then goto s i Wake else next_iter s i)\<lparr>lock_word := 0\<rparr>)
    | _ \<Rightarrow> None)"

text \<open>
  What the threads do themselves, the futex calls included.  No rule lets a sleeper return unless a \<open>FUTEX_WAKE\<close> of
  another thread wakes it.
\<close>

inductive thread_step :: "mutex_state \<Rightarrow> mutex_state \<Rightarrow> bool" where
  lock: "i < length (threads s) \<Longrightarrow> my_lock s i = Some s' \<Longrightarrow> thread_step s s'"
| incr: "i < length (threads s) \<Longrightarrow> increment s i = Some s' \<Longrightarrow> thread_step s s'"
| unlock: "i < length (threads s) \<Longrightarrow> my_unlock s i = Some s' \<Longrightarrow> thread_step s s'"
| wake_one: "i < length (threads s) \<Longrightarrow> pc (threads s ! i) = Wake \<Longrightarrow> j < length (threads s) \<Longrightarrow>
    pc (threads s ! j) = Asleep \<Longrightarrow> thread_step s (next_iter (goto s j Slow) i)"
| wake_none: "i < length (threads s) \<Longrightarrow> pc (threads s ! i) = Wake \<Longrightarrow>
    \<forall>j < length (threads s). pc (threads s ! j) \<noteq> Asleep \<Longrightarrow> thread_step s (next_iter s i)"

text \<open>The program beside the rest of the system: a signal may also interrupt a sleep.\<close>

inductive mutex_step :: "mutex_state \<Rightarrow> mutex_state \<Rightarrow> bool" where
  call: "thread_step s s' \<Longrightarrow> mutex_step s s'"
| eintr: "i < length (threads s) \<Longrightarrow> pc (threads s ! i) = Asleep \<Longrightarrow> mutex_step s (goto s i Slow)"

definition mutex_start :: "nat \<Rightarrow> nat \<Rightarrow> mutex_state" where
  "mutex_start n k = \<lparr>lock_word = 0, counter = 0, threads = replicate n \<lparr>pc = Start, left = k\<rparr>\<rparr>"

inductive mutex_reach :: "nat \<Rightarrow> nat \<Rightarrow> mutex_state \<Rightarrow> bool" for n k where
  start: "mutex_reach n k (mutex_start n k)"
| step: "mutex_reach n k s \<Longrightarrow> mutex_step s s' \<Longrightarrow> mutex_reach n k s'"

definition all_done :: "mutex_state \<Rightarrow> bool" where
  "all_done s \<longleftrightarrow> (\<forall>t \<in> set (threads s). pc t = Start \<and> left t = 0)"

subsection \<open>The invariant\<close>

fun holding :: "pc \<Rightarrow> bool" where
  "holding Crit = True" | "holding (Upd v) = True" | "holding Unlock = True" | "holding _ = False"

definition holders :: "mutex_state \<Rightarrow> nat" where
  "holders s = cnt (\<lambda>t. holding (pc t)) (threads s)"

definition counted :: "worker_thread \<Rightarrow> bool" where
  "counted t \<longleftrightarrow> pc t = Unlock \<or> pc t = Wake"

definition todo :: "mutex_state \<Rightarrow> nat" where
  "todo s = sum_list (map left (threads s))"

definition at_pc :: "mutex_state \<Rightarrow> pc \<Rightarrow> bool" where
  "at_pc s p \<longleftrightarrow> (\<exists>i < length (threads s). pc (threads s ! i) = p)"

definition mutex_inv :: "nat \<Rightarrow> mutex_state \<Rightarrow> bool" where
  "mutex_inv tot s \<longleftrightarrow>
     holders s = (if lock_word s = 0 then 0 else 1)
     \<and> counter s + int (todo s) = int tot + int (cnt counted (threads s))
     \<and> (\<forall>i < length (threads s). (pc (threads s ! i) \<noteq> Start \<longrightarrow> 0 < left (threads s ! i))
          \<and> (\<forall>v. pc (threads s ! i) = Upd v \<longrightarrow> v = counter s))
     \<and> (at_pc s Asleep \<longrightarrow> lock_word s = 2 \<or> at_pc s Slow \<or> at_pc s Wake)
     \<and> 0 \<le> counter s"

lemma goto_simps [simp]:
  "lock_word (goto s i p) = lock_word s" "counter (goto s i p) = counter s"
  "length (threads (goto s i p)) = length (threads s)"
  by (simp_all add: goto_def)

lemma next_iter_simps [simp]:
  "lock_word (next_iter s i) = lock_word s" "counter (next_iter s i) = counter s"
  "length (threads (next_iter s i)) = length (threads s)"
  by (simp_all add: next_iter_def)

lemma same_word: "lock_word s = w \<Longrightarrow> s\<lparr>lock_word := w\<rparr> = s"
  by (cases s) simp

lemma goto_nth:
  "j < length (threads s) \<Longrightarrow>
   threads (goto s i p) ! j = (if j = i then (threads s ! i)\<lparr>pc := p\<rparr> else threads s ! j)"
  by (simp add: goto_def nth_list_update)

lemma next_iter_nth:
  "j < length (threads s) \<Longrightarrow>
   threads (next_iter s i) ! j = (if j = i then \<lparr>pc = Start, left = left (threads s ! i) - 1\<rparr> else threads s ! j)"
  by (simp add: next_iter_def nth_list_update)

lemma cnt_goto:
  assumes "i < length (threads s)"
  shows "cnt P (threads (goto s i p)) + (if P (threads s ! i) then 1 else 0)
    = cnt P (threads s) + (if P ((threads s ! i)\<lparr>pc := p\<rparr>) then 1 else 0)"
  unfolding goto_def using cnt_update [OF assms, of P] by simp

lemma cnt_next_iter:
  assumes "i < length (threads s)"
  shows "cnt P (threads (next_iter s i)) + (if P (threads s ! i) then 1 else 0)
    = cnt P (threads s) + (if P \<lparr>pc = Start, left = left (threads s ! i) - 1\<rparr> then 1 else 0)"
  unfolding next_iter_def using cnt_update [OF assms, of P] by simp

lemma todo_goto [simp]: "i < length (threads s) \<Longrightarrow> todo (goto s i p) = todo s"
  by (simp add: todo_def goto_def map_update) (metis list_update_id nth_map)

lemma todo_next_iter:
  assumes "i < length (threads s)" and "0 < left (threads s ! i)"
  shows "todo (next_iter s i) + 1 = todo s"
proof -
  have "left (threads s ! i) \<le> sum_list (map left (threads s))"
    using assms(1) by (intro member_le_sum_list) simp_all
  then show ?thesis using assms by (simp add: todo_def next_iter_def map_update sum_list_update)
qed

lemma at_pc_lock_word [simp]: "at_pc (s\<lparr>lock_word := w\<rparr>) p = at_pc s p" "at_pc (s\<lparr>counter := c\<rparr>) p = at_pc s p"
  by (simp_all add: at_pc_def)

lemma holders_lock_word [simp]: "holders (s\<lparr>lock_word := w\<rparr>) = holders s" "holders (s\<lparr>counter := c\<rparr>) = holders s"
  by (simp_all add: holders_def)

lemma todo_lock_word [simp]: "todo (s\<lparr>lock_word := w\<rparr>) = todo s" "todo (s\<lparr>counter := c\<rparr>) = todo s"
  by (simp_all add: todo_def)

lemma at_pc_goto:
  assumes "i < length (threads s)"
  shows "at_pc (goto s i p) p"
    and "at_pc s q \<Longrightarrow> pc (threads s ! i) \<noteq> q \<Longrightarrow> at_pc (goto s i p) q"
    and "at_pc (goto s i p) q \<Longrightarrow> p = q \<or> at_pc s q"
  using assms unfolding at_pc_def by (auto simp: goto_nth split: if_splits)

lemma at_pc_next_iter:
  assumes "i < length (threads s)"
  shows "at_pc s q \<Longrightarrow> pc (threads s ! i) \<noteq> q \<Longrightarrow> at_pc (next_iter s i) q"
    and "at_pc (next_iter s i) q \<Longrightarrow> q = Start \<or> at_pc s q"
  using assms unfolding at_pc_def by (auto simp: next_iter_nth split: if_splits)

lemma at_pcI: "i < length (threads s) \<Longrightarrow> pc (threads s ! i) = p \<Longrightarrow> at_pc s p"
  by (auto simp: at_pc_def)

lemma mutex_invD:
  assumes "mutex_inv tot s"
  shows "holders s = (if lock_word s = 0 then 0 else 1)"
    and "counter s + int (todo s) = int tot + int (cnt counted (threads s))"
    and "i < length (threads s) \<Longrightarrow> pc (threads s ! i) \<noteq> Start \<Longrightarrow> 0 < left (threads s ! i)"
    and "i < length (threads s) \<Longrightarrow> pc (threads s ! i) = Upd v \<Longrightarrow> v = counter s"
    and "at_pc s Asleep \<Longrightarrow> lock_word s = 2 \<or> at_pc s Slow \<or> at_pc s Wake"
    and "0 \<le> counter s"
  using assms by (auto simp: mutex_inv_def)

lemma holder_word:
  assumes "mutex_inv tot s" and "i < length (threads s)" and "holding (pc (threads s ! i))"
  shows "lock_word s \<noteq> 0"
proof
  assume "lock_word s = 0"
  then have "cnt (\<lambda>t. holding (pc t)) (threads s) = 0" using mutex_invD(1) [OF assms(1)] by (simp add: holders_def)
  with assms(2,3) show False by (auto simp: cnt_zero_iff)
qed

text \<open>One thread moves from \<open>pc\<close> to \<open>p\<close>, and the lock word becomes \<open>w\<close>.\<close>

lemma mutex_inv_goto:
  assumes inv: "mutex_inv tot s" and i: "i < length (threads s)"
    and left: "0 < left (threads s ! i)"
    and hold: "(if holding p then 1 else 0) + (if lock_word s = 0 then 0 else 1)
      = (if holding (pc (threads s ! i)) then 1 else 0) + (if w = 0 then 0 else (1 :: nat))"
    and cnt: "(p = Unlock \<or> p = Wake) \<longleftrightarrow> (pc (threads s ! i) = Unlock \<or> pc (threads s ! i) = Wake)"
    and upd: "\<And>v. p = Upd v \<Longrightarrow> v = counter s"
    and sleep: "at_pc (goto s i p) Asleep \<Longrightarrow> w = 2 \<or> at_pc (goto s i p) Slow \<or> at_pc (goto s i p) Wake"
  shows "mutex_inv tot ((goto s i p)\<lparr>lock_word := w\<rparr>)"
proof -
  have "holders (goto s i p) = (if w = 0 then 0 else 1)"
    using cnt_goto [OF i, of "\<lambda>t. holding (pc t)" p] hold mutex_invD(1) [OF inv] by (auto simp: holders_def)
  moreover have "cnt counted (threads (goto s i p)) = cnt counted (threads s)"
    using cnt_goto [OF i, of counted p] cnt by (auto simp: counted_def split: if_splits)
  moreover have "(pc (threads (goto s i p) ! j) \<noteq> Start \<longrightarrow> 0 < worker_thread.left (threads (goto s i p) ! j))
      \<and> (\<forall>v. pc (threads (goto s i p) ! j) = Upd v \<longrightarrow> v = counter s)" if "j < length (threads s)" for j
    using that left upd mutex_invD(3,4) [OF inv that] by (auto simp: goto_nth [OF that])
  ultimately show ?thesis using sleep mutex_invD(2,6) [OF inv] i by (simp add: mutex_inv_def)
qed

lemma mutex_inv_lock:
  assumes inv: "mutex_inv tot s" and i: "i < length (threads s)" and step: "my_lock s i = Some s'"
  shows "mutex_inv tot s'"
proof (cases "pc (threads s ! i)")
  case Start
  then have s': "s' = (goto s i (if lock_word s = 0 then Crit else Slow))\<lparr>lock_word := 1\<rparr>"
    and l: "0 < left (threads s ! i)"
    using step by (auto simp: my_lock_def split: if_splits)
  let ?p = "if lock_word s = 0 then Crit else Slow"
  have "at_pc (goto s i ?p) Slow \<or> at_pc (goto s i ?p) Wake" if "at_pc (goto s i ?p) Asleep"
  proof (cases "lock_word s = 0")
    case True
    with that have "at_pc s Asleep" using at_pc_goto(3) [OF i, of Crit Asleep] by simp
    with True mutex_invD(5) [OF inv] have "at_pc s Slow \<or> at_pc s Wake" by simp
    then show ?thesis using at_pc_goto(2) [OF i, of _ ?p] Start by auto
  qed (use at_pc_goto(1) [OF i, of Slow] in simp)
  then show ?thesis unfolding s'
    using Start l by (intro mutex_inv_goto [OF inv i]) (auto split: if_splits)
next
  case Slow
  then have s': "s' = (goto s i (if lock_word s = 0 then Crit else Wait))\<lparr>lock_word := 2\<rparr>"
    and l: "0 < left (threads s ! i)"
    using step mutex_invD(3) [OF inv i] by (auto simp: my_lock_def)
  show ?thesis unfolding s' using Slow l by (intro mutex_inv_goto [OF inv i]) (auto split: if_splits)
next
  case Wait
  then have "s' = (goto s i (if lock_word s = 2 then Asleep else Slow))\<lparr>lock_word := lock_word s\<rparr>"
    and l: "0 < left (threads s ! i)"
    using step mutex_invD(3) [OF inv i] by (auto simp: my_lock_def)
  then show ?thesis
    using Wait l at_pc_goto(1) [OF i, of Slow] by (auto intro!: mutex_inv_goto [OF inv i])
qed (use step in \<open>simp_all add: my_lock_def\<close>)

lemma sleepers_served:
  assumes "mutex_inv tot s" and "i < length (threads s)" and "pc (threads s ! i) \<noteq> Slow" and "pc (threads s ! i) \<noteq> Wake"
    and "at_pc (goto s i p) Asleep" and "p \<noteq> Asleep"
  shows "lock_word s = 2 \<or> at_pc (goto s i p) Slow \<or> at_pc (goto s i p) Wake"
  using mutex_invD(5) [OF assms(1)] at_pc_goto(2,3) [OF assms(2)] assms(3-) by blast

lemma mutex_inv_incr:
  assumes inv: "mutex_inv tot s" and i: "i < length (threads s)" and step: "increment s i = Some s'"
  shows "mutex_inv tot s'"
proof (cases "pc (threads s ! i)")
  case Crit
  then have "s' = (goto s i (Upd (counter s)))\<lparr>lock_word := lock_word s\<rparr>"
    and "0 < left (threads s ! i)"
    using step mutex_invD(3) [OF inv i] by (auto simp: increment_def)
  then show ?thesis
    using Crit sleepers_served [OF inv i] by (auto intro!: mutex_inv_goto [OF inv i])
next
  case (Upd v)
  then have s': "s' = (goto s i Unlock)\<lparr>counter := counter s + 1\<rparr>" and l: "0 < left (threads s ! i)"
    using step mutex_invD(3,4) [OF inv i] by (auto simp: increment_def to_i64_def split: if_splits)
  have h: "holders (goto s i Unlock) = holders s"
    using cnt_goto [OF i, of "\<lambda>t. holding (pc t)" Unlock] Upd by (simp add: holders_def)
  have c: "cnt counted (threads (goto s i Unlock)) = cnt counted (threads s) + 1"
    using cnt_goto [OF i, of counted Unlock] Upd by (simp add: counted_def)
  have "pc (threads s ! j) \<noteq> Upd w" if j: "j < length (threads s)" "j \<noteq> i" for j w
  proof
    assume "pc (threads s ! j) = Upd w"
    then have "0 < cnt (\<lambda>t. holding (pc t)) (threads (goto s i Start))"
      using j by (auto simp: cnt_pos_iff goto_nth intro!: exI [of _ j])
    moreover have "cnt (\<lambda>t. holding (pc t)) (threads (goto s i Start)) + 1 = holders s"
      using cnt_goto [OF i, of "\<lambda>t. holding (pc t)" Start] Upd by (simp add: holders_def)
    ultimately show False using mutex_invD(1) [OF inv] by (simp split: if_splits)
  qed
  then have "(pc (threads s' ! j) \<noteq> Start \<longrightarrow> 0 < left (threads s' ! j)) \<and> (\<forall>w. pc (threads s' ! j) \<noteq> Upd w)"
    if "j < length (threads s)" for j
    using that l mutex_invD(3) [OF inv that] by (auto simp: s' goto_nth [OF that])
  then show ?thesis
    using mutex_invD(1,2,6) [OF inv] h c i Upd sleepers_served [OF inv i, of Unlock] by (simp add: mutex_inv_def s')
qed (use step in \<open>simp_all add: increment_def\<close>)

lemma mutex_inv_next_iter:
  assumes inv: "mutex_inv tot s" and i: "i < length (threads s)" and pc: "pc (threads s ! i) = Unlock \<or> pc (threads s ! i) = Wake"
    and w: "w = (if pc (threads s ! i) = Unlock then 0 else lock_word s)"
    and sleep: "at_pc (next_iter s i) Asleep \<Longrightarrow> w = 2 \<or> at_pc (next_iter s i) Slow \<or> at_pc (next_iter s i) Wake"
  shows "mutex_inv tot ((next_iter s i)\<lparr>lock_word := w\<rparr>)"
proof -
  have l: "0 < left (threads s ! i)" using mutex_invD(3) [OF inv i] pc by auto
  have "holders (next_iter s i) + (if holding (pc (threads s ! i)) then 1 else 0) = holders s"
    using cnt_next_iter [OF i, of "\<lambda>t. holding (pc t)"] by (simp add: holders_def)
  then have "holders (next_iter s i) = (if w = 0 then 0 else 1)"
    using mutex_invD(1) [OF inv] pc w by (auto split: if_splits)
  moreover have "cnt counted (threads (next_iter s i)) + 1 = cnt counted (threads s)"
    using cnt_next_iter [OF i, of counted] pc by (auto simp: counted_def)
  moreover have "todo (next_iter s i) + 1 = todo s" by (rule todo_next_iter [OF i l])
  moreover have "(pc (threads (next_iter s i) ! j) \<noteq> Start \<longrightarrow> 0 < left (threads (next_iter s i) ! j))
      \<and> (\<forall>v. pc (threads (next_iter s i) ! j) = Upd v \<longrightarrow> v = counter s)" if "j < length (threads s)" for j
    using mutex_invD(3,4) [OF inv that] by (auto simp: next_iter_nth [OF that])
  ultimately show ?thesis using sleep mutex_invD(2,6) [OF inv] by (simp add: mutex_inv_def)
qed

lemma mutex_inv_unlock:
  assumes inv: "mutex_inv tot s" and i: "i < length (threads s)" and step: "my_unlock s i = Some s'"
  shows "mutex_inv tot s'"
proof -
  have pc: "pc (threads s ! i) = Unlock" using step by (auto simp: my_unlock_def split: pc.splits)
  have s': "s' = (if lock_word s = 2 then goto s i Wake else next_iter s i)\<lparr>lock_word := 0\<rparr>"
    using step pc by (simp add: my_unlock_def)
  have l: "0 < left (threads s ! i)" using mutex_invD(3) [OF inv i] pc by auto
  show ?thesis
  proof (cases "lock_word s = 2")
    case True
    then show ?thesis unfolding s'
      using pc l at_pc_goto(1) [OF i, of Wake] by (auto intro!: mutex_inv_goto [OF inv i])
  next
    case False
    have "at_pc (next_iter s i) Slow \<or> at_pc (next_iter s i) Wake" if "at_pc (next_iter s i) Asleep"
    proof -
      from that have "at_pc s Asleep" using at_pc_next_iter(2) [OF i] by blast
      with False mutex_invD(5) [OF inv] have "at_pc s Slow \<or> at_pc s Wake" by blast
      then show ?thesis using at_pc_next_iter(1) [OF i] pc by auto
    qed
    with False show ?thesis unfolding s'
      using pc by (auto intro!: mutex_inv_next_iter [OF inv i])
  qed
qed

lemma mutex_inv_eintr:
  assumes inv: "mutex_inv tot s" and i: "i < length (threads s)" and pc: "pc (threads s ! i) = Asleep"
  shows "mutex_inv tot (goto s i Slow)"
proof -
  have "mutex_inv tot ((goto s i Slow)\<lparr>lock_word := lock_word s\<rparr>)"
    by (rule mutex_inv_goto [OF inv i])
      (use pc mutex_invD(3) [OF inv i] at_pc_goto(1) [OF i, of Slow] in auto)
  then show ?thesis by (simp add: same_word)
qed

lemma mutex_inv_wake_one:
  assumes inv: "mutex_inv tot s" and i: "i < length (threads s)" "pc (threads s ! i) = Wake"
    and j: "j < length (threads s)" "pc (threads s ! j) = Asleep"
  shows "mutex_inv tot (next_iter (goto s j Slow) i)"
proof -
  let ?s1 = "goto s j Slow"
  have ij: "i \<noteq> j" using i(2) j(2) by auto
  have inv1: "mutex_inv tot ?s1" by (rule mutex_inv_eintr [OF inv j])
  have i1: "i < length (threads ?s1)" "pc (threads ?s1 ! i) = Wake" using i ij by (simp_all add: goto_nth)
  have "at_pc (next_iter ?s1 i) Slow"
    using at_pc_next_iter(1) [OF i1(1), of Slow] at_pc_goto(1) [OF j(1), of Slow] i1(2) by simp
  then have "mutex_inv tot ((next_iter ?s1 i)\<lparr>lock_word := lock_word ?s1\<rparr>)"
    using i1 by (intro mutex_inv_next_iter [OF inv1 i1(1)]) auto
  then show ?thesis by (simp add: same_word)
qed

lemma mutex_inv_wake_none:
  assumes inv: "mutex_inv tot s" and i: "i < length (threads s)" "pc (threads s ! i) = Wake"
    and none: "\<forall>j < length (threads s). pc (threads s ! j) \<noteq> Asleep"
  shows "mutex_inv tot (next_iter s i)"
proof -
  have "\<not> at_pc (next_iter s i) Asleep"
    using at_pc_next_iter(2) [OF i(1), of Asleep] none by (auto simp: at_pc_def)
  then have "mutex_inv tot ((next_iter s i)\<lparr>lock_word := lock_word s\<rparr>)"
    using i by (intro mutex_inv_next_iter [OF inv i(1)]) auto
  then show ?thesis by (simp add: same_word)
qed

lemma mutex_inv_thread_step: "thread_step s s' \<Longrightarrow> mutex_inv tot s \<Longrightarrow> mutex_inv tot s'"
  by (induction rule: thread_step.induct)
    (auto intro: mutex_inv_lock mutex_inv_incr mutex_inv_unlock mutex_inv_wake_one mutex_inv_wake_none)

lemma mutex_inv_step: "mutex_step s s' \<Longrightarrow> mutex_inv tot s \<Longrightarrow> mutex_inv tot s'"
  by (induction rule: mutex_step.induct) (auto intro: mutex_inv_thread_step mutex_inv_eintr)

lemma cnt_replicate: "cnt P (replicate n x) = (if P x then n else 0)"
  by (simp add: cnt_def)

lemma mutex_inv_start: "mutex_inv (n * k) (mutex_start n k)"
  by (auto simp: mutex_inv_def mutex_start_def holders_def todo_def cnt_replicate counted_def sum_list_replicate
      at_pc_def)

lemma mutex_inv_reach: "mutex_reach n k s \<Longrightarrow> mutex_inv (n * k) s"
  by (induction rule: mutex_reach.induct) (auto intro: mutex_inv_start mutex_inv_step)

lemma thread_step_length: "thread_step s s' \<Longrightarrow> length (threads s') = length (threads s)"
  by (induction rule: thread_step.induct)
    (auto simp: my_lock_def increment_def my_unlock_def to_i64_def split: pc.splits if_splits)

lemma step_length: "mutex_step s s' \<Longrightarrow> length (threads s') = length (threads s)"
  by (induction rule: mutex_step.induct) (auto dest: thread_step_length)

lemma reach_length: "mutex_reach n k s \<Longrightarrow> length (threads s) = n"
  by (induction rule: mutex_reach.induct) (auto simp: mutex_start_def dest: step_length)

subsection \<open>No wake-up is lost\<close>

abbreviation thread_steps :: "mutex_state \<Rightarrow> mutex_state \<Rightarrow> bool" where
  "thread_steps \<equiv> thread_step\<^sup>*\<^sup>*"

lemma mutex_inv_steps: "thread_steps s s' \<Longrightarrow> mutex_inv tot s \<Longrightarrow> mutex_inv tot s'"
  by (induction rule: rtranclp_induct) (auto intro: mutex_inv_thread_step)

lemma mutex_reach_steps: "thread_steps s s' \<Longrightarrow> mutex_reach n k s \<Longrightarrow> mutex_reach n k s'"
  by (induction rule: rtranclp_induct) (auto intro: mutex_reach.step mutex_step.call)

text \<open>An increment that is still to be done does not overflow, as the counter is below the final count.\<close>

lemma cnt_le_sum: "(\<And>t. t \<in> set ts \<Longrightarrow> P t \<Longrightarrow> 0 < left t) \<Longrightarrow> cnt P ts \<le> sum_list (map left ts)"
proof (induction ts)
  case (Cons t ts)
  have "cnt P ts \<le> sum_list (map left ts)" by (rule Cons.IH) (use Cons.prems in auto)
  moreover have "P t \<Longrightarrow> 0 < left t" by (rule Cons.prems) simp_all
  ultimately show ?case by (cases "P t") (simp_all add: cnt_def)
qed (simp add: cnt_def)

lemma upd_below:
  assumes inv: "mutex_inv tot s" and i: "i < length (threads s)" "pc (threads s ! i) = Upd v"
  shows "v + 1 \<le> int tot"
proof -
  let ?s1 = "goto s i Unlock"
  have "0 < left t" if t: "t \<in> set (threads ?s1)" "counted t" for t
  proof -
    obtain j where j: "j < length (threads s)" "t = threads ?s1 ! j" using t(1) by (auto simp: in_set_conv_nth)
    then show ?thesis using t(2) i(2) mutex_invD(3) [OF inv j(1)] by (auto simp: counted_def goto_nth split: if_splits)
  qed
  then have "cnt counted (threads ?s1) \<le> todo ?s1" unfolding todo_def by (intro cnt_le_sum) auto
  moreover have "cnt counted (threads ?s1) = cnt counted (threads s) + 1"
    using cnt_goto [OF i(1), of counted Unlock] i(2) by (simp add: counted_def)
  ultimately show ?thesis using mutex_invD(2) [OF inv] mutex_invD(4) [OF inv i] i(1) by simp
qed

text \<open>A thread in \<open>my_unlock\<close> or inside the critical section finishes its iteration.\<close>

lemma wake_finishes:
  assumes inv: "mutex_inv tot s" and i: "i < length (threads s)" "pc (threads s ! i) = Wake"
  shows "\<exists>s'. thread_step s s' \<and> todo s' < todo s"
proof -
  have l: "0 < left (threads s ! i)" using mutex_invD(3) [OF inv i(1)] i(2) by auto
  show ?thesis
  proof (cases "\<exists>j < length (threads s). pc (threads s ! j) = Asleep")
    case True
    then obtain j where j: "j < length (threads s)" "pc (threads s ! j) = Asleep" by blast
    then have "i \<noteq> j" using i(2) by auto
    then have "todo (next_iter (goto s j Slow) i) + 1 = todo s"
      using todo_next_iter [of i "goto s j Slow"] i j l by (simp add: goto_nth)
    then show ?thesis using thread_step.wake_one [OF i j] by (intro exI conjI) auto
  next
    case False
    then show ?thesis using thread_step.wake_none [OF i] todo_next_iter [OF i(1) l] by (intro exI conjI) auto
  qed
qed

lemma unlock_finishes:
  assumes inv: "mutex_inv tot s" and i: "i < length (threads s)" "pc (threads s ! i) = Unlock"
  shows "\<exists>s'. thread_steps s s' \<and> todo s' < todo s"
proof (cases "lock_word s = 2")
  case True
  let ?s1 = "(goto s i Wake)\<lparr>lock_word := 0\<rparr>"
  have st: "thread_step s ?s1" by (rule thread_step.unlock [OF i(1)]) (simp add: my_unlock_def i(2) True)
  obtain s' where "thread_step ?s1 s'" "todo s' < todo ?s1"
    using wake_finishes [OF mutex_inv_thread_step [OF st inv], of i] i by (auto simp: goto_nth)
  with st i(1) show ?thesis by (auto intro: converse_rtranclp_into_rtranclp)
next
  case False
  have "thread_step s ((next_iter s i)\<lparr>lock_word := 0\<rparr>)"
    by (rule thread_step.unlock [OF i(1)]) (simp add: my_unlock_def i(2) False)
  moreover have "todo (next_iter s i) + 1 = todo s"
    using todo_next_iter [OF i(1)] mutex_invD(3) [OF inv i(1)] i(2) by simp
  ultimately show ?thesis by (intro exI [of _ "(next_iter s i)\<lparr>lock_word := 0\<rparr>"]) auto
qed

lemma upd_finishes:
  assumes inv: "mutex_inv tot s" and fits: "int tot < 2 ^ 63" and i: "i < length (threads s)" "pc (threads s ! i) = Upd v"
  shows "\<exists>s'. thread_steps s s' \<and> todo s' < todo s"
proof -
  let ?s1 = "(goto s i Unlock)\<lparr>counter := v + 1\<rparr>"
  have fit: "to_i64 (v + 1) = Some (v + 1)"
    using upd_below [OF inv i] fits mutex_invD(6) [OF inv] mutex_invD(4) [OF inv i] by simp
  have st: "thread_step s ?s1" by (rule thread_step.incr [OF i(1)]) (simp add: increment_def i(2) fit)
  obtain s' where "thread_steps ?s1 s'" "todo s' < todo ?s1"
    using unlock_finishes [OF mutex_inv_thread_step [OF st inv], of i] i by (auto simp: goto_nth)
  with st i(1) show ?thesis by (auto intro: converse_rtranclp_into_rtranclp)
qed

lemma crit_finishes:
  assumes inv: "mutex_inv tot s" and fits: "int tot < 2 ^ 63" and i: "i < length (threads s)" "pc (threads s ! i) = Crit"
  shows "\<exists>s'. thread_steps s s' \<and> todo s' < todo s"
proof -
  let ?s1 = "goto s i (Upd (counter s))"
  have st: "thread_step s ?s1" by (rule thread_step.incr [OF i(1)]) (simp add: increment_def i(2))
  obtain s' where "thread_steps ?s1 s'" "todo s' < todo ?s1"
    using upd_finishes [OF mutex_inv_thread_step [OF st inv] fits, of i] i by (auto simp: goto_nth)
  with st i(1) show ?thesis by (auto intro: converse_rtranclp_into_rtranclp)
qed

lemma acquire_finishes:
  assumes inv: "mutex_inv tot s" and fits: "int tot < 2 ^ 63" and i: "i < length (threads s)" and w0: "lock_word s = 0"
    and pc: "pc (threads s ! i) = Start \<and> 0 < left (threads s ! i) \<or> pc (threads s ! i) = Slow"
  shows "\<exists>s'. thread_steps s s' \<and> todo s' < todo s"
proof -
  obtain w where st: "thread_step s ((goto s i Crit)\<lparr>lock_word := w\<rparr>)" (is "thread_step s ?s1")
    using pc w0 thread_step.lock [OF i] by (auto simp: my_lock_def)
  obtain s' where "thread_steps ?s1 s'" "todo s' < todo ?s1"
    using crit_finishes [OF mutex_inv_thread_step [OF st inv] fits, of i] i by (auto simp: goto_nth)
  with st i(1) show ?thesis by (auto intro: converse_rtranclp_into_rtranclp)
qed

lemma wait_finishes:
  assumes inv: "mutex_inv tot s" and fits: "int tot < 2 ^ 63" and i: "i < length (threads s)" "pc (threads s ! i) = Wait" and w0: "lock_word s = 0"
  shows "\<exists>s'. thread_steps s s' \<and> todo s' < todo s"
proof -
  have st: "thread_step s (goto s i Slow)" 
    by (rule thread_step.lock [OF i(1)]) (simp add: my_lock_def i(2) w0)
  obtain s' where "thread_steps (goto s i Slow) s'" "todo s' < todo (goto s i Slow)"
    using acquire_finishes [OF mutex_inv_thread_step [OF st inv] fits, of i] i w0 by (auto simp: goto_nth)
  with st i(1) show ?thesis by (auto intro: converse_rtranclp_into_rtranclp)
qed

lemma someone_finishes:
  assumes inv: "mutex_inv tot s" and fits: "int tot < 2 ^ 63" and more: "0 < todo s"
  shows "\<exists>s'. thread_steps s s' \<and> todo s' < todo s"
proof -
  obtain i where i: "i < length (threads s)" "0 < left (threads s ! i)"
  proof -
    have "\<not> (\<forall>t \<in> set (threads s). left t = 0)"
    proof
      assume "\<forall>t \<in> set (threads s). left t = 0"
      then have "todo s = 0" by (simp add: todo_def)
      with more show False by simp
    qed
    then show ?thesis using that by (auto simp: in_set_conv_nth)
  qed
  show ?thesis
  proof (cases "\<exists>j < length (threads s). holding (pc (threads s ! j))")
    case True
    then obtain j where j: "j < length (threads s)" "holding (pc (threads s ! j))" by blast
    then show ?thesis
      using crit_finishes [OF inv fits j(1)] upd_finishes [OF inv fits j(1)] unlock_finishes [OF inv j(1)]
      by (cases "pc (threads s ! j)") auto
  next
    case False
    then have free: "lock_word s = 0"
      using mutex_invD(1) [OF inv] cnt_zero_iff [of "\<lambda>t. holding (pc t)" "threads s"] by (auto simp: holders_def split: if_splits)
    have slow: ?thesis if "at_pc s Slow"
      using that acquire_finishes [OF inv fits _ free] by (auto simp: at_pc_def)
    have wake: ?thesis if "at_pc s Wake"
      using that wake_finishes [OF inv] by (auto simp: at_pc_def)
    show ?thesis
    proof (cases "pc (threads s ! i)")
      case Start
      then show ?thesis using acquire_finishes [OF inv fits i(1) free] i(2) by blast
    next
      case Wait
      then show ?thesis using wait_finishes [OF inv fits i(1) _ free] by blast
    next
      case Asleep
      then have "at_pc s Slow \<or> at_pc s Wake" using mutex_invD(5) [OF inv] at_pcI [OF i(1)] free by auto
      then show ?thesis using slow wake by blast
    qed (use False i slow wake at_pcI [OF i(1)] in auto)
  qed
qed

lemma all_finish:
  assumes "mutex_inv tot s" and fits: "int tot < 2 ^ 63"
  shows "\<exists>s'. thread_steps s s' \<and> todo s' = 0"
  using assms(1)
proof (induction "todo s" arbitrary: s rule: less_induct)
  case less
  show ?case
  proof (cases "todo s = 0")
    case False
    then obtain s1 where s1: "thread_steps s s1" "todo s1 < todo s" using someone_finishes [OF less.prems fits] by blast
    with less.hyps [OF s1(2) mutex_inv_steps [OF s1(1) less.prems]] show ?thesis by (meson rtranclp_trans)
  qed auto
qed

lemma todo_zero_done:
  assumes "mutex_inv tot s" and "todo s = 0"
  shows "all_done s"
proof -
  have z: "left t = 0" if "t \<in> set (threads s)" for t using assms(2) that by (simp add: todo_def)
  moreover have "pc t = Start" if "t \<in> set (threads s)" for t
    using z [OF that] that mutex_invD(3) [OF assms(1)] by (metis in_set_conv_nth less_irrefl)
  ultimately show ?thesis by (simp add: all_done_def)
qed

subsection \<open>The driver\<close>

text \<open>
  The checks of \<open>main\<close>: \<open>num\<close> and \<open>iter\<close> are the results of \<open>atoi\<close> and \<open>atol\<close>, \<open>resources\<close> tells whether
  \<open>malloc\<close> and \<open>pthread_mutex_init\<close> succeed.  The result is \<^const>\<open>None\<close> for an exit with status 1, else the
  worker, the number of threads and the number of iterations of each (the loop counts up from 0, so a negative
  number gives none).
\<close>

datatype worker_fn = Worker | Worker_lock

definition main_config :: "int \<Rightarrow> string \<Rightarrow> int \<Rightarrow> int \<Rightarrow> bool \<Rightarrow> (worker_fn \<times> nat \<times> nat) option" where
  "main_config argc lock num iter resources =
     (if argc \<noteq> 4 then None
      else do {
        fn \<leftarrow> (if lock = ''pthread'' then Some Worker_lock else if lock = ''mine'' then Some Worker else None);
        if num \<le> 0 then None
        else if iter = 0 then None
        else if \<not> resources then None
        else Some (fn, nat num, nat iter)
      })"

definition main_assert :: "int \<Rightarrow> int \<Rightarrow> int \<Rightarrow> bool option" where
  "main_assert iter num c = do { p \<leftarrow> to_i64 (iter * num); Some (c = p) }"

lemma done_counter:
  assumes "mutex_reach n k s" and "all_done s"
  shows "counter s = int (n * k)"
proof -
  have "todo s = 0" using assms(2) by (simp add: todo_def all_done_def)
  moreover have "cnt counted (threads s) = 0"
    using assms(2) by (auto simp: cnt_def filter_empty_conv all_done_def counted_def)
  ultimately show ?thesis using mutex_invD(2) [OF mutex_inv_reach [OF assms(1)]] by simp
qed

subsection \<open>Properties\<close>

text \<open>
  C19: Mutual exclusion: in every reachable state at most one thread is between its lock
  acquisition and its release, the lock word is 0 exactly when nobody holds the lock, and the counter has
  never lost an increment: it equals the number of increments done, and is \<open>n * k\<close> when all threads are
  done.
\<close>

theorem mutex_exclusion:
  assumes "mutex_reach n k s"
  shows "(\<forall>i < length (threads s). \<forall>j < length (threads s).
      holding (pc (threads s ! i)) \<longrightarrow> holding (pc (threads s ! j)) \<longrightarrow> i = j)
    \<and> (lock_word s = 0 \<longleftrightarrow> (\<forall>i < length (threads s). \<not> holding (pc (threads s ! i))))
    \<and> counter s + int (todo s) = int (n * k) + int (cnt counted (threads s))
    \<and> (all_done s \<longrightarrow> counter s = int (n * k))"
proof -
  note inv = mutex_inv_reach [OF assms]
  have "i = j" if i: "i < length (threads s)" "holding (pc (threads s ! i))"
    and j: "j < length (threads s)" "holding (pc (threads s ! j))" for i j
  proof (rule ccontr)
    assume "i \<noteq> j"
    with j have "0 < cnt (\<lambda>t. holding (pc t)) (threads (goto s i Start))"
      by (auto simp: cnt_pos_iff goto_nth intro!: exI [of _ j])
    moreover have "cnt (\<lambda>t. holding (pc t)) (threads (goto s i Start)) + 1 = holders s"
      using cnt_goto [OF i(1), of "\<lambda>t. holding (pc t)" Start] i by (simp add: holders_def)
    ultimately show False using mutex_invD(1) [OF inv] by (simp split: if_splits)
  qed
  moreover have "lock_word s = 0 \<longleftrightarrow> (\<forall>i < length (threads s). \<not> holding (pc (threads s ! i)))"
    using mutex_invD(1) [OF inv] cnt_zero_iff [of "\<lambda>t. holding (pc t)" "threads s"] by (auto simp: holders_def split: if_splits)
  ultimately show ?thesis using mutex_invD(2) [OF inv] done_counter [OF assms] by blast
qed

text \<open>Two threads, the first in its critical section, the second asleep.\<close>

definition contended :: mutex_state where
  "contended = \<lparr>lock_word = 2, counter = 0, threads = [\<lparr>pc = Crit, left = 1\<rparr>, \<lparr>pc = Asleep, left = 1\<rparr>]\<rparr>"

lemma reach_contended: "mutex_reach 2 1 contended"
proof -
  let ?s = "\<lambda>w p q. \<lparr>lock_word = w, counter = 0, threads = [\<lparr>pc = p, left = 1\<rparr>, \<lparr>pc = q, left = 1\<rparr>]\<rparr>"
  have "mutex_reach 2 1 (?s 0 Start Start)"
    using mutex_reach.start [of 2 1] by (simp add: mutex_start_def numeral_2_eq_2)
  then have "mutex_reach 2 1 (?s 1 Crit Start)"
    by (rule mutex_reach.step [OF _ mutex_step.call [OF thread_step.lock [of 0]]]) (simp_all add: my_lock_def goto_def)
  then have "mutex_reach 2 1 (?s 1 Crit Slow)"
    by (rule mutex_reach.step [OF _ mutex_step.call [OF thread_step.lock [of 1]]]) (simp_all add: my_lock_def goto_def)
  then have "mutex_reach 2 1 (?s 2 Crit Wait)"
    by (rule mutex_reach.step [OF _ mutex_step.call [OF thread_step.lock [of 1]]]) (simp_all add: my_lock_def goto_def)
  then have "mutex_reach 2 1 (?s 2 Crit Asleep)"
    by (rule mutex_reach.step [OF _ mutex_step.call [OF thread_step.lock [of 1]]]) (simp_all add: my_lock_def goto_def)
  then show ?thesis by (simp add: contended_def)
qed

theorem mutex_exclusion_witness:
  "lock_word contended \<noteq> 0 \<and> counter contended + int (todo contended) = 2"
  using mutex_exclusion [OF reach_contended]
  by (simp add: contended_def todo_def counted_def)

text \<open>
  C3: No wake-up is lost: a sleeping thread is always owed a wake-up (the word is 2, or a thread is
  about to set it to 2, or a thread is about to wake a sleeper).  From every reachable state, sleeps interrupted by signals included,
  the threads' own steps alone, in which a sleeper returns only when another thread's \<open>FUTEX_WAKE\<close> picks it, can bring all
  threads to the end of all their iterations, with the counter at \<open>n * k\<close>: there is no deadlock.  The final count has to fit in
  the counter, a \<open>long long\<close>.
\<close>

theorem mutex_no_lost_wakeup:
  assumes "mutex_reach n k s" and "int (n * k) < 2 ^ 63"
  shows "(at_pc s Asleep \<longrightarrow> lock_word s = 2 \<or> at_pc s Slow \<or> at_pc s Wake)
    \<and> (\<exists>s'. thread_steps s s' \<and> all_done s' \<and> counter s' = int (n * k))"
proof -
  note inv = mutex_inv_reach [OF assms(1)]
  obtain s' where s': "thread_steps s s'" "todo s' = 0" using all_finish [OF inv assms(2)] by blast
  then have "all_done s'" using todo_zero_done mutex_inv_steps inv by blast
  then have "counter s' = int (n * k)" using done_counter mutex_reach_steps [OF s'(1) assms(1)] by blast
  then show ?thesis using s' \<open>all_done s'\<close> mutex_invD(5) [OF inv] by blast
qed

theorem mutex_no_lost_wakeup_witness:
  "at_pc contended Asleep \<and> (\<exists>s'. thread_steps contended s' \<and> all_done s' \<and> counter s' = 2)"
  using mutex_no_lost_wakeup [OF reach_contended] by (auto simp: contended_def at_pc_def)

text \<open>
  For the arguments \<open>main\<close> accepts with its own lock, and a product that fits in \<open>long long\<close>, the final assertion is
  evaluated and holds exactly when the number of repetitions is positive: a negative number passes the checks, no thread
  iterates, and the assertion compares 0 with a negative product.
\<close>

theorem mutex_main_assertion:
  assumes "main_config argc lock num iter resources = Some (Worker, n, k)"
    and "mutex_reach n k s" and "all_done s"
    and fits: "- (2 ^ 63) \<le> iter * num" "iter * num < 2 ^ 63"
  shows "main_assert iter num (counter s) = Some (0 < iter)"
proof -
  have a: "0 < num" "iter \<noteq> 0" "n = nat num" "k = nat iter"
    using assms(1) by (auto simp: main_config_def split: if_splits Option.bind_splits)
  have "counter s = int (n * k)" by (rule done_counter [OF assms(2,3)])
  then have c: "counter s = num * int (nat iter)" using a by simp
  have "counter s = iter * num \<longleftrightarrow> 0 < iter"
  proof (cases "0 < iter")
    case True
    with c show ?thesis by (simp add: mult.commute)
  next
    case False
    with a have "iter * num < 0" by (simp add: mult_less_0_iff)
    with c False show ?thesis by auto
  qed
  then show ?thesis using fits by (simp add: main_assert_def)
qed

theorem mutex_main_assertion_witness:
  "main_config 4 ''mine'' 2 (- 5) True = Some (Worker, 2, 0)
   \<and> main_assert (- 5) 2 (counter (mutex_start 2 0)) = Some False"
proof -
  have c: "main_config 4 ''mine'' 2 (- 5) True = Some (Worker, 2, 0)" by (simp add: main_config_def)
  have "all_done (mutex_start 2 0)" by (simp add: all_done_def mutex_start_def)
  from mutex_main_assertion [OF c mutex_reach.start this] c show ?thesis by simp
qed

end
