(* ===== verification/Thread_Pool.thy ===== *)
theory Thread_Pool
  imports CPrelude
begin

text \<open>
  Threads that share one object and otherwise only have their own local state: what the counter
  programs under \<open>concurrency/\<close> have in common.  A thread is a relation \<open>T\<close> between pairs of the shared and
  its local state; a pool interleaves any number of copies of it.

  Two contracts collect what the programs rely on.  \<open>accumulator\<close>: the shared value moves by what the
  stepping thread accounts for, so nothing is lost.  \<open>finishing\<close>: a thread that runs alone comes to its end
  from every state, so the pool can always finish.
\<close>

inductive pool_step :: "('s \<times> 'l \<Rightarrow> 's \<times> 'l \<Rightarrow> bool) \<Rightarrow> 's \<times> 'l list \<Rightarrow> 's \<times> 'l list \<Rightarrow> bool" for T where
  thread: "i < length ls \<Longrightarrow> T (s, ls ! i) (s', l') \<Longrightarrow> pool_step T (s, ls) (s', ls[i := l'])"

inductive pool_reach :: "('s \<times> 'l \<Rightarrow> 's \<times> 'l \<Rightarrow> bool) \<Rightarrow> 's \<times> 'l list \<Rightarrow> 's \<times> 'l list \<Rightarrow> bool" for T c0 where
  start: "pool_reach T c0 c0"
| step: "pool_reach T c0 c \<Longrightarrow> pool_step T c c' \<Longrightarrow> pool_reach T c0 c'"

inductive_cases pool_stepE: "pool_step T c c'"

lemma pool_reach_length: "pool_reach T c0 c \<Longrightarrow> length (snd c) = length (snd c0)"
  by (induction rule: pool_reach.induct) (auto elim: pool_stepE)

lemma pool_reach_steps: "(pool_step T)\<^sup>*\<^sup>* c c' \<Longrightarrow> pool_reach T c0 c \<Longrightarrow> pool_reach T c0 c'"
  by (induction rule: rtranclp_induct) (auto intro: pool_reach.step)

text \<open>An invariant of the shared state and of every thread, kept by each step for all of them.\<close>

lemma pool_invariant:
  assumes "pool_reach T c0 c" and "I (fst c0)" and "\<forall>l \<in> set (snd c0). J (fst c0) l"
    and "\<And>s l s' l'. I s \<Longrightarrow> J s l \<Longrightarrow> T (s, l) (s', l') \<Longrightarrow> I s' \<and> J s' l' \<and> (\<forall>m. J s m \<longrightarrow> J s' m)"
  shows "I (fst c) \<and> (\<forall>l \<in> set (snd c). J (fst c) l)"
  using assms(1)
proof (induction rule: pool_reach.induct)
  case start
  then show ?case using assms(2,3) by simp
next
  case (step c c')
  from step.hyps(2) obtain i s ls s' l' where c: "c = (s, ls)" "c' = (s', ls[i := l'])"
    and i: "i < length ls" "T (s, ls ! i) (s', l')" by (auto elim: pool_stepE)
  have IJ: "I s" "\<forall>l \<in> set ls. J s l" using step.IH c by simp_all
  then have "J s (ls ! i)" using i(1) by simp
  note new = assms(4) [OF IJ(1) this i(2)]
  have "J s' l" if "l \<in> set (ls[i := l'])" for l
  proof -
    have "l = l' \<or> l \<in> set ls" using that set_update_subset_insert [of ls i l'] by blast
    with new IJ(2) show ?thesis by blast
  qed
  with new c show ?case by simp
qed

text \<open>The same with an invariant that knows the thread's number: a step keeps it for all \<^emph>\<open>other\<close> threads.\<close>

lemma pool_invariant_idx:
  assumes "pool_reach T c0 c" and "I (fst c0)" and "\<And>i. i < length (snd c0) \<Longrightarrow> J i (fst c0) (snd c0 ! i)"
    and "\<And>i s l s' l'. I s \<Longrightarrow> J i s l \<Longrightarrow> T (s, l) (s', l') \<Longrightarrow>
      I s' \<and> J i s' l' \<and> (\<forall>j m. j \<noteq> i \<longrightarrow> J j s m \<longrightarrow> J j s' m)"
  shows "I (fst c) \<and> (\<forall>i < length (snd c). J i (fst c) (snd c ! i))"
  using assms(1)
proof (induction rule: pool_reach.induct)
  case start
  then show ?case using assms(2,3) by simp
next
  case (step c c')
  from step.hyps(2) obtain i s ls s' l' where c: "c = (s, ls)" "c' = (s', ls[i := l'])"
    and i: "i < length ls" "T (s, ls ! i) (s', l')" by (auto elim: pool_stepE)
  have "I s" "J i s (ls ! i)" using step.IH c i(1) by simp_all
  from assms(4) [OF this i(2)] have new: "I s'" "J i s' l'" "\<And>j m. j \<noteq> i \<Longrightarrow> J j s m \<Longrightarrow> J j s' m" by blast+
  have "J j s' (ls[i := l'] ! j)" if "j < length ls" for j
    using that new(2,3) step.IH c by (cases "j = i") auto
  with new(1) c show ?case by simp
qed

text \<open>A single thread's run inside the pool.\<close>

lemma pool_run:
  assumes "T\<^sup>*\<^sup>* (s, ls ! i) (s', l')" and "i < length ls"
  shows "(pool_step T)\<^sup>*\<^sup>* (s, ls) (s', ls[i := l'])"
proof -
  have "(pool_step T)\<^sup>*\<^sup>* (s, ls) (fst x, ls[i := snd x])" if "T\<^sup>*\<^sup>* (s, ls ! i) x" for x
    using that
  proof (induction rule: rtranclp_induct)
    case base
    then show ?case by simp
  next
    case (step y z)
    have "pool_step T (fst y, ls[i := snd y]) (fst z, (ls[i := snd y])[i := snd z])"
      using step.hyps(2) assms(2) by (intro pool_step.thread) simp_all
    with step.IH show ?case by simp
  qed
  from this [OF assms(1)] show ?thesis by simp
qed

lemma sum_list_update_group:
  fixes xs :: "int list"
  shows "i < length xs \<Longrightarrow> sum_list (xs[i := x]) = sum_list xs + x - xs ! i"
proof (induction xs arbitrary: i)
  case (Cons y ys)
  then show ?case by (cases i) simp_all
qed simp

locale accumulator =
  fixes T :: "'s \<times> 'l \<Rightarrow> 's \<times> 'l \<Rightarrow> bool"
    and val :: "'s \<Rightarrow> int"
    and part :: "'l \<Rightarrow> int"
    and ok :: "'s \<Rightarrow> 'l \<Rightarrow> bool"
  assumes step_adds: "ok s l \<Longrightarrow> T (s, l) (s', l') \<Longrightarrow> val s' - val s = part l' - part l"
    and step_ok: "ok s l \<Longrightarrow> T (s, l) (s', l') \<Longrightarrow> ok s' l' \<and> (\<forall>m. ok s m \<longrightarrow> ok s' m)"
begin

lemma pool_ok:
  assumes "pool_reach T c0 c" and "\<forall>l \<in> set (snd c0). ok (fst c0) l"
  shows "\<forall>l \<in> set (snd c). ok (fst c) l"
  using pool_invariant [of T c0 c "\<lambda>_. True" ok] assms step_ok by blast

lemma nothing_lost:
  assumes "pool_reach T c0 c" and "\<forall>l \<in> set (snd c0). ok (fst c0) l"
  shows "val (fst c) - sum_list (map part (snd c)) = val (fst c0) - sum_list (map part (snd c0))"
  using assms(1)
proof (induction rule: pool_reach.induct)
  case (step c c')
  from step.hyps(2) obtain i s ls s' l' where c: "c = (s, ls)" "c' = (s', ls[i := l'])"
    and i: "i < length ls" "T (s, ls ! i) (s', l')" by (auto elim: pool_stepE)
  have "ok s (ls ! i)" using pool_ok [OF step.hyps(1) assms(2)] c i by simp
  from step_adds [OF this i(2)]
  have "val s' - val s = part l' - part (ls ! i)" .
  moreover have "sum_list (map part (ls[i := l'])) = sum_list (map part ls) + part l' - part (ls ! i)"
    using i(1) by (simp add: map_update sum_list_update_group)
  ultimately show ?case using step.IH c by simp
qed simp

end

locale finishing =
  fixes T :: "'s \<times> 'l \<Rightarrow> 's \<times> 'l \<Rightarrow> bool"
    and fin :: "'l \<Rightarrow> bool"
    and good :: "'s \<Rightarrow> bool"
  assumes runs: "good s \<Longrightarrow> \<exists>s' l'. T\<^sup>*\<^sup>* (s, l) (s', l') \<and> good s' \<and> fin l'"
begin

lemma pool_finishes:
  assumes "good (fst c)"
  shows "\<exists>c'. (pool_step T)\<^sup>*\<^sup>* c c' \<and> (\<forall>l \<in> set (snd c'). fin l)"
proof -
  have "\<exists>s' ls'. (pool_step T)\<^sup>*\<^sup>* (fst c, snd c) (s', ls') \<and> good s' \<and> length ls' = length (snd c)
      \<and> (\<forall>i < n. fin (ls' ! i))" if "n \<le> length (snd c)" for n
    using that
  proof (induction n)
    case 0
    then show ?case using assms by blast
  next
    case (Suc n)
    then obtain s' ls' where IH: "(pool_step T)\<^sup>*\<^sup>* (fst c, snd c) (s', ls')" "good s'"
      "length ls' = length (snd c)" "\<forall>i < n. fin (ls' ! i)" by auto
    obtain s'' l where run: "T\<^sup>*\<^sup>* (s', ls' ! n) (s'', l)" "good s''" "fin l" using runs [OF IH(2)] by blast
    have n: "n < length ls'" using Suc.prems IH(3) by simp
    have "(pool_step T)\<^sup>*\<^sup>* (fst c, snd c) (s'', ls'[n := l])"
      using IH(1) pool_run [OF run(1) n] by (rule rtranclp_trans)
    moreover have "\<forall>i < Suc n. fin (ls'[n := l] ! i)" using IH(4) run(3) n by (auto simp: less_Suc_eq)
    ultimately show ?case using run(2) IH(3) by (intro exI conjI) simp_all
  qed
  from this [of "length (snd c)"] show ?thesis
    by (metis all_set_conv_all_nth le_refl prod.collapse snd_conv)
qed

end

end
