(* ===== verification/System_Mutex.thy ===== *)
theory System_Mutex
  imports Thread_Pool
begin

text \<open>
  \<open>worker_lock\<close> of \<open>concurrency/01-mutex/mutex.c\<close>: the worker that protects the counter with a \<open>pthread\<close> mutex.  The mutex is the
  operating system's: what is used of it is that \<open>pthread_mutex_lock\<close> returns only when no thread holds it.  The
  increment is a read and a write.
\<close>

datatype lock_pc = Lock | Read | Store | Release

record lock_thread =
  left :: nat
  lpc :: lock_pc
  tmp :: int

record lock_state =
  c_lock :: bool
  cell :: int

inductive worker_lock :: "lock_state \<times> lock_thread \<Rightarrow> lock_state \<times> lock_thread \<Rightarrow> bool" where
  lock: "lpc l = Lock \<Longrightarrow> 0 < left l \<Longrightarrow> \<not> c_lock s \<Longrightarrow> worker_lock (s, l) (s\<lparr>c_lock := True\<rparr>, l\<lparr>lpc := Read\<rparr>)"
| read: "lpc l = Read \<Longrightarrow> worker_lock (s, l) (s, l\<lparr>tmp := cell s, lpc := Store\<rparr>)"
| store: "lpc l = Store \<Longrightarrow> to_i64 (tmp l + 1) = Some c \<Longrightarrow> worker_lock (s, l) (s\<lparr>cell := c\<rparr>, l\<lparr>lpc := Release\<rparr>)"
| release: "lpc l = Release \<Longrightarrow> worker_lock (s, l) (s\<lparr>c_lock := False\<rparr>, l\<lparr>left := left l - 1, lpc := Lock\<rparr>)"

inductive_cases worker_lockE: "worker_lock (s, l) (s', l')"

definition lock_start :: "nat \<Rightarrow> nat \<Rightarrow> lock_state \<times> lock_thread list" where
  "lock_start n k = (\<lparr>c_lock = False, cell = 0\<rparr>, replicate n \<lparr>left = k, lpc = Lock, tmp = 0\<rparr>)"

subsection \<open>The invariant\<close>

definition holding :: "lock_thread \<Rightarrow> bool" where
  "holding l \<longleftrightarrow> lpc l \<noteq> Lock"

text \<open>The increments a thread still owes.\<close>

definition owed :: "lock_thread \<Rightarrow> int" where
  "owed l = int (left l) - (if lpc l = Release then 1 else 0)"

definition lock_inv :: "int \<Rightarrow> lock_state \<times> lock_thread list \<Rightarrow> bool" where
  "lock_inv N c \<longleftrightarrow> cnt holding (snd c) = (if c_lock (fst c) then 1 else 0)
     \<and> (\<forall>l \<in> set (snd c). (lpc l = Store \<longrightarrow> tmp l = cell (fst c)) \<and> (holding l \<longrightarrow> 0 < left l))
     \<and> cell (fst c) + sum_list (map owed (snd c)) = N \<and> 0 \<le> cell (fst c)"

lemma sum_owed_update:
  "i < length ls \<Longrightarrow> sum_list (map owed (ls[i := l])) = sum_list (map owed ls) - owed (ls ! i) + owed l"
  using sum_list_update_group [of i "map owed ls" "owed l"] by (simp add: map_update)

lemma lock_inv_start: "lock_inv (int (n * k)) (lock_start n k)"
  by (simp add: lock_inv_def lock_start_def cnt_none_true holding_def owed_def sum_list_replicate)

lemma others_out:
  assumes "lock_inv N (s, ls)" and "i < length ls" and "holding (ls ! i)" and "j < length ls" and "j \<noteq> i"
  shows "\<not> holding (ls ! j)"
proof
  assume "holding (ls ! j)"
  moreover have "cnt holding ls \<le> 1" using assms(1) by (simp add: lock_inv_def)
  ultimately show False using cnt_one_unique [of holding ls i j] assms(2-5) by blast
qed

lemma lock_inv_step:
  assumes inv: "lock_inv N c" and "pool_step worker_lock c c'"
  shows "lock_inv N c'"
proof -
  obtain i s ls s' l' where c: "c = (s, ls)" "c' = (s', ls[i := l'])" and i: "i < length ls" and st: "worker_lock (s, ls ! i) (s', l')"
    using assms(2) by (auto elim: pool_stepE)
  have l: "ls ! i \<in> set ls" using i by simp
  have at_i: "lpc (ls ! i) = Store \<longrightarrow> tmp (ls ! i) = cell s" "holding (ls ! i) \<longrightarrow> 0 < left (ls ! i)"
    using inv l by (auto simp: lock_inv_def c)
  have others: "lpc (ls ! j) \<noteq> Store" if "holding (ls ! i)" "j < length ls" "j \<noteq> i" for j
    using others_out [OF inv [unfolded c(1)] i that] by (simp add: holding_def)
  have each: "(lpc m = Store \<longrightarrow> tmp m = cell s') \<and> (holding m \<longrightarrow> 0 < left m)" if m: "m \<in> set (ls[i := l'])" for m
  proof -
    obtain j where j: "j < length ls" "m = ls[i := l'] ! j" using m by (auto simp: in_set_conv_nth)
    show ?thesis
    proof (cases "j = i")
      case True
      then show ?thesis using st at_i j i by (auto elim!: worker_lockE simp: holding_def)
    next
      case False
      then have mj: "m = ls ! j" "m \<in> set ls" using j by simp_all
      then have "(lpc m = Store \<longrightarrow> tmp m = cell s) \<and> (holding m \<longrightarrow> 0 < left m)" using inv by (simp add: lock_inv_def c)
      then show ?thesis using st others [OF _ j(1) False] mj(1) by (auto elim!: worker_lockE simp: holding_def)
    qed
  qed
  have "cnt holding (ls[i := l']) = (if c_lock s' then 1 else 0)"
    using st cnt_update [OF i, of holding l'] inv by (auto elim!: worker_lockE simp: holding_def lock_inv_def c split: if_splits)
  moreover have "cell s' + sum_list (map owed (ls[i := l'])) = N"
    using st sum_owed_update [OF i, of l'] inv at_i
    by (auto elim!: worker_lockE simp: owed_def lock_inv_def c holding_def to_i64_eq_Some_iff)
  moreover have "0 \<le> cell s'"
    using st inv at_i by (auto elim!: worker_lockE simp: lock_inv_def c to_i64_eq_Some_iff)
  ultimately show ?thesis using each by (simp add: lock_inv_def c)
qed

lemma lock_inv_reach: "pool_reach worker_lock (lock_start n k) c \<Longrightarrow> lock_inv (int (n * k)) c"
  by (induction rule: pool_reach.induct) (rule lock_inv_start, rule lock_inv_step)

subsection \<open>Properties\<close>

text \<open>
  With the system mutex at most one thread is between lock and unlock, and when all threads are done the counter is
  the number of threads times the number of iterations.
\<close>

theorem system_mutex_exact:
  assumes "pool_reach worker_lock (lock_start n k) (s, ls)"
  shows "cnt holding ls \<le> 1 \<and> ((\<forall>l \<in> set ls. left l = 0) \<longrightarrow> cell s = int (n * k))"
proof -
  have inv: "lock_inv (int (n * k)) (s, ls)" by (rule lock_inv_reach [OF assms])
  have "cell s = int (n * k)" if fin: "\<forall>l \<in> set ls. left l = 0"
  proof -
    have "map owed ls = map (\<lambda>l. 0) ls" using inv fin by (intro map_cong) (auto simp: lock_inv_def holding_def owed_def)
    then have "sum_list (map owed ls) = 0" by (simp only: sum_list_0)
    then show ?thesis using inv by (simp add: lock_inv_def)
  qed
  then show ?thesis using inv by (auto simp: lock_inv_def)
qed

text \<open>No state is stuck: while some thread has iterations left some thread can step, and every step brings the end nearer.\<close>

fun pc_rank :: "lock_pc \<Rightarrow> nat" where
  "pc_rank Lock = 0"
| "pc_rank Read = 1"
| "pc_rank Store = 2"
| "pc_rank Release = 3"

definition steps_left :: "lock_thread \<Rightarrow> nat" where
  "steps_left l = 4 * left l - pc_rank (lpc l)"

lemma store_fits:
  assumes inv: "lock_inv N (s, ls)" and l: "l \<in> set ls" "lpc l = Store" and N: "N < 2 ^ 63"
  shows "to_i64 (tmp l + 1) = Some (tmp l + 1)"
proof -
  have nonneg: "0 \<le> owed m" if "m \<in> set ls" for m
    using inv that by (auto simp: lock_inv_def owed_def holding_def)
  have l_inv: "tmp l = cell s" "0 < left l" "0 \<le> cell s" using inv l by (auto simp: lock_inv_def holding_def)
  have "owed l \<le> sum_list (map owed ls)" using l(1) nonneg by (intro member_le_sum_list) auto
  moreover have "1 \<le> owed l" using l(2) l_inv(2) by (simp add: owed_def)
  moreover have "cell s + sum_list (map owed ls) = N" using inv by (simp add: lock_inv_def)
  ultimately show ?thesis using N l_inv by simp
qed

theorem system_mutex_progress:
  assumes "pool_reach worker_lock (lock_start n k) (s, ls)" and "l \<in> set ls" and "0 < left l"
    and fits: "int (n * k) < 2 ^ 63"
  shows "\<exists>c'. pool_step worker_lock (s, ls) c'"
proof -
  have inv: "lock_inv (int (n * k)) (s, ls)" by (rule lock_inv_reach [OF assms(1)])
  have "\<exists>i < length ls. \<exists>c'. worker_lock (s, ls ! i) c'"
  proof (cases "c_lock s")
    case True
    then have "0 < cnt holding ls" using inv by (simp add: lock_inv_def)
    then obtain i where i: "i < length ls" "holding (ls ! i)" by (auto simp: cnt_pos_iff)
    then have "\<exists>c'. worker_lock (s, ls ! i) c'"
      using store_fits [OF inv _ _ fits, of "ls ! i"]
      by (cases "lpc (ls ! i)") (auto simp: holding_def intro: worker_lock.intros)
    then show ?thesis using i by blast
  next
    case False
    then have "cnt holding ls = 0" using inv by (simp add: lock_inv_def)
    moreover obtain i where i: "i < length ls" "ls ! i = l" using assms(2) by (auto simp: in_set_conv_nth)
    ultimately have "lpc (ls ! i) = Lock" by (auto simp: cnt_zero_iff holding_def)
    then show ?thesis using i assms(3) False worker_lock.lock [of "ls ! i" s] by blast
  qed
  then show ?thesis by (metis pool_step.thread surj_pair)
qed

lemma worker_lock_decreases: "worker_lock (s, l) (s', l') \<Longrightarrow> holding l \<longrightarrow> 0 < left l \<Longrightarrow> steps_left l' < steps_left l"
  by (erule worker_lockE) (auto simp: steps_left_def holding_def)

end
