(* ===== verification/Cas.thy ===== *)
theory Cas
  imports Thread_Pool
begin

text \<open>
  \<open>concurrency/04-cas/cas.c\<close>: \<open>my_add\<close> and \<open>my_max\<close> as retry loops around a weak compare-and-exchange, the
  workers that call them, and \<open>run_threads\<close>.

  The atomic variable is the list of values it has had, newest last.  An atomic load may return any of them
  (an acquire load can be stale); a read-modify-write acts on the newest.  The weak compare-and-exchange may
  fail although the value is the expected one; on failure it reports the newest value.  Each load and each
  compare-and-exchange is one step.  The offers to \<open>my_max\<close> are computed in \<open>long\<close>, and a thread whose offer overflows has no step; the counts of
  calls and retries are not bounded.
\<close>

type_synonym cell = "int list"

definition compare_exchange_weak :: "bool \<Rightarrow> cell \<Rightarrow> int \<Rightarrow> int \<Rightarrow> bool \<times> int \<times> cell" where
  "compare_exchange_weak spurious p expected desired =
     (if \<not> spurious \<and> last p = expected then (True, expected, p @ [desired]) else (False, last p, p))"

datatype cas_pc = Top | Try int int

record cas_thread =
  it :: nat
  cas_pc :: cas_pc
  retries :: int
  tid :: nat

definition next_call :: "cas_thread \<Rightarrow> cas_thread" where
  "next_call l = l\<lparr>it := it l + 1, cas_pc := Top\<rparr>"

text \<open>\<open>my_add\<close>, called with 1 by \<open>worker_my_add\<close>.\<close>

inductive my_add_step :: "nat \<Rightarrow> cell \<times> cas_thread \<Rightarrow> cell \<times> cas_thread \<Rightarrow> bool" for iter where
  load: "it l < iter \<Longrightarrow> cas_pc l = Top \<Longrightarrow> x \<in> set p \<Longrightarrow>
    my_add_step iter (p, l) (p, l\<lparr>cas_pc := Try x (x + 1)\<rparr>)"
| success: "cas_pc l = Try x a \<Longrightarrow> compare_exchange_weak spurious p x a = (True, y, p') \<Longrightarrow>
    my_add_step iter (p, l) (p', next_call l)"
| retry: "cas_pc l = Try x a \<Longrightarrow> compare_exchange_weak spurious p x a = (False, y, p') \<Longrightarrow>
    my_add_step iter (p, l) (p', l\<lparr>cas_pc := Try y (y + 1), retries := retries l + 1\<rparr>)"

text \<open>\<open>my_max\<close>, called with \<open>i * num_thread + id\<close> by \<open>worker_my_max\<close>.\<close>

definition offer :: "nat \<Rightarrow> cas_thread \<Rightarrow> int option" where
  "offer num_thread l = do { m \<leftarrow> to_i64 (int (it l) * int num_thread); to_i64 (m + int (tid l)) }"

definition max_test :: "int \<Rightarrow> int \<Rightarrow> cas_thread \<Rightarrow> cas_thread" where
  "max_test v snapshot l = (if v > snapshot then l\<lparr>cas_pc := Try snapshot v\<rparr> else next_call l)"

inductive my_max_step :: "nat \<Rightarrow> nat \<Rightarrow> cell \<times> cas_thread \<Rightarrow> cell \<times> cas_thread \<Rightarrow> bool" for num_thread iter where
  load: "it l < iter \<Longrightarrow> cas_pc l = Top \<Longrightarrow> offer num_thread l = Some v \<Longrightarrow> x \<in> set p \<Longrightarrow>
    my_max_step num_thread iter (p, l) (p, max_test v x l)"
| success: "cas_pc l = Try x v \<Longrightarrow> compare_exchange_weak spurious p x v = (True, y, p') \<Longrightarrow>
    my_max_step num_thread iter (p, l) (p', next_call l)"
| retry: "cas_pc l = Try x v \<Longrightarrow> compare_exchange_weak spurious p x v = (False, y, p') \<Longrightarrow>
    my_max_step num_thread iter (p, l) (p', max_test v y (l\<lparr>retries := retries l + 1\<rparr>))"

text \<open>\<open>worker_generinc\<close>: an atomic fetch-and-add.\<close>

inductive fetch_add_step :: "nat \<Rightarrow> cell \<times> cas_thread \<Rightarrow> cell \<times> cas_thread \<Rightarrow> bool" for iter where
  add: "it l < iter \<Longrightarrow> cas_pc l = Top \<Longrightarrow> fetch_add_step iter (p, l) (p @ [last p + 1], next_call l)"

text \<open>The threads as \<open>main\<close> sets them up for each of the three runs, with the counter at 0.\<close>

definition cas_start :: "nat \<Rightarrow> cell \<times> cas_thread list" where
  "cas_start num_thread = ([0], map (\<lambda>i. \<lparr>it = 0, cas_pc = Top, retries = 0, tid = i\<rparr>) [0..<num_thread])"

definition finished :: "nat \<Rightarrow> cas_thread \<Rightarrow> bool" where
  "finished iter l \<longleftrightarrow> it l = iter \<and> cas_pc l = Top"

text \<open>
  \<open>run_threads\<close>: \<open>creates\<close> and \<open>joins\<close> tell which \<open>pthread_create\<close> and \<open>pthread_join\<close> succeed, \<open>rs\<close> are the
  retries the threads report.  The result is the return value, and how many threads were started and joined.
\<close>

fun create_from :: "nat \<Rightarrow> bool list \<Rightarrow> bool \<times> nat" where
  "create_from started [] = (True, started)"
| "create_from started (ok # oks) = (if ok then create_from (started + 1) oks else (False, started))"

fun join_from :: "int \<Rightarrow> nat \<Rightarrow> (bool \<times> int) list \<Rightarrow> int \<times> nat" where
  "join_from total_retries joined [] = (total_retries, joined)"
| "join_from total_retries joined ((ok, r) # rs) =
     (if ok then join_from (total_retries + r) (joined + 1) rs else (- 1, joined))"

definition run_threads :: "bool list \<Rightarrow> bool list \<Rightarrow> int list \<Rightarrow> int \<times> nat \<times> nat" where
  "run_threads creates joins rs =
     (case create_from 0 creates of
        (False, started) \<Rightarrow> (- 1, started, 0)
      | (True, started) \<Rightarrow> (case join_from 0 0 (zip joins rs) of (r, joined) \<Rightarrow> (r, started, joined)))"

text \<open>
  The checks of \<open>main\<close> on its arguments and allocations (\<open>None\<close>: an exit with status 1), and its three assertions on the counter
  after the run of each worker; the product is computed in \<open>long\<close>.
\<close>

definition cas_main_config :: "int \<Rightarrow> int \<Rightarrow> int \<Rightarrow> bool \<Rightarrow> bool \<Rightarrow> (nat \<times> nat) option" where
  "cas_main_config argc num_thread iter thds_ok args_ok =
     (if argc \<noteq> 3 then None
      else if num_thread \<le> 0 then None
      else if \<not> thds_ok then None
      else if iter \<le> 0 then None
      else if \<not> args_ok then None
      else Some (nat num_thread, nat iter))"

definition cas_main_asserts :: "int \<Rightarrow> int \<Rightarrow> int \<Rightarrow> int \<Rightarrow> int \<Rightarrow> unit option" where
  "cas_main_asserts num_thread iter generic added maxed = do {
     all \<leftarrow> to_i64 (iter * num_thread);
     c_assert (generic = all);
     c_assert (added = all);
     c_assert (maxed = all - 1)
   }"

subsection \<open>Additions\<close>

lemma compare_exchange_weak_iff [simp]:
  "compare_exchange_weak spurious p x a = (True, y, p') \<longleftrightarrow> \<not> spurious \<and> last p = x \<and> y = x \<and> p' = p @ [a]"
  "compare_exchange_weak spurious p x a = (False, y, p') \<longleftrightarrow> (spurious \<or> last p \<noteq> x) \<and> y = last p \<and> p' = p"
  by (auto simp: compare_exchange_weak_def)

lemma next_call_simps [simp]:
  "it (next_call l) = it l + 1" "cas_pc (next_call l) = Top" "tid (next_call l) = tid l"
  by (simp_all add: next_call_def)

inductive_cases my_add_stepE: "my_add_step iter (p, l) (p', l')"
inductive_cases fetch_add_stepE: "fetch_add_step iter (p, l) (p', l')"
inductive_cases my_max_stepE: "my_max_step num_thread iter (p, l) (p', l')"

text \<open>The cell has had the values \<open>0, 1, 2, \<dots>\<close>, each once and in this order.\<close>

definition counts :: "cell \<Rightarrow> bool" where
  "counts p \<longleftrightarrow> p \<noteq> [] \<and> p = map int [0..<length p]"

lemma counts_start: "counts [0]"
  by (simp add: counts_def)

lemma counts_last: "counts p \<Longrightarrow> last p = int (length p) - 1"
proof -
  assume c: "counts p"
  then have "0 < length p" and p: "p = map int [0..<length p]" by (auto simp: counts_def)
  then have "last p = p ! (length p - 1)" by (simp add: last_conv_nth)
  also have "\<dots> = int (length p - 1)" by (subst p) (use \<open>0 < length p\<close> in simp)
  finally show ?thesis using \<open>0 < length p\<close> by simp
qed

lemma counts_snoc:
  assumes "counts p"
  shows "counts (p @ [last p + 1])"
proof -
  have "last p + 1 = int (length p)" using counts_last [OF assms] by simp
  with assms show ?thesis by (simp add: counts_def)
qed

definition add_ok :: "nat \<Rightarrow> cell \<Rightarrow> cas_thread \<Rightarrow> bool" where
  "add_ok iter p l \<longleftrightarrow> counts p \<and> it l \<le> iter
     \<and> (\<forall>x a. cas_pc l = Try x a \<longrightarrow> a = x + 1 \<and> x \<in> set p \<and> it l < iter)"

lemma add_ok_grow: "add_ok iter p m \<Longrightarrow> counts (p @ [v]) \<Longrightarrow> add_ok iter (p @ [v]) m"
  by (auto simp: add_ok_def)

lemma my_add_step_cases:
  assumes "my_add_step iter (p, l) (p', l')"
  obtains (load) x where "it l < iter" "cas_pc l = Top" "x \<in> set p" "p' = p" "l' = l\<lparr>cas_pc := Try x (x + 1)\<rparr>"
  | (success) a where "cas_pc l = Try (last p) a" "p' = p @ [a]" "l' = next_call l"
  | (retry) x a where "cas_pc l = Try x a" "p' = p" "l' = l\<lparr>cas_pc := Try (last p) (last p + 1), retries := retries l + 1\<rparr>"
  using assms by (cases rule: my_add_stepE) auto

interpretation add_pool: accumulator "my_add_step iter" last "\<lambda>l. int (it l)" "add_ok iter" for iter
proof
  fix p l p' l'
  assume ok: "add_ok iter p l" and st: "my_add_step iter (p, l) (p', l')"
  have ne: "p \<noteq> []" "last p \<in> set p" using ok by (auto simp: add_ok_def counts_def)
  show "last p' - last p = int (it l') - int (it l)"
    using st ok by (cases rule: my_add_step_cases) (auto simp: add_ok_def)
  show "add_ok iter p' l' \<and> (\<forall>m. add_ok iter p m \<longrightarrow> add_ok iter p' m)"
    using st
  proof (cases rule: my_add_step_cases)
    case (success a)
    then have "a = last p + 1" using ok by (auto simp: add_ok_def)
    with success ok have "counts (p @ [a])" using counts_snoc [of p] by (auto simp: add_ok_def)
    with success ok show ?thesis using add_ok_grow [of iter p _ a] by (auto simp: add_ok_def)
  qed (use ok ne in \<open>auto simp: add_ok_def\<close>)
qed

interpretation fetch_add_pool: accumulator "fetch_add_step iter" last "\<lambda>l. int (it l)" "add_ok iter" for iter
proof
  fix p l p' l'
  assume ok: "add_ok iter p l" and st: "fetch_add_step iter (p, l) (p', l')"
  have s: "it l < iter" "p' = p @ [last p + 1]" "l' = next_call l" using st by (auto elim: fetch_add_stepE)
  then show "last p' - last p = int (it l') - int (it l)" by simp
  have "counts p'" using ok counts_snoc [of p] s by (auto simp: add_ok_def)
  then show "add_ok iter p' l' \<and> (\<forall>m. add_ok iter p m \<longrightarrow> add_ok iter p' m)"
    using s ok add_ok_grow [of iter p _ "last p + 1"] by (auto simp: add_ok_def)
qed

text \<open>A thread alone: the next compare-and-exchange with a fresh snapshot succeeds.\<close>

lemma add_try_succeeds:
  "cas_pc m = Try (last p) a \<Longrightarrow> my_add_step iter (p, m) (p @ [a], next_call m)"
  by (rule my_add_step.success [of m "last p" a False]) simp_all

lemma add_call_runs:
  assumes "p \<noteq> []" and "it l < iter \<or> cas_pc l \<noteq> Top"
  shows "\<exists>p' l'. (my_add_step iter)\<^sup>*\<^sup>* (p, l) (p', l') \<and> p' \<noteq> [] \<and> cas_pc l' = Top \<and> it l' = it l + 1"
proof -
  obtain m where m: "my_add_step iter (p, l) (p, m)" "cas_pc m = Try (last p) (last p + 1)" "it m = it l"
  proof (cases "cas_pc l")
    case Top
    then have "my_add_step iter (p, l) (p, l\<lparr>cas_pc := Try (last p) (last p + 1)\<rparr>)"
      using assms by (intro my_add_step.load) auto
    then show ?thesis using that by simp
  next
    case (Try x a)
    then have "my_add_step iter (p, l) (p, l\<lparr>cas_pc := Try (last p) (last p + 1), retries := retries l + 1\<rparr>)"
      by (intro my_add_step.retry [of l x a True]) simp_all
    then show ?thesis using that by simp
  qed
  have "(my_add_step iter)\<^sup>*\<^sup>* (p, l) (p @ [last p + 1], next_call m)"
    using m(1) add_try_succeeds [OF m(2)] by (meson converse_rtranclp_into_rtranclp r_into_rtranclp)
  then show ?thesis using m(3) by (intro exI conjI) (assumption, simp_all)
qed

text \<open>A thread whose calls each return alone finishes its loop alone.\<close>

lemma calls_finish:
  fixes T :: "cell \<times> cas_thread \<Rightarrow> cell \<times> cas_thread \<Rightarrow> bool"
  assumes call: "\<And>p l. p \<noteq> [] \<Longrightarrow> goes l \<or> cas_pc l \<noteq> Top \<Longrightarrow>
      \<exists>p' l'. T\<^sup>*\<^sup>* (p, l) (p', l') \<and> p' \<noteq> [] \<and> cas_pc l' = Top \<and> it l' = it l + 1"
    and goes: "\<And>l. goes l \<Longrightarrow> it l < iter"
    and "p \<noteq> []"
  shows "\<exists>p' l'. T\<^sup>*\<^sup>* (p, l) (p', l') \<and> p' \<noteq> [] \<and> cas_pc l' = Top \<and> \<not> goes l'"
  using assms(3)
proof (induction "iter - it l + (if cas_pc l = Top then 0 else 1)" arbitrary: p l rule: less_induct)
  case less
  show ?case
  proof (cases "goes l \<or> cas_pc l \<noteq> Top")
    case True
    then obtain p1 l1 where c: "T\<^sup>*\<^sup>* (p, l) (p1, l1)" "p1 \<noteq> []" "cas_pc l1 = Top" "it l1 = it l + 1"
      using call [OF less.prems] by blast
    have "iter - it l1 + (if cas_pc l1 = Top then 0 else 1) < iter - it l + (if cas_pc l = Top then 0 else 1)"
      using c(3,4) True goes [of l] by auto
    from less.hyps [OF this c(2)] c(1) show ?thesis by (meson rtranclp_trans)
  next
    case False
    then show ?thesis using less.prems by (intro exI [of _ p] exI [of _ l]) auto
  qed
qed

interpretation add_live: finishing "my_add_step iter" "\<lambda>l. cas_pc l = Top \<and> \<not> it l < iter" "\<lambda>p. p \<noteq> []" for iter
  using calls_finish [of "\<lambda>l. it l < iter" "my_add_step iter" iter] add_call_runs [of _ _ iter] by unfold_locales blast

subsection \<open>Maxima\<close>

lemma max_test_simps:
  "tid (max_test v x l) = tid l"
  by (simp add: max_test_def)

lemma my_max_step_cases:
  assumes "my_max_step n iter (p, l) (p', l')"
  obtains (load) x v where "it l < iter" "cas_pc l = Top" "offer n l = Some v" "x \<in> set p" "p' = p" "l' = max_test v x l"
  | (success) v where "cas_pc l = Try (last p) v" "p' = p @ [v]" "l' = next_call l"
  | (retry) x v where "cas_pc l = Try x v" "p' = p" "l' = max_test v (last p) (l\<lparr>retries := retries l + 1\<rparr>)"
  using assms by (cases rule: my_max_stepE) auto

text \<open>The cell only grows and stays below the number of offers.\<close>

definition max_cell :: "nat \<Rightarrow> cell \<Rightarrow> bool" where
  "max_cell m p \<longleftrightarrow> p \<noteq> [] \<and> sorted p \<and> (\<forall>x \<in> set p. 0 \<le> x \<and> x < int m)"

definition max_ok :: "nat \<Rightarrow> nat \<Rightarrow> cell \<Rightarrow> cas_thread \<Rightarrow> bool" where
  "max_ok n iter p l \<longleftrightarrow> tid l < n \<and> it l \<le> iter
     \<and> (\<forall>j < it l. int (j * n + tid l) \<le> last p)
     \<and> (\<forall>x v. cas_pc l = Try x v \<longrightarrow> v = int (it l * n + tid l) \<and> x < v \<and> it l < iter)"

lemma sorted_le_last: "sorted p \<Longrightarrow> x \<in> set p \<Longrightarrow> x \<le> last (p :: int list)"
  by (induction p) (auto split: if_splits)

lemma offer_value: "offer n l = Some v \<Longrightarrow> v = int (it l * n + tid l)"
  by (auto simp: offer_def to_i64_def split: if_splits)

lemma offer_bound:
  assumes "tid l < n" and "it l < iter"
  shows "it l * n + tid l < n * iter"
proof -
  have "it l * n + tid l < (it l + 1) * n" using assms(1) by simp
  also have "\<dots> \<le> iter * n" using assms(2) by (intro mult_right_mono) simp_all
  finally show ?thesis by (simp add: mult.commute)
qed

lemma offer_fits:
  assumes "tid l < n" and "it l < iter" and "int (n * iter) < 2 ^ 63"
  shows "offer n l = Some (int (it l * n + tid l))"
proof -
  have up: "int (it l) * int n + int (tid l) < 2 ^ 63" using offer_bound [OF assms(1,2)] assms(3) by (simp flip: of_nat_mult of_nat_add)
  have low: "0 \<le> int (it l) * int n" by simp
  have "to_i64 (int (it l) * int n) = Some (int (it l) * int n)"
    "to_i64 (int (it l) * int n + int (tid l)) = Some (int (it l) * int n + int (tid l))"
    using up low by (intro to_i64_Some; linarith)+
  then show ?thesis by (simp add: offer_def)
qed

lemma max_ok_mono: "max_ok n iter p m \<Longrightarrow> last p \<le> last p' \<Longrightarrow> max_ok n iter p' m"
  by (fastforce simp: max_ok_def)

lemma max_ok_next:
  assumes "max_ok n iter p l" and "it l < iter" and "int (it l * n + tid l) \<le> last p"
  shows "max_ok n iter p (next_call l)"
  using assms by (auto simp: max_ok_def less_Suc_eq)

lemma max_ok_test:
  assumes "max_ok n iter p l" and "it l < iter" and "v = int (it l * n + tid l)" and "x \<le> last p"
  shows "max_ok n iter p (max_test v x l)"
proof (cases "v > x")
  case True
  then show ?thesis using assms by (auto simp: max_test_def max_ok_def)
next
  case False
  then show ?thesis using max_ok_next [OF assms(1,2)] assms(3,4) by (simp add: max_test_def)
qed

lemma max_step_ok:
  assumes cell: "max_cell (n * iter) p" and ok: "max_ok n iter p l" and st: "my_max_step n iter (p, l) (p', l')"
  shows "max_cell (n * iter) p' \<and> max_ok n iter p' l' \<and> (\<forall>m. max_ok n iter p m \<longrightarrow> max_ok n iter p' m)"
  using st
proof (cases rule: my_max_step_cases)
  case (load x v)
  have "x \<le> last p" using cell load(4) by (auto simp: max_cell_def intro: sorted_le_last)
  then show ?thesis using load cell max_ok_test [OF ok load(1) offer_value [OF load(3)]] by simp
next
  case (success v)
  then have v: "v = int (it l * n + tid l)" "last p < v" "it l < iter" "tid l < n" using ok by (auto simp: max_ok_def)
  have "0 \<le> v" "v < int (n * iter)" using v(1) offer_bound [OF v(4,3)] by linarith+
  then have "max_cell (n * iter) (p @ [v])"
    using cell v(2) sorted_le_last [of p]
    by (fastforce simp: max_cell_def sorted_append)
  moreover have mono: "max_ok n iter (p @ [v]) m" if "max_ok n iter p m" for m
    using max_ok_mono [OF that, of "p @ [v]"] v(2) by simp
  moreover have "max_ok n iter (p @ [v]) (next_call l)"
    using max_ok_next [OF mono [OF ok] v(3)] v(1) by simp
  ultimately show ?thesis using success by blast
next
  case (retry x v)
  let ?l = "l\<lparr>retries := retries l + 1\<rparr>"
  have "v = int (it l * n + tid l)" "it l < iter" using ok retry(1) by (auto simp: max_ok_def)
  moreover have "max_ok n iter p ?l" "it ?l = it l" "tid ?l = tid l" using ok by (simp_all add: max_ok_def)
  ultimately show ?thesis using retry cell max_ok_test [of n iter p ?l v "last p"] by simp
qed

lemma add_ok_start: "\<forall>l \<in> set (snd (cas_start n)). add_ok iter (fst (cas_start n)) l"
  by (auto simp: cas_start_def add_ok_def counts_start)

lemma length_cas_start [simp]: "length (snd (cas_start n)) = n"
  by (simp add: cas_start_def)

lemma start_sum: "last (fst (cas_start n)) = 0" "sum_list (map (\<lambda>l. int (it l)) (snd (cas_start n))) = 0"
  by (simp_all add: cas_start_def comp_def)

lemma finished_sum:
  "\<forall>l \<in> set ls. finished iter l \<Longrightarrow> sum_list (map (\<lambda>l. int (it l)) ls) = int (length ls * iter)"
  by (induction ls) (auto simp: finished_def algebra_simps)

text \<open>A call of \<open>my_max\<close> by a thread that runs alone.\<close>

lemma max_test_runs:
  assumes "p \<noteq> []" and "l' = max_test v (last p) l"
  shows "\<exists>p' m. (my_max_step n iter)\<^sup>*\<^sup>* (p, l') (p', m) \<and> p' \<noteq> [] \<and> cas_pc m = Top \<and> it m = it l + 1"
proof (cases "v > last p")
  case True
  then have "my_max_step n iter (p, l') (p @ [v], next_call l')"
    by (intro my_max_step.success [of _ "last p" v False]) (simp_all add: assms(2) max_test_def)
  then show ?thesis using True assms(2) by (intro exI [of _ "p @ [v]"] exI [of _ "next_call l'"]) (auto simp: max_test_def)
next
  case False
  then show ?thesis using assms by (intro exI [of _ p] exI [of _ l']) (simp add: max_test_def)
qed

lemma max_call_runs:
  assumes "p \<noteq> []" and "it l < iter \<and> offer n l \<noteq> None \<or> cas_pc l \<noteq> Top"
  shows "\<exists>p' l'. (my_max_step n iter)\<^sup>*\<^sup>* (p, l) (p', l') \<and> p' \<noteq> [] \<and> cas_pc l' = Top \<and> it l' = it l + 1"
proof -
  obtain v l0 where m: "my_max_step n iter (p, l) (p, max_test v (last p) l0)" "it l0 = it l"
  proof (cases "cas_pc l")
    case Top
    then obtain w where "offer n l = Some w" using assms(2) by blast
    then have "my_max_step n iter (p, l) (p, max_test w (last p) l)"
      using assms Top by (intro my_max_step.load) auto
    then show ?thesis using that by blast
  next
    case (Try x a)
    then have "my_max_step n iter (p, l) (p, max_test a (last p) (l\<lparr>retries := retries l + 1\<rparr>))"
      by (intro my_max_step.retry [of l x a True]) simp_all
    then show ?thesis using that by simp
  qed
  from max_test_runs [OF assms(1) refl, of n iter v l0] m show ?thesis
    by (metis converse_rtranclp_into_rtranclp)
qed

interpretation max_live: finishing "my_max_step n iter" "\<lambda>l. cas_pc l = Top \<and> \<not> (it l < iter \<and> offer n l \<noteq> None)" "\<lambda>p. p \<noteq> []" for n iter
  using calls_finish [of "\<lambda>l. it l < iter \<and> offer n l \<noteq> None" "my_max_step n iter" iter] max_call_runs [of _ _ iter n]
  by unfold_locales blast

lemma max_reach_ok:
  assumes "pool_reach (my_max_step n iter) (cas_start n) c" and "0 < n" and "0 < iter"
  shows "max_cell (n * iter) (fst c) \<and> (\<forall>l \<in> set (snd c). max_ok n iter (fst c) l)"
proof (rule pool_invariant [OF assms(1)])
  show "max_cell (n * iter) (fst (cas_start n))" using assms(2,3) by (simp add: max_cell_def cas_start_def)
  show "\<forall>l \<in> set (snd (cas_start n)). max_ok n iter (fst (cas_start n)) l" by (auto simp: max_ok_def cas_start_def)
qed (rule max_step_ok)

lemma max_step_tid: "my_max_step n iter (p, l) (p', l') \<Longrightarrow> tid l' = tid l"
  by (cases rule: my_max_step_cases, assumption) (simp_all add: max_test_simps)

lemma max_reach_tid:
  assumes "pool_reach (my_max_step n iter) (cas_start n) c"
  shows "map tid (snd c) = [0..<n]"
  using assms
proof (induction rule: pool_reach.induct)
  case start
  then show ?case by (simp add: cas_start_def comp_def)
next
  case (step c c')
  then obtain i s ls s' l' where c: "c = (s, ls)" "c' = (s', ls[i := l'])" "i < length ls"
      "my_max_step n iter (s, ls ! i) (s', l')"
    by (auto elim: pool_stepE)
  then have "map tid (ls[i := l']) = map tid ls"
    using max_step_tid [OF c(4)] by (simp add: map_update) (metis list_update_id nth_map)
  with step.IH c show ?case by simp
qed

lemma fin_finished:
  assumes "\<forall>l \<in> set ls. it l \<le> iter" and "\<forall>l \<in> set ls. cas_pc l = Top \<and> \<not> it l < iter"
  shows "\<forall>l \<in> set ls. finished iter l"
  using assms by (auto simp: finished_def not_less intro: le_antisym)

lemma add_reach_counts:
  assumes "pool_reach (my_add_step iter) (cas_start n) c"
  shows "counts (fst c)"
proof -
  have "counts (fst c) \<and> (\<forall>l \<in> set (snd c). add_ok iter (fst c) l)"
  proof (rule pool_invariant [OF assms])
    show "counts (fst (cas_start n))" by (simp add: cas_start_def counts_start)
    show "\<forall>l \<in> set (snd (cas_start n)). add_ok iter (fst (cas_start n)) l" by (rule add_ok_start)
    fix p l p' l'
    assume "add_ok iter p l" "my_add_step iter (p, l) (p', l')"
    from add_pool.step_ok [OF this] show "counts p' \<and> add_ok iter p' l' \<and> (\<forall>m. add_ok iter p m \<longrightarrow> add_ok iter p' m)"
      using add_ok_def [of iter p' l'] by blast
  qed
  then show ?thesis by blast
qed

text \<open>Two short runs of one thread.\<close>

lemma demo_add: "pool_reach (my_add_step 1) (cas_start 1) ([0, 1], [\<lparr>it = 1, cas_pc = Top, retries = 0, tid = 0\<rparr>])"
proof -
  have "my_add_step 1 ([0], \<lparr>it = 0, cas_pc = Top, retries = 0, tid = 0\<rparr>) ([0], \<lparr>it = 0, cas_pc = Try 0 1, retries = 0, tid = 0\<rparr>)"
    using my_add_step.load [of "\<lparr>it = 0, cas_pc = Top, retries = 0, tid = 0\<rparr>" 1 0 "[0]"] by simp
  moreover have "my_add_step 1 ([0], \<lparr>it = 0, cas_pc = Try 0 1, retries = 0, tid = 0\<rparr>) ([0, 1], \<lparr>it = 1, cas_pc = Top, retries = 0, tid = 0\<rparr>)"
    using add_try_succeeds [of "\<lparr>it = 0, cas_pc = Try 0 1, retries = 0, tid = 0\<rparr>" "[0]" 1 1] by (simp add: next_call_def)
  ultimately have "(my_add_step 1)\<^sup>*\<^sup>* ([0], [\<lparr>it = 0, cas_pc = Top, retries = 0, tid = 0\<rparr>] ! 0) ([0, 1], \<lparr>it = 1, cas_pc = Top, retries = 0, tid = 0\<rparr>)"
    by simp
  from pool_reach_steps [OF pool_run [OF this]] pool_reach.start [of "my_add_step 1" "cas_start 1"]
  show ?thesis by (simp add: cas_start_def)
qed

lemma demo_max: "pool_reach (my_max_step 1 2) (cas_start 1) ([0, 1], [\<lparr>it = 2, cas_pc = Top, retries = 0, tid = 0\<rparr>])"
proof -
  let ?l = "\<lambda>i c. \<lparr>it = i, cas_pc = c, retries = 0, tid = 0\<rparr>"
  have "my_max_step 1 2 ([0], ?l 0 Top) ([0], ?l 1 Top)"
    using my_max_step.load [of "?l 0 Top" 2 1 0 0 "[0]"] by (simp add: max_test_def offer_def next_call_def)
  moreover have "my_max_step 1 2 ([0], ?l 1 Top) ([0], ?l 1 (Try 0 1))"
    using my_max_step.load [of "?l 1 Top" 2 1 1 0 "[0]"] by (simp add: max_test_def offer_def)
  moreover have "my_max_step 1 2 ([0], ?l 1 (Try 0 1)) ([0, 1], ?l 2 Top)"
    using my_max_step.success [of "?l 1 (Try 0 1)" 0 1 False "[0]" 0 "[0, 1]" 1 2] by (simp add: next_call_def numeral_2_eq_2)
  ultimately have "(my_max_step 1 2)\<^sup>*\<^sup>* ([0], [?l 0 Top] ! 0) ([0, 1], ?l 2 Top)"
    by (simp add: converse_rtranclp_into_rtranclp r_into_rtranclp)
  from pool_reach_steps [OF pool_run [OF this]] pool_reach.start [of "my_max_step 1 2" "cas_start 1"]
  show ?thesis by (simp add: cas_start_def)
qed

lemma max_reach_exact:
  assumes "pool_reach (my_max_step n iter) (cas_start n) (p, ls)" and "0 < n" and "0 < iter"
  shows "sorted p \<and> last p < int (n * iter)
    \<and> (\<forall>l \<in> set ls. \<forall>j < it l. int (j * n + tid l) \<le> last p)
    \<and> ((\<forall>l \<in> set ls. finished iter l) \<longrightarrow> last p = int (n * iter) - 1)"
proof -
  have ok: "max_cell (n * iter) p" "\<forall>l \<in> set ls. max_ok n iter p l"
    using max_reach_ok [OF assms] by simp_all
  have up: "last p < int (n * iter)" using ok(1) by (auto simp: max_cell_def)
  have "last p = int (n * iter) - 1" if fin: "\<forall>l \<in> set ls. finished iter l"
  proof -
    have "n - 1 \<in> set (map tid ls)" using max_reach_tid [OF assms(1)] assms(2) by simp
    then obtain l where l: "l \<in> set ls" "tid l = n - 1" by auto
    have "\<forall>j < it l. int (j * n + tid l) \<le> last p" using ok(2) l(1) by (simp add: max_ok_def)
    then have "int ((iter - 1) * n + (n - 1)) \<le> last p"
      using fin l assms(3) by (metis diff_less finished_def zero_less_one)
    moreover have "int ((iter - 1) * n + (n - 1)) = int (n * iter) - 1"
      using assms(2,3) by (cases iter; cases n) (simp_all add: algebra_simps)
    ultimately show ?thesis using up by linarith
  qed
  then show ?thesis using up ok by (auto simp: max_cell_def max_ok_def)
qed

subsection \<open>Properties\<close>

text \<open>
  \<open>my_add\<close> is an atomic addition: with any number of threads, stale loads and spurious failures, the
  counter takes the values 0, 1, 2, \<dots> each exactly once and in order, and at every moment it
  is the number of calls that have returned; when all threads are done it is \<open>n * iter\<close>.
\<close>

theorem my_add_exact:
  assumes "pool_reach (my_add_step iter) (cas_start n) (p, ls)"
  shows "p = map int [0..<length p] \<and> last p = sum_list (map (\<lambda>l. int (it l)) ls)
    \<and> ((\<forall>l \<in> set ls. finished iter l) \<longrightarrow> last p = int (n * iter))"
proof -
  note ok = add_pool.pool_ok [OF assms add_ok_start]
  have len: "length ls = n" using pool_reach_length [OF assms] by simp
  have sum: "last p = sum_list (map (\<lambda>l. int (it l)) ls)"
    using add_pool.nothing_lost [OF assms add_ok_start] by (simp add: start_sum)
  have "counts p" using add_reach_counts [OF assms] by simp
  then show ?thesis using sum finished_sum [of ls iter] len by (auto simp: counts_def)
qed

theorem my_add_exact_witness: "last [0, 1] = int (1 * 1)"
  using my_add_exact [OF demo_add] by (simp add: finished_def)

text \<open>
  C32: With \<open>my_max\<close> the counter never decreases and never exceeds the largest offer, every
  completed call's offer is at most the counter, and when all threads are done the counter is
  \<open>iter * num_thread - 1\<close>.
\<close>

theorem my_max_exact:
  assumes "pool_reach (my_max_step n iter) (cas_start n) (p, ls)" and "0 < n" and "0 < iter"
  shows "sorted p \<and> last p < int (n * iter)
    \<and> (\<forall>l \<in> set ls. \<forall>j < it l. int (j * n + tid l) \<le> last p)
    \<and> ((\<forall>l \<in> set ls. finished iter l) \<longrightarrow> last p = int (n * iter) - 1)"
  using max_reach_exact [OF assms] .

theorem my_max_exact_witness: "sorted [0, 1 :: int] \<and> last [0, 1] = int (1 * 2) - 1"
  using my_max_exact [OF demo_max] by (simp add: finished_def)

text \<open>
  The three assertions of \<open>main\<close> hold, whatever the interleavings of the three runs, for all arguments it accepts whose
  product is a \<open>long\<close>.
\<close>

theorem cas_main_passes:
  assumes "cas_main_config argc num_thread iter a b = Some (n, k)" and "iter * num_thread < 2 ^ 63"
    and "pool_reach (fetch_add_step k) (cas_start n) (p1, ls1)" and "\<forall>l \<in> set ls1. finished k l"
    and "pool_reach (my_add_step k) (cas_start n) (p2, ls2)" and "\<forall>l \<in> set ls2. finished k l"
    and "pool_reach (my_max_step n k) (cas_start n) (p3, ls3)" and "\<forall>l \<in> set ls3. finished k l"
  shows "cas_main_asserts num_thread iter (last p1) (last p2) (last p3) = Some ()"
proof -
  have c: "0 < num_thread" "0 < iter" "n = nat num_thread" "k = nat iter" using assms(1) by (auto simp: cas_main_config_def split: if_splits)
  then have prod: "int (n * k) = iter * num_thread" by simp
  have sums: "last p1 = sum_list (map (\<lambda>l. int (it l)) ls1)" "last p2 = sum_list (map (\<lambda>l. int (it l)) ls2)"
    using fetch_add_pool.nothing_lost [OF assms(3) add_ok_start] add_pool.nothing_lost [OF assms(5) add_ok_start] by (simp_all add: start_sum)
  have "length ls1 = n" "length ls2 = n" using pool_reach_length [OF assms(3)] pool_reach_length [OF assms(5)] by simp_all
  then have "last p1 = iter * num_thread" "last p2 = iter * num_thread"
    unfolding sums using finished_sum [OF assms(4)] finished_sum [OF assms(6)] prod by simp_all
  moreover have "last p3 = iter * num_thread - 1" using max_reach_exact [OF assms(7)] assms(8) c prod by simp
  moreover have "to_i64 (iter * num_thread) = Some (iter * num_thread)"
  proof (rule to_i64_Some [OF _ assms(2)])
    have "0 < iter * num_thread" using c(1,2) by simp
    then show "- (2 ^ 63) \<le> iter * num_thread" by simp
  qed
  ultimately show ?thesis by (simp add: cas_main_asserts_def)
qed

text \<open>
  The retry loops always can finish: from every reachable state of either worker there is a
  continuation in which every thread completes all its calls.  The offers to \<open>my_max\<close> have to fit in \<open>long\<close>.
\<close>

theorem cas_loops_finish:
  assumes "0 < n" and "0 < iter" and fits: "int (n * iter) < 2 ^ 63"
  shows "(\<forall>c. pool_reach (my_add_step iter) (cas_start n) c \<longrightarrow>
      (\<exists>c'. (pool_step (my_add_step iter))\<^sup>*\<^sup>* c c' \<and> (\<forall>l \<in> set (snd c'). finished iter l)))
    \<and> (\<forall>c. pool_reach (my_max_step n iter) (cas_start n) c \<longrightarrow>
      (\<exists>c'. (pool_step (my_max_step n iter))\<^sup>*\<^sup>* c c' \<and> (\<forall>l \<in> set (snd c'). finished iter l)))"
proof (intro conjI allI impI)
  fix c assume r: "pool_reach (my_add_step iter) (cas_start n) c"
  have "snd c \<noteq> []" using pool_reach_length [OF r] assms(1) by auto
  then have "fst c \<noteq> []"
    using add_pool.pool_ok [OF r add_ok_start] by (cases "snd c") (auto simp: add_ok_def counts_def)
  from add_live.pool_finishes [OF this, of iter] obtain c' where
    c': "(pool_step (my_add_step iter))\<^sup>*\<^sup>* c c'" "\<forall>l \<in> set (snd c'). cas_pc l = Top \<and> \<not> it l < iter" by blast
  have "\<forall>l \<in> set (snd c'). it l \<le> iter"
    using add_pool.pool_ok [OF pool_reach_steps [OF c'(1) r] add_ok_start] by (simp add: add_ok_def)
  from fin_finished [OF this c'(2)] c'(1)
  show "\<exists>c'. (pool_step (my_add_step iter))\<^sup>*\<^sup>* c c' \<and> (\<forall>l \<in> set (snd c'). finished iter l)" by blast
next
  fix c assume r: "pool_reach (my_max_step n iter) (cas_start n) c"
  have "fst c \<noteq> []" using max_reach_ok [OF r assms(1,2)] by (simp add: max_cell_def)
  from max_live.pool_finishes [OF this, of n iter] obtain c' where
    c': "(pool_step (my_max_step n iter))\<^sup>*\<^sup>* c c'" "\<forall>l \<in> set (snd c'). cas_pc l = Top \<and> \<not> (it l < iter \<and> offer n l \<noteq> None)" by blast
  have ok: "\<forall>l \<in> set (snd c'). tid l < n \<and> it l \<le> iter"
    using max_reach_ok [OF pool_reach_steps [OF c'(1) r] assms(1,2)] by (simp add: max_ok_def)
  then have "\<forall>l \<in> set (snd c'). cas_pc l = Top \<and> \<not> it l < iter" using c'(2) offer_fits [OF _ _ fits] by auto
  from fin_finished [OF _ this] ok c'(1)
  show "\<exists>c'. (pool_step (my_max_step n iter))\<^sup>*\<^sup>* c c' \<and> (\<forall>l \<in> set (snd c'). finished iter l)" by blast
qed

theorem cas_loops_finish_witness:
  "\<exists>c'. (pool_step (my_add_step 3))\<^sup>*\<^sup>* (cas_start 2) c' \<and> (\<forall>l \<in> set (snd c'). finished 3 l)"
proof -
  have "0 < (2 :: nat)" "0 < (3 :: nat)" "int (2 * 3) < 2 ^ 63" by simp_all
  from cas_loops_finish [OF this] pool_reach.start [of "my_add_step 3" "cas_start 2"] show ?thesis by blast
qed

text \<open>
  \<open>run_threads\<close> returns the sum of the retries when everything succeeds and \<open>-1\<close> when a creation or a
  join fails; but after a failed creation it has joined none of the threads it started, which
  still use the arguments its caller then frees.
\<close>

theorem run_threads_result:
  assumes "length joins = length creates" and "length rs = length creates"
  shows "run_threads creates joins rs =
    (if list_all id creates
     then if list_all id joins then (sum_list rs, length creates, length creates)
          else (- 1, length creates, length (takeWhile id joins))
     else (- 1, length (takeWhile id creates), 0))"
proof -
  have create: "create_from k cs = (if list_all id cs then (True, k + length cs) else (False, k + length (takeWhile id cs)))" for k cs
    by (induction cs arbitrary: k) auto
  have join: "join_from t k (zip js vs) =
      (if list_all id js then (t + sum_list vs, k + length js) else (- 1, k + length (takeWhile id js)))"
    if "length js = length vs" for t k js vs
    using that by (induction js vs arbitrary: t k rule: list_induct2) auto
  show ?thesis using assms join [of joins rs] by (simp add: run_threads_def create)
qed

theorem run_threads_result_witness:
  "run_threads [True, True, False] [True, True, True] [0, 0, 0] = (- 1, 2, 0)
   \<and> run_threads [True, True] [True, True] [3, 4] = (7, 2, 2)"
  using run_threads_result [of "[True, True, True]" "[True, True, False]" "[0, 0, 0]"]
    run_threads_result [of "[True, True]" "[True, True]" "[3, 4]"] by simp

end
