(* ===== verification/Shared_Counter.thy ===== *)
theory Shared_Counter
  imports Cas
begin

text \<open>
  The two programs that count without a lock: \<open>concurrency/02-atomic/atomic.c\<close>, whose workers use an atomic
  fetch-and-add (both memory orders give the same counter), and \<open>concurrency/00-visible_race/visible_race.c\<close>,
  whose workers increment a plain \<open>volatile\<close> counter with a separate read and write.
\<close>

subsection \<open>Atomic increments\<close>

datatype atomic_worker = Worker_generic | Worker_explicit

definition atomic_step :: "atomic_worker \<Rightarrow> nat \<Rightarrow> cell \<times> cas_thread \<Rightarrow> cell \<times> cas_thread \<Rightarrow> bool" where
  "atomic_step w iter = (case w of Worker_generic \<Rightarrow> fetch_add_step iter | Worker_explicit \<Rightarrow> fetch_add_step iter)"

text \<open>The checks of \<open>main\<close>; \<open>num\<close> and \<open>iter\<close> are the results of \<open>atoi\<close> and \<open>atol\<close>.\<close>

definition atomic_main_config :: "int \<Rightarrow> string \<Rightarrow> int \<Rightarrow> int \<Rightarrow> bool \<Rightarrow> (atomic_worker \<times> nat \<times> nat) option" where
  "atomic_main_config argc mode num iter mem =
     (if argc \<noteq> 4 then None
      else do {
        fn \<leftarrow> (if mode = ''generic'' then Some Worker_generic
               else if mode = ''explicit'' then Some Worker_explicit else None);
        if num \<le> 0 then None
        else if \<not> mem then None
        else if iter = 0 then None
        else Some (fn, nat num, nat iter)
      })"

definition atomic_main_assert :: "int \<Rightarrow> int \<Rightarrow> cell \<Rightarrow> bool" where
  "atomic_main_assert iter num p \<longleftrightarrow> last p = iter * num"

lemma atomic_step_eq [simp]: "atomic_step w iter = fetch_add_step iter"
  by (cases w) (simp_all add: atomic_step_def)

lemma fetch_add_sum:
  assumes "pool_reach (fetch_add_step iter) (cas_start n) (p, ls)"
  shows "last p = sum_list (map (\<lambda>l. int (it l)) ls)" and "length ls = n"
  using fetch_add_pool.nothing_lost [OF assms add_ok_start] pool_reach_length [OF assms] by (simp_all add: start_sum)

subsection \<open>Racing increments\<close>

datatype race_pc = Read | Write int

record race_thread =
  ri :: nat
  race_pc :: race_pc

inductive race_step :: "nat \<Rightarrow> int \<times> race_thread \<Rightarrow> int \<times> race_thread \<Rightarrow> bool" for iter where
  load: "ri l < iter \<Longrightarrow> race_pc l = Read \<Longrightarrow> race_step iter (c, l) (c, l\<lparr>race_pc := Write c\<rparr>)"
| store: "race_pc l = Write v \<Longrightarrow> race_step iter (c, l) (v + 1, \<lparr>ri = ri l + 1, race_pc = Read\<rparr>)"

inductive_cases race_stepE: "race_step iter (c, l) (c', l')"

definition race_start :: "nat \<Rightarrow> int \<times> race_thread list" where
  "race_start n = (0, replicate n \<lparr>ri = 0, race_pc = Read\<rparr>)"

definition race_done :: "nat \<Rightarrow> race_thread \<Rightarrow> bool" where
  "race_done iter l \<longleftrightarrow> ri l = iter \<and> race_pc l = Read"

abbreviation race_thr :: "nat \<Rightarrow> race_pc \<Rightarrow> race_thread" where
  "race_thr i p \<equiv> \<lparr>ri = i, race_pc = p\<rparr>"

lemma nth_mid: "(replicate m x @ replicate (Suc k) y) ! m = y"
  by (simp add: nth_append)

lemma update_mid: "(replicate m x @ replicate (Suc k) y)[m := x] = replicate (Suc m) x @ replicate k y"
  by (simp add: list_update_append replicate_app_Cons_same)

text \<open>All threads read, then all threads write: one round of every thread, one increment.\<close>

lemma all_read:
  assumes "j < iter" and "m \<le> n"
  shows "(pool_step (race_step iter))\<^sup>*\<^sup>* (c, replicate n (race_thr j Read))
    (c, replicate m (race_thr j (Write c)) @ replicate (n - m) (race_thr j Read))"
  using assms(2)
proof (induction m)
  case (Suc m)
  let ?ls = "replicate m (race_thr j (Write c)) @ replicate (n - m) (race_thr j Read)"
  have nm: "n - m = Suc (n - Suc m)" using Suc.prems by simp
  have "race_step iter (c, ?ls ! m) (c, race_thr j (Write c))"
    unfolding nm nth_mid using race_step.load [of "race_thr j Read" iter c] assms(1) by simp
  then have "pool_step (race_step iter) (c, ?ls) (c, ?ls[m := race_thr j (Write c)])"
    by (rule pool_step.thread [rotated]) (use Suc.prems in simp)
  then have "pool_step (race_step iter) (c, ?ls)
      (c, replicate (Suc m) (race_thr j (Write c)) @ replicate (n - Suc m) (race_thr j Read))"
    unfolding nm update_mid .
  with Suc show ?case by (simp add: rtranclp.rtrancl_into_rtrancl)
qed simp

lemma all_write:
  assumes "m \<le> n" and "0 < m"
  shows "(pool_step (race_step iter))\<^sup>*\<^sup>* (c, replicate n (race_thr j (Write c)))
    (c + 1, replicate m (race_thr (j + 1) Read) @ replicate (n - m) (race_thr j (Write c)))"
  using assms
proof (induction m)
  case (Suc m)
  let ?ls = "replicate m (race_thr (j + 1) Read) @ replicate (n - m) (race_thr j (Write c))"
  define d where "d = (if m = 0 then c else c + 1)"
  have nm: "n - m = Suc (n - Suc m)" using Suc.prems by simp
  have "race_step iter (d, ?ls ! m) (c + 1, race_thr (j + 1) Read)"
    unfolding nm nth_mid using race_step.store [of "race_thr j (Write c)" c iter d] by simp
  then have "pool_step (race_step iter) (d, ?ls) (c + 1, ?ls[m := race_thr (j + 1) Read])"
    by (rule pool_step.thread [rotated]) (use Suc.prems in simp)
  then have st: "pool_step (race_step iter) (d, ?ls)
      (c + 1, replicate (Suc m) (race_thr (j + 1) Read) @ replicate (n - Suc m) (race_thr j (Write c)))"
    unfolding nm update_mid .
  have "(pool_step (race_step iter))\<^sup>*\<^sup>* (c, replicate n (race_thr j (Write c))) (d, ?ls)"
    using Suc by (cases m) (simp_all add: d_def)
  with st show ?case by (rule rtranclp.rtrancl_into_rtrancl [rotated])
qed simp

lemma round:
  assumes "j < iter" and "0 < n"
  shows "(pool_step (race_step iter))\<^sup>*\<^sup>* (c, replicate n (race_thr j Read)) (c + 1, replicate n (race_thr (j + 1) Read))"
  using all_read [OF assms(1), of n n c] all_write [of n n iter c j] assms(2) by simp

lemma rounds:
  assumes "j \<le> iter" and "0 < n"
  shows "(pool_step (race_step iter))\<^sup>*\<^sup>* (0, replicate n (race_thr 0 Read)) (int j, replicate n (race_thr j Read))"
  using assms(1)
proof (induction j)
  case (Suc j)
  then have "(pool_step (race_step iter))\<^sup>*\<^sup>* (int j, replicate n (race_thr j Read)) (int j + 1, replicate n (race_thr (j + 1) Read))"
    by (intro round assms(2)) simp
  with Suc show ?case by (simp add: add.commute)
qed simp

definition race_sum :: "race_thread list \<Rightarrow> int" where
  "race_sum ls = sum_list (map (\<lambda>l. int (ri l)) ls)"

lemma race_bound:
  assumes "pool_reach (race_step iter) (race_start n) c"
  shows "fst c \<le> race_sum (snd c) \<and> (\<forall>l \<in> set (snd c). ri l \<le> iter
      \<and> (\<forall>v. race_pc l = Write v \<longrightarrow> v \<le> race_sum (snd c) \<and> ri l < iter))"
  using assms
proof (induction rule: pool_reach.induct)
  case start
  then show ?case by (simp add: race_start_def race_sum_def sum_list_replicate)
next
  case (step c c')
  from step.hyps(2) obtain i s ls s' l' where c: "c = (s, ls)" "c' = (s', ls[i := l'])"
    and i: "i < length ls" "race_step iter (s, ls ! i) (s', l')" by (auto elim: pool_stepE)
  have mem: "ls ! i \<in> set ls" using i(1) by simp
  have sum: "race_sum (ls[i := l']) = race_sum ls + int (ri l') - int (ri (ls ! i))"
    using i(1) by (simp add: race_sum_def map_update sum_list_update_group)
  have up: "ri (ls ! i) \<le> ri l'" using i(2) by (auto elim: race_stepE)
  then have grow: "race_sum ls \<le> race_sum (ls[i := l'])" using sum by simp
  have new: "s' \<le> race_sum (ls[i := l']) \<and> ri l' \<le> iter
      \<and> (\<forall>v. race_pc l' = Write v \<longrightarrow> v \<le> race_sum (ls[i := l']) \<and> ri l' < iter)"
    using i(2) step.IH c mem sum by (auto elim!: race_stepE)
  show ?case
  proof (simp only: c fst_conv snd_conv, intro conjI ballI)
    show "s' \<le> race_sum (ls[i := l'])" using new by blast
    fix l assume "l \<in> set (ls[i := l'])"
    then have "l = l' \<or> l \<in> set ls" using set_update_subset_insert [of ls i l'] by blast
    then show "ri l \<le> iter" "\<forall>v. race_pc l = Write v \<longrightarrow> v \<le> race_sum (ls[i := l']) \<and> ri l < iter"
      using new step.IH c grow by fastforce+
  qed
qed

subsection \<open>Properties\<close>

text \<open>
  With fetch-and-add nothing is lost, whatever the memory order: when all threads are done the counter
  is the number of threads times the number of iterations, so \<open>main\<close>'s assertion holds exactly when the
  number of repetitions it accepted is positive (it accepts negative numbers too).
\<close>

theorem atomic_main_assertion:
  assumes "atomic_main_config argc mode num iter mem = Some (w, n, k)"
    and "pool_reach (atomic_step w k) (cas_start n) (p, ls)" and "\<forall>l \<in> set ls. finished k l"
  shows "last p = int (n * k) \<and> (atomic_main_assert iter num p \<longleftrightarrow> 0 < iter)"
proof -
  have a: "0 < num" "iter \<noteq> 0" "n = nat num" "k = nat iter"
    using assms(1) by (auto simp: atomic_main_config_def split: if_splits Option.bind_splits)
  note r = fetch_add_sum [OF assms(2) [unfolded atomic_step_eq]]
  have c: "last p = int (n * k)" using r finished_sum [OF assms(3)] by simp
  have "last p = iter * num \<longleftrightarrow> 0 < iter"
  proof (cases "0 < iter")
    case True
    with c a show ?thesis by (simp add: mult.commute)
  next
    case False
    with a have "iter * num < 0" by (simp add: mult_less_0_iff)
    with c a False show ?thesis by auto
  qed
  with c show ?thesis by (simp add: atomic_main_assert_def)
qed

theorem atomic_main_assertion_witness:
  "atomic_main_config 4 ''generic'' 1 (- 3) True = Some (Worker_generic, 1, 0) \<and> \<not> atomic_main_assert (- 3) 1 [0]"
proof -
  have c: "atomic_main_config 4 ''generic'' 1 (- 3) True = Some (Worker_generic, 1, 0)"
    by (simp add: atomic_main_config_def)
  have r: "pool_reach (atomic_step Worker_generic 0) (cas_start 1) ([0], [\<lparr>it = 0, cas_pc = Top, retries = 0, tid = 0\<rparr>])"
    using pool_reach.start [of "fetch_add_step 0" "cas_start 1"] by (simp add: cas_start_def)
  show ?thesis using atomic_main_assertion [OF c r] c by (simp add: finished_def)
qed

text \<open>
  The race of the plain counter is real, and only loses updates: in every run the counter is at most the
  number of increments done, and for any number of threads there is a run in
  which all but one thread's increments are lost, so it ends at \<open>iter\<close> instead of \<open>n * iter\<close>.
\<close>

theorem race_loses_updates:
  assumes "0 < n"
  shows "(\<forall>c. pool_reach (race_step iter) (race_start n) c \<longrightarrow> fst c \<le> int (n * iter))
    \<and> (\<exists>c. pool_reach (race_step iter) (race_start n) c \<and> (\<forall>l \<in> set (snd c). race_done iter l) \<and> fst c = int iter)"
proof (intro conjI allI impI)
  fix c assume r: "pool_reach (race_step iter) (race_start n) c"
  have "sum_list (map (\<lambda>l. int (ri l)) ls) \<le> int (length ls * iter)" if "\<forall>l \<in> set ls. ri l \<le> iter" for ls
    using that by (induction ls) (auto simp: algebra_simps)
  moreover have "\<forall>l \<in> set (snd c). ri l \<le> iter" using race_bound [OF r] by blast
  ultimately have "race_sum (snd c) \<le> int (length (snd c) * iter)" unfolding race_sum_def by blast
  moreover have "length (snd c) = n" using pool_reach_length [OF r] by (simp add: race_start_def)
  ultimately show "fst c \<le> int (n * iter)" using race_bound [OF r] by simp
next
  have "pool_reach (race_step iter) (race_start n) (int iter, replicate n (race_thr iter Read))"
    unfolding race_start_def by (rule pool_reach_steps [OF rounds pool_reach.start]) (use assms in simp_all)
  then show "\<exists>c. pool_reach (race_step iter) (race_start n) c \<and> (\<forall>l \<in> set (snd c). race_done iter l) \<and> fst c = int iter"
    by (intro exI conjI, assumption) (simp_all add: race_done_def)
qed

theorem race_loses_updates_witness:
  "\<exists>c. pool_reach (race_step 1000) (race_start 4) c \<and> (\<forall>l \<in> set (snd c). race_done 1000 l) \<and> fst c = 1000"
  using race_loses_updates [of 4 1000] by simp

end
