(* ===== verification/Tic_Tac_Toe.thy ===== *)
theory Tic_Tac_Toe
  imports CPrelude
begin

text \<open>
  \<open>Interview/builds/01-tictactoe/tictactoe.c\<close>: the board, moves, the win test, the command line, and the game
  loop of \<open>main\<close>.  \<open>board\<close> is the C structure (\<open>cells\<close> is \<^const>\<open>None\<close> for a null pointer); C's \<open>int\<close>s are
  integers, which stay far from their bounds because the board is at most 25 by 25.  An
  operation is \<^const>\<open>None\<close> when an assertion fails or the code would leave the array.
\<close>

definition MAX_BRD :: int where "MAX_BRD = 200 div 8"

record board =
  bn :: int
  bk :: int
  counter :: int
  cells :: "char list option"

record move =
  mx :: int
  my :: int

datatype result = UNFINISHED | WIN | DRAW

definition board_cell_const :: "board \<Rightarrow> int \<Rightarrow> int \<Rightarrow> char option" where
  "board_cell_const b row col = do {
     c_assert (row \<ge> 0 \<and> row < bn b \<and> col \<ge> 0 \<and> col < bn b);
     cs \<leftarrow> cells b;
     rdi cs (bn b * row + col)
   }"

definition board_cell_set :: "board \<Rightarrow> int \<Rightarrow> int \<Rightarrow> char \<Rightarrow> board option" where
  "board_cell_set b row col c = do {
     c_assert (row \<ge> 0 \<and> row < bn b \<and> col \<ge> 0 \<and> col < bn b);
     cs \<leftarrow> cells b;
     cs \<leftarrow> wri cs (bn b * row + col) c;
     Some (b\<lparr>cells := Some cs\<rparr>)
   }"

definition del_board :: "board \<Rightarrow> board" where
  "del_board b = b\<lparr>cells := None\<rparr>"

text \<open>Writing a cell changes only \<open>cells\<close>; the loops say so, which makes their termination evident.\<close>

function fill_row :: "board \<Rightarrow> int \<Rightarrow> int \<Rightarrow> board option" where
  "fill_row b i j =
     (if j < bn b then do {
        b' \<leftarrow> board_cell_set b i j (CHR ''-'');
        fill_row (b\<lparr>cells := cells b'\<rparr>) i (j + 1)
      } else Some b)"
  by pat_completeness auto
termination by (relation "measure (\<lambda>(b, _, j). nat (bn b - j))") auto

function fill :: "board \<Rightarrow> int \<Rightarrow> board option" where
  "fill b i =
     (if i < bn b then do {
        b' \<leftarrow> fill_row b i 0;
        fill (b\<lparr>cells := cells b'\<rparr>) (i + 1)
      } else Some b)"
  by pat_completeness auto
termination by (relation "measure (\<lambda>(b, i). nat (bn b - i))") auto

declare fill_row.simps [simp del] fill.simps [simp del]

text \<open>\<open>mem\<close> is the block \<open>malloc\<close> returns, with whatever it contains, or \<^const>\<open>None\<close>.\<close>

definition set_board :: "char list option \<Rightarrow> board \<Rightarrow> int \<Rightarrow> int \<Rightarrow> (int \<times> board) option" where
  "set_board mem b n k =
     (let b = b\<lparr>cells := None\<rparr> in
      if n < 3 \<or> n > MAX_BRD \<or> k < 3 \<or> k > n then Some (0, b)
      else let b = b\<lparr>bn := n, bk := k, counter := n * n, cells := mem\<rparr> in
        if mem = None then Some (0, b)
        else do {
          b \<leftarrow> fill b 0;
          Some (1, b)
        })"

definition make_move :: "move \<Rightarrow> board \<Rightarrow> char \<Rightarrow> (int \<times> board) option" where
  "make_move mv b symbol =
     (let x = mx mv; y = my mv in
      if x < 0 \<or> x \<ge> bn b \<or> y < 0 \<or> y \<ge> bn b then Some (0, b)
      else do {
        c \<leftarrow> board_cell_const b x y;
        if c = CHR ''-'' then do {
          b \<leftarrow> board_cell_set b x y symbol;
          Some (1, b\<lparr>counter := counter b - 1\<rparr>)
        } else Some (0, b)
      })"

text \<open>The walk of \<open>count_dir\<close>; it would not end for the direction \<open>(0, 0)\<close>.\<close>

partial_function (option) count_from :: "board \<Rightarrow> char \<Rightarrow> int \<Rightarrow> int \<Rightarrow> int \<Rightarrow> int \<Rightarrow> int \<Rightarrow> int option" where
  "count_from b symbol dr dc x y count =
     (if x \<ge> 0 \<and> x < bn b \<and> y \<ge> 0 \<and> y < bn b then do {
        c \<leftarrow> board_cell_const b x y;
        if c = symbol then count_from b symbol dr dc (x + dr) (y + dc) (count + 1) else Some count
      } else Some count)"

declare count_from.simps [code]

definition count_dir :: "board \<Rightarrow> move \<Rightarrow> int \<Rightarrow> int \<Rightarrow> int option" where
  "count_dir b mv dr dc = do {
     symbol \<leftarrow> board_cell_const b (mx mv) (my mv);
     count_from b symbol dr dc (mx mv + dr) (my mv + dc) 0
   }"

definition dirs :: "(int \<times> int) list" where
  "dirs = [(0, 1), (1, 0), (1, 1), (1, - 1)]"

fun is_win_from :: "board \<Rightarrow> move \<Rightarrow> (int \<times> int) list \<Rightarrow> int option" where
  "is_win_from b mv [] = Some 0"
| "is_win_from b mv ((dr, dc) # ds) = do {
     m \<leftarrow> count_dir b mv dr dc;
     m' \<leftarrow> count_dir b mv (- dr) (- dc);
     if 1 + m + m' \<ge> bk b then Some 1 else is_win_from b mv ds
   }"

definition is_win :: "board \<Rightarrow> move \<Rightarrow> int option" where
  "is_win b mv = is_win_from b mv dirs"

definition check_gamestate :: "board \<Rightarrow> move \<Rightarrow> result option" where
  "check_gamestate b mv = do {
     w \<leftarrow> is_win b mv;
     Some (if w \<noteq> 0 then WIN else if counter b = 0 then DRAW else UNFINISHED)
   }"

subsection \<open>The game loop\<close>

text \<open>
  What one call of \<open>fgets\<close> and \<open>sscanf\<close> gives: two numbers, a line that does not parse, or end of input.  The
  loop of \<open>main\<close> consumes a list of them, after which the input is at its end.  The board in the result is the one
  just before \<open>del_board\<close>.
\<close>

datatype input = Numbers int int | Garbage | Eof

datatype outcome = Aborted | Wins nat | Draw_game

definition num_player :: nat where "num_player = 2"

definition symbols :: "char list" where "symbols = [CHR ''X'', CHR ''O'']"

fun game :: "board \<Rightarrow> nat \<Rightarrow> input list \<Rightarrow> (outcome \<times> board) option" where
  "game b turn [] = Some (Aborted, b)"
| "game b turn (Eof # ins) = Some (Aborted, b)"
| "game b turn (Garbage # ins) = game b turn ins"
| "game b turn (Numbers x y # ins) =
     (let turn = (if turn \<ge> num_player then turn mod num_player else turn);
          mv = \<lparr>mx = x, my = y\<rparr> in do {
        symbol \<leftarrow> rd symbols turn;
        (ok, b) \<leftarrow> make_move mv b symbol;
        if ok = 0 then game b turn ins
        else do {
          res \<leftarrow> check_gamestate b mv;
          case res of
            WIN \<Rightarrow> Some (Wins turn, b)
          | DRAW \<Rightarrow> Some (Draw_game, b)
          | UNFINISHED \<Rightarrow> game b (turn + 1) ins
        }
      })"

subsection \<open>The command line\<close>

text \<open>
  \<open>strtol\<close> with base 10: white space, an optional sign, digits; the value saturates at the bounds of \<open>long\<close>.
  \<^const>\<open>None\<close> when there is no digit (then \<open>endptr == s\<close>), else the value and the rest.
\<close>

definition is_space :: "char \<Rightarrow> bool" where
  "is_space c \<longleftrightarrow> c \<in> set '' '' \<or> of_char c \<in> {9 :: nat .. 13}"

definition is_digit :: "char \<Rightarrow> bool" where
  "is_digit c \<longleftrightarrow> of_char c \<in> {48 :: nat .. 57}"

definition digits_val :: "string \<Rightarrow> int" where
  "digits_val ds = foldl (\<lambda>v c. 10 * v + (of_char c - 48)) 0 ds"

definition strtol :: "string \<Rightarrow> (int \<times> string) option" where
  "strtol s =
     (let s = dropWhile is_space s;
          neg = (s \<noteq> [] \<and> hd s = CHR ''-'');
          s = (if s \<noteq> [] \<and> (hd s = CHR ''-'' \<or> hd s = CHR ''+'') then tl s else s);
          ds = takeWhile is_digit s;
          v = (if neg then - digits_val ds else digits_val ds) in
      if ds = [] then None
      else Some (max (- (2 ^ 63)) (min (2 ^ 63 - 1) v), dropWhile is_digit s))"

definition parse_int :: "string \<Rightarrow> int \<Rightarrow> int \<Rightarrow> int option" where
  "parse_int s lo hi =
     (case strtol s of
        None \<Rightarrow> None
      | Some (v, rest) \<Rightarrow> if rest \<noteq> [] \<or> v < lo \<or> v > hi then None else Some v)"

text \<open>The board size and the win requirement, or \<^const>\<open>None\<close> for \<open>-1\<close>; \<open>args\<close> are \<open>argv[1]\<close>, \<open>argv[2]\<close>, \<dots>.\<close>

definition parse_input :: "string list \<Rightarrow> (int \<times> int) option" where
  "parse_input args =
     (if length args > 2 then None
      else do {
        n \<leftarrow> (if length args \<ge> 1 then parse_int (args ! 0) 3 MAX_BRD else Some 3);
        k \<leftarrow> (if length args = 2 then parse_int (args ! 1) 3 n else Some n);
        Some (n, k)
      })"

subsection \<open>The tests\<close>

fun place_all :: "board \<Rightarrow> move \<Rightarrow> (int \<times> int \<times> char) list \<Rightarrow> (move \<times> board) option" where
  "place_all b mv [] = Some (mv, b)"
| "place_all b mv ((x, y, c) # ms) = do {
     let mv = \<lparr>mx = x, my = y\<rparr>;
     (ok, b) \<leftarrow> make_move mv b c;
     c_assert (ok = 1);
     place_all b mv ms
   }"

definition new_board :: "board \<Rightarrow> int \<Rightarrow> int \<Rightarrow> board option" where
  "new_board b n k = do {
     (ok, b) \<leftarrow> set_board (Some (replicate (nat (n * n)) (CHR 0x00))) b n k;
     c_assert (ok = 1);
     Some b
   }"

definition play_case :: "int \<Rightarrow> int \<Rightarrow> (int \<times> int \<times> char) list \<Rightarrow> result \<Rightarrow> board \<Rightarrow> board option" where
  "play_case n k ms expected b = do {
     b \<leftarrow> new_board b n k;
     (mv, b) \<leftarrow> place_all b \<lparr>mx = 0, my = 0\<rparr> ms;
     res \<leftarrow> check_gamestate b mv;
     c_assert (res = expected);
     Some (del_board b)
   }"

abbreviation "X \<equiv> CHR ''X''"
abbreviation "O' \<equiv> CHR ''O''"

definition test_lines :: "board \<Rightarrow> board option" where
  "test_lines b = do {
     b \<leftarrow> play_case 3 3 [(0, 0, X), (0, 1, X), (0, 2, X)] WIN b;
     b \<leftarrow> play_case 3 3 [(0, 0, X), (1, 0, X), (2, 0, X)] WIN b;
     b \<leftarrow> play_case 3 3 [(0, 0, X), (1, 1, X), (2, 2, X)] WIN b;
     play_case 3 3 [(0, 2, X), (1, 1, X), (2, 0, X)] WIN b
   }"

definition test_other :: "board \<Rightarrow> board option" where
  "test_other b = do {
     b \<leftarrow> play_case 3 3 [(0, 1, O'), (0, 2, X), (1, 0, O'), (1, 1, X), (1, 2, X), (2, 0, O'), (2, 1, X), (2, 2, O'), (0, 0, X)]
       DRAW b;
     b \<leftarrow> play_case 3 3 [(0, 0, X), (0, 2, O'), (1, 1, X)] UNFINISHED b;
     b \<leftarrow> play_case 3 3 [(0, 1, X), (0, 2, O'), (0, 0, X)] UNFINISHED b;
     b \<leftarrow> play_case 4 4 [(0, 0, X), (0, 1, O'), (1, 1, X), (0, 2, O'), (2, 1, X), (3, 3, O'), (2, 2, X)] UNFINISHED b;
     play_case 5 5 [(0, 0, X), (0, 1, O'), (1, 1, X), (0, 2, O'), (2, 2, X), (0, 3, O'), (3, 3, X), (0, 4, O'), (4, 4, X)]
       WIN b
   }"

definition test_k :: "board \<Rightarrow> board option" where
  "test_k b = do {
     b \<leftarrow> play_case 5 3 [(1, 0, X), (2, 1, X), (3, 2, X)] WIN b;
     b \<leftarrow> play_case 5 3 [(0, 0, X), (0, 1, X)] UNFINISHED b;
     b \<leftarrow> new_board b 5 4;
     (mv, b) \<leftarrow> place_all b \<lparr>mx = 0, my = 0\<rparr> [(2, 0, X), (2, 1, X), (2, 3, X), (2, 4, X)];
     res \<leftarrow> check_gamestate b mv;
     c_assert (res = UNFINISHED);
     (mv, b) \<leftarrow> place_all b mv [(2, 2, X)];
     res \<leftarrow> check_gamestate b mv;
     c_assert (res = WIN);
     b \<leftarrow> play_case 5 3 [(0, 4, X), (1, 1, X), (1, 0, X)] UNFINISHED (del_board b);
     (ok, b) \<leftarrow> set_board None b 3 4;
     c_assert (ok = 0);
     (ok, b) \<leftarrow> set_board None b 5 2;
     c_assert (ok = 0);
     Some b
   }"

definition test_tictactoe :: "board \<Rightarrow> board option" where
  "test_tictactoe b = do {
     b \<leftarrow> test_lines b;
     b \<leftarrow> test_other b;
     test_k b
   }"

subsection \<open>The invariant\<close>

definition on_board :: "board \<Rightarrow> int \<Rightarrow> int \<Rightarrow> bool" where
  "on_board b x y \<longleftrightarrow> 0 \<le> x \<and> x < bn b \<and> 0 \<le> y \<and> y < bn b"

definition at :: "board \<Rightarrow> int \<Rightarrow> int \<Rightarrow> char" where
  "at b x y = the (cells b) ! nat (bn b * x + y)"

text \<open>The block has one cell per square.\<close>

definition sized :: "board \<Rightarrow> bool" where
  "sized b \<longleftrightarrow> 0 \<le> bn b \<and> (\<exists>cs. cells b = Some cs \<and> length cs = nat (bn b * bn b))"

definition board_inv :: "board \<Rightarrow> bool" where
  "board_inv b \<longleftrightarrow> 3 \<le> bk b \<and> bk b \<le> bn b \<and> bn b \<le> 25 \<and> sized b
     \<and> counter b = int (cnt (\<lambda>c. c = CHR ''-'') (the (cells b)))"

lemma index_bound:
  assumes "on_board b x y" and "sized b"
  shows "0 \<le> bn b * x + y" and "nat (bn b * x + y) < length (the (cells b))"
proof -
  have "bn b * x + y < bn b * (x + 1)" using assms(1) by (simp add: on_board_def algebra_simps)
  moreover have "bn b * (x + 1) \<le> bn b * bn b" using assms(1) by (intro mult_left_mono) (simp_all add: on_board_def)
  moreover show "0 \<le> bn b * x + y" using assms(1) by (simp add: on_board_def)
  ultimately show "nat (bn b * x + y) < length (the (cells b))" using assms(2) by (auto simp: sized_def)
qed

lemma index_inj:
  assumes "on_board b x y" and "on_board b x' y'" and "bn b * x + y = bn b * x' + y'"
  shows "x = x' \<and> y = y'"
proof -
  have "(bn b * x + y) div bn b = x" "(bn b * x' + y') div bn b = x'"
    using assms(1,2) by (simp_all add: on_board_def)
  with assms(3) show ?thesis by simp
qed

lemma board_cell_const_eq: "on_board b x y \<Longrightarrow> sized b \<Longrightarrow> board_cell_const b x y = Some (at b x y)"
  using index_bound [of b x y] by (auto simp: board_cell_const_def on_board_def at_def sized_def)

lemma board_cell_set_eq:
  "on_board b x y \<Longrightarrow> sized b \<Longrightarrow>
   board_cell_set b x y c = Some (b\<lparr>cells := Some ((the (cells b))[nat (bn b * x + y) := c])\<rparr>)"
  using index_bound [of b x y] by (auto simp: board_cell_set_def on_board_def sized_def)

lemma at_update:
  assumes "on_board b x y" and "on_board b x' y'" and "sized b"
  shows "at (b\<lparr>cells := Some ((the (cells b))[nat (bn b * x + y) := c])\<rparr>) x' y'
    = (if x' = x \<and> y' = y then c else at b x' y')"
proof -
  have "nat (bn b * x + y) = nat (bn b * x' + y') \<longleftrightarrow> x = x' \<and> y = y'"
    using index_inj [OF assms(1,2)] index_bound(1) [OF assms(1,3)] index_bound(1) [OF assms(2,3)] by auto
  then show ?thesis using index_bound(2) [OF assms(2,3)] by (auto simp: at_def nth_list_update)
qed

lemma sized_update [simp]:
  "sized (b\<lparr>counter := k\<rparr>) = sized b"
  "sized b \<Longrightarrow> sized (b\<lparr>cells := Some ((the (cells b))[i := c])\<rparr>)"
  by (auto simp: sized_def)

lemma on_board_update [simp]:
  "on_board (b\<lparr>cells := cs\<rparr>) = on_board b" "on_board (b\<lparr>counter := k\<rparr>) = on_board b"
  by (auto simp: on_board_def fun_eq_iff)

lemma at_counter [simp]: "at (b\<lparr>counter := k\<rparr>) = at b"
  by (auto simp: at_def fun_eq_iff)

subsection \<open>Setting up a board\<close>

lemma fill_row_eq:
  assumes "sized b" and "0 \<le> i" and "i < bn b" and "0 \<le> j" and "j \<le> bn b"
  shows "\<exists>cs. fill_row b i j = Some (b\<lparr>cells := Some cs\<rparr>) \<and> length cs = length (the (cells b))
    \<and> (\<forall>k < length cs. cs ! k = (if bn b * i + j \<le> int k \<and> int k < bn b * i + bn b then CHR ''-'' else the (cells b) ! k))"
  using assms
proof (induction "nat (bn b - j)" arbitrary: b j)
  case 0
  then show ?case by (auto simp: fill_row.simps sized_def intro!: exI [of _ "the (cells b)"])
next
  case (Suc m)
  then have on: "on_board b i j" by (simp add: on_board_def)
  let ?b = "b\<lparr>cells := Some ((the (cells b))[nat (bn b * i + j) := CHR ''-''])\<rparr>"
  have step: "fill_row b i j = fill_row ?b i (j + 1)"
    using on board_cell_set_eq [OF on Suc.prems(1)] by (subst fill_row.simps) (simp add: on_board_def)
  have "\<exists>cs. fill_row ?b i (j + 1) = Some (?b\<lparr>cells := Some cs\<rparr>) \<and> length cs = length (the (cells ?b))
    \<and> (\<forall>k < length cs. cs ! k = (if bn ?b * i + (j + 1) \<le> int k \<and> int k < bn ?b * i + bn ?b then CHR ''-'' else the (cells ?b) ! k))"
    by (rule Suc.hyps(1)) (use Suc.hyps(2) Suc.prems on in \<open>auto simp: on_board_def\<close>)
  then obtain cs where cs: "fill_row b i j = Some (b\<lparr>cells := Some cs\<rparr>)" "length cs = length (the (cells b))"
    "\<forall>k < length cs. cs ! k = (if bn b * i + (j + 1) \<le> int k \<and> int k < bn b * i + bn b then CHR ''-''
       else (the (cells b))[nat (bn b * i + j) := CHR ''-''] ! k)"
    unfolding step by auto
  have "cs ! k = (if bn b * i + j \<le> int k \<and> int k < bn b * i + bn b then CHR ''-'' else the (cells b) ! k)"
    if "k < length cs" for k
  proof -
    have "0 \<le> bn b * i" "j < bn b" "0 \<le> j" using on by (simp_all add: on_board_def)
    then show ?thesis using that cs(2,3) by (auto simp: nth_list_update)
  qed
  with cs(1,2) show ?case by blast
qed

lemma fill_eq:
  assumes "sized b" and "0 \<le> i" and "i \<le> bn b"
    and "\<forall>k < length (the (cells b)). int k < bn b * i \<longrightarrow> the (cells b) ! k = CHR ''-''"
  shows "fill b i = Some (b\<lparr>cells := Some (replicate (length (the (cells b))) (CHR ''-''))\<rparr>)"
  using assms
proof (induction "nat (bn b - i)" arbitrary: b i)
  case 0
  then have i: "i = bn b" by simp
  have "the (cells b) ! k = CHR ''-''" if "k < length (the (cells b))" for k
    using "0.prems" that i by (auto simp: sized_def)
  then have "the (cells b) = replicate (length (the (cells b))) (CHR ''-'')"
    by (simp add: list_eq_iff_nth_eq)
  then show ?case using i "0.prems"(1) by (auto simp: fill.simps sized_def)
next
  case (Suc m)
  then have i: "i < bn b" by simp
  obtain cs where cs: "fill_row b i 0 = Some (b\<lparr>cells := Some cs\<rparr>)" "length cs = length (the (cells b))"
    "\<forall>k < length cs. cs ! k = (if bn b * i + 0 \<le> int k \<and> int k < bn b * i + bn b then CHR ''-'' else the (cells b) ! k)"
    using fill_row_eq [OF Suc.prems(1,2) i, of 0] Suc.prems by auto
  let ?b = "b\<lparr>cells := Some cs\<rparr>"
  have "fill b i = fill ?b (i + 1)" using i cs(1) by (subst fill.simps) simp
  also have "\<dots> = Some (?b\<lparr>cells := Some (replicate (length (the (cells ?b))) (CHR ''-''))\<rparr>)"
  proof (rule Suc.hyps(1))
    show "\<forall>k < length (the (cells ?b)). int k < bn ?b * (i + 1) \<longrightarrow> the (cells ?b) ! k = CHR ''-''"
      using cs(2,3) Suc.prems(4) by (auto simp: algebra_simps)
  qed (use Suc.hyps(2) Suc.prems i cs(2) in \<open>auto simp: sized_def\<close>)
  finally show ?case using cs(2) by simp
qed

lemma sized_malloc:
  "0 \<le> n \<Longrightarrow> length cs = nat (n * n) \<Longrightarrow> sized (b\<lparr>bn := n, bk := k, counter := c, cells := Some cs\<rparr>)"
  by (simp add: sized_def)

lemma cnt_all: "cnt (\<lambda>c. c = x) (replicate n x) = n"
  by (simp add: cnt_def)

lemma set_board_eq:
  assumes "\<And>cs. mem = Some cs \<Longrightarrow> length cs = nat (n * n)"
  shows "set_board mem b n k = Some
    (if n < 3 \<or> n > 25 \<or> k < 3 \<or> k > n then (0, b\<lparr>cells := None\<rparr>)
     else if mem = None then (0, b\<lparr>bn := n, bk := k, counter := n * n, cells := None\<rparr>)
     else (1, b\<lparr>bn := n, bk := k, counter := n * n, cells := Some (replicate (nat (n * n)) (CHR ''-''))\<rparr>))"
proof (cases "(n < 3 \<or> n > 25 \<or> k < 3 \<or> k > n) \<or> mem = None")
  case True
  then show ?thesis by (auto simp: set_board_def MAX_BRD_def)
next
  case False
  then obtain cs where cs: "mem = Some cs" "length cs = nat (n * n)" using assms by auto
  let ?b = "b\<lparr>bn := n, bk := k, counter := n * n, cells := Some cs\<rparr>"
  have "fill ?b 0 = Some (?b\<lparr>cells := Some (replicate (length (the (cells ?b))) (CHR ''-''))\<rparr>)"
    by (rule fill_eq) (use False cs in \<open>auto intro: sized_malloc\<close>)
  then show ?thesis using False cs by (simp add: set_board_def MAX_BRD_def)
qed

lemma make_move_eq:
  assumes "sized b"
  shows "make_move mv b sb = Some
    (if \<not> on_board b (mx mv) (my mv) \<or> at b (mx mv) (my mv) \<noteq> CHR ''-'' then (0, b)
     else (1, b\<lparr>cells := Some ((the (cells b))[nat (bn b * mx mv + my mv) := sb]), counter := counter b - 1\<rparr>))"
proof (cases "on_board b (mx mv) (my mv)")
  case True
  then show ?thesis
    using board_cell_const_eq [OF True assms] board_cell_set_eq [OF True assms]
    by (auto simp: make_move_def on_board_def)
next
  case False
  then show ?thesis by (auto simp: make_move_def on_board_def)
qed

lemma make_move_inv:
  assumes inv: "board_inv b" and sb: "sb \<noteq> CHR ''-''" and mv: "make_move mv b sb = Some (1, b')"
  shows "board_inv b' \<and> on_board b' (mx mv) (my mv) \<and> at b' (mx mv) (my mv) = sb \<and> counter b' = counter b - 1
    \<and> bn b' = bn b \<and> bk b' = bk b"
proof -
  have sz: "sized b" using inv by (simp add: board_inv_def)
  have on: "on_board b (mx mv) (my mv)" and free: "at b (mx mv) (my mv) = CHR ''-''"
    and b': "b' = b\<lparr>cells := Some ((the (cells b))[nat (bn b * mx mv + my mv) := sb]), counter := counter b - 1\<rparr>"
    using mv by (auto simp: make_move_eq [OF sz] split: if_splits)
  have "cnt (\<lambda>c. c = CHR ''-'') ((the (cells b))[nat (bn b * mx mv + my mv) := sb]) + 1
      = cnt (\<lambda>c. c = CHR ''-'') (the (cells b))"
    using cnt_update [OF index_bound(2) [OF on sz], of "\<lambda>c. c = CHR ''-''" sb] free sb by (simp add: at_def)
  then have "counter b' = int (cnt (\<lambda>c. c = CHR ''-'') (the (cells b')))"
    using inv by (simp add: b' board_inv_def)
  moreover have "sized b'" using sz by (simp add: b')
  ultimately show ?thesis using inv on at_update [OF on on sz] by (simp add: board_inv_def b')
qed

subsection \<open>The win test\<close>

text \<open>Square \<open>(x, y)\<close> is on the board and carries the mark \<open>c\<close>.\<close>

definition marked :: "board \<Rightarrow> char \<Rightarrow> int \<Rightarrow> int \<Rightarrow> bool" where
  "marked b c x y \<longleftrightarrow> on_board b x y \<and> at b x y = c"

definition to_edge :: "board \<Rightarrow> int \<Rightarrow> int \<Rightarrow> int \<Rightarrow> int \<Rightarrow> nat" where
  "to_edge b dr dc x y = nat (if 0 < dr then bn b - x else if dr < 0 then x + 1
     else if 0 < dc then bn b - y else y + 1)"

lemma to_edge_less:
  "(dr, dc) \<noteq> (0, 0) \<Longrightarrow> on_board b x y \<Longrightarrow> to_edge b dr dc (x + dr) (y + dc) < to_edge b dr dc x y"
  by (auto simp: to_edge_def on_board_def)

lemma count_from_eq:
  assumes "sized b" and "(dr, dc) \<noteq> (0, 0)"
  shows "\<exists>m. count_from b c dr dc x y k = Some (k + int m)
    \<and> (\<forall>j < m. marked b c (x + int j * dr) (y + int j * dc))
    \<and> \<not> marked b c (x + int m * dr) (y + int m * dc)"
proof (induction "to_edge b dr dc x y" arbitrary: x y k rule: less_induct)
  case less
  show ?case
  proof (cases "marked b c x y")
    case False
    then have "count_from b c dr dc x y k = Some k"
      using board_cell_const_eq [OF _ assms(1), of x y]
      by (subst count_from.simps) (auto simp: marked_def on_board_def)
    with False show ?thesis by (intro exI [of _ 0]) simp
  next
    case True
    then have on: "on_board b x y" "at b x y = c" by (simp_all add: marked_def)
    have step: "count_from b c dr dc x y k = count_from b c dr dc (x + dr) (y + dc) (k + 1)"
      using board_cell_const_eq [OF on(1) assms(1)] on by (subst count_from.simps) (simp add: on_board_def)
    obtain m where m: "count_from b c dr dc (x + dr) (y + dc) (k + 1) = Some (k + 1 + int m)"
      "\<forall>j < m. marked b c (x + dr + int j * dr) (y + dc + int j * dc)"
      "\<not> marked b c (x + dr + int m * dr) (y + dc + int m * dc)"
      using less.hyps [OF to_edge_less [OF assms(2) on(1)]] by blast
    have shift: "x + dr + int j * dr = x + int (Suc j) * dr" "y + dc + int j * dc = y + int (Suc j) * dc" for j
      by (simp_all add: algebra_simps)
    have "marked b c (x + int j * dr) (y + int j * dc)" if "j < Suc m" for j
      using that True m(2) unfolding shift by (cases j) auto
    then show ?thesis using step m(1,3) unfolding shift by (intro exI [of _ "Suc m"]) simp
  qed
qed

text \<open>A line of \<open>k\<close> squares in direction \<open>(dr, dc)\<close> through \<open>(x, y)\<close>, all with mark \<open>c\<close>.\<close>

definition line_through :: "board \<Rightarrow> char \<Rightarrow> int \<Rightarrow> int \<Rightarrow> int \<times> int \<Rightarrow> int \<Rightarrow> bool" where
  "line_through b c x y d k \<longleftrightarrow> (\<exists>a. 0 \<le> a \<and> a < k
     \<and> (\<forall>t. 0 \<le> t \<longrightarrow> t < k \<longrightarrow> marked b c (x + (t - a) * fst d) (y + (t - a) * snd d)))"

lemma count_dir_eq:
  assumes "sized b" and "on_board b (mx mv) (my mv)" and "(dr, dc) \<noteq> (0, 0)"
  shows "\<exists>m. count_dir b mv dr dc = Some (int m)
    \<and> (\<forall>j. 1 \<le> j \<longrightarrow> j \<le> int m \<longrightarrow> marked b (at b (mx mv) (my mv)) (mx mv + j * dr) (my mv + j * dc))
    \<and> \<not> marked b (at b (mx mv) (my mv)) (mx mv + (int m + 1) * dr) (my mv + (int m + 1) * dc)"
proof -
  obtain m where m: "count_from b (at b (mx mv) (my mv)) dr dc (mx mv + dr) (my mv + dc) 0 = Some (int m)"
    "\<forall>j < m. marked b (at b (mx mv) (my mv)) (mx mv + dr + int j * dr) (my mv + dc + int j * dc)"
    "\<not> marked b (at b (mx mv) (my mv)) (mx mv + dr + int m * dr) (my mv + dc + int m * dc)"
    using count_from_eq [OF assms(1,3), of "at b (mx mv) (my mv)" "mx mv + dr" "my mv + dc" 0] by auto
  have "marked b (at b (mx mv) (my mv)) (mx mv + j * dr) (my mv + j * dc)" if "1 \<le> j" "j \<le> int m" for j
    using m(2) [rule_format, of "nat (j - 1)"] that by (simp add: algebra_simps)
  moreover have "count_dir b mv dr dc = Some (int m)"
    using board_cell_const_eq [OF assms(2,1)] m(1) by (simp add: count_dir_def)
  ultimately show ?thesis using m(3) by (intro exI [of _ m]) (simp add: algebra_simps)
qed

text \<open>Two runs that meet at the move make a line exactly when they are long enough together.\<close>

lemma runs_line:
  assumes "0 < k" and "marked b c x y"
    and "\<forall>j. 1 \<le> j \<longrightarrow> j \<le> int m \<longrightarrow> marked b c (x + j * dr) (y + j * dc)"
    and "\<not> marked b c (x + (int m + 1) * dr) (y + (int m + 1) * dc)"
    and "\<forall>j. 1 \<le> j \<longrightarrow> j \<le> int m' \<longrightarrow> marked b c (x + j * - dr) (y + j * - dc)"
    and "\<not> marked b c (x + (int m' + 1) * - dr) (y + (int m' + 1) * - dc)"
  shows "1 + int m + int m' \<ge> k \<longleftrightarrow> line_through b c x y (dr, dc) k"
proof
  assume long: "1 + int m + int m' \<ge> k"
  define a where "a = min (int m') (k - 1)"
  have "marked b c (x + (t - a) * dr) (y + (t - a) * dc)" if t: "0 \<le> t" "t < k" for t
  proof (cases "t - a" "0 :: int" rule: linorder_cases)
    case less
    then show ?thesis using assms(5) [rule_format, of "a - t"] t by (simp add: a_def algebra_simps)
  next
    case equal
    then show ?thesis using assms(2) by simp
  next
    case greater
    then show ?thesis using assms(3) [rule_format, of "t - a"] t long by (simp add: a_def min_def split: if_splits)
  qed
  then show "line_through b c x y (dr, dc) k"
    unfolding line_through_def using assms(1) by (intro exI [of _ a]) (simp add: a_def)
next
  assume "line_through b c x y (dr, dc) k"
  then obtain a where a: "0 \<le> a" "a < k" "\<And>t. 0 \<le> t \<Longrightarrow> t < k \<Longrightarrow> marked b c (x + (t - a) * dr) (y + (t - a) * dc)"
    unfolding line_through_def by auto
  have "k - 1 - a \<le> int m"
  proof (rule ccontr)
    assume "\<not> k - 1 - a \<le> int m"
    with a(3) [of "a + int m + 1"] a(1,2) assms(4) show False by simp
  qed
  moreover have "a \<le> int m'"
  proof (rule ccontr)
    assume "\<not> a \<le> int m'"
    with a(3) [of "a - int m' - 1"] a(1,2) assms(6) show False by (simp add: algebra_simps)
  qed
  ultimately show "1 + int m + int m' \<ge> k" by simp
qed

lemma is_win_from_eq:
  assumes "sized b" and "on_board b (mx mv) (my mv)" and "0 < bk b" and "(0, 0) \<notin> set ds"
  shows "is_win_from b mv ds = Some
    (if \<exists>d \<in> set ds. line_through b (at b (mx mv) (my mv)) (mx mv) (my mv) d (bk b) then 1 else 0)"
  using assms(4)
proof (induction ds)
  case (Cons d ds)
  obtain dr dc where d: "d = (dr, dc)" by fastforce
  have nz: "(dr, dc) \<noteq> (0, 0)" "(- dr, - dc) \<noteq> (0, 0)" using Cons.prems d by auto
  obtain m m' where m: "count_dir b mv dr dc = Some (int m)" "count_dir b mv (- dr) (- dc) = Some (int m')"
    and "1 + int m + int m' \<ge> bk b \<longleftrightarrow> line_through b (at b (mx mv) (my mv)) (mx mv) (my mv) (dr, dc) (bk b)"
  proof -
    obtain m where m: "count_dir b mv dr dc = Some (int m)"
      "\<forall>j. 1 \<le> j \<longrightarrow> j \<le> int m \<longrightarrow> marked b (at b (mx mv) (my mv)) (mx mv + j * dr) (my mv + j * dc)"
      "\<not> marked b (at b (mx mv) (my mv)) (mx mv + (int m + 1) * dr) (my mv + (int m + 1) * dc)"
      using count_dir_eq [OF assms(1,2) nz(1)] by blast
    obtain m' where m': "count_dir b mv (- dr) (- dc) = Some (int m')"
      "\<forall>j. 1 \<le> j \<longrightarrow> j \<le> int m' \<longrightarrow> marked b (at b (mx mv) (my mv)) (mx mv + j * - dr) (my mv + j * - dc)"
      "\<not> marked b (at b (mx mv) (my mv)) (mx mv + (int m' + 1) * - dr) (my mv + (int m' + 1) * - dc)"
      using count_dir_eq [OF assms(1,2) nz(2)] by blast
    have "marked b (at b (mx mv) (my mv)) (mx mv) (my mv)" using assms(2) by (simp add: marked_def)
    from that [OF m(1) m'(1) runs_line [OF assms(3) this m(2,3) m'(2,3)]] show ?thesis .
  qed
  then show ?case using Cons d by auto
qed simp

lemma is_win_eq:
  assumes "board_inv b" and "on_board b (mx mv) (my mv)"
  shows "is_win b mv = Some
    (if \<exists>d \<in> set dirs. line_through b (at b (mx mv) (my mv)) (mx mv) (my mv) d (bk b) then 1 else 0)"
  using is_win_from_eq [OF _ assms(2), of dirs] assms(1) by (auto simp: is_win_def board_inv_def dirs_def)

subsection \<open>Whole games\<close>

text \<open>Nobody has \<open>k\<close> in a row anywhere.\<close>

definition no_line :: "board \<Rightarrow> bool" where
  "no_line b \<longleftrightarrow> (\<forall>c x y. c \<noteq> CHR ''-'' \<longrightarrow> (\<forall>d \<in> set dirs. \<not> line_through b c x y d (bk b)))"

lemma move_marked:
  assumes "sized b" and "make_move mv b sb = Some (1, b')" and "(x, y) \<noteq> (mx mv, my mv)"
  shows "marked b' c x y = marked b c x y"
proof -
  have on: "on_board b (mx mv) (my mv)"
    and b': "b' = b\<lparr>cells := Some ((the (cells b))[nat (bn b * mx mv + my mv) := sb]), counter := counter b - 1\<rparr>"
    using assms(2) by (auto simp: make_move_eq [OF assms(1)] split: if_splits)
  show ?thesis
  proof (cases "on_board b x y")
    case True
    with at_update [OF on True assms(1)] assms(3) show ?thesis by (auto simp: marked_def b')
  qed (simp add: marked_def b')
qed

lemma no_line_move:
  assumes inv: "board_inv b" and sb: "sb \<noteq> CHR ''-''" and mv: "make_move mv b sb = Some (1, b')"
    and old: "no_line b" and new: "\<not> (\<exists>d \<in> set dirs. line_through b' sb (mx mv) (my mv) d (bk b'))"
  shows "no_line b'"
  unfolding no_line_def
proof (intro allI impI ballI notI)
  fix c x y d
  assume c: "c \<noteq> CHR ''-''" and d: "d \<in> set dirs" and "line_through b' c x y d (bk b')"
  then obtain a where a: "0 \<le> a" "a < bk b'"
    "\<And>t. 0 \<le> t \<Longrightarrow> t < bk b' \<Longrightarrow> marked b' c (x + (t - a) * fst d) (y + (t - a) * snd d)"
    unfolding line_through_def by auto
  note m = make_move_inv [OF inv sb mv]
  show False
  proof (cases "\<exists>t. 0 \<le> t \<and> t < bk b' \<and> x + (t - a) * fst d = mx mv \<and> y + (t - a) * snd d = my mv")
    case True
    then obtain t0 where t0: "0 \<le> t0" "t0 < bk b'" "mx mv = x + (t0 - a) * fst d" "my mv = y + (t0 - a) * snd d" by auto
    have "c = sb" using a(3) [OF t0(1,2)] t0(3,4) m by (simp add: marked_def)
    moreover have "marked b' c (mx mv + (t - t0) * fst d) (my mv + (t - t0) * snd d)" if "0 \<le> t" "t < bk b'" for t
      using a(3) [OF that] unfolding t0(3,4) by (simp add: algebra_simps)
    ultimately have "line_through b' sb (mx mv) (my mv) d (bk b')"
      unfolding line_through_def using t0(1,2) by blast
    with new d show False by blast
  next
    case False
    have "sized b" using inv by (simp add: board_inv_def)
    then have "marked b c (x + (t - a) * fst d) (y + (t - a) * snd d)" if "0 \<le> t" "t < bk b'" for t
      using a(3) [OF that] move_marked [OF _ mv] False that by auto
    then have "line_through b c x y d (bk b)" unfolding line_through_def using a(1,2) m by auto
    with old c d show False by (simp add: no_line_def)
  qed
qed

text \<open>What the result of a game says about the final board.\<close>

fun outcome_ok :: "outcome \<Rightarrow> board \<Rightarrow> bool" where
  "outcome_ok Aborted b \<longleftrightarrow> no_line b"
| "outcome_ok (Wins p) b \<longleftrightarrow> p < 2 \<and> (\<exists>x y. \<exists>d \<in> set dirs. line_through b (symbols ! p) x y d (bk b))"
| "outcome_ok Draw_game b \<longleftrightarrow> CHR ''-'' \<notin> set (the (cells b)) \<and> no_line b"

lemma symbols_not_free: "t < 2 \<Longrightarrow> symbols ! t \<noteq> CHR ''-''"
  by (auto simp: symbols_def less_2_cases_iff)

lemma check_gamestate_eq:
  assumes "board_inv b" and "on_board b (mx mv) (my mv)"
  shows "check_gamestate b mv = Some
    (if \<exists>d \<in> set dirs. line_through b (at b (mx mv) (my mv)) (mx mv) (my mv) d (bk b) then WIN
     else if CHR ''-'' \<notin> set (the (cells b)) then DRAW else UNFINISHED)"
proof -
  have "counter b = 0 \<longleftrightarrow> CHR ''-'' \<notin> set (the (cells b))"
    using assms(1) by (auto simp: board_inv_def cnt_def filter_empty_conv)
  then show ?thesis by (simp add: check_gamestate_def is_win_eq [OF assms])
qed

lemma game_ok:
  assumes "board_inv b" and "no_line b"
  shows "\<exists>out b'. game b turn ins = Some (out, b') \<and> board_inv b' \<and> outcome_ok out b'"
  using assms
proof (induction b turn ins rule: game.induct)
  case (4 b turn x y ins)
  define t where "t = (if turn \<ge> num_player then turn mod num_player else turn)"
  define mv where "mv = \<lparr>mx = x, my = y\<rparr>"
  have t: "t < 2" by (simp add: t_def num_player_def)
  then have sy: "rd symbols t = Some (symbols ! t)" by (simp add: symbols_def)
  have sz: "sized b" using "4.prems"(1) by (simp add: board_inv_def)
  obtain ok b1 where mk: "make_move mv b (symbols ! t) = Some (ok, b1)" and ok: "ok = 0 \<and> b1 = b \<or> ok = 1"
    using make_move_eq [OF sz, of mv "symbols ! t"] by (auto split: if_splits)
  note IH = "4.IH" [OF t_def mv_def sy, of "(ok, b1)" ok b1, OF mk refl]
  show ?case
  proof (cases "ok = 0")
    case True
    then have "game b turn (Numbers x y # ins) = game b t ins"
      using ok mk sy by (simp add: t_def [symmetric] mv_def [symmetric] Let_def)
    with IH(1) [OF True] "4.prems" ok True show ?thesis by simp
  next
    case False
    then have ok1: "ok = 1" using ok by blast
    note m = make_move_inv [OF "4.prems"(1) symbols_not_free [OF t] mk [unfolded ok1]]
    then have inv1: "board_inv b1" and on1: "on_board b1 (mx mv) (my mv)" by blast+
    obtain res where res: "check_gamestate b1 mv = Some res" using check_gamestate_eq [OF inv1 on1] by blast
    have g: "game b turn (Numbers x y # ins) = (case res of WIN \<Rightarrow> Some (Wins t, b1) | DRAW \<Rightarrow> Some (Draw_game, b1)
        | UNFINISHED \<Rightarrow> game b1 (t + 1) ins)"
      using ok1 mk sy res by (cases res) (simp_all add: t_def [symmetric] mv_def [symmetric] Let_def)
    have nl: "no_line b1" if "res \<noteq> WIN"
      using that res no_line_move [OF "4.prems"(1) symbols_not_free [OF t] mk [unfolded ok1] "4.prems"(2)]
        m check_gamestate_eq [OF inv1 on1] by (auto split: if_splits)
    show ?thesis
    proof (cases res)
      case UNFINISHED
      with IH(2) [OF False res] inv1 nl g show ?thesis by simp
    next
      case WIN
      then have "\<exists>d \<in> set dirs. line_through b1 (symbols ! t) (mx mv) (my mv) d (bk b1)"
        using res check_gamestate_eq [OF inv1 on1] m by (auto split: if_splits)
      with WIN g inv1 t show ?thesis by auto
    next
      case DRAW
      then have "CHR ''-'' \<notin> set (the (cells b1))"
        using res check_gamestate_eq [OF inv1 on1] by (auto split: if_splits)
      with DRAW g inv1 nl show ?thesis by simp
    qed
  qed
qed auto

lemma board_inv_new:
  assumes "3 \<le> k" and "k \<le> n" and "n \<le> 25"
  shows "board_inv (b\<lparr>bn := n, bk := k, counter := n * n, cells := Some (replicate (nat (n * n)) (CHR ''-''))\<rparr>)"
  using assms by (simp add: board_inv_def sized_def cnt_all)

lemma empty_no_line:
  assumes "sized b" and "the (cells b) = replicate m (CHR ''-'')" and "0 < bk b"
  shows "no_line b"
  unfolding no_line_def line_through_def
proof (intro allI impI ballI notI)
  fix c x y d
  assume c: "c \<noteq> CHR ''-''" and "\<exists>a\<ge>0. a < bk b \<and> (\<forall>t\<ge>0. t < bk b \<longrightarrow> marked b c (x + (t - a) * fst d) (y + (t - a) * snd d))"
  then obtain x' y' where m: "marked b c x' y'" using assms(3) by blast
  then have "on_board b x' y'" by (simp add: marked_def)
  from index_bound(2) [OF this assms(1)] m c assms(2) show False by (simp add: marked_def at_def)
qed

lemma parse_int_range: "parse_int s lo hi = Some v \<Longrightarrow> lo \<le> v \<and> v \<le> hi"
  by (auto simp: parse_int_def split: option.splits if_splits)

lemma parse_input_range: "parse_input args = Some (n, k) \<Longrightarrow> 3 \<le> k \<and> k \<le> n \<and> n \<le> 25"
  by (auto simp: parse_input_def MAX_BRD_def Option.bind_eq_Some_conv split: if_splits dest!: parse_int_range)

text \<open>A valid \<open>set_board\<close> overwrites the whole structure.\<close>

lemma play_case_any: "3 \<le> k \<Longrightarrow> k \<le> n \<Longrightarrow> n \<le> 25 \<Longrightarrow> play_case n k ms e b = play_case n k ms e b'"
  by (cases b; cases b') (simp add: play_case_def new_board_def set_board_def MAX_BRD_def)

subsection \<open>Properties\<close>

text \<open>
  C5: The win test is right: for a move on the board \<open>is_win\<close> returns 1 exactly when there are \<open>k\<close> squares in a
  row, column, diagonal or anti-diagonal, all on the board, all with the mark of the move and
  one of them the move itself; it always returns and never leaves the board.
\<close>

theorem is_win_iff_line:
  assumes "board_inv b" and "on_board b (mx mv) (my mv)"
  shows "is_win b mv = Some
    (if \<exists>(dr, dc) \<in> {(0, 1), (1, 0), (1, 1), (1, - 1)}. \<exists>a. 0 \<le> a \<and> a < bk b
        \<and> (\<forall>t. 0 \<le> t \<longrightarrow> t < bk b \<longrightarrow> on_board b (mx mv + (t - a) * dr) (my mv + (t - a) * dc)
             \<and> at b (mx mv + (t - a) * dr) (my mv + (t - a) * dc) = at b (mx mv) (my mv))
     then 1 else 0)"
  unfolding is_win_eq [OF assms] line_through_def marked_def dirs_def by (simp add: split_beta)

definition row_board :: board where
  "row_board = \<lparr>bn = 3, bk = 3, counter = 6, cells = Some ''XXX------''\<rparr>"

lemma board_inv_row: "board_inv row_board"
  by (simp add: board_inv_def row_board_def sized_def)

lemma row_marks:
  assumes "0 \<le> t" and "t < bk row_board"
  shows "on_board row_board (0 + (t - 1) * 0) (1 + (t - 1) * 1) \<and> at row_board (0 + (t - 1) * 0) (1 + (t - 1) * 1) = at row_board 0 1"
proof -
  have "t < 3" using assms(2) by (simp add: row_board_def)
  then consider "t = 0" | "t = 1" | "t = 2" using assms(1) by linarith
  then show ?thesis by cases (simp_all add: on_board_def at_def row_board_def)
qed

theorem is_win_iff_line_witness:
  "is_win row_board \<lparr>mx = 0, my = 1\<rparr> = Some 1"
proof -
  have "on_board row_board (mx \<lparr>mx = 0, my = 1\<rparr>) (my \<lparr>mx = 0, my = 1\<rparr>)" by (simp add: on_board_def row_board_def)
  note w = is_win_iff_line [OF board_inv_row this, unfolded move.select_convs]
  have "\<exists>(dr, dc) \<in> {(0, 1), (1, 0), (1, 1), (1, - 1)}. \<exists>a. 0 \<le> a \<and> a < bk row_board
        \<and> (\<forall>t. 0 \<le> t \<longrightarrow> t < bk row_board \<longrightarrow> on_board row_board (0 + (t - a) * dr) (1 + (t - a) * dc)
             \<and> at row_board (0 + (t - a) * dr) (1 + (t - a) * dc) = at row_board 0 1)"
  proof (rule bexI [of _ "(0, 1)"], unfold prod.case, rule exI [of _ 1], intro conjI)
    show "1 < bk row_board" by (simp add: row_board_def)
    show "\<forall>t. 0 \<le> t \<longrightarrow> t < bk row_board \<longrightarrow> on_board row_board (0 + (t - 1) * 0) (1 + (t - 1) * 1)
       \<and> at row_board (0 + (t - 1) * 0) (1 + (t - 1) * 1) = at row_board 0 1"
      by (intro allI impI) (rule row_marks)
  qed simp_all
  with w show ?thesis by (simp only: if_True)
qed

text \<open>
  On every branch \<open>make_move\<close> does what it says: a move off the board or on a taken square returns 0 and
  changes nothing; any other move returns 1, writes exactly that square, and decrements the
  counter, which stays the number of free squares.
\<close>

theorem make_move_result:
  assumes "board_inv b" and "sb \<noteq> CHR ''-''"
  shows "\<exists>b'. make_move mv b sb = Some (if on_board b (mx mv) (my mv) \<and> at b (mx mv) (my mv) = CHR ''-'' then 1 else 0, b')
    \<and> board_inv b'
    \<and> (\<not> (on_board b (mx mv) (my mv) \<and> at b (mx mv) (my mv) = CHR ''-'') \<longrightarrow> b' = b)
    \<and> (on_board b (mx mv) (my mv) \<and> at b (mx mv) (my mv) = CHR ''-'' \<longrightarrow> counter b' = counter b - 1
        \<and> (\<forall>x y. on_board b x y \<longrightarrow> at b' x y = (if x = mx mv \<and> y = my mv then sb else at b x y)))"
proof (cases "on_board b (mx mv) (my mv) \<and> at b (mx mv) (my mv) = CHR ''-''")
  case False
  have sz: "sized b" using assms(1) by (simp add: board_inv_def)
  show ?thesis using False assms(1) make_move_eq [OF sz, of mv sb] by auto
next
  case True
  have sz: "sized b" using assms(1) by (simp add: board_inv_def)
  let ?b = "b\<lparr>cells := Some ((the (cells b))[nat (bn b * mx mv + my mv) := sb]), counter := counter b - 1\<rparr>"
  have mk: "make_move mv b sb = Some (1, ?b)" using True by (simp add: make_move_eq [OF sz])
  have "at ?b x y = (if x = mx mv \<and> y = my mv then sb else at b x y)" if "on_board b x y" for x y
    using at_update [OF conjunct1 [OF True] that sz, of sb] by simp
  then show ?thesis using mk make_move_inv [OF assms mk] True by (intro exI [of _ ?b]) auto
qed

theorem make_move_result_witness:
  "\<exists>b'. make_move \<lparr>mx = 1, my = 0\<rparr> row_board (CHR ''O'') = Some (1, b') \<and> board_inv b' \<and> counter b' = 5"
proof -
  have f: "on_board row_board 1 0 \<and> at row_board 1 0 = CHR ''-''" by (simp add: on_board_def at_def row_board_def)
  have "CHR ''O'' \<noteq> CHR ''-''" by simp
  from make_move_result [OF board_inv_row this, of "\<lparr>mx = 1, my = 0\<rparr>"] f show ?thesis
    by (auto simp: row_board_def)
qed

text \<open>
  \<open>set_board\<close> accepts exactly the boards with \<open>3 \<le> k \<le> n \<le> 25\<close> (when memory is available), leaves no
  uninitialised square (whatever the allocated block contained) and establishes the
  invariant; the command line parser only produces such sizes.
\<close>

theorem set_board_result:
  assumes "\<And>cs. mem = Some cs \<Longrightarrow> length cs = nat (n * n)"
  shows "\<exists>b'. set_board mem b n k = Some (if 3 \<le> k \<and> k \<le> n \<and> n \<le> 25 \<and> mem \<noteq> None then 1 else 0, b')
    \<and> (3 \<le> k \<and> k \<le> n \<and> n \<le> 25 \<and> mem \<noteq> None \<longrightarrow> board_inv b' \<and> no_line b' \<and> bn b' = n \<and> bk b' = k
          \<and> cells b' = Some (replicate (nat (n * n)) (CHR ''-'')))
    \<and> (\<not> (3 \<le> k \<and> k \<le> n \<and> n \<le> 25 \<and> mem \<noteq> None) \<longrightarrow> cells b' = None)
    \<and> (\<forall>args. parse_input args = Some (n, k) \<longrightarrow> 3 \<le> k \<and> k \<le> n \<and> n \<le> 25)"
proof -
  have p: "\<forall>args. parse_input args = Some (n, k) \<longrightarrow> 3 \<le> k \<and> k \<le> n \<and> n \<le> 25"
    using parse_input_range by blast
  show ?thesis
  proof (cases "3 \<le> k \<and> k \<le> n \<and> n \<le> 25 \<and> mem \<noteq> None")
    case True
    let ?b = "b\<lparr>bn := n, bk := k, counter := n * n, cells := Some (replicate (nat (n * n)) (CHR ''-''))\<rparr>"
    have "set_board mem b n k = Some (1, ?b)" using True by (auto simp: set_board_eq [OF assms])
    moreover have "board_inv ?b" using True by (intro board_inv_new) auto
    moreover from this have "no_line ?b" using True by (intro empty_no_line [of _ "nat (n * n)"]) (auto simp: board_inv_def)
    ultimately show ?thesis using True p by (intro exI [of _ ?b]) simp
  next
    case False
    then show ?thesis using p by (auto simp: set_board_eq [OF assms])
  qed
qed

theorem set_board_result_witness:
  "\<exists>b'. set_board (Some ''????????????????'') row_board 4 3 = Some (1, b') \<and> board_inv b' \<and> no_line b'"
  using set_board_result [of "Some ''????????????????''" 4 row_board 3] by auto

text \<open>
  C17: A whole game, for any sequence of input lines, never fails an assertion or leaves the board, and its
  result is right: a player is declared the winner only with \<open>k\<close> of his own marks in a row,
  a draw is declared only on a full board where nobody has \<open>k\<close> in a row, and a game is left
  unfinished (by the end of the input) only when nobody has.
\<close>

theorem game_result_right:
  assumes "board_inv b" and "no_line b"
  shows "\<exists>out b'. game b turn ins = Some (out, b') \<and> board_inv b'
    \<and> (\<forall>p. out = Wins p \<longrightarrow> p < 2 \<and> (\<exists>x y. \<exists>d \<in> set dirs. line_through b' (symbols ! p) x y d (bk b')))
    \<and> (out = Draw_game \<longrightarrow> CHR ''-'' \<notin> set (the (cells b')) \<and> no_line b')
    \<and> (out = Aborted \<longrightarrow> no_line b')"
  using game_ok [OF assms, of turn ins] by (elim exE conjE) (rename_tac out b', case_tac out, auto)

definition empty3 :: board where
  "empty3 = \<lparr>bn = 3, bk = 3, counter = 9, cells = Some (replicate 9 (CHR ''-''))\<rparr>"

theorem game_result_right_witness:
  "\<exists>out b'. game empty3 0 [Numbers 0 0, Garbage, Numbers 0 0, Numbers 7 7] = Some (out, b') \<and> board_inv b'"
proof -
  have inv: "board_inv empty3" by (simp add: empty3_def board_inv_def sized_def cnt_all)
  have "no_line empty3" by (rule empty_no_line [of _ 9]) (simp_all add: empty3_def sized_def)
  from game_result_right [OF inv this, of 0 "[Numbers 0 0, Garbage, Numbers 0 0, Numbers 7 7]"] show ?thesis by blast
qed

text \<open>
  Every assertion of the program's own test holds, whatever the board variable contained before.
\<close>

theorem test_tictactoe_passes:
  "test_tictactoe b = Some \<lparr>bn = 5, bk = 3, counter = 22, cells = None\<rparr>"
proof -
  let ?b0 = "\<lparr>bn = 0, bk = 0, counter = 0, cells = None\<rparr>"
  have "test_tictactoe b = test_tictactoe ?b0"
    using play_case_any [of 3 3 _ _ b ?b0] by (simp add: test_tictactoe_def test_lines_def)
  also have "\<dots> = Some \<lparr>bn = 5, bk = 3, counter = 22, cells = None\<rparr>" by code_simp
  finally show ?thesis .
qed

end
