(* ===== verification/Ttt_Main.thy ===== *)
theory Ttt_Main
  imports Tic_Tac_Toe
begin

text \<open>
  The rest of \<open>Interview/builds/01-tictactoe/tictactoe.c\<close>: the players, the text of the board, and \<open>main\<close> from the command line to the exit
  status.  \<open>printf\<close> is the text it adds to the output.  \<open>main\<close> takes the arguments after the program name, the block \<open>malloc\<close>
  returns for the board, the uninitialised board variables of the test and of \<open>main\<close>, and the input lines as \<open>game\<close> takes them.
\<close>

definition MAX_USR :: nat where "MAX_USR = 2"

definition names :: "string list" where
  "names = [''player1'', ''player2'']"

record player =
  pname :: string
  psymbol :: char

text \<open>\<open>strcpy\<close> into the 128 bytes of \<open>name\<close>, with room for the terminating zero.\<close>

definition strcpy_name :: "string \<Rightarrow> string option" where
  "strcpy_name s = (if length s < 128 then Some s else None)"

primrec set_players_from :: "nat \<Rightarrow> nat \<Rightarrow> player list \<Rightarrow> player list option" where
  "set_players_from 0 i ps = Some ps"
| "set_players_from (Suc m) i ps = do {
     s \<leftarrow> rd names i;
     s \<leftarrow> strcpy_name s;
     c \<leftarrow> rd symbols i;
     ps \<leftarrow> wr ps i \<lparr>pname = s, psymbol = c\<rparr>;
     set_players_from m (i + 1) ps
   }"

definition set_players :: "player list \<Rightarrow> nat \<Rightarrow> player list option" where
  "set_players ps n = set_players_from n 0 ps"

definition TAB :: char where "TAB = CHR 0x09"
definition NL :: char where "NL = CHR 0x0A"

text \<open>\<open>print_board\<close>: \<open>m\<close> columns of row \<open>i\<close> are left, then \<open>m\<close> rows are left.\<close>

primrec print_row :: "board \<Rightarrow> int \<Rightarrow> nat \<Rightarrow> string option" where
  "print_row b i 0 = Some [NL]"
| "print_row b i (Suc m) = do {
     c \<leftarrow> board_cell_const b i (bn b - int (Suc m));
     out \<leftarrow> print_row b i m;
     Some (c # TAB # out)
   }"

primrec print_rows :: "board \<Rightarrow> nat \<Rightarrow> string option" where
  "print_rows b 0 = Some []"
| "print_rows b (Suc m) = do {
     row \<leftarrow> print_row b (bn b - int (Suc m)) (nat (bn b));
     out \<leftarrow> print_rows b m;
     Some (row @ out)
   }"

definition print_board :: "board \<Rightarrow> string option" where
  "print_board b = do { out \<leftarrow> print_rows b (nat (bn b)); Some (NL # out) }"

text \<open>What is printed at the end of a game, and the exit status.\<close>

definition announce :: "player list \<Rightarrow> outcome \<Rightarrow> board \<Rightarrow> (int \<times> string) option" where
  "announce players out b = (case out of
       Wins p \<Rightarrow> do { pl \<leftarrow> rd players p; text \<leftarrow> print_board b; Some (0, pname pl @ '' wins'' @ [NL] @ text) }
     | Draw_game \<Rightarrow> Some (0, ''it is a draw!'' @ [NL])
     | Aborted \<Rightarrow> Some (1, ''ttt: game aborted'' @ [NL]))"

definition main :: "string list \<Rightarrow> char list option \<Rightarrow> board \<Rightarrow> board \<Rightarrow> input list \<Rightarrow> (int \<times> string \<times> board) option" where
  "main args mem tb b ins = (case parse_input args of
       None \<Rightarrow> Some (1, [], b)
     | Some (n, k) \<Rightarrow> do {
         _ \<leftarrow> test_tictactoe tb;
         (ok, b) \<leftarrow> set_board mem b n k;
         if ok = 0 then Some (1, [], b)
         else do {
           players \<leftarrow> set_players (replicate MAX_USR \<lparr>pname = [], psymbol = CHR 0x00\<rparr>) num_player;
           (out, b) \<leftarrow> game b 0 ins;
           (status, text) \<leftarrow> announce players out b;
           Some (status, text, del_board b)
         }
       })"

subsection \<open>The text of a board\<close>

lemma print_row_eq:
  assumes "sized b" and "0 \<le> i" and "i < bn b" and "int m \<le> bn b"
  shows "print_row b i m = Some (concat (map (\<lambda>j. [at b i (int j), TAB]) [nat (bn b) - m..<nat (bn b)]) @ [NL])"
  using assms(4)
proof (induction m)
  case (Suc m)
  let ?j = "nat (bn b) - Suc m"
  have j: "int ?j = bn b - int (Suc m)" "?j < nat (bn b)" "Suc ?j = nat (bn b) - m" using Suc.prems by linarith+
  then have "on_board b i (int ?j)" using assms(2,3) Suc.prems by (auto simp: on_board_def)
  then have "board_cell_const b i (bn b - int (Suc m)) = Some (at b i (int ?j))"
    using board_cell_const_eq [OF _ assms(1)] j(1) by simp
  moreover have "[?j..<nat (bn b)] = ?j # [nat (bn b) - m..<nat (bn b)]" using upt_conv_Cons [OF j(2)] j(3) by simp
  ultimately show ?case using Suc by simp
qed simp

definition row_text :: "board \<Rightarrow> nat \<Rightarrow> string" where
  "row_text b i = concat (map (\<lambda>j. [at b (int i) (int j), TAB]) [0..<nat (bn b)]) @ [NL]"

lemma print_rows_eq:
  assumes "sized b" and "int m \<le> bn b"
  shows "print_rows b m = Some (concat (map (row_text b) [nat (bn b) - m..<nat (bn b)]))"
  using assms(2)
proof (induction m)
  case (Suc m)
  let ?i = "nat (bn b) - Suc m"
  have i: "int ?i = bn b - int (Suc m)" "?i < nat (bn b)" "Suc ?i = nat (bn b) - m" using Suc.prems by linarith+
  have "print_row b (bn b - int (Suc m)) (nat (bn b)) = Some (row_text b ?i)"
    using print_row_eq [OF assms(1), of "int ?i" "nat (bn b)"] i Suc.prems by (simp add: row_text_def)
  moreover have "[?i..<nat (bn b)] = ?i # [nat (bn b) - m..<nat (bn b)]" using upt_conv_Cons [OF i(2)] i(3) by simp
  ultimately show ?case using Suc by simp
qed simp

lemma print_board_eq:
  assumes "sized b" and "0 \<le> bn b"
  shows "print_board b = Some (NL # concat (map (row_text b) [0..<nat (bn b)]))"
  using print_rows_eq [OF assms(1), of "nat (bn b)"] assms(2) by (simp add: print_board_def)

lemma pairs_eq:
  assumes "concat (map (\<lambda>j. [f j, c]) xs) = concat (map (\<lambda>j. [g j, c]) xs)" and "j \<in> set xs"
  shows "f j = g j"
  using assms by (induction xs) auto

lemma rows_eq:
  assumes "concat (map f xs) = concat (map g xs)" and "\<And>i. length (f i) = length (g i)" and "i \<in> set xs"
  shows "f i = g i"
  using assms(1,3) by (induction xs) (auto simp: assms(2))

lemma same_squares:
  assumes "sized b" and "sized b'" and "bn b = bn b'"
    and "\<And>i j. i < nat (bn b) \<Longrightarrow> j < nat (bn b) \<Longrightarrow> at b (int i) (int j) = at b' (int i) (int j)"
  shows "cells b = cells b'"
proof -
  obtain cs cs' where cs: "cells b = Some cs" "cells b' = Some cs'" "length cs = nat (bn b * bn b)" "length cs' = nat (bn b * bn b)"
    using assms(1-3) by (auto simp: sized_def)
  define n where "n = nat (bn b)"
  have n: "bn b = int n" using assms(1) by (simp add: n_def sized_def)
  have "cs ! q = cs' ! q" if "q < length cs" for q
  proof -
    have q: "q < n * n" using that cs(3) n by (simp add: nat_mult_distrib)
    then have ij: "q div n < n" "q mod n < n" by (simp_all add: less_mult_imp_div_less) (cases n; simp)
    have "nat (bn b * int (q div n) + int (q mod n)) = q" unfolding n by (simp flip: of_nat_mult of_nat_add)
    then show ?thesis using assms(4) [of "q div n" "q mod n"] ij cs assms(3) by (simp add: at_def n_def)
  qed
  then have "cs = cs'" using cs by (intro nth_equalityI) simp_all
  then show ?thesis using cs by simp
qed

subsection \<open>Properties\<close>

text \<open>
  The printed text determines the board: two boards of the same size print the same exactly when all their squares are the same.
\<close>

theorem print_board_faithful:
  assumes "sized b" and "sized b'" and "bn b = bn b'"
  shows "print_board b = print_board b' \<longleftrightarrow> cells b = cells b'"
proof
  have pos: "0 \<le> bn b" "0 \<le> bn b'" using assms by (simp_all add: sized_def)
  assume "print_board b = print_board b'"
  then have "concat (map (row_text b) [0..<nat (bn b)]) = concat (map (row_text b') [0..<nat (bn b)])"
    using print_board_eq [OF assms(1) pos(1)] print_board_eq [OF assms(2) pos(2)] assms(3) by simp
  moreover have "length (row_text b i) = length (row_text b' i)" for i by (simp add: row_text_def assms(3) length_concat comp_def)
  ultimately have rows: "row_text b i = row_text b' i" if "i < nat (bn b)" for i
    using rows_eq [of "row_text b" "[0..<nat (bn b)]" "row_text b'" i] that by simp
  show "cells b = cells b'"
  proof (rule same_squares [OF assms])
    fix i j
    assume ij: "i < nat (bn b)" "j < nat (bn b)"
    have "concat (map (\<lambda>j. [at b (int i) (int j), TAB]) [0..<nat (bn b)]) = concat (map (\<lambda>j. [at b' (int i) (int j), TAB]) [0..<nat (bn b)])"
      using rows [OF ij(1)] by (simp add: row_text_def assms(3))
    then show "at b (int i) (int j) = at b' (int i) (int j)"
      using pairs_eq [of "\<lambda>j. at b (int i) (int j)" TAB "[0..<nat (bn b)]" "\<lambda>j. at b' (int i) (int j)" j] ij(2) by simp
  qed
next
  assume c: "cells b = cells b'"
  have "row_text b = row_text b'" by (rule ext) (simp add: row_text_def at_def assms(3) c)
  then show "print_board b = print_board b'"
    using print_board_eq [OF assms(1)] print_board_eq [OF assms(2)] assms by (simp add: sized_def)
qed

theorem print_board_faithful_witness:
  "print_board empty3 \<noteq> print_board (empty3\<lparr>cells := Some (CHR ''X'' # replicate 8 (CHR ''-''))\<rparr>)"
  using print_board_faithful [of empty3 "empty3\<lparr>cells := Some (CHR ''X'' # replicate 8 (CHR ''-''))\<rparr>"]
  by (simp add: empty3_def sized_def numeral_eq_Suc)

lemma set_players_ok:
  "set_players (replicate MAX_USR p) num_player = Some [\<lparr>pname = ''player1'', psymbol = CHR ''X''\<rparr>, \<lparr>pname = ''player2'', psymbol = CHR ''O''\<rparr>]"
  by (simp add: set_players_def num_player_def MAX_USR_def names_def symbols_def strcpy_name_def numeral_2_eq_2 rd_def wr_def)

text \<open>
  The program as a whole, for every command line and every input: no assertion fails and no access leaves the board, the board is
  freed on every path, and the exit status is 0 exactly when the arguments are valid, there is memory, and the game was
  played to a win or a draw.
\<close>

theorem ttt_main_status:
  assumes "\<And>n k cs. parse_input args = Some (n, k) \<Longrightarrow> mem = Some cs \<Longrightarrow> length cs = nat (n * n)" and "cells b = None"
  shows "\<exists>status text b'. main args mem tb b ins = Some (status, text, b') \<and> cells b' = None
    \<and> (status = 0 \<longleftrightarrow> (\<exists>n k out b1. parse_input args = Some (n, k) \<and> mem \<noteq> None
         \<and> game (b\<lparr>bn := n, bk := k, counter := n * n, cells := Some (replicate (nat (n * n)) (CHR ''-''))\<rparr>) 0 ins = Some (out, b1) \<and> out \<noteq> Aborted))"
proof (cases "parse_input args")
  case None
  then show ?thesis using assms(2) by (simp add: main_def)
next
  case (Some nk)
  obtain n k where nk: "nk = (n, k)" by force
  then have range: "3 \<le> k" "k \<le> n" "n \<le> 25" using parse_input_range [of args n k] Some by simp_all
  have len: "length cs = nat (n * n)" if "mem = Some cs" for cs using assms(1) Some nk that by simp
  let ?b = "b\<lparr>bn := n, bk := k, counter := n * n, cells := Some (replicate (nat (n * n)) (CHR ''-''))\<rparr>"
  note sb = set_board_eq [of mem n b k, OF len]
  show ?thesis
  proof (cases mem)
    case None
    then show ?thesis using sb range Some nk by (simp add: main_def test_tictactoe_passes)
  next
    case mem: (Some cs)
    have inv: "board_inv ?b" by (rule board_inv_new [OF range])
    have nl: "no_line ?b" by (rule empty_no_line [of _ "nat (n * n)"]) (use range in \<open>simp_all add: sized_def\<close>)
    obtain out b1 where g: "game ?b 0 ins = Some (out, b1)" "board_inv b1" "outcome_ok out b1"
      using game_ok [OF inv nl, of 0 ins] by blast
    obtain tx where p: "print_board b1 = Some tx" using print_board_eq [of b1] g(2) by (auto simp: board_inv_def sized_def)
    have "\<exists>text. announce [\<lparr>pname = ''player1'', psymbol = CHR ''X''\<rparr>, \<lparr>pname = ''player2'', psymbol = CHR ''O''\<rparr>] out b1
        = Some (if out = Aborted then 1 else 0, text)"
      using g(3) p by (cases out) (auto simp: announce_def rd_def)
    then obtain t where "announce [\<lparr>pname = ''player1'', psymbol = CHR ''X''\<rparr>, \<lparr>pname = ''player2'', psymbol = CHR ''O''\<rparr>] out b1
        = Some (if out = Aborted then 1 else 0, t)" ..
    then have "main args mem tb b ins = Some (if out = Aborted then 1 else 0, t, del_board b1)"
      using sb range Some nk mem g(1) by (simp add: main_def test_tictactoe_passes set_players_ok)
    then show ?thesis using g(1) Some nk mem by (auto simp: del_board_def)
  qed
qed

end
