(* ===== verification/Ship.thy ===== *)
theory Ship
  imports CPrelude
begin

text \<open>
  \<open>leetcode/13-ship-packages.c\<close>: the least capacity of a ship that carries packages, in order, within a number
  of days, found by bisection over a greedy test.  The array with its length is a list; C's \<open>int\<close> additions go
  through \<open>to_i32\<close>.  The specification \<open>feasible\<close> speaks of all ways to cut the list into consecutive
  loads; the theorems show that the greedy test decides it and that the bisection finds the minimum.
\<close>

fun can_ship_from :: "int list \<Rightarrow> int \<Rightarrow> int \<Rightarrow> int \<Rightarrow> int \<Rightarrow> bool option" where
  "can_ship_from [] days cap load used = Some (used \<le> days)"
| "can_ship_from (w # ws) days cap load used =
     (if w > cap then Some False
      else do {
        t \<leftarrow> to_i32 (load + w);
        (load, used) \<leftarrow> (if t > cap then do { u \<leftarrow> to_i32 (used + 1); Some (0, u) } else Some (load, used));
        load \<leftarrow> to_i32 (load + w);
        can_ship_from ws days cap load used
      })"

definition can_ship :: "int list \<Rightarrow> int \<Rightarrow> int \<Rightarrow> bool option" where
  "can_ship weights days cap = can_ship_from weights days cap 0 1"

fun sum_max :: "int list \<Rightarrow> int \<Rightarrow> int \<Rightarrow> (int \<times> int) option" where
  "sum_max [] lo hi = Some (lo, hi)"
| "sum_max (w # ws) lo hi = do {
     hi \<leftarrow> to_i32 (hi + w);
     sum_max ws (if w > lo then w else lo) hi
   }"

function search :: "int list \<Rightarrow> int \<Rightarrow> int \<Rightarrow> int \<Rightarrow> int option" where
  "search weights days lo hi =
     (if lo < hi then do {
        d \<leftarrow> to_i32 (hi - lo);
        let mid = lo + d div 2;
        ok \<leftarrow> can_ship weights days mid;
        if ok then search weights days lo mid else search weights days (mid + 1) hi
      } else Some lo)"
  by pat_completeness auto
termination by (relation "measure (\<lambda>(_, _, lo, hi). nat (hi - lo))") (auto simp: Let_def to_i32_eq_Some_iff)

declare search.simps [simp del]

definition ship_within_days :: "int list \<Rightarrow> int \<Rightarrow> int option" where
  "ship_within_days weights days = do {
     w0 \<leftarrow> rd weights 0;
     (lo, hi) \<leftarrow> sum_max weights w0 0;
     search weights days lo hi
   }"

definition main :: "unit option" where
  "main = do {
     cap \<leftarrow> ship_within_days [1, 2, 3, 4, 5] 3;
     c_assert (cap = 6);
     cap \<leftarrow> ship_within_days [6] 1;
     c_assert (cap = 6)
   }"

subsection \<open>The specification\<close>

text \<open>The packages can be cut into at most \<open>days\<close> consecutive loads of at most \<open>cap\<close> each.\<close>

definition feasible :: "int list \<Rightarrow> int \<Rightarrow> int \<Rightarrow> bool" where
  "feasible ws days cap \<longleftrightarrow>
     (\<exists>loads. concat loads = ws \<and> int (length loads) \<le> days \<and> (\<forall>l \<in> set loads. sum_list l \<le> cap))"

text \<open>The same when the first load already has weight \<open>load\<close>.\<close>

definition fits :: "int list \<Rightarrow> int \<Rightarrow> int \<Rightarrow> int \<Rightarrow> bool" where
  "fits ws days cap load \<longleftrightarrow>
     (\<exists>l ls. l @ concat ls = ws \<and> 1 + int (length ls) \<le> days \<and> load + sum_list l \<le> cap \<and> (\<forall>l \<in> set ls. sum_list l \<le> cap))"

lemma fits_Nil: "fits [] days cap load \<longleftrightarrow> 1 \<le> days \<and> load \<le> cap"
proof
  assume "fits [] days cap load"
  then obtain l ls where "l @ concat ls = []" "1 + int (length ls) \<le> days" "load + sum_list l \<le> cap"
    unfolding fits_def by blast
  then show "1 \<le> days \<and> load \<le> cap" by auto
next
  assume "1 \<le> days \<and> load \<le> cap"
  then show "fits [] days cap load" unfolding fits_def by (intro exI [of _ "[]"]) simp
qed

text \<open>Empty loads can be dropped, so a sequence of loads starts with the first package.\<close>

lemma first_load:
  assumes "concat ls = w # ws" and "\<forall>l \<in> set ls. sum_list l \<le> cap"
  shows "\<exists>m ms. m @ concat ms = ws \<and> length ms < length ls \<and> sum_list (w # m) \<le> cap \<and> (\<forall>l \<in> set ms. sum_list l \<le> cap)"
  using assms
proof (induction ls)
  case (Cons l ls)
  show ?case
  proof (cases l)
    case Nil
    then obtain m ms where "m @ concat ms = ws" "length ms < length ls" "sum_list (w # m) \<le> cap" "\<forall>l \<in> set ms. sum_list l \<le> cap"
      using Cons by auto
    then show ?thesis by (metis length_Cons less_SucI)
  next
    case (Cons x m)
    with \<open>concat (l # ls) = w # ws\<close> \<open>\<forall>l \<in> set (l # ls). sum_list l \<le> cap\<close>
    show ?thesis by (intro exI [of _ m] exI [of _ ls]) simp
  qed
qed simp

text \<open>The exchange argument: taking the next package on board when it fits is never worse.\<close>

lemma fits_Cons_room:
  assumes "0 \<le> w" and "load + w \<le> cap"
  shows "fits (w # ws) days cap load \<longleftrightarrow> fits ws days cap (load + w)"
proof
  assume "fits (w # ws) days cap load"
  then obtain l ls where l: "l @ concat ls = w # ws" "1 + int (length ls) \<le> days" "load + sum_list l \<le> cap"
    "\<forall>l \<in> set ls. sum_list l \<le> cap" unfolding fits_def by blast
  show "fits ws days cap (load + w)"
  proof (cases l)
    case (Cons x l')
    with l show ?thesis unfolding fits_def by (intro exI [of _ l'] exI [of _ ls]) auto
  next
    case Nil
    then obtain m ms where m: "m @ concat ms = ws" "length ms < length ls" "sum_list (w # m) \<le> cap" "\<forall>l \<in> set ms. sum_list l \<le> cap"
      using first_load [of ls w ws cap] l by auto
    then have "[] @ concat (m # ms) = ws" "1 + int (length (m # ms)) \<le> days" "load + w + sum_list [] \<le> cap"
      "\<forall>l \<in> set (m # ms). sum_list l \<le> cap"
      using l(2) assms by auto
    then show ?thesis unfolding fits_def by blast
  qed
next
  assume "fits ws days cap (load + w)"
  then obtain l ls where l: "l @ concat ls = ws" "1 + int (length ls) \<le> days" "load + w + sum_list l \<le> cap"
    "\<forall>l \<in> set ls. sum_list l \<le> cap" unfolding fits_def by blast
  then show "fits (w # ws) days cap load" unfolding fits_def by (intro exI [of _ "w # l"] exI [of _ ls]) auto
qed

lemma fits_Cons_full:
  assumes "\<forall>x \<in> set ws. 0 \<le> x" and "load \<le> cap" and "load + w > cap"
  shows "fits (w # ws) days cap load \<longleftrightarrow> fits ws (days - 1) cap w"
proof
  assume "fits (w # ws) days cap load"
  then obtain l ls where l: "l @ concat ls = w # ws" "1 + int (length ls) \<le> days" "load + sum_list l \<le> cap"
    "\<forall>l \<in> set ls. sum_list l \<le> cap" unfolding fits_def by blast
  have "l = []"
  proof (rule ccontr)
    assume "l \<noteq> []"
    then obtain l' where l': "l = w # l'" "l' @ concat ls = ws" using l(1) by (cases l) auto
    have "0 \<le> sum_list l'" using assms(1) l'(2) by (intro sum_list_nonneg) auto
    with l(3) l'(1) assms(3) show False by simp
  qed
  then obtain m ms where "m @ concat ms = ws" "length ms < length ls" "sum_list (w # m) \<le> cap" "\<forall>l \<in> set ms. sum_list l \<le> cap"
    using first_load [of ls w ws cap] l by auto
  then show "fits ws (days - 1) cap w" unfolding fits_def using l(2) by (intro exI [of _ m] exI [of _ ms]) auto
next
  assume "fits ws (days - 1) cap w"
  then obtain l ls where l: "l @ concat ls = ws" "1 + int (length ls) \<le> days - 1" "w + sum_list l \<le> cap"
    "\<forall>l \<in> set ls. sum_list l \<le> cap" unfolding fits_def by blast
  then show "fits (w # ws) days cap load" unfolding fits_def using assms(2)
    by (intro exI [of _ "[]"] exI [of _ "(w # l) # ls"]) auto
qed

lemma fits_heavy:
  assumes "\<forall>x \<in> set (w # ws). 0 \<le> x" and "0 \<le> load" and "w > cap"
  shows "\<not> fits (w # ws) days cap load"
proof
  assume f: "fits (w # ws) days cap load"
  show False
  proof (cases "load \<le> cap")
    case True
    then have "fits ws (days - 1) cap w" using fits_Cons_full [of ws load cap w days] assms f by simp
    then obtain l ls where l: "l @ concat ls = ws" "w + sum_list l \<le> cap" unfolding fits_def by blast
    have "0 \<le> sum_list l" using assms(1) l(1) by (intro sum_list_nonneg) auto
    with l(2) assms(3) show False by simp
  next
    case False
    from f obtain l ls where l: "l @ concat ls = w # ws" "load + sum_list l \<le> cap" unfolding fits_def by blast
    have "set l \<subseteq> set (w # ws)" using l(1) by (metis set_append sup_ge1)
    then have "0 \<le> sum_list l" using assms(1) by (intro sum_list_nonneg) auto
    with l(2) False show False by simp
  qed
qed

text \<open>The greedy loop decides \<open>fits\<close>, and its sums stay in range.\<close>

lemma can_ship_from_eq:
  assumes "\<forall>x \<in> set ws. 0 \<le> x" and "0 \<le> load" and "load \<le> cap" and "load + sum_list ws < 2 ^ 31"
    and "0 < used" and "used + int (length ws) < 2 ^ 31"
  shows "can_ship_from ws days cap load used = Some (fits ws (days - used + 1) cap load)"
  using assms
proof (induction ws arbitrary: load used)
  case Nil
  then show ?case by (auto simp: fits_Nil)
next
  case (Cons w ws)
  have nn: "0 \<le> w" "0 \<le> sum_list ws" "\<forall>x \<in> set ws. 0 \<le> x" using Cons.prems(1) by (auto intro: sum_list_nonneg)
  have t: "to_i32 (load + w) = Some (load + w)" "to_i32 (used + 1) = Some (used + 1)" "to_i32 w = Some w"
    using Cons.prems nn by (auto intro!: to_i32_Some)
  consider "w > cap" | "w \<le> cap" "load + w \<le> cap" | "w \<le> cap" "load + w > cap" by linarith
  then show ?case
  proof cases
    case 1
    then show ?thesis using fits_heavy [of w ws load cap "days - used + 1"] Cons.prems by simp
  next
    case 2
    have "can_ship_from ws days cap (load + w) used = Some (fits ws (days - used + 1) cap (load + w))"
      by (rule Cons.IH) (use Cons.prems 2 nn in auto)
    then show ?thesis using 2 t fits_Cons_room [OF nn(1) 2(2)] by simp
  next
    case 3
    have "can_ship_from ws days cap w (used + 1) = Some (fits ws (days - (used + 1) + 1) cap w)"
      by (rule Cons.IH) (use Cons.prems 3 nn in auto)
    then show ?thesis using 3 t fits_Cons_full [OF nn(3) Cons.prems(3) 3(2), of "days - used + 1"] by simp
  qed
qed

lemma feasible_fits:
  assumes "ws \<noteq> []" and "0 \<le> cap"
  shows "feasible ws days cap \<longleftrightarrow> fits ws days cap 0"
proof
  assume "feasible ws days cap"
  then obtain ls where ls: "concat ls = ws" "int (length ls) \<le> days" "\<forall>l \<in> set ls. sum_list l \<le> cap"
    unfolding feasible_def by blast
  obtain w us where w: "ws = w # us" using assms(1) by (cases ws) auto
  obtain m ms where "m @ concat ms = us" "length ms < length ls" "sum_list (w # m) \<le> cap" "\<forall>l \<in> set ms. sum_list l \<le> cap"
    using first_load [of ls w us cap] ls w by auto
  then show "fits ws days cap 0" unfolding fits_def using ls(2) w by (intro exI [of _ "w # m"] exI [of _ ms]) auto
next
  assume "fits ws days cap 0"
  then obtain l ls where "l @ concat ls = ws" "1 + int (length ls) \<le> days" "0 + sum_list l \<le> cap" "\<forall>l \<in> set ls. sum_list l \<le> cap"
    unfolding fits_def by blast
  then show "feasible ws days cap" unfolding feasible_def by (intro exI [of _ "l # ls"]) auto
qed

definition shippable :: "int list \<Rightarrow> bool" where
  "shippable ws \<longleftrightarrow> ws \<noteq> [] \<and> (\<forall>w \<in> set ws. 0 \<le> w) \<and> sum_list ws < 2 ^ 31 \<and> int (length ws) + 1 < 2 ^ 31"

lemma can_ship_eq:
  assumes "shippable ws" and "0 \<le> cap"
  shows "can_ship ws days cap = Some (feasible ws days cap)"
  using assms can_ship_from_eq [of ws 0 cap 1 days] feasible_fits [of ws cap days]
  by (simp add: can_ship_def shippable_def)

lemma feasible_mono: "feasible ws days c \<Longrightarrow> c \<le> c' \<Longrightarrow> feasible ws days c'"
  unfolding feasible_def by (elim exE conjE, intro exI conjI) (assumption, force+)

lemma feasible_sum: "1 \<le> days \<Longrightarrow> feasible ws days (sum_list ws)"
  unfolding feasible_def by (intro exI [of _ "[ws]"]) simp

lemma feasible_heaviest:
  assumes "feasible ws days c" and "\<forall>x \<in> set ws. 0 \<le> x" and "w \<in> set ws"
  shows "w \<le> c"
proof -
  obtain ls where ls: "concat ls = ws" "\<forall>l \<in> set ls. sum_list l \<le> c" using assms(1) unfolding feasible_def by blast
  then obtain l where l: "l \<in> set ls" "w \<in> set l" using assms(3) by auto
  have "\<forall>x \<in> set l. 0 \<le> x" using assms(2) l(1) ls(1) by auto
  then have "w \<le> sum_list l" using l(2) by (intro member_le_sum_list) auto
  with ls(2) l(1) show ?thesis by auto
qed

lemma sum_max_eq:
  assumes "\<forall>x \<in> set ws. 0 \<le> x" and "0 \<le> hi" and "hi + sum_list ws < 2 ^ 31"
  shows "\<exists>m. sum_max ws lo hi = Some (m, hi + sum_list ws) \<and> lo \<le> m \<and> (\<forall>x \<in> set ws. x \<le> m) \<and> (m = lo \<or> m \<in> set ws)"
  using assms
proof (induction ws arbitrary: lo hi)
  case (Cons w ws)
  have nn: "0 \<le> w" "0 \<le> sum_list ws" using Cons.prems(1) by (auto intro: sum_list_nonneg)
  have "to_i32 (hi + w) = Some (hi + w)" using Cons.prems nn by (auto intro!: to_i32_Some)
  moreover obtain m where "sum_max ws (if w > lo then w else lo) (hi + w) = Some (m, hi + w + sum_list ws)"
    "(if w > lo then w else lo) \<le> m" "\<forall>x \<in> set ws. x \<le> m" "m = (if w > lo then w else lo) \<or> m \<in> set ws"
    using Cons.IH [of "hi + w" "if w > lo then w else lo"] Cons.prems nn by auto
  ultimately show ?case by (intro exI [of _ m]) (auto split: if_splits)
qed simp

lemma search_eq:
  assumes "shippable ws" and "0 \<le> lo" and "lo \<le> hi" and "hi < 2 ^ 31" and "feasible ws days hi" and "\<forall>c < lo. \<not> feasible ws days c"
  shows "\<exists>r. search ws days lo hi = Some r \<and> feasible ws days r \<and> (\<forall>c < r. \<not> feasible ws days c)"
  using assms(2-)
proof (induction "nat (hi - lo)" arbitrary: lo hi rule: less_induct)
  case less
  show ?case
  proof (cases "lo < hi")
    case False
    then show ?thesis using less.prems by (simp add: search.simps)
  next
    case True
    let ?mid = "lo + (hi - lo) div 2"
    have mid: "lo \<le> ?mid" "?mid < hi" using True by auto
    have d: "to_i32 (hi - lo) = Some (hi - lo)" using True less.prems(1,3) by simp
    have ok: "can_ship ws days ?mid = Some (feasible ws days ?mid)"
      using can_ship_eq [OF assms(1)] less.prems(1) mid by simp
    show ?thesis
    proof (cases "feasible ws days ?mid")
      case f: True
      have "search ws days lo hi = search ws days lo ?mid" using True f ok d by (subst search.simps) (simp add: Let_def)
      moreover have "\<exists>r. search ws days lo ?mid = Some r \<and> feasible ws days r \<and> (\<forall>c < r. \<not> feasible ws days c)"
        by (rule less.hyps) (use mid less.prems f in auto)
      ultimately show ?thesis by simp
    next
      case f: False
      have "search ws days lo hi = search ws days (?mid + 1) hi" using True f ok d by (subst search.simps) (simp add: Let_def)
      moreover have "\<exists>r. search ws days (?mid + 1) hi = Some r \<and> feasible ws days r \<and> (\<forall>c < r. \<not> feasible ws days c)"
      proof (rule less.hyps)
        show "\<forall>c < ?mid + 1. \<not> feasible ws days c"
          using f feasible_mono [of ws days _ ?mid] by (auto simp: zless_add1_eq)
      qed (use mid less.prems in auto)
      ultimately show ?thesis by simp
    qed
  qed
qed

subsection \<open>Properties\<close>

text \<open>
  C18: For at least one day, at least one package (and fewer than \<open>2 ^ 31 - 1\<close>) and non-negative weights whose sum fits in an \<open>int\<close>, \<open>ship_within_days\<close> returns, without
  overflow, the least capacity with which the packages can be shipped in order within the given days:
  that capacity suffices for some way of cutting the sequence into loads, and no smaller one
  suffices for any.
\<close>

theorem ship_within_days_least:
  assumes "shippable ws" and "1 \<le> days"
  shows "\<exists>r. ship_within_days ws days = Some r \<and> feasible ws days r \<and> (\<forall>c < r. \<not> feasible ws days c)"
proof -
  have nn: "\<forall>x \<in> set ws. 0 \<le> x" and ne: "ws \<noteq> []" using assms(1) by (auto simp: shippable_def)
  then have w0: "rd ws 0 = Some (ws ! 0)" "ws ! 0 \<in> set ws" by auto
  obtain m where m: "sum_max ws (ws ! 0) 0 = Some (m, sum_list ws)" "m \<in> set ws"
    using sum_max_eq [OF nn, of 0 "ws ! 0"] assms(1) w0(2) by (auto simp: shippable_def)
  have "\<exists>r. search ws days m (sum_list ws) = Some r \<and> feasible ws days r \<and> (\<forall>c < r. \<not> feasible ws days c)"
  proof (rule search_eq [OF assms(1)])
    show "0 \<le> m" using nn m(2) by blast
    show "m \<le> sum_list ws" using nn m(2) by (intro member_le_sum_list) auto
    show "sum_list ws < 2 ^ 31" using assms(1) by (simp add: shippable_def)
    show "feasible ws days (sum_list ws)" by (rule feasible_sum [OF assms(2)])
    show "\<forall>c < m. \<not> feasible ws days c" using feasible_heaviest [OF _ nn m(2)] by force
  qed
  then show ?thesis by (simp add: ship_within_days_def w0 m)
qed

theorem ship_within_days_least_witness:
  "\<exists>r. ship_within_days [1, 2, 3, 4, 5] 3 = Some r \<and> feasible [1, 2, 3, 4, 5] 3 r \<and> (\<forall>c < r. \<not> feasible [1, 2, 3, 4, 5] 3 c)"
proof -
  have "shippable [1, 2, 3, 4, 5]" by (simp add: shippable_def)
  from ship_within_days_least [OF this, of 3] show ?thesis by simp
qed

text \<open>
  Both assertions of the program's test hold.
\<close>

theorem ship_main_passes: "main = Some ()"
  by code_simp

end
