(* ===== verification/Intervals.thy ===== *)
theory Intervals
  imports CPrelude "HOL-Library.Multiset"
begin

text \<open>
  \<open>leetcode/14-merge-intervals.c\<close>: merging overlapping intervals.  The C library's \<open>qsort\<close> is a parameter; what
  is relied on is its documented behaviour \<open>qsort_ok\<close>: the result is a permutation of the array, ordered by
  the comparison function (in no particular order among equals).  \<open>merge\<close> writes its result into an
  allocated block, entry by entry, with bounds checked; \<open>None\<close> of the outer option is an access outside.
\<close>

record interval =
  istart :: int
  iend :: int

definition cmp :: "interval \<Rightarrow> interval \<Rightarrow> int" where
  "cmp x y = (if istart x > istart y then 1 else 0) - (if istart x < istart y then 1 else 0)"

definition qsort_ok :: "((interval \<Rightarrow> interval \<Rightarrow> int) \<Rightarrow> interval list \<Rightarrow> interval list) \<Rightarrow> bool" where
  "qsort_ok qsort \<longleftrightarrow> (\<forall>xs. mset (qsort cmp xs) = mset xs \<and> sorted_wrt (\<lambda>x y. cmp x y \<le> 0) (qsort cmp xs))"

text \<open>The loop: \<open>out\<close> is the block at \<open>head\<close>, \<open>p\<close> is \<open>ptr - head\<close>.\<close>

function merge_from :: "interval list \<Rightarrow> nat \<Rightarrow> interval list \<Rightarrow> nat \<Rightarrow> (interval list \<times> nat) option" where
  "merge_from iv i out p =
     (if i < length iv then do {
        x \<leftarrow> rd iv i;
        c \<leftarrow> rd out p;
        if istart x \<le> iend c
        then if iend x < iend c then merge_from iv (i + 1) out p
             else do {
               out \<leftarrow> wr out p (c\<lparr>iend := iend x\<rparr>);
               merge_from iv (i + 1) out p
             }
        else do {
          out \<leftarrow> wr out (p + 1) x;
          merge_from iv (i + 1) out (p + 1)
        }
      } else Some (out, p))"
  by pat_completeness auto
termination by (relation "measure (\<lambda>(iv, i, _, _). length iv - i)") auto

declare merge_from.simps [simp del]

text \<open>
  The value of \<open>*out_n\<close> after the call (\<^const>\<open>None\<close> when \<open>merge\<close> does not write it) and the returned array.
  \<open>mem\<close> is the block \<open>malloc\<close> returns, with arbitrary contents, or \<^const>\<open>None\<close>.
\<close>

definition merge ::
  "((interval \<Rightarrow> interval \<Rightarrow> int) \<Rightarrow> interval list \<Rightarrow> interval list) \<Rightarrow> interval list option \<Rightarrow> interval list
    \<Rightarrow> (nat option \<times> interval list option) option" where
  "merge qsort mem iv =
     (if length iv = 0 then Some (Some (length iv), None)
      else let iv = qsort cmp iv in
        case mem of
          None \<Rightarrow> Some (None, None)
        | Some out \<Rightarrow> do {
            x \<leftarrow> rd iv 0;
            out \<leftarrow> wr out 0 x;
            (out, p) \<leftarrow> merge_from iv 1 out 0;
            Some (Some (p + 1), Some out)
          })"

text \<open>One block of the test in \<open>main\<close>: the merged intervals are the expected ones.\<close>

definition expect_merge ::
  "((interval \<Rightarrow> interval \<Rightarrow> int) \<Rightarrow> interval list \<Rightarrow> interval list) \<Rightarrow> interval list \<Rightarrow> interval list \<Rightarrow> unit option" where
  "expect_merge qsort iv sentinel = do {
     (m, res) \<leftarrow> merge qsort (Some (replicate (length iv) \<lparr>istart = 0, iend = 0\<rparr>)) iv;
     out \<leftarrow> res;
     m \<leftarrow> m;
     c_assert (m = length sentinel);
     c_assert (take m out = sentinel)
   }"

definition main :: "((interval \<Rightarrow> interval \<Rightarrow> int) \<Rightarrow> interval list \<Rightarrow> interval list) \<Rightarrow> unit option" where
  "main qsort = do {
     expect_merge qsort
       [\<lparr>istart = 1, iend = 3\<rparr>, \<lparr>istart = 2, iend = 6\<rparr>, \<lparr>istart = 8, iend = 10\<rparr>, \<lparr>istart = 15, iend = 18\<rparr>]
       [\<lparr>istart = 1, iend = 6\<rparr>, \<lparr>istart = 8, iend = 10\<rparr>, \<lparr>istart = 15, iend = 18\<rparr>];
     expect_merge qsort
       [\<lparr>istart = 1, iend = 4\<rparr>, \<lparr>istart = 2, iend = 3\<rparr>]
       [\<lparr>istart = 1, iend = 4\<rparr>]
   }"

subsection \<open>The loop as a recursion over the remaining intervals\<close>

fun merge_list :: "interval \<Rightarrow> interval list \<Rightarrow> interval list" where
  "merge_list c [] = [c]"
| "merge_list c (x # xs) =
     (if istart x \<le> iend c then merge_list (c\<lparr>iend := max (iend c) (iend x)\<rparr>) xs else c # merge_list x xs)"

lemma merge_list_length: "length (merge_list c xs) \<le> length xs + 1"
  by (induction xs arbitrary: c) (auto intro: le_SucI)

lemma merge_from_eq:
  assumes "i \<le> length iv" and "p < i" and "length out = length iv"
  shows "\<exists>out' p'. merge_from iv i out p = Some (out', p') \<and> length out' = length iv \<and> p' < length out'
    \<and> take (p' + 1) out' = take p out @ merge_list (out ! p) (drop i iv)"
  using assms
proof (induction "length iv - i" arbitrary: i out p)
  case 0
  then have "merge_from iv i out p = Some (out, p)" by (simp add: merge_from.simps)
  moreover have "take (p + 1) out = take p out @ [out ! p]" using 0 by (simp add: take_Suc_conv_app_nth)
  ultimately show ?case using 0 by simp
next
  case (Suc n)
  then have i: "i < length iv" and p: "p < length out" by simp_all
  let ?x = "iv ! i" and ?c = "out ! p"
  have dr: "drop i iv = ?x # drop (i + 1) iv" using i by (simp add: Cons_nth_drop_Suc)
  show ?case
  proof (cases "istart ?x \<le> iend ?c")
    case over: True
    show ?thesis
    proof (cases "iend ?x < iend ?c")
      case True
      have eq: "merge_from iv i out p = merge_from iv (i + 1) out p"
        using i p over True by (subst merge_from.simps) simp
      have "?c\<lparr>iend := max (iend ?c) (iend ?x)\<rparr> = ?c" using True by simp
      moreover have "\<exists>out' p'. merge_from iv (i + 1) out p = Some (out', p') \<and> length out' = length iv \<and> p' < length out'
          \<and> take (p' + 1) out' = take p out @ merge_list (out ! p) (drop (i + 1) iv)"
        by (rule Suc.hyps(1)) (use Suc.hyps(2) Suc.prems i in auto)
      ultimately show ?thesis using over eq dr by simp
    next
      case False
      let ?out = "out[p := ?c\<lparr>iend := iend ?x\<rparr>]"
      have eq: "merge_from iv i out p = merge_from iv (i + 1) ?out p"
        using i p over False by (subst merge_from.simps) simp
      have "?c\<lparr>iend := max (iend ?c) (iend ?x)\<rparr> = ?out ! p" using False p by (simp add: max_def)
      moreover have "\<exists>out' p'. merge_from iv (i + 1) ?out p = Some (out', p') \<and> length out' = length iv \<and> p' < length out'
          \<and> take (p' + 1) out' = take p ?out @ merge_list (?out ! p) (drop (i + 1) iv)"
        by (rule Suc.hyps(1)) (use Suc.hyps(2) Suc.prems i in auto)
      ultimately show ?thesis using over eq dr by simp
    qed
  next
    case False
    let ?out = "out[p + 1 := ?x]"
    have len: "p + 1 < length out" using Suc.prems i by simp
    have eq: "merge_from iv i out p = merge_from iv (i + 1) ?out (p + 1)"
      using i p len False by (subst merge_from.simps) simp
    have "\<exists>out' p'. merge_from iv (i + 1) ?out (p + 1) = Some (out', p') \<and> length out' = length iv \<and> p' < length out'
        \<and> take (p' + 1) out' = take (p + 1) ?out @ merge_list (?out ! (p + 1)) (drop (i + 1) iv)"
      by (rule Suc.hyps(1)) (use Suc.hyps(2) Suc.prems i in auto)
    moreover have "take (p + 1) ?out = take p out @ [?c]" "?out ! (p + 1) = ?x" using len by (simp_all add: take_Suc_conv_app_nth)
    ultimately show ?thesis using False eq dr by simp
  qed
qed

subsection \<open>What merging a sorted list gives\<close>

definition points :: "interval list \<Rightarrow> int set" where
  "points xs = (\<Union>x \<in> set xs. {istart x .. iend x})"

definition proper :: "interval list \<Rightarrow> bool" where
  "proper xs \<longleftrightarrow> (\<forall>x \<in> set xs. istart x \<le> iend x)"

definition separated :: "interval list \<Rightarrow> bool" where
  "separated xs \<longleftrightarrow> sorted_wrt (\<lambda>x y. iend x < istart y) xs"

lemma points_Cons [simp]: "points (x # xs) = {istart x .. iend x} \<union> points xs"
  by (simp add: points_def)

lemma join_overlapping:
  fixes a b c d :: int
  shows "a \<le> c \<Longrightarrow> c \<le> b \<Longrightarrow> {a .. max b d} = {a .. b} \<union> {c .. d}"
  by auto

lemma merge_list_points:
  assumes "sorted_wrt (\<lambda>x y. istart x \<le> istart y) (c # xs)"
  shows "points (merge_list c xs) = points (c # xs)"
  using assms
proof (induction xs arbitrary: c)
  case (Cons x xs)
  show ?case
  proof (cases "istart x \<le> iend c")
    case True
    let ?c = "c\<lparr>iend := max (iend c) (iend x)\<rparr>"
    have "points (merge_list ?c xs) = points (?c # xs)" by (rule Cons.IH) (use Cons.prems in auto)
    moreover have "{istart c .. max (iend c) (iend x)} = {istart c .. iend c} \<union> {istart x .. iend x}"
      using True Cons.prems by (intro join_overlapping) auto
    ultimately show ?thesis using True by auto
  next
    case False
    moreover have "points (merge_list x xs) = points (x # xs)" by (rule Cons.IH) (use Cons.prems in auto)
    ultimately show ?thesis by simp
  qed
qed simp

lemma merge_list_shape:
  assumes "sorted_wrt (\<lambda>x y. istart x \<le> istart y) (c # xs)" and "proper (c # xs)"
  shows "separated (merge_list c xs) \<and> proper (merge_list c xs) \<and> (\<forall>y \<in> set (merge_list c xs). istart c \<le> istart y)"
  using assms
proof (induction xs arbitrary: c)
  case Nil
  then show ?case by (simp add: separated_def)
next
  case (Cons x xs)
  show ?case
  proof (cases "istart x \<le> iend c")
    case True
    let ?c = "c\<lparr>iend := max (iend c) (iend x)\<rparr>"
    have "separated (merge_list ?c xs) \<and> proper (merge_list ?c xs) \<and> (\<forall>y \<in> set (merge_list ?c xs). istart ?c \<le> istart y)"
      by (rule Cons.IH) (use Cons.prems in \<open>auto simp: proper_def\<close>)
    with True show ?thesis by simp
  next
    case False
    have IH: "separated (merge_list x xs) \<and> proper (merge_list x xs) \<and> (\<forall>y \<in> set (merge_list x xs). istart x \<le> istart y)"
      by (rule Cons.IH) (use Cons.prems in \<open>auto simp: proper_def\<close>)
    have "istart c \<le> istart x" "istart c \<le> iend c" using Cons.prems by (auto simp: proper_def)
    with False IH show ?thesis by (fastforce simp: separated_def proper_def)
  qed
qed

lemma cmp_le: "cmp x y \<le> 0 \<longleftrightarrow> istart x \<le> istart y"
  by (auto simp: cmp_def)

text \<open>A run of \<open>merge\<close> on a non-empty array: the loop's result on what \<open>qsort\<close> returns.\<close>

lemma merge_run:
  assumes "qsort_ok qsort" and "iv \<noteq> []" and "length out = length iv"
  obtains x xs m out' where "qsort cmp iv = x # xs" "mset (x # xs) = mset iv" "sorted_wrt (\<lambda>x y. istart x \<le> istart y) (x # xs)"
    "merge qsort (Some out) iv = Some (Some m, Some out')" "m \<le> length iv" "take m out' = merge_list x xs"
proof -
  define s where "s = qsort cmp iv"
  have ms: "mset s = mset iv" "sorted_wrt (\<lambda>x y. istart x \<le> istart y) s"
    using assms(1) unfolding qsort_ok_def s_def cmp_le by blast+
  have len: "length s = length iv" using ms(1) mset_eq_length by blast
  then obtain x xs where s: "s = x # xs" using assms(2) by (cases s) auto
  obtain out' p where m: "merge_from s 1 (out[0 := x]) 0 = Some (out', p)" "p < length out'" "length out' = length s"
    "take (p + 1) out' = merge_list x xs"
    using merge_from_eq [of 1 s 0 "out[0 := x]"] s len assms(3) by auto
  have "merge qsort (Some out) iv = Some (Some (p + 1), Some out')"
    using assms(2,3) m(1) s len by (simp add: merge_def s_def [symmetric])
  then show thesis using that [of x xs "p + 1" out'] ms s m len s_def by simp
qed

subsection \<open>Properties\<close>

text \<open>
  C33: For \<open>n > 0\<close> proper intervals, a \<open>qsort\<close> that returns a permutation ordered by the comparison function and a successful allocation, \<open>merge\<close> returns an array of at most \<open>n\<close> intervals (never writing outside
  its block) that covers exactly the same points as the input and whose intervals are
  proper, ordered and pairwise disjoint, whatever the order \<open>qsort\<close> gives to equal starts.
\<close>

theorem merge_correct:
  assumes "qsort_ok qsort" and "proper iv" and "iv \<noteq> []" and "length out = length iv"
  shows "\<exists>m out'. merge qsort (Some out) iv = Some (Some m, Some out') \<and> m \<le> length iv
    \<and> points (take m out') = points iv \<and> separated (take m out') \<and> proper (take m out')"
proof -
  obtain x xs m out' where r: "mset (x # xs) = mset iv" "sorted_wrt (\<lambda>x y. istart x \<le> istart y) (x # xs)"
    "merge qsort (Some out) iv = Some (Some m, Some out')" "m \<le> length iv" "take m out' = merge_list x xs"
    by (rule merge_run [OF assms(1,3,4)])
  have set: "set (x # xs) = set iv" using r(1) by (rule mset_eq_setD)
  then have "points (x # xs) = points iv" "proper (x # xs)" using assms(2) by (simp_all add: points_def proper_def)
  then show ?thesis using merge_list_points [OF r(2)] merge_list_shape [OF r(2)] r(3-5) by simp
qed

definition sort_by_start :: "(interval \<Rightarrow> interval \<Rightarrow> int) \<Rightarrow> interval list \<Rightarrow> interval list" where
  "sort_by_start c = sort_key istart"

lemma sort_by_start_ok: "qsort_ok sort_by_start"
proof -
  have "sorted_wrt (\<lambda>x y. istart x \<le> istart y) (sort_key istart xs)" for xs :: "interval list"
    using sorted_sort_key [of istart xs] by (simp add: sorted_map)
  then show ?thesis unfolding qsort_ok_def sort_by_start_def cmp_le by simp
qed

theorem merge_correct_witness:
  "\<exists>m out'. merge sort_by_start (Some [\<lparr>istart = 0, iend = 0\<rparr>, \<lparr>istart = 0, iend = 0\<rparr>])
      [\<lparr>istart = 2, iend = 6\<rparr>, \<lparr>istart = 1, iend = 3\<rparr>] = Some (Some m, Some out')
    \<and> points (take m out') = points [\<lparr>istart = 2, iend = 6\<rparr>, \<lparr>istart = 1, iend = 3\<rparr>]"
  using merge_correct [OF sort_by_start_ok, of "[\<lparr>istart = 2, iend = 6\<rparr>, \<lparr>istart = 1, iend = 3\<rparr>]"
      "[\<lparr>istart = 0, iend = 0\<rparr>, \<lparr>istart = 0, iend = 0\<rparr>]"]
  by (auto simp: proper_def)

text \<open>
  When the allocation fails, \<open>merge\<close> returns a null pointer as for an empty input but does not write
  \<open>*out_n\<close>, so a caller that reads the count reads an indeterminate value.
\<close>

theorem merge_no_memory:
  assumes "iv \<noteq> []"
  shows "merge qsort None iv = Some (None, None) \<and> merge qsort None [] = Some (Some 0, None)"
  using assms by (simp add: merge_def)

theorem merge_no_memory_witness:
  "merge sort_by_start None [\<lparr>istart = 1, iend = 3\<rparr>] = Some (None, None)"
  using merge_no_memory [of "[\<lparr>istart = 1, iend = 3\<rparr>]" sort_by_start] by simp

text \<open>The test of \<open>main\<close>, with a sorting function that satisfies the contract.\<close>

lemma main_passes: "Intervals.main sort_by_start = Some ()"
  by code_simp

end
