(* ===== verification/Mem_Copy.thy ===== *)
theory Mem_Copy
  imports CPrelude
begin

text \<open>
  \<open>leetcode/09-memcpy-memmove.c\<close>: byte copies.  The memory is a list of bytes and a pointer an index into it, so
  that the two areas may overlap.  Each iteration reads and writes one byte, with bounds checked; the
  result is the memory afterwards (the functions return \<open>dest\<close> unchanged).
\<close>

fun memcpy_from :: "u8 list \<Rightarrow> nat \<Rightarrow> nat \<Rightarrow> nat \<Rightarrow> u8 list option" where
  "memcpy_from mem d s 0 = Some mem"
| "memcpy_from mem d s (Suc sz) = do {
     c \<leftarrow> rd mem s;
     mem \<leftarrow> wr mem d c;
     memcpy_from mem (d + 1) (s + 1) sz
   }"

definition my_memcpy :: "u8 list \<Rightarrow> nat \<Rightarrow> nat \<Rightarrow> nat \<Rightarrow> (nat \<times> u8 list) option" where
  "my_memcpy mem dest src sz = do {
     mem \<leftarrow> memcpy_from mem dest src sz;
     Some (dest, mem)
   }"

text \<open>\<open>for (i = size; i > 0; i--) d[i - 1] = s[i - 1]\<close>\<close>

fun copy_down :: "u8 list \<Rightarrow> nat \<Rightarrow> nat \<Rightarrow> nat \<Rightarrow> u8 list option" where
  "copy_down mem d s 0 = Some mem"
| "copy_down mem d s (Suc i) = do {
     c \<leftarrow> rd mem (s + i);
     mem \<leftarrow> wr mem (d + i) c;
     copy_down mem d s i
   }"

text \<open>\<open>for (i = 0; i < size; i++) d[i] = s[i]\<close>\<close>

function copy_up :: "u8 list \<Rightarrow> nat \<Rightarrow> nat \<Rightarrow> nat \<Rightarrow> nat \<Rightarrow> u8 list option" where
  "copy_up mem d s i sz =
     (if i < sz then do {
        c \<leftarrow> rd mem (s + i);
        mem \<leftarrow> wr mem (d + i) c;
        copy_up mem d s (i + 1) sz
      } else Some mem)"
  by pat_completeness auto
termination by (relation "measure (\<lambda>(_, _, _, i, sz). sz - i)") auto

declare copy_up.simps [simp del]

definition my_memmove :: "u8 list \<Rightarrow> nat \<Rightarrow> nat \<Rightarrow> nat \<Rightarrow> (nat \<times> u8 list) option" where
  "my_memmove mem dest src sz = do {
     mem \<leftarrow> (if dest > src then copy_down mem dest src sz else copy_up mem dest src 0 sz);
     Some (dest, mem)
   }"

text \<open>
  The first two blocks of the test in \<open>main\<close>: \<open>mem\<close> holds the bytes of the array \<open>src\<close> and then the zero bytes of
  \<open>dest\<close>; the arrays are compared byte by byte.
\<close>

definition main_disjoint :: "u8 list \<Rightarrow> unit option" where
  "main_disjoint src = do {
     let n = length src;
     let mem = src @ replicate n 0;
     (r, m) \<leftarrow> my_memcpy mem n 0 n;
     c_assert (r = n);
     c_assert (drop n m = src);
     (r, m) \<leftarrow> my_memcpy mem n 0 0;
     c_assert (r = n);
     (r, m) \<leftarrow> my_memmove m n 0 0;
     c_assert (r = n);
     c_assert (drop n m = replicate n 0)
   }"

text \<open>The overlapping cases of the test in \<open>main\<close>, on the bytes of \<open>"0123456789"\<close>.\<close>

definition digits_buf :: "u8 list" where
  "digits_buf = [48, 49, 50, 51, 52, 53, 54, 55, 56, 57]"

definition main_overlap :: "unit option" where
  "main_overlap = do {
     (r, buf) \<leftarrow> my_memmove digits_buf 3 0 5;
     c_assert (r = 3);
     c_assert (buf = [48, 49, 50, 48, 49, 50, 51, 52, 56, 57]);
     (r, buf) \<leftarrow> my_memmove digits_buf 0 3 5;
     c_assert (r = 0);
     c_assert (buf = [51, 52, 53, 54, 55, 53, 54, 55, 56, 57]);
     (r, buf) \<leftarrow> my_memmove digits_buf 0 0 10;
     c_assert (buf = digits_buf)
   }"

subsection \<open>The specification\<close>

text \<open>Byte \<open>k\<close> after the bytes \<open>src \<dots> src + size - 1\<close> of the original memory were placed at \<open>dest\<close>.\<close>

definition moved :: "u8 list \<Rightarrow> nat \<Rightarrow> nat \<Rightarrow> nat \<Rightarrow> u8 list" where
  "moved mem dest src sz =
     map (\<lambda>k. if dest \<le> k \<and> k < dest + sz then mem ! (src + (k - dest)) else mem ! k) [0..<length mem]"

lemma moved_nth:
  "k < length mem \<Longrightarrow> moved mem d s n ! k = (if d \<le> k \<and> k < d + n then mem ! (s + (k - d)) else mem ! k)"
  by (simp add: moved_def)

lemma length_moved [simp]: "length (moved mem d s n) = length mem"
  by (simp add: moved_def)

lemma moved_0 [simp]: "moved mem d s 0 = mem"
  by (rule nth_equalityI) (auto simp: moved_nth)

lemma moved_slices:
  assumes "d + n \<le> length mem" and "s + n \<le> length mem"
  shows "moved mem d s n = take d mem @ take n (drop s mem) @ drop (d + n) mem"
proof (rule nth_equalityI)
  fix k assume k: "k < length (moved mem d s n)"
  consider "k < d" | "d \<le> k" "k < d + n" | "d + n \<le> k" by linarith
  then show "moved mem d s n ! k = (take d mem @ take n (drop s mem) @ drop (d + n) mem) ! k"
  proof cases
    case 2
    then have "k - d < n" by linarith
    with 2 k assms show ?thesis by (simp add: moved_nth nth_append)
  next
    case 3
    then have "k - d - n = k - (d + n)" "\<not> k < d" "\<not> k - d < n" by simp_all
    with 3 k assms show ?thesis by (simp add: moved_nth nth_append)
  qed (use k assms in \<open>simp_all add: moved_nth nth_append\<close>)
qed (use assms in simp)

lemma copy_down_eq:
  assumes "d + n \<le> length mem" and "s < d"
  shows "copy_down mem d s n = Some (moved mem d s n)"
  using assms(1)
proof (induction n arbitrary: mem)
  case (Suc n)
  let ?mem = "mem[d + n := mem ! (s + n)]"
  have "copy_down mem d s (Suc n) = copy_down ?mem d s n" using Suc.prems assms(2) by simp
  also have "\<dots> = Some (moved ?mem d s n)" by (rule Suc.IH) (use Suc.prems in simp)
  also have "moved ?mem d s n = moved mem d s (Suc n)"
    using Suc.prems assms(2) by (auto simp: list_eq_iff_nth_eq moved_nth nth_list_update less_Suc_eq)
  finally show ?case .
qed simp

lemma copy_up_eq:
  assumes "s + n \<le> length mem" and "d \<le> s" and "i \<le> n"
  shows "copy_up (moved mem d s i) d s i n = Some (moved mem d s n)"
  using assms(3)
proof (induction "n - i" arbitrary: i)
  case 0
  then show ?case by (simp add: copy_up.simps)
next
  case (Suc m)
  then have i: "i < n" by simp
  have rd: "moved mem d s i ! (s + i) = mem ! (s + i)" using assms(1,2) i by (simp add: moved_nth)
  have "(moved mem d s i)[d + i := mem ! (s + i)] = moved mem d s (i + 1)"
    using assms(1,2) i by (auto simp: list_eq_iff_nth_eq moved_nth nth_list_update less_Suc_eq)
  then have "copy_up (moved mem d s i) d s i n = copy_up (moved mem d s (i + 1)) d s (i + 1) n"
    using i assms(1,2) rd by (subst copy_up.simps) simp
  also have "\<dots> = Some (moved mem d s n)" by (rule Suc.hyps(1)) (use Suc.hyps(2) i in auto)
  finally show ?case .
qed

lemma memcpy_from_eq:
  assumes "s + n \<le> length mem" and "d + n \<le> length mem" and "s + n \<le> d \<or> d + n \<le> s"
  shows "memcpy_from mem d s n = Some (moved mem d s n)"
  using assms
proof (induction n arbitrary: mem d s)
  case (Suc n)
  let ?mem = "mem[d := mem ! s]"
  have "memcpy_from mem d s (Suc n) = memcpy_from ?mem (d + 1) (s + 1) n" using Suc.prems by simp
  also have "\<dots> = Some (moved ?mem (d + 1) (s + 1) n)" by (rule Suc.IH) (use Suc.prems in auto)
  also have "moved ?mem (d + 1) (s + 1) n = moved mem d s (Suc n)"
  proof (rule nth_equalityI)
    fix k assume k: "k < length (moved ?mem (d + 1) (s + 1) n)"
    consider "k < d" | "k = d" | "d < k" by linarith
    then show "moved ?mem (d + 1) (s + 1) n ! k = moved mem d s (Suc n) ! k"
    proof cases
      case 3
      then have e: "s + 1 + (k - (d + 1)) = s + (k - d)" by simp
      have "s + (k - d) \<noteq> d" if "k < d + Suc n" using Suc.prems(3) that 3 by auto
      with 3 k e show ?thesis by (auto simp: moved_nth nth_list_update)
    qed (use k Suc.prems in \<open>simp_all add: moved_nth\<close>)
  qed simp
  finally show ?case .
qed simp

subsection \<open>Properties\<close>

text \<open>
  C30: \<open>my_memmove\<close> is right for all areas inside the memory, overlapping or not: the destination receives the
  original source bytes, every other byte is unchanged, and \<open>dest\<close> is returned; \<open>my_memcpy\<close> does
  the same when the areas do not overlap.
\<close>

theorem memmove_correct:
  assumes "dest + sz \<le> length mem" and "src + sz \<le> length mem"
  shows "my_memmove mem dest src sz = Some (dest, take dest mem @ take sz (drop src mem) @ drop (dest + sz) mem)
    \<and> (src + sz \<le> dest \<or> dest + sz \<le> src \<longrightarrow> my_memcpy mem dest src sz = my_memmove mem dest src sz)"
proof -
  have "my_memmove mem dest src sz = Some (dest, moved mem dest src sz)"
    using copy_down_eq [OF assms(1), of src] copy_up_eq [OF assms(2), of dest 0]
    by (simp add: my_memmove_def not_less)
  moreover have "my_memcpy mem dest src sz = Some (dest, moved mem dest src sz)"
    if "src + sz \<le> dest \<or> dest + sz \<le> src"
    using memcpy_from_eq [OF assms(2,1) that] by (simp add: my_memcpy_def)
  ultimately show ?thesis using moved_slices [OF assms] by simp
qed

theorem memmove_correct_witness:
  "my_memmove [0, 1, 2, 3, 4, 5] 1 0 3 = Some (1, [0, 0, 1, 2, 4, 5])"
  using memmove_correct [of 1 3 "[0, 1, 2, 3, 4, 5]" 0] by simp

text \<open>
  The direction test is needed: the forward copy of \<open>my_memcpy\<close> duplicates bytes when the destination
  starts inside the source area, and \<open>my_memmove\<close> does not.
\<close>

theorem memcpy_overlap_differs:
  "my_memcpy [1, 2, 3, 4] 1 0 3 = Some (1, [1, 1, 1, 1]) \<and> my_memmove [1, 2, 3, 4] 1 0 3 = Some (1, [1, 1, 2, 3])"
  by code_simp

lemma main_disjoint_passes: "main_disjoint src = Some ()"
  using memcpy_from_eq [of 0 "length src" "src @ replicate (length src) 0" "length src"]
    moved_slices [of "length src" "length src" "src @ replicate (length src) 0" 0]
  by (simp add: main_disjoint_def my_memcpy_def my_memmove_def copy_up.simps Let_def)

lemma main_overlap_passes: "main_overlap = Some ()"
  by code_simp

end
