(* ===== verification/Parens.thy ===== *)
theory Parens
  imports CPrelude
begin

text \<open>
  \<open>leetcode/02-valid-parentheses.c\<close>: a stack of opening brackets in an array of 10001 characters.  \<open>check_paren\<close>
  is \<^const>\<open>None\<close> when the code would overflow the array, or compute with the null pointer that
  \<open>strchr\<close> returns for a character that is no bracket.  The specification is the grammar \<open>balanced\<close>.
\<close>

definition starting :: string where "starting = ''({[''"
definition ending :: string where "ending = '')}]''"

definition STACK_SIZE :: nat where "STACK_SIZE = 10001"

text \<open>\<open>strchr\<close>: the position of the first occurrence (the searched character is never the terminating one here).\<close>

fun strchr :: "string \<Rightarrow> char \<Rightarrow> nat option" where
  "strchr [] c = None"
| "strchr (x # xs) c = (if x = c then Some 0 else map_option Suc (strchr xs c))"

fun check_from :: "string \<Rightarrow> nat \<Rightarrow> string \<Rightarrow> bool option" where
  "check_from s head [] = Some (head = 0)"
| "check_from s head (p # ps) =
     (if strchr starting p \<noteq> None then do {
        s \<leftarrow> wr s head p;
        check_from s (head + 1) ps
      } else do {
        ind \<leftarrow> strchr ending p;
        pair \<leftarrow> rd starting ind;
        if head = 0 then Some False
        else do {
          top \<leftarrow> rd s (head - 1);
          if top \<noteq> pair then Some False else check_from s (head - 1) ps
        }
      })"

text \<open>\<open>stk\<close> is the uninitialised array; \<open>tail\<close> stays 0.\<close>

definition check_paren :: "string \<Rightarrow> string \<Rightarrow> bool option" where
  "check_paren stk input = check_from stk 0 input"

definition expect :: "bool \<Rightarrow> string \<Rightarrow> unit option" where
  "expect res input = do {
     r \<leftarrow> check_paren (replicate STACK_SIZE (CHR 0x00)) input;
     c_assert (r = res)
   }"

definition main :: "unit option" where
  "main = do {
     expect True ''()()'';
     expect True ''()[]{}'';
     expect False ''([)]'';
     expect True ''{[]}'';
     expect True [];
     expect False ''(('';
     expect False (replicate 1001 (CHR ''(''))
   }"

subsection \<open>The grammar\<close>

definition matches :: "char \<Rightarrow> char \<Rightarrow> bool" where
  "matches x c \<longleftrightarrow> (x, c) \<in> {(CHR ''('', CHR '')''), (CHR ''{'', CHR ''}''), (CHR ''['', CHR '']'')}"

inductive balanced :: "string \<Rightarrow> bool" where
  empty: "balanced []"
| wrap: "balanced a \<Longrightarrow> balanced b \<Longrightarrow> matches x c \<Longrightarrow> balanced (x # a @ c # b)"

text \<open>\<open>s\<close> closes the brackets on the stack, innermost first, with balanced strings in between.\<close>

fun closes :: "string \<Rightarrow> string \<Rightarrow> bool" where
  "closes [] s \<longleftrightarrow> balanced s"
| "closes (x # st) s \<longleftrightarrow> (\<exists>a c b. s = a @ c # b \<and> balanced a \<and> matches x c \<and> closes st b)"

subsection \<open>The check with a list as the stack\<close>

definition is_open :: "char \<Rightarrow> bool" where
  "is_open c \<longleftrightarrow> c \<in> set starting"

definition bracket :: "char \<Rightarrow> bool" where
  "bracket c \<longleftrightarrow> c \<in> set starting \<union> set ending"

fun check_list :: "string \<Rightarrow> string \<Rightarrow> bool" where
  "check_list st [] \<longleftrightarrow> st = []"
| "check_list st (p # ps) \<longleftrightarrow>
     (if is_open p then check_list (p # st) ps
      else case st of [] \<Rightarrow> False | x # st' \<Rightarrow> matches x p \<and> check_list st' ps)"

lemma matches_opening: "matches x c \<Longrightarrow> is_open x \<and> \<not> is_open c"
  by (auto simp: matches_def is_open_def starting_def)

lemma check_list_balanced: "balanced a \<Longrightarrow> check_list st (a @ s) = check_list st s"
proof (induction arbitrary: st s rule: balanced.induct)
  case (wrap a b x c)
  have "check_list st ((x # a @ c # b) @ s) = check_list (x # st) (c # b @ s)"
    using wrap.IH(1) [of "x # st" "c # b @ s"] matches_opening [OF wrap.hyps(3)] by simp
  also have "\<dots> = check_list st s" using wrap.IH(2) wrap.hyps(3) matches_opening [OF wrap.hyps(3)] by simp
  finally show ?case .
qed simp

lemma closes_check: "closes st s \<Longrightarrow> check_list st s"
proof (induction st arbitrary: s)
  case Nil
  then show ?case using check_list_balanced [of s "[]" "[]"] by simp
next
  case (Cons x st)
  then obtain a c b where s: "s = a @ c # b" "balanced a" "matches x c" "closes st b" by auto
  then show ?case using Cons.IH [OF s(4)] check_list_balanced [OF s(2)] matches_opening [OF s(3)] by simp
qed

lemma check_closes: "check_list st s \<Longrightarrow> closes st s"
proof (induction s arbitrary: st)
  case Nil
  then show ?case by (simp add: balanced.empty)
next
  case (Cons p s)
  show ?case
  proof (cases "is_open p")
    case True
    then have "closes (p # st) s" using Cons.IH [of "p # st"] Cons.prems by (simp del: closes.simps)
    then obtain a c b where s: "s = a @ c # b" "balanced a" "matches p c" "closes st b" by auto
    show ?thesis
    proof (cases st)
      case Nil
      with s show ?thesis by (simp add: balanced.wrap)
    next
      case (Cons y st')
      with s(4) obtain a' c' b' where b: "b = a' @ c' # b'" "balanced a'" "matches y c'" "closes st' b'" by auto
      have "balanced (p # a @ c # a')" using s(2,3) b(2) by (simp add: balanced.wrap)
      moreover have "p # s = (p # a @ c # a') @ c' # b'" using s(1) b(1) by simp
      ultimately show ?thesis using Cons b(3,4) by (metis closes.simps(2))
    qed
  next
    case False
    then obtain y st' where st: "st = y # st'" "matches y p" "check_list st' s"
      using Cons.prems by (auto split: list.splits)
    then have "closes st' s" using Cons.IH by blast
    then show ?thesis using st(1,2) balanced.empty by (metis append_Nil closes.simps(2))
  qed
qed

lemma check_list_iff: "check_list [] s \<longleftrightarrow> balanced s"
  using closes_check [of "[]" s] check_closes [of "[]" s] by auto

subsection \<open>The array refines the list\<close>

lemma strchr_starting: "strchr starting p \<noteq> None \<longleftrightarrow> is_open p"
  by (auto simp: starting_def is_open_def)

lemma pair_lookup:
  assumes "bracket p" and "\<not> is_open p"
  shows "\<exists>ind pair. strchr ending p = Some ind \<and> rd starting ind = Some pair \<and> (\<forall>x. matches x p \<longleftrightarrow> x = pair)"
  using assms by (auto simp: bracket_def is_open_def starting_def ending_def matches_def rd_def)

lemma check_from_eq:
  assumes "head + length ps \<le> length s" and "\<forall>p \<in> set ps. bracket p"
  shows "check_from s head ps = Some (check_list (rev (take head s)) ps)"
  using assms
proof (induction ps arbitrary: s head)
  case Nil
  then show ?case by (cases s; cases head) auto
next
  case (Cons p ps)
  then have head: "head < length s" by simp
  show ?case
  proof (cases "is_open p")
    case True
    have "check_from s head (p # ps) = check_from (s[head := p]) (head + 1) ps"
      using True head strchr_starting [of p] by simp
    also have "\<dots> = Some (check_list (rev (take (head + 1) (s[head := p]))) ps)"
      by (rule Cons.IH) (use Cons.prems in auto)
    also have "rev (take (head + 1) (s[head := p])) = p # rev (take head s)"
      using head by (simp add: take_Suc_conv_app_nth)
    finally show ?thesis using True by simp
  next
    case False
    obtain ind pair where pr: "strchr ending p = Some ind" "rd starting ind = Some pair" "\<And>x. matches x p \<longleftrightarrow> x = pair"
      using pair_lookup [of p] False Cons.prems(2) by auto
    show ?thesis
    proof (cases head)
      case 0
      then show ?thesis using False pr strchr_starting [of p] by simp
    next
      case (Suc h)
      then have tk: "rev (take head s) = s ! h # rev (take h s)" using head by (simp add: take_Suc_conv_app_nth)
      have "check_from s h ps = Some (check_list (rev (take h s)) ps)"
        by (rule Cons.IH) (use Cons.prems Suc in auto)
      then show ?thesis using False pr Suc head tk strchr_starting [of p] by simp
    qed
  qed
qed

lemma overflow_stack:
  assumes "length s < h + n" and "h \<le> length s"
  shows "check_from s h (replicate n (CHR ''('')) = None"
  using assms
proof (induction n arbitrary: s h)
  case (Suc n)
  show ?case
  proof (cases "h < length s")
    case True
    then show ?thesis using Suc by (simp add: starting_def)
  next
    case False
    then show ?thesis by (simp add: starting_def wr_def)
  qed
qed simp

lemma expect_eq:
  assumes "length input \<le> STACK_SIZE" and "list_all bracket input"
  shows "expect res input = c_assert (check_list [] input = res)"
  using assms check_from_eq [of 0 input "replicate STACK_SIZE (CHR 0x00)"]
  by (simp add: expect_def check_paren_def list_all_iff)

lemma check_list_only_open: "check_list st (replicate n (CHR ''('')) \<longleftrightarrow> st = [] \<and> n = 0"
  by (induction n arbitrary: st) (auto simp: is_open_def starting_def)

lemma list_all_replicate: "P x \<Longrightarrow> list_all P (replicate n x)"
  by (simp add: list_all_iff)

lemma expect_only_open:
  assumes "0 < n" and "n \<le> STACK_SIZE"
  shows "expect False (replicate n (CHR ''('')) = Some ()"
  using assms by (subst expect_eq) (simp_all add: check_list_only_open list_all_replicate bracket_def starting_def)

lemma paren_main_passes: "main = Some ()"
  by (simp add: main_def expect_only_open expect_eq STACK_SIZE_def bracket_def is_open_def starting_def ending_def matches_def)

subsection \<open>Properties\<close>

text \<open>
  C31: For every string of at most 10001 brackets \<open>check_paren\<close> returns, without leaving its stack, and it
  returns true exactly when the string is balanced in the sense of the grammar.
\<close>

theorem check_paren_correct:
  assumes "length stk = STACK_SIZE" and "length input \<le> STACK_SIZE" and "\<forall>c \<in> set input. c \<in> set ''({[)}]''"
  shows "check_paren stk input = Some (balanced input)"
proof -
  have "\<forall>c \<in> set input. bracket c" using assms(3) by (auto simp: bracket_def starting_def ending_def)
  then show ?thesis using assms(1,2) check_from_eq [of 0 input stk] check_list_iff by (simp add: check_paren_def)
qed

theorem check_paren_correct_witness:
  "check_paren (replicate STACK_SIZE (CHR ''a'')) ''([)]'' = Some (balanced ''([)]'')"
  by (rule check_paren_correct) (simp_all add: STACK_SIZE_def)

text \<open>
  The code relies on its input: a character that is no bracket makes it subtract from a null
  pointer, and 10002 opening brackets write past the end of the stack.
\<close>

theorem check_paren_unchecked_input:
  assumes "length stk = STACK_SIZE"
  shows "check_paren stk ''a'' = None \<and> check_paren stk (replicate (STACK_SIZE + 1) (CHR ''('')) = None"
proof
  show "check_paren stk ''a'' = None" by (simp add: check_paren_def starting_def ending_def)
  show "check_paren stk (replicate (STACK_SIZE + 1) (CHR ''('')) = None"
    unfolding check_paren_def by (rule overflow_stack) (use assms in simp_all)
qed

theorem check_paren_unchecked_input_witness:
  "check_paren (replicate STACK_SIZE (CHR ''x'')) ''a'' = None"
  using check_paren_unchecked_input [of "replicate STACK_SIZE (CHR ''x'')"] by simp

end
