(* ===== verification/Sudoku.thy ===== *)
theory Sudoku
  imports CPrelude
begin

text \<open>
  \<open>leetcode/12-sudoku-validator.c\<close>: two validators of an \<open>n\<close> by \<open>n\<close> board.  \<open>sudoku_valid_v0\<close> has one loop nest per
  kind of unit and one \<open>seen\<close> array that it clears after each unit; \<open>sudoku_valid\<close> copies each unit into
  \<open>vals\<close> through a table of gather functions and checks it there.  The arguments \<open>n\<close> and \<open>box\<close> are C
  \<open>int\<close>s; behind the guard \<open>0 \<le> n \<le> 1000\<close>, so the loop indices and cell numbers (below \<open>10\<^sup>6\<close>) are written as
  natural numbers.  A body with \<open>continue\<close> and \<open>return false\<close> yields \<open>Some None\<close> for the return and
  \<open>Some (Some seen)\<close> for going on; the outer \<^const>\<open>None\<close> is an access outside an array.
\<close>

definition MAX_N :: nat where "MAX_N = 1000"

definition bad_size :: "int \<Rightarrow> int \<Rightarrow> bool" where
  "bad_size n box \<longleftrightarrow> n < 0 \<or> n > int MAX_N \<or> box \<le> 0 \<or> box > n \<or> box * box \<noteq> n"

text \<open>
  The loop body on one cell value \<open>v\<close>; \<open>one\<close> is the mark in \<open>seen\<close> (\<open>true\<close> in the first validator, \<open>1\<close> in \<open>unit_ok\<close>).
\<close>

definition mark :: "'a \<Rightarrow> nat \<Rightarrow> 'a list \<Rightarrow> int \<Rightarrow> 'a list option option" where
  "mark one n seen v =
     (if v = 0 then Some (Some seen)
      else if v < 0 \<or> v > int n then Some None
      else do {
        s \<leftarrow> rd seen (nat v);
        if s = one then Some None
        else do { seen \<leftarrow> wr seen (nat v) one; Some (Some seen) }
      })"

text \<open>The body run on the cells with the given numbers, in order.\<close>

fun scan :: "'a \<Rightarrow> int list \<Rightarrow> nat \<Rightarrow> 'a list \<Rightarrow> nat list \<Rightarrow> 'a list option option" where
  "scan one board n seen [] = Some (Some seen)"
| "scan one board n seen (c # cs) = do {
     v \<leftarrow> rd board c;
     r \<leftarrow> mark one n seen v;
     case r of None \<Rightarrow> Some None | Some seen \<Rightarrow> scan one board n seen cs
   }"

text \<open>One unit after the other, with \<open>memset(seen, 0, sizeof seen)\<close> after each.\<close>

fun v0_units :: "int list \<Rightarrow> nat \<Rightarrow> bool list \<Rightarrow> nat list list \<Rightarrow> bool list option option" where
  "v0_units board n seen [] = Some (Some seen)"
| "v0_units board n seen (u # us) = do {
     r \<leftarrow> scan True board n seen u;
     case r of None \<Rightarrow> Some None | Some seen \<Rightarrow> v0_units board n (replicate (length seen) False) us
   }"

definition row_cells :: "nat \<Rightarrow> nat list list" where
  "row_cells n = map (\<lambda>i. map (\<lambda>j. i * n + j) [0..<n]) [0..<n]"

definition col_cells :: "nat \<Rightarrow> nat list list" where
  "col_cells n = map (\<lambda>i. map (\<lambda>j. j * n + i) [0..<n]) [0..<n]"

definition box_cells :: "nat \<Rightarrow> nat \<Rightarrow> nat list list" where
  "box_cells n box =
     concat (map (\<lambda>i. map (\<lambda>j.
       let r0 = i * box; c0 = j * box
       in concat (map (\<lambda>k. map (\<lambda>l. (k + r0) * n + c0 + l) [0..<box]) [0..<box]))
     [0..<box]) [0..<box])"

definition sudoku_valid_v0 :: "int list \<Rightarrow> int \<Rightarrow> int \<Rightarrow> bool option" where
  "sudoku_valid_v0 board n box =
     (if bad_size n box then Some False
      else do {
        r \<leftarrow> v0_units board (nat n) (replicate (MAX_N + 1) False) (row_cells (nat n));
        case r of None \<Rightarrow> Some False
        | Some seen \<Rightarrow> do {
            r \<leftarrow> v0_units board (nat n) seen (col_cells (nat n));
            case r of None \<Rightarrow> Some False
            | Some seen \<Rightarrow> do {
                r \<leftarrow> v0_units board (nat n) seen (box_cells (nat n) (nat box));
                Some (r \<noteq> None)
              }
          }
      })"

text \<open>\<open>unit_ok\<close>: the same body on \<open>vals[0]\<close> \<dots> \<open>vals[n - 1]\<close>, with an \<open>int\<close> array of its own.\<close>

definition unit_ok :: "int list \<Rightarrow> nat \<Rightarrow> bool option" where
  "unit_ok vals n = do {
     r \<leftarrow> scan (1::int) vals n (replicate (MAX_N + 1) 0) [0..<n];
     Some (r \<noteq> None)
   }"

text \<open>\<open>for (i = 0; i < n; i++) out[i] = board[f(i)]\<close>\<close>

fun gather :: "(nat \<Rightarrow> nat) \<Rightarrow> int list \<Rightarrow> nat list \<Rightarrow> int list \<Rightarrow> int list option" where
  "gather f board [] out = Some out"
| "gather f board (i # is) out = do {
     v \<leftarrow> rd board (f i);
     out \<leftarrow> wr out i v;
     gather f board is out
   }"

type_synonym gatherer = "int list \<Rightarrow> nat \<Rightarrow> nat \<Rightarrow> nat \<Rightarrow> int list \<Rightarrow> int list option"

definition row_gatherer :: gatherer where
  "row_gatherer board n b u out = gather (\<lambda>i. u * n + i) board [0..<n] out"

definition col_gatherer :: gatherer where
  "col_gatherer board n b u out = gather (\<lambda>i. i * n + u) board [0..<n] out"

definition sqr_gatherer :: gatherer where
  "sqr_gatherer board n b u out =
     (let r0 = u div b * b; c0 = (u mod b) * b
      in gather (\<lambda>i. (r0 + i div b) * n + c0 + i mod b) board [0..<n] out)"

definition diag_gatherer :: gatherer where
  "diag_gatherer board n b u out = do {
     c_assert (u = 0 \<or> u = 1);
     if u = 0 then gather (\<lambda>i. i * n + i) board [0..<n] out
     else gather (\<lambda>i. i * n + n - 1 - i) board [0..<n] out
   }"

text \<open>The units \<open>js\<close> of one kind; \<open>Some None\<close> is the early \<open>return false\<close>.\<close>

fun check_kind :: "gatherer \<Rightarrow> int list \<Rightarrow> nat \<Rightarrow> nat \<Rightarrow> nat list \<Rightarrow> int list \<Rightarrow> int list option option" where
  "check_kind g board n box [] vals = Some (Some vals)"
| "check_kind g board n box (j # js) vals = do {
     vals \<leftarrow> g board n box j vals;
     ok \<leftarrow> unit_ok vals n;
     if \<not> ok then Some None else check_kind g board n box js vals
   }"

fun check_kinds :: "(gatherer \<times> nat) list \<Rightarrow> int list \<Rightarrow> nat \<Rightarrow> nat \<Rightarrow> int list \<Rightarrow> bool option" where
  "check_kinds [] board n box vals = Some True"
| "check_kinds ((g, m) # kinds) board n box vals = do {
     r \<leftarrow> check_kind g board n box [0..<m] vals;
     case r of None \<Rightarrow> Some False | Some vals \<Rightarrow> check_kinds kinds board n box vals
   }"

text \<open>\<open>vals\<close> is the uninitialised local array of \<open>MAX_N\<close> integers.\<close>

definition sudoku_valid :: "int list \<Rightarrow> int list \<Rightarrow> int \<Rightarrow> int \<Rightarrow> bool option" where
  "sudoku_valid vals board n box =
     (if bad_size n box then Some False
      else check_kinds
        [(row_gatherer, nat n), (col_gatherer, nat n), (sqr_gatherer, nat n), (diag_gatherer, 2)]
        board (nat n) (nat box) vals)"

text \<open>One test of \<open>main\<close>: the results of both validators on a board.\<close>

definition expect_valid :: "int list \<Rightarrow> int \<Rightarrow> int \<Rightarrow> bool \<Rightarrow> bool \<Rightarrow> unit option" where
  "expect_valid board n box res0 res = do {
     r \<leftarrow> sudoku_valid_v0 board n box;
     c_assert (r = res0);
     r \<leftarrow> sudoku_valid (replicate MAX_N 0) board n box;
     c_assert (r = res)
   }"

definition main :: "unit option" where
  "main = do {
     expect_valid ((replicate 81 0)[5 := 1]) 9 3 True True;
     expect_valid
       [0, 3, 2, 4,
        2, 0, 1, 3,
        3, 0, 4, 2,
        0, 2, 3, 1] 4 2 True True;
     expect_valid
       [1, 0, 1, 4,
        2, 0, 0, 3,
        3, 0, 4, 2,
        4, 2, 3, 1] 4 2 False False;
     expect_valid
       [1, 0, 2, 4,
        3, 4, 0, 0,
        1, 0, 4, 2,
        4, 2, 3, 1] 4 2 False False;
     expect_valid
       [1, 3, 2, 4,
        2, 4, 0, 3,
        3, 0, 1, 2,
        4, 2, 3, 1] 4 2 False False;
     expect_valid (replicate 100 0) 10 4 False False;
     expect_valid
       [1, 3, 2, 4,
        2, 0, 1, 3,
        3, 0, 4, 2,
        0, 2, 3, 1] 4 2 True False;
     expect_valid
       [0, 3, 2, 4,
        2, 0, 1, 3,
        3, 0, 4, 2,
        4, 2, 3, 1] 4 2 True False;
     expect_valid (replicate 10002 0) 10002 6 False False
   }"

subsection \<open>The specification\<close>

text \<open>A unit may hold zeros; its other values are between 1 and \<open>n\<close>, each at most once.\<close>

definition unit_valid :: "nat \<Rightarrow> int list \<Rightarrow> bool" where
  "unit_valid n vs \<longleftrightarrow> (\<forall>v \<in> set vs. 0 \<le> v \<and> v \<le> int n) \<and> distinct (filter (\<lambda>v. v \<noteq> 0) vs)"

definition units_valid :: "int list \<Rightarrow> nat \<Rightarrow> nat list list \<Rightarrow> bool" where
  "units_valid board n us \<longleftrightarrow> (\<forall>u \<in> set us. unit_valid n (map ((!) board) u))"

definition diag_cells :: "nat \<Rightarrow> nat list list" where
  "diag_cells n = [map (\<lambda>i. i * n + i) [0..<n], map (\<lambda>i. i * n + n - 1 - i) [0..<n]]"

definition sqr_cells :: "nat \<Rightarrow> nat \<Rightarrow> nat list list" where
  "sqr_cells n b =
     map (\<lambda>u. map (\<lambda>i. (u div b * b + i div b) * n + (u mod b) * b + i mod b) [0..<n]) [0..<n]"

subsection \<open>Scanning one unit\<close>

definition unseen :: "'a \<Rightarrow> nat \<Rightarrow> 'a list \<Rightarrow> int list \<Rightarrow> bool" where
  "unseen one n seen vs \<longleftrightarrow> unit_valid n vs \<and> (\<forall>v \<in> set vs. v \<noteq> 0 \<longrightarrow> seen ! nat v \<noteq> one)"

lemma unseen_Nil [simp]: "unseen one n seen []"
  by (simp add: unseen_def unit_valid_def)

lemma unseen_zero: "unseen one n seen (0 # vs) \<longleftrightarrow> unseen one n seen vs"
  by (auto simp: unseen_def unit_valid_def)

lemma unseen_pos:
  assumes "v \<noteq> 0" and "0 \<le> v" and "v \<le> int n" and "n < length seen"
  shows "unseen one n seen (v # vs) \<longleftrightarrow> seen ! nat v \<noteq> one \<and> unseen one n (seen[nat v := one]) vs"
proof -
  have upd: "seen[nat v := one] ! nat w = (if w = v then one else seen ! nat w)" if "0 \<le> w" for w
    using that assms by (auto simp: nth_list_update eq_nat_nat_iff)
  show ?thesis
    unfolding unseen_def unit_valid_def using assms(1-3) upd by (auto split: if_splits)
qed

lemma scan_eq:
  assumes "n < length seen" and "\<forall>c \<in> set cs. c < length board"
  shows "\<exists>r. scan one board n seen cs = Some r \<and> (r \<noteq> None \<longleftrightarrow> unseen one n seen (map ((!) board) cs))
    \<and> (\<forall>seen'. r = Some seen' \<longrightarrow> length seen' = length seen)"
  using assms
proof (induction cs arbitrary: seen)
  case Nil
  then show ?case by simp
next
  case (Cons c cs)
  let ?v = "board ! c"
  have rd: "rd board c = Some ?v" using Cons.prems by simp
  consider "?v = 0" | "?v < 0 \<or> ?v > int n" | "?v \<noteq> 0" "0 \<le> ?v" "?v \<le> int n" by linarith
  then show ?case
  proof cases
    case 1
    then show ?thesis using Cons rd by (simp add: mark_def unseen_zero)
  next
    case 2
    then show ?thesis using rd by (auto simp: mark_def unseen_def unit_valid_def)
  next
    case 3
    then have nv: "nat ?v < length seen" using Cons.prems by linarith
    have u: "unseen one n seen (map ((!) board) (c # cs)) \<longleftrightarrow>
        seen ! nat ?v \<noteq> one \<and> unseen one n (seen[nat ?v := one]) (map ((!) board) cs)"
      using unseen_pos [OF 3 Cons.prems(1), of one "map ((!) board) cs"] by simp
    show ?thesis
    proof (cases "seen ! nat ?v = one")
      case True
      then have "scan one board n seen (c # cs) = Some None" using 3 nv rd by (simp add: mark_def)
      then show ?thesis using u True by simp
    next
      case False
      then have "scan one board n seen (c # cs) = scan one board n (seen[nat ?v := one]) cs"
        using 3 nv rd by (simp add: mark_def)
      then show ?thesis using u False Cons.IH [of "seen[nat ?v := one]"] Cons.prems by simp
    qed
  qed
qed

lemma unseen_fresh:
  assumes "a \<noteq> one" and "n < k"
  shows "unseen one n (replicate k a) vs \<longleftrightarrow> unit_valid n vs"
  using assms by (force simp: unseen_def unit_valid_def)

lemma v0_units_eq:
  assumes "n \<le> MAX_N" and "\<forall>u \<in> set us. \<forall>c \<in> set u. c < length board"
  shows "v0_units board n (replicate (MAX_N + 1) False) us =
    Some (if units_valid board n us then Some (replicate (MAX_N + 1) False) else None)"
  using assms(2)
proof (induction us)
  case Nil
  then show ?case by (simp add: units_valid_def)
next
  case (Cons u us)
  obtain r where r: "scan True board n (replicate (MAX_N + 1) False) u = Some r"
      "r \<noteq> None \<longleftrightarrow> unit_valid n (map ((!) board) u)" "\<And>seen. r = Some seen \<Longrightarrow> length seen = MAX_N + 1"
    using scan_eq [of n "replicate (MAX_N + 1) False" u board True] unseen_fresh [of False True n "MAX_N + 1"]
      assms(1) Cons.prems by auto
  show ?case
  proof (cases r)
    case None
    then show ?thesis using r by (auto simp: units_valid_def)
  next
    case (Some seen)
    then show ?thesis using r Cons by (auto simp: units_valid_def)
  qed
qed

lemma unit_ok_eq:
  assumes "n \<le> MAX_N" and "n \<le> length vals"
  shows "unit_ok vals n = Some (unit_valid n (take n vals))"
proof -
  have "map ((!) vals) [0..<n] = take n vals" using assms(2) by (simp add: list_eq_iff_nth_eq)
  then show ?thesis
    using scan_eq [of n "replicate (MAX_N + 1) 0" "[0..<n]" vals "1::int"] unseen_fresh [of "0::int" 1 n "MAX_N + 1"] assms
    by (auto simp: unit_ok_def)
qed

subsection \<open>Gathering a unit\<close>

lemma gather_eq:
  assumes "\<forall>i \<in> set is. f i < length board \<and> i < length out" and "distinct is"
  shows "\<exists>out'. gather f board is out = Some out' \<and> length out' = length out
    \<and> (\<forall>i < length out. out' ! i = (if i \<in> set is then board ! f i else out ! i))"
  using assms
proof (induction "is" arbitrary: out)
  case Nil
  then show ?case by simp
next
  case (Cons i "is")
  then obtain out' where "gather f board is (out[i := board ! f i]) = Some out'" "length out' = length out"
    "\<forall>k < length out. out' ! k = (if k \<in> set is then board ! f k else out[i := board ! f i] ! k)"
    using Cons.IH [of "out[i := board ! f i]"] by auto
  then show ?case using Cons.prems by (auto simp: nth_list_update)
qed

lemma gather_take:
  assumes "\<forall>i < n. f i < length board" and "n \<le> length out"
  shows "\<exists>out'. gather f board [0..<n] out = Some out' \<and> length out' = length out
    \<and> take n out' = map ((!) board) (map f [0..<n])"
proof -
  obtain out' where "gather f board [0..<n] out = Some out'" "length out' = length out"
    "\<forall>i < length out. out' ! i = (if i \<in> set [0..<n] then board ! f i else out ! i)"
    using gather_eq [of "[0..<n]" f board out] assms by auto
  moreover from this have "take n out' = map ((!) board) (map f [0..<n])"
    using assms(2) by (intro nth_equalityI) auto
  ultimately show ?thesis by blast
qed

text \<open>A gather function that fetches, for unit \<open>u\<close>, the cells \<open>units ! u\<close>.\<close>

definition gathers :: "gatherer \<Rightarrow> int list \<Rightarrow> nat \<Rightarrow> nat \<Rightarrow> nat list list \<Rightarrow> bool" where
  "gathers g board n box units \<longleftrightarrow>
     (\<forall>u < length units. \<forall>out. n \<le> length out \<longrightarrow>
       (\<exists>out'. g board n box u out = Some out' \<and> length out' = length out
         \<and> take n out' = map ((!) board) (units ! u)))"

lemma check_kind_eq:
  assumes "gathers g board n box units" and "n \<le> MAX_N" and "n \<le> length vals" and "\<forall>j \<in> set js. j < length units"
  shows "\<exists>r. check_kind g board n box js vals = Some r
    \<and> (r \<noteq> None \<longleftrightarrow> (\<forall>j \<in> set js. unit_valid n (map ((!) board) (units ! j))))
    \<and> (\<forall>vals'. r = Some vals' \<longrightarrow> length vals' = length vals)"
  using assms(3,4)
proof (induction js arbitrary: vals)
  case Nil
  then show ?case by simp
next
  case (Cons j js)
  then obtain vals' where g: "g board n box j vals = Some vals'" "length vals' = length vals"
      "take n vals' = map ((!) board) (units ! j)"
    using assms(1) unfolding gathers_def by (meson list.set_intros(1))
  have "unit_ok vals' n = Some (unit_valid n (map ((!) board) (units ! j)))"
    using unit_ok_eq [OF assms(2), of vals'] g Cons.prems by simp
  then show ?case using Cons.IH [of vals'] Cons.prems g by auto
qed

lemma check_kinds_Cons:
  assumes "gathers g board n box units" and "n \<le> MAX_N" and "n \<le> length vals" and "m = length units"
    and "\<And>vals'. length vals' = length vals \<Longrightarrow> check_kinds kinds board n box vals' = Some b"
  shows "check_kinds ((g, m) # kinds) board n box vals = Some (units_valid board n units \<and> b)"
proof -
  obtain r where r: "check_kind g board n box [0..<m] vals = Some r"
      "r \<noteq> None \<longleftrightarrow> (\<forall>j \<in> set [0..<m]. unit_valid n (map ((!) board) (units ! j)))"
      "\<forall>vals'. r = Some vals' \<longrightarrow> length vals' = length vals"
    using check_kind_eq [OF assms(1-3), of "[0..<m]"] assms(4) by auto
  have "units_valid board n units \<longleftrightarrow> (\<forall>j \<in> set [0..<m]. unit_valid n (map ((!) board) (units ! j)))"
    unfolding units_valid_def assms(4) by (auto simp: all_set_conv_all_nth)
  then show ?thesis using r assms(5) by (cases r) auto
qed

subsection \<open>Cell numbers\<close>

lemma grid_list:
  "concat (map (\<lambda>k. map (f k) [0..<b]) [0..<m]) = map (\<lambda>i. f (i div b) (i mod b)) [0..<m * b]"
proof (induction m)
  case 0
  then show ?case by simp
next
  case (Suc m)
  have "map (f m) [0..<b] = map (\<lambda>i. f (i div b) (i mod b)) [m * b..<m * b + b]"
  proof (rule nth_equalityI)
    fix i assume "i < length (map (f m) [0..<b])"
    then show "map (f m) [0..<b] ! i = map (\<lambda>i. f (i div b) (i mod b)) [m * b..<m * b + b] ! i"
      by simp
  qed simp
  moreover have "[0..<Suc m * b] = [0..<m * b] @ [m * b..<m * b + b]"
    using upt_add_eq_append [of 0 "m * b" b] by (simp add: add.commute)
  ultimately show ?case using Suc by simp
qed

text \<open>Numbering the boxes row by row, as \<open>sqr_gatherer\<close> does, gives the loop nest of the first validator.\<close>

lemma box_cells_eq: "box_cells (b * b) b = sqr_cells (b * b) b"
  unfolding box_cells_def sqr_cells_def Let_def grid_list by (simp add: grid_list add_ac)

lemma sqr_cell_less:
  fixes b :: nat
  assumes "u < b * b" and "i < b * b"
  shows "(u div b * b + i div b) * (b * b) + (u mod b) * b + i mod b < b * b * (b * b)"
proof -
  have "0 < b" using assms by (cases b) auto
  then have "u div b * b + i div b < b * b" "(u mod b) * b + i mod b < b * b"
    using assms by (auto intro!: flat_less simp: less_mult_imp_div_less)
  from flat_less [OF this] show ?thesis by (simp add: add_ac)
qed

lemma diag_cell_less:
  assumes "i < (n::nat)"
  shows "i * n + i < n * n" and "i * n + n - 1 - i < n * n"
  using flat_less [of i n i n] flat_less [of i n "n - 1 - i" n] assms by auto

lemma gathersI:
  assumes "\<And>u out. u < length units \<Longrightarrow> g board n box u out = gather (f u) board [0..<n] out"
    and "\<And>u i. u < length units \<Longrightarrow> i < n \<Longrightarrow> f u i < length board"
    and "\<And>u. u < length units \<Longrightarrow> units ! u = map (f u) [0..<n]"
  shows "gathers g board n box units"
  unfolding gathers_def using assms gather_take [of n "f u" board out for u out] by metis

lemma gatherers:
  assumes "length board = b * b * (b * b)" and "n = b * b"
  shows "gathers row_gatherer board n b (row_cells n)" and "gathers col_gatherer board n b (col_cells n)"
    and "gathers sqr_gatherer board n b (sqr_cells n b)" and "gathers diag_gatherer board n b (diag_cells n)"
proof -
  have len: "length board = n * n" using assms by simp
  show "gathers row_gatherer board n b (row_cells n)"
    by (rule gathersI [where f = "\<lambda>u i. u * n + i"]) (auto simp: row_gatherer_def row_cells_def len intro: flat_less)
  show "gathers col_gatherer board n b (col_cells n)"
    by (rule gathersI [where f = "\<lambda>u i. i * n + u"]) (auto simp: col_gatherer_def col_cells_def len intro: flat_less)
  show "gathers sqr_gatherer board n b (sqr_cells n b)"
    by (rule gathersI [where f = "\<lambda>u i. (u div b * b + i div b) * n + (u mod b) * b + i mod b"])
       (auto simp: sqr_gatherer_def sqr_cells_def assms intro: sqr_cell_less)
  show "gathers diag_gatherer board n b (diag_cells n)"
    by (rule gathersI [where f = "\<lambda>u i. if u = 0 then i * n + i else i * n + n - 1 - i"])
       (auto simp: diag_gatherer_def diag_cells_def len diag_cell_less diag_cell_less(2) [simplified] less_Suc_eq numeral_2_eq_2 cong: map_cong)
qed

lemma cells_less:
  assumes "length board = b * b * (b * b)" and "n = b * b"
  shows "\<forall>u \<in> set (row_cells n). \<forall>c \<in> set u. c < length board"
    and "\<forall>u \<in> set (col_cells n). \<forall>c \<in> set u. c < length board"
    and "\<forall>u \<in> set (sqr_cells n b). \<forall>c \<in> set u. c < length board"
proof -
  have row: "c < n * n" if "u < n" "c < n + u * n" for u c
    using that(2) mult_le_mono1 [of "Suc u" n n] that(1) by simp
  then show "\<forall>u \<in> set (row_cells n). \<forall>c \<in> set u. c < length board"
    using assms by (auto simp: row_cells_def)
qed (use assms in \<open>auto simp: col_cells_def sqr_cells_def intro: flat_less sqr_cell_less\<close>)

lemma good_size:
  assumes "\<not> bad_size n box" and "int (length board) = n * n"
  obtains b where "box = int b" "n = int (b * b)" "b * b \<le> MAX_N" "length board = b * b * (b * b)"
proof -
  obtain b where b: "box = int b" using assms(1) by (metis bad_size_def linear zero_le_imp_eq_int)
  then have n: "n = int (b * b)" using assms(1) by (simp add: bad_size_def)
  have "int (length board) = int (b * b * (b * b))" using assms(2) n by simp
  then have "length board = b * b * (b * b)" by (simp only: of_nat_eq_iff)
  moreover have "b * b \<le> MAX_N" using assms(1) n by (simp add: bad_size_def del: of_nat_mult)
  ultimately show thesis using that b n by blast
qed

lemma v0_value:
  assumes "int (length board) = n * n"
  shows "sudoku_valid_v0 board n box = Some (\<not> bad_size n box
    \<and> units_valid board (nat n) (row_cells (nat n)) \<and> units_valid board (nat n) (col_cells (nat n))
    \<and> units_valid board (nat n) (box_cells (nat n) (nat box)))"
proof (cases "bad_size n box")
  case False
  then obtain b where b: "box = int b" "n = int (b * b)" "b * b \<le> MAX_N" "length board = b * b * (b * b)"
    using assms by (rule good_size)
  note u = v0_units_eq [OF b(3)] cells_less [OF b(4) refl]
  show ?thesis
    using False u(1) [OF u(2)] u(1) [OF u(3)] u(1) [OF u(4)] b(1,2)
    by (simp add: sudoku_valid_v0_def box_cells_eq nat_mult_distrib del: replicate.simps)
qed (simp add: sudoku_valid_v0_def)

lemma v1_value:
  assumes "int (length board) = n * n" and "length vals = MAX_N"
  shows "sudoku_valid vals board n box = Some (\<not> bad_size n box
    \<and> units_valid board (nat n) (row_cells (nat n)) \<and> units_valid board (nat n) (col_cells (nat n))
    \<and> units_valid board (nat n) (box_cells (nat n) (nat box)) \<and> units_valid board (nat n) (diag_cells (nat n)))"
proof (cases "bad_size n box")
  case False
  then obtain b where b: "box = int b" "n = int (b * b)" "b * b \<le> MAX_N" "length board = b * b * (b * b)"
    using assms(1) by (rule good_size)
  note g = gatherers [OF b(4) refl]
  have nb: "nat n = b * b" "nat box = b" using b(1,2) by (simp_all add: nat_mult_distrib)
  have "check_kinds [(row_gatherer, b * b), (col_gatherer, b * b), (sqr_gatherer, b * b), (diag_gatherer, 2)]
      board (b * b) b vals =
    Some (units_valid board (b * b) (row_cells (b * b)) \<and> units_valid board (b * b) (col_cells (b * b))
      \<and> units_valid board (b * b) (sqr_cells (b * b) b) \<and> units_valid board (b * b) (diag_cells (b * b)) \<and> True)"
    by (rule check_kinds_Cons [OF g(1) b(3)], (simp_all add: assms(2) b(3) row_cells_def)[2],
        rule check_kinds_Cons [OF g(2) b(3)], (simp_all add: assms(2) b(3) col_cells_def)[2],
        rule check_kinds_Cons [OF g(3) b(3)], (simp_all add: assms(2) b(3) sqr_cells_def)[2],
        rule check_kinds_Cons [OF g(4) b(3)], (simp_all add: assms(2) b(3) diag_cells_def))
  then show ?thesis using False nb by (simp add: sudoku_valid_def box_cells_eq)
qed (simp add: sudoku_valid_def)

text \<open>The tests of \<open>main\<close>.\<close>

definition v0_units_valid :: "int list \<Rightarrow> nat \<Rightarrow> nat \<Rightarrow> bool" where
  "v0_units_valid board n b \<longleftrightarrow> units_valid board n (row_cells n) \<and> units_valid board n (col_cells n)
     \<and> units_valid board n (box_cells n b)"

lemma expect_valid_square:
  assumes "int (length board) = n * n" and "\<not> bad_size n box"
    and "v0_units_valid board (nat n) (nat box) = res0" and "(res0 \<and> units_valid board (nat n) (diag_cells (nat n))) = res"
  shows "expect_valid board n box res0 res = Some ()"
  using v0_value [OF assms(1), of box] v1_value [OF assms(1), of "replicate MAX_N 0" box] assms(2-)
  by (simp add: expect_valid_def v0_units_valid_def) blast

lemma expect_valid_bad_size: "bad_size n box \<Longrightarrow> expect_valid board n box False False = Some ()"
  by (simp add: expect_valid_def sudoku_valid_v0_def sudoku_valid_def)

lemma sudoku_main_passes: "main = Some ()"
proof -
  have 1: "expect_valid ((replicate 81 0)[5 := 1]) 9 3 True True = Some ()"
    by (rule expect_valid_square) code_simp+
  have 2: "expect_valid [0, 3, 2, 4, 2, 0, 1, 3, 3, 0, 4, 2, 0, 2, 3, 1] 4 2 True True = Some ()"
    by (rule expect_valid_square) code_simp+
  have 3: "expect_valid [1, 0, 1, 4, 2, 0, 0, 3, 3, 0, 4, 2, 4, 2, 3, 1] 4 2 False False = Some ()"
    by (rule expect_valid_square) code_simp+
  have 4: "expect_valid [1, 0, 2, 4, 3, 4, 0, 0, 1, 0, 4, 2, 4, 2, 3, 1] 4 2 False False = Some ()"
    by (rule expect_valid_square) code_simp+
  have 5: "expect_valid [1, 3, 2, 4, 2, 4, 0, 3, 3, 0, 1, 2, 4, 2, 3, 1] 4 2 False False = Some ()"
    by (rule expect_valid_square) code_simp+
  have 6: "expect_valid [1, 3, 2, 4, 2, 0, 1, 3, 3, 0, 4, 2, 0, 2, 3, 1] 4 2 True False = Some ()"
    by (rule expect_valid_square) code_simp+
  have 7: "expect_valid [0, 3, 2, 4, 2, 0, 1, 3, 3, 0, 4, 2, 4, 2, 3, 1] 4 2 True False = Some ()"
    by (rule expect_valid_square) code_simp+
  have 8: "bad_size 10 4" "bad_size 10002 6" by (simp_all add: bad_size_def MAX_N_def)
  show ?thesis unfolding main_def 1 2 3 4 5 6 7 bind.simps expect_valid_bad_size [OF 8(1)] expect_valid_bad_size [OF 8(2)] ..
qed

subsection \<open>Properties\<close>

text \<open>
  C11: On a board of \<open>n * n\<close> integers the table-driven \<open>sudoku_valid\<close> accepts exactly the boards that the first
  validator accepts and whose two diagonals are valid units too; neither validator reads or writes outside
  an array, and the gather functions' assertion never fails.
\<close>

theorem sudoku_valid_equivalence:
  assumes "int (length board) = n * n" and "length vals = MAX_N"
  shows "\<exists>r. sudoku_valid_v0 board n box = Some r
    \<and> sudoku_valid vals board n box = Some (r \<and> units_valid board (nat n) (diag_cells (nat n)))"
  using v0_value [OF assms(1), of box] v1_value [OF assms, of box] by auto

theorem sudoku_valid_equivalence_witness:
  "\<exists>r. sudoku_valid_v0 (replicate 16 1) 4 2 = Some r
    \<and> sudoku_valid (replicate MAX_N 0) (replicate 16 1) 4 2 = Some (r \<and> units_valid (replicate 16 1) (nat 4) (diag_cells (nat 4)))"
  by (rule sudoku_valid_equivalence) simp_all

text \<open>
  \<open>sudoku_valid_v0\<close> accepts a board exactly when the size is a square of the box size, at most 1000, and every
  row, every column and every box holds no value outside 0 \<dots> \<open>n\<close> and no positive value twice.
\<close>

theorem sudoku_valid_v0_correct:
  assumes "int (length board) = n * n" and "0 < box" and "n = box * box"
  shows "sudoku_valid_v0 board n box = Some (n \<le> 1000
    \<and> (\<forall>r \<in> {0..<nat n}. unit_valid (nat n) (map (\<lambda>c. board ! (r * nat n + c)) [0..<nat n]))
    \<and> (\<forall>c \<in> {0..<nat n}. unit_valid (nat n) (map (\<lambda>r. board ! (r * nat n + c)) [0..<nat n]))
    \<and> (\<forall>i \<in> {0..<nat box}. \<forall>j \<in> {0..<nat box}. unit_valid (nat n)
        (concat (map (\<lambda>k. map (\<lambda>l. board ! ((i * nat box + k) * nat n + j * nat box + l)) [0..<nat box]) [0..<nat box]))))"
proof -
  have "box \<le> box * box" using assms(2) by (simp add: mult_le_cancel_left1)
  then have "bad_size n box \<longleftrightarrow> \<not> n \<le> 1000" using assms(2,3) by (auto simp: bad_size_def MAX_N_def)
  then show ?thesis
    unfolding v0_value [OF assms(1)] units_valid_def row_cells_def col_cells_def box_cells_def Let_def
    by (simp add: comp_def map_concat add_ac)
qed

theorem sudoku_valid_v0_correct_witness:
  "sudoku_valid_v0 [2] 1 1 = Some False"
  using sudoku_valid_v0_correct [of "[2]" 1 1] by (simp add: unit_valid_def)

end
