(* ===== verification/Parking_Lot.thy ===== *)
theory Parking_Lot
  imports CPrelude
begin

text \<open>
  \<open>leetcode/08-parking-lot.c\<close>: spots on several levels in one flat block, with a count of free spots per size.
  \<open>size_t\<close> arithmetic is word arithmetic, in particular in \<open>spot_at\<close> and in the argument of \<open>calloc\<close>; the loop
  counters are natural numbers below a \<open>size_t\<close> bound.  The invariant \<open>lot_ok\<close> says that the block has one entry per
  level and spot, without wrap-around, and that the counts agree with the flags.
\<close>

datatype spot_size = SMALL | MEDIUM | LARGE

text \<open>The enumeration's order, which the search loop \<open>s <= LARGE; s++\<close> follows.\<close>

fun rank :: "spot_size \<Rightarrow> nat" where
  "rank SMALL = 0"
| "rank MEDIUM = 1"
| "rank LARGE = 2"

instantiation spot_size :: linorder
begin

definition less_eq_spot_size :: "spot_size \<Rightarrow> spot_size \<Rightarrow> bool" where
  "less_eq_spot_size a b \<longleftrightarrow> rank a \<le> rank b"

definition less_spot_size :: "spot_size \<Rightarrow> spot_size \<Rightarrow> bool" where
  "less_spot_size a b \<longleftrightarrow> rank a < rank b"

instance
proof
  fix a b :: spot_size
  show "a \<le> b \<Longrightarrow> b \<le> a \<Longrightarrow> a = b" by (cases a; cases b) (simp_all add: less_eq_spot_size_def)
qed (auto simp: less_eq_spot_size_def less_spot_size_def)

end

datatype vehicle = MOTORCYCLE | CAR | TRUCK

record ticket =
  level :: size_t
  spot :: size_t

record spot =
  occupied :: bool
  ssize :: spot_size

text \<open>\<open>spots\<close> is \<^const>\<open>None\<close> for a null pointer; the array \<open>free_count\<close> is indexed by the enumeration.\<close>

record lot =
  spots :: "spot list option"
  levels :: size_t
  spots_floor :: size_t
  free_count :: "spot_size \<Rightarrow> size_t"

fun smallest_fit :: "vehicle \<Rightarrow> spot_size" where
  "smallest_fit MOTORCYCLE = SMALL"
| "smallest_fit CAR = MEDIUM"
| "smallest_fit TRUCK = LARGE"

definition spot_ix :: "lot \<Rightarrow> nat \<Rightarrow> nat \<Rightarrow> nat" where
  "spot_ix lot i j = unat (of_nat i * spots_floor lot + of_nat j)"

definition spot_get :: "lot \<Rightarrow> nat \<Rightarrow> nat \<Rightarrow> spot option" where
  "spot_get lot i j = do { sps \<leftarrow> spots lot; rd sps (spot_ix lot i j) }"

definition spot_put :: "lot \<Rightarrow> nat \<Rightarrow> nat \<Rightarrow> spot \<Rightarrow> lot option" where
  "spot_put lot i j sp = do {
     sps \<leftarrow> spots lot;
     sps \<leftarrow> wr sps (spot_ix lot i j) sp;
     Some (lot\<lparr>spots := Some sps\<rparr>)
   }"

definition size_of_spot :: "size_t \<Rightarrow> size_t \<Rightarrow> nat \<Rightarrow> spot_size" where
  "size_of_spot num_small num_medium j =
     (if of_nat j < num_small then SMALL else if of_nat j < num_small + num_medium then MEDIUM else LARGE)"

text \<open>The loops of \<open>create_lot\<close> and of the search: \<open>j\<close> over one level, \<open>i\<close> over the levels.\<close>

function init_floor :: "size_t \<Rightarrow> size_t \<Rightarrow> lot \<Rightarrow> nat \<Rightarrow> nat \<Rightarrow> nat \<Rightarrow> lot option" where
  "init_floor ns nm lot per_floor i j =
     (if j < per_floor then do {
        sp \<leftarrow> spot_get lot i j;
        lot \<leftarrow> spot_put lot i j (sp\<lparr>ssize := size_of_spot ns nm j\<rparr>);
        init_floor ns nm lot per_floor i (j + 1)
      } else Some lot)"
  by pat_completeness auto
termination by (relation "measure (\<lambda>(_, _, _, p, _, j). p - j)") auto

function init_levels :: "size_t \<Rightarrow> size_t \<Rightarrow> lot \<Rightarrow> nat \<Rightarrow> nat \<Rightarrow> nat \<Rightarrow> lot option" where
  "init_levels ns nm lot per_floor lv i =
     (if i < lv then do {
        lot \<leftarrow> init_floor ns nm lot per_floor i 0;
        init_levels ns nm lot per_floor lv (i + 1)
      } else Some lot)"
  by pat_completeness auto
termination by (relation "measure (\<lambda>(_, _, _, _, lv, i). lv - i)") auto

text \<open>\<open>calloc_ok\<close>: whether \<open>calloc\<close> returns a block (of zeroed entries, that is free small spots).\<close>

definition create_lot :: "bool \<Rightarrow> lot \<Rightarrow> size_t \<Rightarrow> size_t \<Rightarrow> size_t \<Rightarrow> size_t \<Rightarrow> (bool \<times> lot) option" where
  "create_lot calloc_ok lot lv num_small num_medium num_large =
     (let per_floor = num_small + num_medium + num_large
      in if lv = 0 \<or> per_floor = 0 then Some (False, lot)
         else if \<not> calloc_ok then Some (False, lot\<lparr>spots := None\<rparr>)
         else do {
           let lot = lot\<lparr>spots := Some (replicate (unat (lv * per_floor)) \<lparr>occupied = False, ssize = SMALL\<rparr>),
             levels := lv, spots_floor := per_floor\<rparr>;
           lot \<leftarrow> init_levels num_small num_medium lot (unat per_floor) (unat lv) 0;
           Some (True, lot\<lparr>free_count := (free_count lot)
             (SMALL := lv * num_small, MEDIUM := lv * num_medium, LARGE := lv * num_large)\<rparr>)
         })"

definition destroy_lot :: "lot \<Rightarrow> lot" where
  "destroy_lot lot = lot\<lparr>spots := None\<rparr>"

function find_floor :: "lot \<Rightarrow> spot_size \<Rightarrow> nat \<Rightarrow> nat \<Rightarrow> nat option option" where
  "find_floor lot s i j =
     (if j < unat (spots_floor lot) then do {
        sp \<leftarrow> spot_get lot i j;
        if \<not> occupied sp \<and> ssize sp = s then Some (Some j) else find_floor lot s i (j + 1)
      } else Some None)"
  by pat_completeness auto
termination by (relation "measure (\<lambda>(lot, _, _, j). unat (spots_floor lot) - j)") auto

function find_levels :: "lot \<Rightarrow> spot_size \<Rightarrow> nat \<Rightarrow> (nat \<times> nat) option option" where
  "find_levels lot s i =
     (if i < unat (levels lot) then do {
        r \<leftarrow> find_floor lot s i 0;
        case r of Some j \<Rightarrow> Some (Some (i, j)) | None \<Rightarrow> find_levels lot s (i + 1)
      } else Some None)"
  by pat_completeness auto
termination by (relation "measure (\<lambda>(lot, _, i). unat (levels lot) - i)") auto

declare init_floor.simps [simp del] init_levels.simps [simp del] find_floor.simps [simp del] find_levels.simps [simp del]

fun assign_from :: "lot \<Rightarrow> spot_size list \<Rightarrow> (ticket option \<times> lot) option" where
  "assign_from lot [] = Some (None, lot)"
| "assign_from lot (s # ss) =
     (if free_count lot s = 0 then assign_from lot ss
      else do {
        r \<leftarrow> find_levels lot s 0;
        case r of
          None \<Rightarrow> assign_from lot ss
        | Some (i, j) \<Rightarrow> do {
            sp \<leftarrow> spot_get lot i j;
            lot \<leftarrow> spot_put lot i j (sp\<lparr>occupied := True\<rparr>);
            Some (Some \<lparr>level = of_nat i, spot = of_nat j\<rparr>,
              lot\<lparr>free_count := (free_count lot)(s := free_count lot s - 1)\<rparr>)
          }
      })"

text \<open>\<open>for (s = smallest_fit(v); s <= LARGE; s++)\<close>\<close>

fun sizes_from :: "spot_size \<Rightarrow> spot_size list" where
  "sizes_from SMALL = [SMALL, MEDIUM, LARGE]"
| "sizes_from MEDIUM = [MEDIUM, LARGE]"
| "sizes_from LARGE = [LARGE]"

text \<open>The ticket is \<^const>\<open>None\<close> when \<open>assigner\<close> returns \<open>false\<close> (and leaves \<open>*ticket\<close> alone).\<close>

definition assigner :: "lot \<Rightarrow> vehicle \<Rightarrow> (ticket option \<times> lot) option" where
  "assigner lot v = assign_from lot (sizes_from (smallest_fit v))"

definition deassigner :: "lot \<Rightarrow> ticket \<Rightarrow> (bool \<times> lot) option" where
  "deassigner lot t =
     (if level t \<ge> levels lot \<or> spot t \<ge> spots_floor lot then Some (False, lot)
      else do {
        sp \<leftarrow> spot_get lot (unat (level t)) (unat (spot t));
        if \<not> occupied sp then Some (False, lot)
        else do {
          lot \<leftarrow> spot_put lot (unat (level t)) (unat (spot t)) (sp\<lparr>occupied := False\<rparr>);
          Some (True, lot\<lparr>free_count := (free_count lot)(ssize sp := free_count lot (ssize sp) + 1)\<rparr>)
        }
      })"

definition free_spots :: "lot \<Rightarrow> spot_size \<Rightarrow> size_t" where
  "free_spots lot s = free_count lot s"

text \<open>\<open>assert(assigner(&lot, v, &t))\<close>, \<open>k\<close> times; the last ticket.\<close>

fun park_all :: "lot \<Rightarrow> vehicle list \<Rightarrow> ticket \<Rightarrow> (ticket \<times> lot) option" where
  "park_all lot [] t = Some (t, lot)"
| "park_all lot (v # vs) t = do {
     (r, lot) \<leftarrow> assigner lot v;
     t \<leftarrow> r;
     park_all lot vs t
   }"

definition main :: "lot \<Rightarrow> unit option" where
  "main lot = do {
     (ok, lot) \<leftarrow> create_lot True lot 2 2 3 1;
     c_assert ok;
     c_assert (free_spots lot SMALL = 4);
     c_assert (free_spots lot MEDIUM = 6);
     c_assert (free_spots lot LARGE = 2);
     let t0 = \<lparr>level = 0, spot = 0\<rparr>;
     (t1, lot) \<leftarrow> park_all lot [TRUCK] t0;
     (t2, lot) \<leftarrow> park_all lot [TRUCK] t0;
     (r, lot) \<leftarrow> assigner lot TRUCK;
     c_assert (r = None);
     c_assert (free_spots lot LARGE = 0);
     (ok, lot) \<leftarrow> deassigner lot t1;
     c_assert ok;
     (ok, lot) \<leftarrow> deassigner lot t1;
     c_assert (\<not> ok);
     (t3, lot) \<leftarrow> park_all lot [TRUCK] t0;
     c_assert (level t3 = level t1 \<and> spot t3 = spot t1);
     (m, lot) \<leftarrow> park_all lot [MOTORCYCLE, MOTORCYCLE, MOTORCYCLE, MOTORCYCLE] t0;
     c_assert (free_spots lot SMALL = 0);
     (m, lot) \<leftarrow> park_all lot [MOTORCYCLE] t0;
     c_assert (free_spots lot MEDIUM = 5);
     (c, lot) \<leftarrow> park_all lot [CAR, CAR, CAR, CAR, CAR] t0;
     (r, lot) \<leftarrow> assigner lot CAR;
     c_assert (r = None);
     (ok, lot) \<leftarrow> deassigner lot \<lparr>level = 7, spot = 0\<rparr>;
     c_assert (\<not> ok);
     let lot = destroy_lot lot;
     Some ()
   }"

subsection \<open>The invariant\<close>

definition free_of :: "spot_size \<Rightarrow> spot \<Rightarrow> bool" where
  "free_of s sp \<longleftrightarrow> \<not> occupied sp \<and> ssize sp = s"

definition spot_list :: "lot \<Rightarrow> spot list" where
  "spot_list lot = (case spots lot of None \<Rightarrow> [] | Some sps \<Rightarrow> sps)"

definition shaped :: "lot \<Rightarrow> bool" where
  "shaped lot \<longleftrightarrow> spots lot \<noteq> None \<and> length (spot_list lot) = unat (levels lot) * unat (spots_floor lot)
     \<and> unat (levels lot) * unat (spots_floor lot) < 2 ^ 64"

definition lot_ok :: "lot \<Rightarrow> bool" where
  "lot_ok lot \<longleftrightarrow> shaped lot \<and> (\<forall>s. unat (free_count lot s) = cnt (free_of s) (spot_list lot))"

lemma shapedD:
  assumes "shaped lot"
  shows "spots lot = Some (spot_list lot)" and "length (spot_list lot) = unat (levels lot) * unat (spots_floor lot)"
    and "unat (levels lot) * unat (spots_floor lot) < 2 ^ 64"
  using assms by (auto simp: shaped_def spot_list_def)

lemma spot_list_upd [simp]: "spot_list (lot\<lparr>spots := Some sps\<rparr>) = sps"
  by (simp add: spot_list_def)

lemma spot_list_free_count [simp]: "spot_list (lot\<lparr>free_count := f\<rparr>) = spot_list lot"
  by (simp add: spot_list_def)

lemma shaped_upd [simp]:
  "length sps = length (spot_list lot) \<Longrightarrow> shaped lot \<Longrightarrow> shaped (lot\<lparr>spots := Some sps\<rparr>)"
  by (simp add: shaped_def)

lemma shaped_free_count [simp]: "shaped (lot\<lparr>free_count := f\<rparr>) = shaped lot"
  by (simp add: shaped_def)

lemma spot_ix_eq:
  assumes "shaped lot" and "i < unat (levels lot)" and "j < unat (spots_floor lot)"
  shows "spot_ix lot i j = i * unat (spots_floor lot) + j"
proof -
  have lt: "i * unat (spots_floor lot) + j < 2 ^ 64" using flat_less [OF assms(2,3)] shapedD(3) [OF assms(1)] by simp
  have "of_nat i * spots_floor lot + of_nat j = (of_nat (i * unat (spots_floor lot) + j) :: 64 word)" by simp
  then show ?thesis unfolding spot_ix_def using lt by (simp only: unat_of_nat) simp
qed

lemma spot_access:
  assumes "shaped lot" and "i < unat (levels lot)" and "j < unat (spots_floor lot)"
  shows "spot_get lot i j = Some (spot_list lot ! (i * unat (spots_floor lot) + j))"
    and "spot_put lot i j sp = Some (lot\<lparr>spots := Some ((spot_list lot)[i * unat (spots_floor lot) + j := sp])\<rparr>)"
proof -
  have "i * unat (spots_floor lot) + j < length (spot_list lot)"
    using flat_less [OF assms(2,3)] shapedD(2) [OF assms(1)] by simp
  then show "spot_get lot i j = Some (spot_list lot ! (i * unat (spots_floor lot) + j))"
    and "spot_put lot i j sp = Some (lot\<lparr>spots := Some ((spot_list lot)[i * unat (spots_floor lot) + j := sp])\<rparr>)"
    using spot_ix_eq [OF assms] shapedD(1) [OF assms(1)] by (simp_all add: spot_get_def spot_put_def)
qed

subsection \<open>Creating a lot\<close>

lemma init_floor_eq:
  assumes "shaped lot" and "i < unat (levels lot)" and "p = unat (spots_floor lot)"
  shows "\<exists>sps. init_floor ns nm lot p i j = Some (lot\<lparr>spots := Some sps\<rparr>) \<and> length sps = length (spot_list lot)
    \<and> (\<forall>k < length sps. sps ! k = (if i * p + j \<le> k \<and> k < i * p + p
        then (spot_list lot ! k)\<lparr>ssize := size_of_spot ns nm (k - i * p)\<rparr> else spot_list lot ! k))"
  using assms
proof (induction "p - j" arbitrary: lot j)
  case 0
  then have "init_floor ns nm lot p i j = Some (lot\<lparr>spots := Some (spot_list lot)\<rparr>)"
    using shapedD(1) [OF 0(2)] by (simp add: init_floor.simps)
  then show ?case using 0 by fastforce
next
  case (Suc n)
  then have j: "j < p" by simp
  let ?k = "i * p + j"
  let ?lot = "lot\<lparr>spots := Some ((spot_list lot)[?k := (spot_list lot ! ?k)\<lparr>ssize := size_of_spot ns nm j\<rparr>])\<rparr>"
  have k: "?k < length (spot_list lot)"
    using flat_less [OF Suc.prems(2), of j] j shapedD(2) [OF Suc.prems(1)] Suc.prems(3) by simp
  have "init_floor ns nm lot p i j = init_floor ns nm ?lot p i (j + 1)"
    using j spot_access [OF Suc.prems(1,2), of j] Suc.prems(3) by (subst init_floor.simps) simp
  moreover obtain sps where "init_floor ns nm ?lot p i (j + 1) = Some (?lot\<lparr>spots := Some sps\<rparr>)"
      "length sps = length (spot_list ?lot)"
      "\<forall>k < length sps. sps ! k = (if i * p + (j + 1) \<le> k \<and> k < i * p + p
        then (spot_list ?lot ! k)\<lparr>ssize := size_of_spot ns nm (k - i * p)\<rparr> else spot_list ?lot ! k)"
  proof -
    have "n = p - (j + 1)" "shaped ?lot" "i < unat (levels ?lot)" "p = unat (spots_floor ?lot)"
      using Suc.hyps(2) Suc.prems by simp_all
    from Suc.hyps(1) [OF this] that show thesis by blast
  qed
  ultimately show ?case using k j by (intro exI [of _ sps]) (auto simp: nth_list_update)
qed

lemma init_levels_eq:
  assumes "shaped lot" and "lv = unat (levels lot)" and "p = unat (spots_floor lot)"
  shows "\<exists>sps. init_levels ns nm lot p lv i = Some (lot\<lparr>spots := Some sps\<rparr>) \<and> length sps = length (spot_list lot)
    \<and> (\<forall>k < length sps. sps ! k = (if i * p \<le> k then (spot_list lot ! k)\<lparr>ssize := size_of_spot ns nm (k mod p)\<rparr>
        else spot_list lot ! k))"
  using assms
proof (induction "lv - i" arbitrary: lot i)
  case 0
  then have "init_levels ns nm lot p lv i = Some (lot\<lparr>spots := Some (spot_list lot)\<rparr>)"
    using shapedD(1) [OF 0(2)] by (simp add: init_levels.simps)
  moreover have "\<not> i * p \<le> k" if "k < length (spot_list lot)" for k
  proof -
    have "lv * p \<le> i * p" using 0(1) by (intro mult_right_mono) simp_all
    moreover have "k < lv * p" using that shapedD(2) [OF 0(2)] 0(3,4) by simp
    ultimately show ?thesis by linarith
  qed
  ultimately show ?case using 0 by fastforce
next
  case (Suc n)
  then have i: "i < lv" by simp
  obtain sps where f: "init_floor ns nm lot p i 0 = Some (lot\<lparr>spots := Some sps\<rparr>)" "length sps = length (spot_list lot)"
      "\<forall>k < length sps. sps ! k = (if i * p + 0 \<le> k \<and> k < i * p + p
        then (spot_list lot ! k)\<lparr>ssize := size_of_spot ns nm (k - i * p)\<rparr> else spot_list lot ! k)"
    using init_floor_eq [of lot i p ns nm 0] Suc.prems i by auto
  let ?lot = "lot\<lparr>spots := Some sps\<rparr>"
  have "init_levels ns nm lot p lv i = init_levels ns nm ?lot p lv (i + 1)"
    using i f(1) by (subst init_levels.simps) simp
  moreover obtain sps' where l: "init_levels ns nm ?lot p lv (i + 1) = Some (?lot\<lparr>spots := Some sps'\<rparr>)"
      "length sps' = length (spot_list ?lot)"
      "\<forall>k < length sps'. sps' ! k = (if (i + 1) * p \<le> k
        then (spot_list ?lot ! k)\<lparr>ssize := size_of_spot ns nm (k mod p)\<rparr> else spot_list ?lot ! k)"
  proof -
    have "n = lv - (i + 1)" "shaped ?lot" "lv = unat (levels ?lot)" "p = unat (spots_floor ?lot)"
      using Suc.hyps(2) Suc.prems f(2) by simp_all
    from Suc.hyps(1) [OF this] that show thesis by blast
  qed
  moreover have "sps' ! k = (if i * p \<le> k then (spot_list lot ! k)\<lparr>ssize := size_of_spot ns nm (k mod p)\<rparr>
        else spot_list lot ! k)" if "k < length sps'" for k
  proof -
    have "k - i * p = k mod p" if "i * p \<le> k" "k < i * p + p"
      using that mod_mult_self3 [of i p "k - i * p"] by simp
    then show ?thesis using that l(2,3) f(2,3) by (auto simp: add.commute)
  qed
  ultimately show ?case using f(2) by (intro exI [of _ sps']) simp
qed

lemma map_mod_cycle: "map (\<lambda>k. f (k mod p)) [0..<m * p] = concat (replicate m (map f [0..<p]))"
proof (induction m)
  case (Suc m)
  have "map (\<lambda>k. f (k mod p)) [m * p..<m * p + p] = map f [0..<p]"
    by (rule nth_equalityI) auto
  moreover have "[0..<Suc m * p] = [0..<m * p] @ [m * p..<m * p + p]"
    using upt_add_eq_append [of 0 "m * p" p] by (simp add: add.commute)
  moreover have "concat (replicate m xs) @ xs = xs @ concat (replicate m xs)" for xs :: "'a list"
    by (induction m) simp_all
  ultimately show ?case using Suc by simp
qed simp

lemma cnt_concat_replicate: "cnt P (concat (replicate m xs)) = m * cnt P xs"
  by (induction m) simp_all

definition fresh_spot :: "size_t \<Rightarrow> size_t \<Rightarrow> nat \<Rightarrow> spot" where
  "fresh_spot ns nm j = \<lparr>occupied = False, ssize = size_of_spot ns nm j\<rparr>"

fun num_of :: "size_t \<Rightarrow> size_t \<Rightarrow> size_t \<Rightarrow> spot_size \<Rightarrow> size_t" where
  "num_of ns nm nl SMALL = ns"
| "num_of ns nm nl MEDIUM = nm"
| "num_of ns nm nl LARGE = nl"

text \<open>One level has as many spots of each size as asked for.\<close>

lemma cnt_floor:
  assumes "unat ns + unat nm + unat nl < 2 ^ 64"
  shows "cnt (free_of s) (map (fresh_spot ns nm) [0..<unat ns + unat nm + unat nl]) = unat (num_of ns nm nl s)"
proof -
  have less: "of_nat j < w \<longleftrightarrow> j < unat w" if "j < unat ns + unat nm + unat nl" for j and w :: size_t
    using that assms by (simp add: word_less_nat_alt unat_of_nat)
  have plus: "unat (ns + nm) = unat ns + unat nm" using assms by (simp add: unat_word_ariths)
  have sz: "size_of_spot ns nm j = (if j < unat ns then SMALL else if j < unat ns + unat nm then MEDIUM else LARGE)"
    if "j < unat ns + unat nm + unat nl" for j
    using less [OF that] plus by (simp add: size_of_spot_def)
  let ?f = "fresh_spot ns nm"
  have split: "[0..<unat ns + unat nm + unat nl] =
      [0..<unat ns] @ [unat ns..<unat ns + unat nm] @ [unat ns + unat nm..<unat ns + unat nm + unat nl]"
    using upt_add_eq_append [of 0 "unat ns" "unat nm + unat nl"] upt_add_eq_append [of "unat ns" "unat ns + unat nm" "unat nl"]
    by (simp add: add.assoc)
  have p1: "cnt (free_of s) (map ?f [0..<unat ns]) = (if s = SMALL then unat ns else 0)"
    using cnt_all_true [of "map ?f [0..<unat ns]" "free_of s"] cnt_none_true [of "map ?f [0..<unat ns]" "free_of s"]
    by (auto simp: free_of_def fresh_spot_def sz)
  have p2: "cnt (free_of s) (map ?f [unat ns..<unat ns + unat nm]) = (if s = MEDIUM then unat nm else 0)"
    using cnt_all_true [of "map ?f [unat ns..<unat ns + unat nm]" "free_of s"]
      cnt_none_true [of "map ?f [unat ns..<unat ns + unat nm]" "free_of s"]
    by (auto simp: free_of_def fresh_spot_def sz)
  have p3: "cnt (free_of s) (map ?f [unat ns + unat nm..<unat ns + unat nm + unat nl]) = (if s = LARGE then unat nl else 0)"
    using cnt_all_true [of "map ?f [unat ns + unat nm..<unat ns + unat nm + unat nl]" "free_of s"]
      cnt_none_true [of "map ?f [unat ns + unat nm..<unat ns + unat nm + unat nl]" "free_of s"]
    by (auto simp: free_of_def fresh_spot_def sz)
  show ?thesis unfolding split map_append cnt_simps p1 p2 p3 by (cases s) simp_all
qed

lemma unat_mult_small: "unat a * unat b < 2 ^ 64 \<Longrightarrow> unat (a * b) = unat a * unat b" for a b :: size_t
  by (simp add: unat_word_ariths)

lemma create_lot_result:
  assumes "lv \<noteq> 0" and "ns + nm + nl \<noteq> 0" and "unat lv * unat (ns + nm + nl) < 2 ^ 64"
  shows "\<exists>lot'. create_lot True lot lv ns nm nl = Some (True, lot') \<and> levels lot' = lv \<and> spots_floor lot' = ns + nm + nl
    \<and> (\<forall>s. free_count lot' s = lv * num_of ns nm nl s)
    \<and> spots lot' = Some (concat (replicate (unat lv) (map (fresh_spot ns nm) [0..<unat (ns + nm + nl)])))"
proof -
  define pf where "pf = ns + nm + nl"
  define p where "p = unat pf"
  define lot0 where "lot0 = lot\<lparr>spots := Some (replicate (unat (lv * pf)) \<lparr>occupied = False, ssize = SMALL\<rparr>),
    levels := lv, spots_floor := pf\<rparr>"
  have sl: "spot_list lot0 = replicate (unat lv * p) \<lparr>occupied = False, ssize = SMALL\<rparr>"
    using unat_mult_small [OF assms(3)] by (simp add: spot_list_def lot0_def pf_def p_def)
  then have sh: "shaped lot0" using assms(3) by (simp add: shaped_def lot0_def p_def pf_def)
  have lv: "unat lv = unat (levels lot0)" "p = unat (spots_floor lot0)" by (simp_all add: lot0_def p_def)
  from init_levels_eq [OF sh lv, of ns nm 0] obtain sps where
      i: "init_levels ns nm lot0 p (unat lv) 0 = Some (lot0\<lparr>spots := Some sps\<rparr>)" and len: "length sps = length (spot_list lot0)"
      and nth: "\<forall>k < length sps. sps ! k = (if 0 * p \<le> k then (spot_list lot0 ! k)\<lparr>ssize := size_of_spot ns nm (k mod p)\<rparr>
        else spot_list lot0 ! k)" by blast
  have "sps = map (\<lambda>k. fresh_spot ns nm (k mod p)) [0..<unat lv * p]"
    using len nth sl by (intro nth_equalityI) (simp_all add: fresh_spot_def)
  then have sps: "sps = concat (replicate (unat lv) (map (fresh_spot ns nm) [0..<p]))" by (simp only: map_mod_cycle)
  define lot' where "lot' = lot0\<lparr>spots := Some sps, free_count := (free_count lot)
    (SMALL := lv * ns, MEDIUM := lv * nm, LARGE := lv * nl)\<rparr>"
  have "free_count lot' s = lv * num_of ns nm nl s" for s by (cases s) (simp_all add: lot'_def)
  moreover have "create_lot True lot lv ns nm nl = Some (True, lot')"
    using assms(1,2) i unfolding create_lot_def Let_def pf_def [symmetric] p_def [symmetric] lot0_def [symmetric] lot'_def
    by (simp add: lot0_def)
  moreover have "levels lot' = lv" "spots_floor lot' = pf" "spots lot' = Some sps" by (simp_all add: lot'_def lot0_def)
  ultimately show ?thesis unfolding pf_def [symmetric] p_def [symmetric] sps by blast
qed

lemma create_lot_eq:
  assumes "lv \<noteq> 0" and "ns \<noteq> 0 \<or> nm \<noteq> 0 \<or> nl \<noteq> 0" and "unat lv * (unat ns + unat nm + unat nl) < 2 ^ 64"
  shows "\<exists>lot'. create_lot True lot lv ns nm nl = Some (True, lot') \<and> lot_ok lot'
    \<and> levels lot' = lv \<and> spots_floor lot' = ns + nm + nl \<and> (\<forall>s. free_spots lot' s = lv * num_of ns nm nl s)
    \<and> spot_list lot' = concat (replicate (unat lv) (map (fresh_spot ns nm) [0..<unat (ns + nm + nl)]))"
proof -
  let ?p = "unat ns + unat nm + unat nl" and ?pf = "ns + nm + nl"
  have lv: "1 \<le> unat lv" using assms(1) by (metis One_nat_def Suc_leI unat_gt_0)
  have "?p \<le> unat lv * ?p" using mult_le_mono1 [OF lv, of ?p] unfolding mult_1 .
  then have psmall: "?p < 2 ^ 64" using assms(3) by (rule le_less_trans)
  have pf: "unat ?pf = ?p" using psmall by (simp add: unat_word_ariths)
  have pf0: "?pf \<noteq> 0"
  proof
    assume "?pf = 0"
    then have "?p = 0" using pf by (simp only: unat_0)
    then show False using assms(2) by (simp add: unat_eq_zero)
  qed
  have lvp: "unat lv * unat ?pf < 2 ^ 64" using assms(3) pf by simp
  obtain lot' where c: "create_lot True lot lv ns nm nl = Some (True, lot')" "levels lot' = lv" "spots_floor lot' = ?pf"
      "\<And>s. free_count lot' s = lv * num_of ns nm nl s"
      "spots lot' = Some (concat (replicate (unat lv) (map (fresh_spot ns nm) [0..<unat ?pf])))"
    using create_lot_result [OF assms(1) pf0 lvp] by blast
  then have sl: "spot_list lot' = concat (replicate (unat lv) (map (fresh_spot ns nm) [0..<?p]))"
    by (simp only: spot_list_def option.case pf)
  have nle: "unat (num_of ns nm nl s) \<le> ?p" for s by (cases s) simp_all
  have "unat lv * unat (num_of ns nm nl s) < 2 ^ 64" for s
    using assms(3) mult_le_mono2 [OF nle, of "unat lv" s] by (rule le_less_trans [rotated])
  then have "unat (free_count lot' s) = unat lv * unat (num_of ns nm nl s)" for s
    unfolding c(4) by (rule unat_mult_small)
  then have "unat (free_count lot' s) = cnt (free_of s) (spot_list lot')" for s
    unfolding sl cnt_concat_replicate cnt_floor [OF psmall] .
  moreover have "length (spot_list lot') = unat lv * ?p" unfolding sl by (simp add: length_concat sum_list_replicate)
  moreover have "spots lot' \<noteq> None" unfolding c(5) by (rule option.distinct)
  ultimately have "lot_ok lot'" unfolding lot_ok_def shaped_def c(2,3) using lvp unfolding pf by blast
  moreover have "\<forall>s. free_spots lot' s = lv * num_of ns nm nl s" unfolding free_spots_def using c(4) by blast
  ultimately show ?thesis using c(1-3) sl unfolding pf by blast
qed

subsection \<open>Searching\<close>

lemma find_floor_eq:
  assumes "shaped lot" and "i < unat (levels lot)"
  shows "\<exists>r. find_floor lot s i j = Some r
    \<and> (case r of
        Some j' \<Rightarrow> j \<le> j' \<and> j' < unat (spots_floor lot) \<and> free_of s (spot_list lot ! (i * unat (spots_floor lot) + j'))
      | None \<Rightarrow> (\<forall>m. j \<le> m \<and> m < unat (spots_floor lot) \<longrightarrow> \<not> free_of s (spot_list lot ! (i * unat (spots_floor lot) + m))))"
proof (induction "unat (spots_floor lot) - j" arbitrary: j)
  case 0
  then show ?case by (subst find_floor.simps) auto
next
  case (Suc n)
  then have j: "j < unat (spots_floor lot)" by simp
  let ?sp = "spot_list lot ! (i * unat (spots_floor lot) + j)"
  have st: "find_floor lot s i j = (if free_of s ?sp then Some (Some j) else find_floor lot s i (j + 1))"
    using j spot_access(1) [OF assms j] by (subst find_floor.simps) (simp add: free_of_def)
  show ?case
  proof (cases "free_of s ?sp")
    case True
    then show ?thesis using st j by simp
  next
    case False
    have "n = unat (spots_floor lot) - (j + 1)" using Suc.hyps(2) by simp
    from Suc.hyps(1) [OF this] obtain r where r: "find_floor lot s i (j + 1) = Some r"
      "case r of
        Some j' \<Rightarrow> j + 1 \<le> j' \<and> j' < unat (spots_floor lot) \<and> free_of s (spot_list lot ! (i * unat (spots_floor lot) + j'))
      | None \<Rightarrow> (\<forall>m. j + 1 \<le> m \<and> m < unat (spots_floor lot) \<longrightarrow> \<not> free_of s (spot_list lot ! (i * unat (spots_floor lot) + m)))"
      by blast
    have "\<not> free_of s (spot_list lot ! (i * unat (spots_floor lot) + m))"
      if "j \<le> m" "m < unat (spots_floor lot)" "r = None" for m
      using that r(2) False by (cases "m = j") auto
    then show ?thesis using st False r by (cases r) auto
  qed
qed

lemma find_levels_eq:
  assumes "shaped lot"
  shows "\<exists>r. find_levels lot s i = Some r
    \<and> (case r of
        Some (i', j') \<Rightarrow> i' < unat (levels lot) \<and> j' < unat (spots_floor lot)
          \<and> free_of s (spot_list lot ! (i' * unat (spots_floor lot) + j'))
      | None \<Rightarrow> (\<forall>k m. i \<le> k \<and> k < unat (levels lot) \<and> m < unat (spots_floor lot)
          \<longrightarrow> \<not> free_of s (spot_list lot ! (k * unat (spots_floor lot) + m))))"
proof (induction "unat (levels lot) - i" arbitrary: i)
  case 0
  then show ?case by (subst find_levels.simps) auto
next
  case (Suc n)
  then have i: "i < unat (levels lot)" by simp
  obtain r where r: "find_floor lot s i 0 = Some r"
    "case r of
        Some j' \<Rightarrow> 0 \<le> j' \<and> j' < unat (spots_floor lot) \<and> free_of s (spot_list lot ! (i * unat (spots_floor lot) + j'))
      | None \<Rightarrow> (\<forall>m. 0 \<le> m \<and> m < unat (spots_floor lot) \<longrightarrow> \<not> free_of s (spot_list lot ! (i * unat (spots_floor lot) + m)))"
    using find_floor_eq [OF assms i] by blast
  show ?case
  proof (cases r)
    case (Some j')
    then show ?thesis using r i by (simp add: find_levels.simps)
  next
    case None
    then have st: "find_levels lot s i = find_levels lot s (i + 1)" using i r by (subst find_levels.simps) simp
    have "n = unat (levels lot) - (i + 1)" using Suc.hyps(2) by simp
    from Suc.hyps(1) [OF this] obtain r' where r': "find_levels lot s (i + 1) = Some r'"
      "case r' of
        Some (i', j') \<Rightarrow> i' < unat (levels lot) \<and> j' < unat (spots_floor lot)
          \<and> free_of s (spot_list lot ! (i' * unat (spots_floor lot) + j'))
      | None \<Rightarrow> (\<forall>k m. i + 1 \<le> k \<and> k < unat (levels lot) \<and> m < unat (spots_floor lot)
          \<longrightarrow> \<not> free_of s (spot_list lot ! (k * unat (spots_floor lot) + m)))"
      by blast
    have "\<not> free_of s (spot_list lot ! (k * unat (spots_floor lot) + m))"
      if "i \<le> k" "k < unat (levels lot)" "m < unat (spots_floor lot)" "r' = None" for k m
      using that r'(2) None r(2) by (cases "k = i") auto
    then show ?thesis using st r' by (cases r') auto
  qed
qed

subsection \<open>Parking and leaving\<close>

definition flat :: "lot \<Rightarrow> ticket \<Rightarrow> nat" where
  "flat lot t = unat (level t) * unat (spots_floor lot) + unat (spot t)"

definition ticket_valid :: "lot \<Rightarrow> ticket \<Rightarrow> bool" where
  "ticket_valid lot t \<longleftrightarrow> level t < levels lot \<and> spot t < spots_floor lot"

lemma ticket_validD:
  assumes "ticket_valid lot t"
  shows "unat (level t) < unat (levels lot)" and "unat (spot t) < unat (spots_floor lot)"
  using assms by (simp_all add: ticket_valid_def word_less_nat_alt)

lemma flat_less_length: "shaped lot \<Longrightarrow> ticket_valid lot t \<Longrightarrow> flat lot t < length (spot_list lot)"
  unfolding flat_def using flat_less [OF ticket_validD, of lot t] shapedD(2) [of lot] by simp

text \<open>Marking the spot of a ticket as taken or free, with the count of its size changed accordingly.\<close>

definition taken :: "lot \<Rightarrow> ticket \<Rightarrow> lot" where
  "taken lot t = (let sp = spot_list lot ! flat lot t in
     lot\<lparr>spots := Some ((spot_list lot)[flat lot t := sp\<lparr>occupied := True\<rparr>]),
       free_count := (free_count lot)(ssize sp := free_count lot (ssize sp) - 1)\<rparr>)"

definition freed :: "lot \<Rightarrow> ticket \<Rightarrow> lot" where
  "freed lot t = (let sp = spot_list lot ! flat lot t in
     lot\<lparr>spots := Some ((spot_list lot)[flat lot t := sp\<lparr>occupied := False\<rparr>]),
       free_count := (free_count lot)(ssize sp := free_count lot (ssize sp) + 1)\<rparr>)"

lemma find_levels_cases:
  assumes "shaped lot"
  obtains (found) i j where "find_levels lot s 0 = Some (Some (i, j))" "i < unat (levels lot)" "j < unat (spots_floor lot)"
      "free_of s (spot_list lot ! (i * unat (spots_floor lot) + j))"
    | (full) "find_levels lot s 0 = Some None" "\<forall>sp \<in> set (spot_list lot). \<not> free_of s sp"
proof -
  obtain r where r: "find_levels lot s 0 = Some r"
    "case r of
        Some (i', j') \<Rightarrow> i' < unat (levels lot) \<and> j' < unat (spots_floor lot)
          \<and> free_of s (spot_list lot ! (i' * unat (spots_floor lot) + j'))
      | None \<Rightarrow> (\<forall>k m. 0 \<le> k \<and> k < unat (levels lot) \<and> m < unat (spots_floor lot)
          \<longrightarrow> \<not> free_of s (spot_list lot ! (k * unat (spots_floor lot) + m)))"
    using find_levels_eq [OF assms] by blast
  show thesis
  proof (cases r)
    case None
    have "\<not> free_of s (spot_list lot ! k)" if "k < length (spot_list lot)" for k
    proof -
      obtain i j where "i < unat (levels lot)" "j < unat (spots_floor lot)" "k = i * unat (spots_floor lot) + j"
        using \<open>k < length (spot_list lot)\<close> flat_split unfolding shapedD(2) [OF assms] by blast
      then show ?thesis using r(2) None by simp
    qed
    then have "\<forall>sp \<in> set (spot_list lot). \<not> free_of s sp" by (auto simp: in_set_conv_nth)
    then show thesis using full r(1) None by simp
  next
    case (Some ij)
    then show thesis using found r by (cases ij) auto
  qed
qed

text \<open>What a search over the sizes \<open>ss\<close> gives: the first size with a free spot is used, or there is none.\<close>

definition assigned :: "lot \<Rightarrow> spot_size list \<Rightarrow> ticket option \<Rightarrow> lot \<Rightarrow> bool" where
  "assigned lot ss r lot' \<longleftrightarrow> (case r of
      None \<Rightarrow> lot' = lot \<and> (\<forall>s \<in> set ss. free_count lot s = 0)
    | Some t \<Rightarrow> ticket_valid lot t \<and> lot' = taken lot t \<and> \<not> occupied (spot_list lot ! flat lot t)
        \<and> (\<exists>before after. ss = before @ ssize (spot_list lot ! flat lot t) # after
            \<and> (\<forall>s \<in> set before. free_count lot s = 0)))"

lemma assigned_skip:
  assumes "free_count lot s = 0" and "assigned lot ss r lot'"
  shows "assigned lot (s # ss) r lot'"
proof (cases r)
  case None
  then show ?thesis using assms by (simp add: assigned_def)
next
  case (Some t)
  with assms(2) obtain before after where b: "ss = before @ ssize (spot_list lot ! flat lot t) # after"
      "\<forall>s \<in> set before. free_count lot s = 0"
    by (auto simp: assigned_def)
  then have "s # ss = (s # before) @ ssize (spot_list lot ! flat lot t) # after"
      "\<forall>s' \<in> set (s # before). free_count lot s' = 0" using assms(1) by simp_all
  then have "\<exists>before after. s # ss = before @ ssize (spot_list lot ! flat lot t) # after
      \<and> (\<forall>s \<in> set before. free_count lot s = 0)" by blast
  then show ?thesis using assms(2) Some by (simp add: assigned_def)
qed

lemma assigned_found:
  assumes "ticket_valid lot t" and "free_of s (spot_list lot ! flat lot t)"
  shows "assigned lot (s # ss) (Some t) (taken lot t)"
proof -
  have "s # ss = [] @ ssize (spot_list lot ! flat lot t) # ss" "\<forall>s \<in> set []. free_count lot s = 0"
    using assms(2) by (simp_all add: free_of_def)
  then have "\<exists>before after. s # ss = before @ ssize (spot_list lot ! flat lot t) # after
      \<and> (\<forall>s \<in> set before. free_count lot s = 0)" by blast
  then show ?thesis using assms by (simp add: assigned_def free_of_def)
qed

lemma assign_found:
  assumes "shaped lot" and "free_count lot s \<noteq> 0" and "find_levels lot s 0 = Some (Some (i, j))"
    and "i < unat (levels lot)" "j < unat (spots_floor lot)"
    and "free_of s (spot_list lot ! (i * unat (spots_floor lot) + j))"
  shows "\<exists>t. assign_from lot (s # ss) = Some (Some t, taken lot t) \<and> assigned lot (s # ss) (Some t) (taken lot t)"
proof -
  have ij: "unat (of_nat i :: size_t) = i" "unat (of_nat j :: size_t) = j"
  proof -
    have "unat (levels lot) < 2 ^ 64" "unat (spots_floor lot) < 2 ^ 64"
      using unat_lt_2p [of "levels lot"] unat_lt_2p [of "spots_floor lot"] by simp_all
    then show "unat (of_nat i :: size_t) = i" "unat (of_nat j :: size_t) = j" using assms(4,5) by (simp_all add: unat_of_nat)
  qed
  let ?t = "\<lparr>level = of_nat i, spot = of_nat j\<rparr> :: ticket"
  have fl: "flat lot ?t = i * unat (spots_floor lot) + j" using ij by (simp add: flat_def)
  have "assign_from lot (s # ss) = Some (Some ?t, taken lot ?t)"
    using assms(2,3,6) spot_access [OF assms(1,4,5)] fl by (simp add: taken_def Let_def free_of_def)
  moreover have "ticket_valid lot ?t" using assms(4,5) ij by (simp add: ticket_valid_def word_less_nat_alt)
  ultimately show ?thesis using assigned_found [of lot ?t s] assms(6) fl by metis
qed

lemma assign_from_eq:
  assumes "lot_ok lot"
  shows "\<exists>r lot'. assign_from lot ss = Some (r, lot') \<and> assigned lot ss r lot'"
proof (induction ss)
  case Nil
  then show ?case by (simp add: assigned_def)
next
  case (Cons s ss)
  have sh: "shaped lot" using assms by (simp add: lot_ok_def)
  show ?case
  proof (cases "free_count lot s = 0")
    case True
    then show ?thesis using Cons assigned_skip [OF True] by auto
  next
    case False
    from sh show ?thesis
    proof (cases rule: find_levels_cases [of lot s])
      case (found i j)
      then show ?thesis using assign_found [OF sh False] by blast
    next
      case full
      have "unat (free_count lot s) = cnt (free_of s) (spot_list lot)" using assms by (simp add: lot_ok_def)
      then have "free_count lot s = 0" using cnt_none_true [OF full(2)] by (simp add: unat_eq_zero)
      with False show ?thesis by simp
    qed
  qed
qed

lemma free_of_other [simp]:
  "free_of s (sp\<lparr>occupied := b\<rparr>) \<longleftrightarrow> \<not> b \<and> ssize sp = s"
  by (simp add: free_of_def)

lemma cnt_taken:
  assumes "shaped lot" and "ticket_valid lot t" and "\<not> occupied (spot_list lot ! flat lot t)"
  shows "cnt (free_of s) (spot_list (taken lot t)) + (if s = ssize (spot_list lot ! flat lot t) then 1 else 0)
    = cnt (free_of s) (spot_list lot)"
  using cnt_update [OF flat_less_length [OF assms(1,2)], of "free_of s" "(spot_list lot ! flat lot t)\<lparr>occupied := True\<rparr>"]
    assms(3)
  by (auto simp: taken_def Let_def free_of_def split: if_splits)

lemma cnt_freed:
  assumes "shaped lot" and "ticket_valid lot t" and "occupied (spot_list lot ! flat lot t)"
  shows "cnt (free_of s) (spot_list (freed lot t))
    = cnt (free_of s) (spot_list lot) + (if s = ssize (spot_list lot ! flat lot t) then 1 else 0)"
  using cnt_update [OF flat_less_length [OF assms(1,2)], of "free_of s" "(spot_list lot ! flat lot t)\<lparr>occupied := False\<rparr>"]
    assms(3)
  by (auto simp: freed_def Let_def free_of_def split: if_splits)

lemma shaped_taken: "shaped lot \<Longrightarrow> shaped (taken lot t)"
  by (simp add: taken_def Let_def)

lemma shaped_freed: "shaped lot \<Longrightarrow> shaped (freed lot t)"
  by (simp add: freed_def Let_def)

lemma lot_ok_taken:
  assumes "lot_ok lot" and "ticket_valid lot t" and "\<not> occupied (spot_list lot ! flat lot t)"
  shows "lot_ok (taken lot t)"
proof -
  have sh: "shaped lot" and c: "\<And>s. unat (free_count lot s) = cnt (free_of s) (spot_list lot)"
    using assms(1) by (simp_all add: lot_ok_def)
  let ?s = "ssize (spot_list lot ! flat lot t)"
  have "unat (free_count lot ?s - 1) = unat (free_count lot ?s) - 1"
    using cnt_taken [OF sh assms(2,3), of ?s] c [of ?s] by (intro unat_minus_one) auto
  then have "unat (free_count (taken lot t) s) = cnt (free_of s) (spot_list (taken lot t))" for s
    using cnt_taken [OF sh assms(2,3), of s] c [of s] by (auto simp: taken_def Let_def)
  then show ?thesis using shaped_taken [OF sh] by (simp add: lot_ok_def)
qed

lemma lot_ok_freed:
  assumes "lot_ok lot" and "ticket_valid lot t" and "occupied (spot_list lot ! flat lot t)"
  shows "lot_ok (freed lot t)"
proof -
  have sh: "shaped lot" and c: "\<And>s. unat (free_count lot s) = cnt (free_of s) (spot_list lot)"
    using assms(1) by (simp_all add: lot_ok_def)
  let ?s = "ssize (spot_list lot ! flat lot t)"
  have "cnt (free_of ?s) (spot_list (freed lot t)) < 2 ^ 64"
    using cnt_le_length [of "free_of ?s" "spot_list (freed lot t)"] shapedD(2,3) [OF shaped_freed [OF sh, of t]] by linarith
  then have "unat (free_count lot ?s + 1) = unat (free_count lot ?s) + 1"
    using cnt_freed [OF sh assms(2,3), of ?s] c [of ?s] by (intro unat_add_1) simp
  then have "unat (free_count (freed lot t) s) = cnt (free_of s) (spot_list (freed lot t))" for s
    using cnt_freed [OF sh assms(2,3), of s] c [of s] by (auto simp: freed_def Let_def)
  then show ?thesis using shaped_freed [OF sh] by (simp add: lot_ok_def)
qed

lemma deassigner_eq:
  assumes "shaped lot"
  shows "deassigner lot t = Some (if ticket_valid lot t \<and> occupied (spot_list lot ! flat lot t)
    then (True, freed lot t) else (False, lot))"
proof (cases "ticket_valid lot t")
  case True
  then show ?thesis using spot_access [OF assms ticket_validD [OF True]]
    by (auto simp: deassigner_def ticket_valid_def freed_def Let_def flat_def linorder_not_le)
next
  case False
  then show ?thesis by (auto simp: deassigner_def ticket_valid_def linorder_not_le)
qed

lemma taken_fields [simp]:
  "levels (taken lot t) = levels lot" "spots_floor (taken lot t) = spots_floor lot"
  "ticket_valid (taken lot t) t' = ticket_valid lot t'" "flat (taken lot t) t' = flat lot t'"
  by (simp_all add: taken_def Let_def ticket_valid_def flat_def)

lemma freed_taken:
  assumes "shaped lot" and "ticket_valid lot t" and "\<not> occupied (spot_list lot ! flat lot t)"
  shows "freed (taken lot t) t = lot"
proof -
  let ?k = "flat lot t" and ?sp = "spot_list lot ! flat lot t"
  have k: "?k < length (spot_list lot)" by (rule flat_less_length [OF assms(1,2)])
  have sp: "?sp\<lparr>occupied := True\<rparr>\<lparr>occupied := False\<rparr> = ?sp" using assms(3) by simp
  have tl: "spot_list (taken lot t) = (spot_list lot)[?k := ?sp\<lparr>occupied := True\<rparr>]"
    and tf: "free_count (taken lot t) = (free_count lot)(ssize ?sp := free_count lot (ssize ?sp) - 1)"
    by (simp_all add: taken_def Let_def)
  then have "spots (freed (taken lot t) t) = spots lot"
    using k sp shapedD(1) [OF assms(1)] by (simp add: freed_def Let_def)
  moreover have "free_count (freed (taken lot t) t) = free_count lot"
    using k tl tf by (simp add: freed_def Let_def)
  moreover have "levels (freed (taken lot t) t) = levels lot" "spots_floor (freed (taken lot t) t) = spots_floor lot"
    by (simp_all add: freed_def Let_def)
  ultimately show ?thesis by simp
qed

lemma set_sizes_from: "x \<in> set (sizes_from a) \<longleftrightarrow> a \<le> x"
  by (cases a; cases x) (simp_all add: less_eq_spot_size_def)

lemma sorted_sizes_from: "sorted_wrt (<) (sizes_from a)"
  by (cases a) (simp_all add: less_spot_size_def)

lemma sizes_from_split:
  assumes "sizes_from a = before @ s # after"
  shows "a \<le> s" and "a \<le> s' \<Longrightarrow> s' < s \<Longrightarrow> s' \<in> set before"
proof -
  show "a \<le> s" using set_sizes_from [of s a] assms by simp
  assume "a \<le> s'" and less: "s' < s"
  then have "s' \<in> set (before @ s # after)" using set_sizes_from [of s' a] assms by simp
  moreover have "s < x" if "x \<in> set after" for x
    using that sorted_sizes_from [of a] assms by (simp add: sorted_wrt_append)
  ultimately show "s' \<in> set before" using less by (auto dest: less_asym)
qed

lemma assigner_cases:
  assumes "lot_ok lot"
  obtains (parked) t where "assigner lot v = Some (Some t, taken lot t)" "ticket_valid lot t"
      "\<not> occupied (spot_list lot ! flat lot t)" "smallest_fit v \<le> ssize (spot_list lot ! flat lot t)"
      "\<And>s. smallest_fit v \<le> s \<Longrightarrow> s < ssize (spot_list lot ! flat lot t) \<Longrightarrow> free_count lot s = 0"
    | (full) "assigner lot v = Some (None, lot)" "\<And>s. smallest_fit v \<le> s \<Longrightarrow> free_count lot s = 0"
proof -
  obtain r lot' where r: "assigner lot v = Some (r, lot')" "assigned lot (sizes_from (smallest_fit v)) r lot'"
    using assign_from_eq [OF assms] unfolding assigner_def by blast
  show thesis
  proof (cases r)
    case None
    then show thesis using full r set_sizes_from by (simp add: assigned_def)
  next
    case (Some t)
    then obtain before after where split: "sizes_from (smallest_fit v) = before @ ssize (spot_list lot ! flat lot t) # after"
        "\<forall>s \<in> set before. free_count lot s = 0"
      and t: "ticket_valid lot t" "lot' = taken lot t" "\<not> occupied (spot_list lot ! flat lot t)"
      using r(2) by (auto simp: assigned_def)
    show thesis
    proof (rule parked [of t])
      show "free_count lot s = 0" if "smallest_fit v \<le> s" "s < ssize (spot_list lot ! flat lot t)" for s
        using sizes_from_split(2) [OF split(1) that] split(2) by blast
    qed (use r(1) Some t sizes_from_split(1) [OF split(1)] in simp_all)
  qed
qed

lemma no_free:
  assumes "lot_ok lot" and "free_count lot s = 0" and "sp \<in> set (spot_list lot)" and "\<not> occupied sp"
  shows "ssize sp \<noteq> s"
proof -
  have "cnt (free_of s) (spot_list lot) = 0" using assms(1,2) by (simp add: lot_ok_def) (metis unat_0)
  then show ?thesis using assms(3,4) by (auto simp: cnt_def free_of_def filter_empty_conv)
qed

subsection \<open>Properties\<close>

text \<open>
  C16: The lot's invariant holds from its creation on: when there is at least one level and at least one spot on it,
  \<open>levels * (num_small + num_medium + num_large)\<close> fits in a \<open>size_t\<close> and \<open>calloc\<close> succeeds, \<open>create_lot\<close> builds a lot that satisfies it with \<open>levels * num\<close> free spots of each size, and
  neither \<open>assigner\<close> nor \<open>deassigner\<close>, on any vehicle and any ticket, leaves the block or breaks it: the counts
  always equal the numbers of unoccupied spots.
\<close>

theorem lot_invariant:
  shows "(lv \<noteq> 0 \<longrightarrow> ns \<noteq> 0 \<or> nm \<noteq> 0 \<or> nl \<noteq> 0 \<longrightarrow> unat lv * (unat ns + unat nm + unat nl) < 2 ^ 64 \<longrightarrow>
      (\<exists>lot'. create_lot True lot0 lv ns nm nl = Some (True, lot') \<and> lot_ok lot'
        \<and> free_spots lot' SMALL = lv * ns \<and> free_spots lot' MEDIUM = lv * nm \<and> free_spots lot' LARGE = lv * nl))
    \<and> (lot_ok lot \<longrightarrow> (\<exists>r lot'. assigner lot v = Some (r, lot') \<and> lot_ok lot'))
    \<and> (lot_ok lot \<longrightarrow> (\<exists>b lot'. deassigner lot t = Some (b, lot') \<and> lot_ok lot'))"
proof (intro conjI impI)
  assume "lv \<noteq> 0" "ns \<noteq> 0 \<or> nm \<noteq> 0 \<or> nl \<noteq> 0" "unat lv * (unat ns + unat nm + unat nl) < 2 ^ 64"
  from create_lot_eq [OF this, of lot0] show "\<exists>lot'. create_lot True lot0 lv ns nm nl = Some (True, lot') \<and> lot_ok lot'
      \<and> free_spots lot' SMALL = lv * ns \<and> free_spots lot' MEDIUM = lv * nm \<and> free_spots lot' LARGE = lv * nl"
    by (metis num_of.simps)
next
  assume ok: "lot_ok lot"
  then show "\<exists>r lot'. assigner lot v = Some (r, lot') \<and> lot_ok lot'"
    by (cases rule: assigner_cases [of lot v]) (use ok in \<open>auto intro: lot_ok_taken\<close>)
  have sh: "shaped lot" using ok by (simp add: lot_ok_def)
  show "\<exists>b lot'. deassigner lot t = Some (b, lot') \<and> lot_ok lot'"
    using deassigner_eq [OF sh, of t] lot_ok_freed [OF ok, of t] ok by auto
qed

definition empty_lot :: lot where
  "empty_lot = \<lparr>spots = None, levels = 0, spots_floor = 0, free_count = (\<lambda>s. 0)\<rparr>"

theorem lot_invariant_witness:
  "\<exists>lot'. create_lot True empty_lot 2 2 3 1 = Some (True, lot') \<and> lot_ok lot' \<and> free_spots lot' MEDIUM = 6"
  using lot_invariant [of 2 2 3 1 empty_lot empty_lot CAR "\<lparr>level = 0, spot = 0\<rparr>"] by auto

text \<open>
  \<open>assigner\<close> parks a vehicle in a free spot of the smallest size that fits and is free anywhere in the lot,
  changing nothing but that spot's flag and the count of its size; it turns the vehicle away, changing
  nothing, exactly when every spot that is large enough is occupied.
\<close>

theorem assigner_smallest_fit:
  assumes "lot_ok lot"
  shows "(\<exists>t. assigner lot v = Some (Some t, taken lot t) \<and> ticket_valid lot t
      \<and> \<not> occupied (spot_list lot ! flat lot t) \<and> smallest_fit v \<le> ssize (spot_list lot ! flat lot t)
      \<and> (\<forall>sp \<in> set (spot_list lot). \<not> occupied sp \<and> smallest_fit v \<le> ssize sp \<longrightarrow> ssize (spot_list lot ! flat lot t) \<le> ssize sp))
    \<or> (assigner lot v = Some (None, lot) \<and> (\<forall>sp \<in> set (spot_list lot). smallest_fit v \<le> ssize sp \<longrightarrow> occupied sp))"
  using assms
proof (cases rule: assigner_cases [of lot v])
  case (parked t)
  have "ssize (spot_list lot ! flat lot t) \<le> ssize sp"
    if "sp \<in> set (spot_list lot)" "\<not> occupied sp" "smallest_fit v \<le> ssize sp" for sp
    using no_free [OF assms parked(5) that(1,2), of "ssize sp"] that(3) by (meson not_le)
  then show ?thesis using parked(1-4) by blast
next
  case full
  then show ?thesis using no_free [OF assms full(2)] by blast
qed

theorem assigner_smallest_fit_witness:
  "\<exists>lot. lot_ok lot \<and> (assigner lot TRUCK = Some (None, lot) \<or> (\<exists>t. assigner lot TRUCK = Some (Some t, taken lot t)))"
proof -
  obtain lot' where "lot_ok lot'"
    using create_lot_eq [of 1 1 0 0 empty_lot] by auto
  then show ?thesis using assigner_smallest_fit [of lot' TRUCK] by blast
qed

text \<open>
  Parking and leaving are inverse: \<open>deassigner\<close> with the ticket that \<open>assigner\<close> gave restores the lot exactly,
  and using the same ticket once more is refused without a change.
\<close>

theorem park_leave_roundtrip:
  assumes "lot_ok lot" and "assigner lot v = Some (Some t, lot')"
  shows "deassigner lot' t = Some (True, lot) \<and> deassigner lot t = Some (False, lot)"
  using assms(1)
proof (cases rule: assigner_cases [of lot v])
  case (parked t')
  then have t: "t' = t" "lot' = taken lot t" using assms(2) by simp_all
  have sh: "shaped lot" using assms(1) by (simp add: lot_ok_def)
  have "occupied (spot_list (taken lot t) ! flat lot t)"
    using flat_less_length [OF sh, of t] parked(2) t by (simp add: taken_def Let_def)
  then have "deassigner lot' t = Some (True, freed (taken lot t) t)"
    using deassigner_eq [OF shaped_taken [OF sh], of t t] parked(2) t by simp
  then show ?thesis
    using freed_taken [OF sh, of t] deassigner_eq [OF sh, of t] parked(2,3) t by simp
qed (use assms(2) in simp)

theorem park_leave_roundtrip_witness:
  "\<exists>lot t lot'. assigner lot TRUCK = Some (Some t, lot') \<and> deassigner lot' t = Some (True, lot)"
proof -
  obtain lot where l: "lot_ok lot" "free_spots lot LARGE = 1 * num_of 0 0 1 LARGE"
    using create_lot_eq [of 1 0 0 1 empty_lot] by auto
  then have "\<exists>t lot'. assigner lot TRUCK = Some (Some t, lot')"
    by (cases rule: assigner_cases [of lot TRUCK]) (auto simp: free_spots_def)
  then show ?thesis using park_leave_roundtrip [OF l(1)] by blast
qed

text \<open>
  \<open>create_lot\<close> does not check its products: for \<open>2\<^sup>3\<^sup>2\<close> levels of \<open>2\<^sup>3\<^sup>2\<close> spots it asks \<open>calloc\<close> for 0 entries and, when that
  returns a block, writes outside it.
\<close>

theorem create_lot_size_wraps: "create_lot True lot (2 ^ 32) (2 ^ 32) 0 0 = None"
proof -
  have "(2 ^ 32 :: size_t) * 2 ^ 32 = 0" by simp
  moreover have "unat (2 ^ 32 :: size_t) = 2 ^ 32" by simp
  ultimately show ?thesis
    unfolding create_lot_def Let_def
    by (subst init_levels.simps, subst init_floor.simps) (simp add: spot_get_def rd_def)
qed

lemma parking_main_passes: "main empty_lot = Some ()"
  by code_simp

end
