(* ===== verification/Log_Entry.thy ===== *)
theory Log_Entry
  imports CPrelude
begin

text \<open>
  What the two loggers of \<open>CPU_logger/\<close> share: the record \<open>log_entry_t\<close>, the sizes, and the test with which both
  programs look for torn entries.
\<close>

definition PAYLOAD_BYTES :: nat where "PAYLOAD_BYTES = 4096"
definition ENTRIES_PER_CPU :: nat where "ENTRIES_PER_CPU = 256"

record log_entry =
  timestamp_ns :: u64
  cpu_id :: u32
  len :: u32
  payload :: "u8 list"

definition torn_entry :: "log_entry \<Rightarrow> bool" where
  "torn_entry e \<longleftrightarrow> list_ex (\<lambda>b. b \<noteq> ucast (cpu_id e AND 0xFF)) (payload e)"

end
