(* ===== verification/Logger_Lock.thy ===== *)
theory Logger_Lock
  imports Log_Entry
begin

text \<open>
  \<open>CPU_logger/cpu_logger_lock.c\<close>: CPUs that write into one log under a busy flag.  The mutex \<open>g_mtx\<close> is held only for
  the few instructions of \<open>try_begin_write\<close>, \<open>wait_begin_write\<close> and \<open>end_write\<close>, and everything it guards is accessed in
  those sections only, so each section is one step; waiting on the condition variable releases the mutex and puts the
  CPU to sleep in the same step, the broadcast of \<open>end_write\<close> wakes all sleepers, and a sleeper may also wake up
  spuriously.  The slow \<open>memcpy\<close> of \<open>flush\<close> runs outside the mutex and is two steps: from the first to the second the
  slot holds arbitrary contents.  The clock is \<open>CLOCK_MONOTONIC\<close>: a later reading is never smaller.
\<close>

definition LOG_CAPACITY :: nat where "LOG_CAPACITY = 4096"
definition LOCAL_CAP :: nat where "LOCAL_CAP = 8"

definition make_entry :: "u64 \<Rightarrow> nat \<Rightarrow> log_entry" where
  "make_entry now cpu = \<lparr>timestamp_ns = now, cpu_id = of_nat cpu, len = of_nat PAYLOAD_BYTES,
     payload = replicate PAYLOAD_BYTES (of_nat cpu AND 0xFF)\<rparr>"

datatype log_pc =
    Make           \<comment> \<open>at the head of the loop of \<open>worker\<close>\<close>
  | Try            \<comment> \<open>at \<open>try_begin_write\<close>\<close>
  | Wait_Begin     \<comment> \<open>in \<open>wait_begin_write\<close>, at the loop's test\<close>
  | Sleep          \<comment> \<open>in \<open>pthread_cond_wait\<close>\<close>
  | Flush nat      \<comment> \<open>owner, at the test of the loop of \<open>flush\<close>\<close>
  | Copying nat nat \<comment> \<open>owner, in the \<open>memcpy\<close> of a pending entry to a slot\<close>
  | End_Write      \<comment> \<open>owner, at \<open>end_write\<close>\<close>
  | Returned

record cpu =
  cpu :: nat
  it :: nat
  pending :: "log_entry list"
  lpc :: log_pc
  draining :: bool
  overlapped :: nat
  slept :: nat

record logger =
  g_log :: "log_entry list"
  g_count :: nat
  g_busy :: bool
  clock :: u64
  cpus :: "cpu list"

definition set_cpu :: "nat \<Rightarrow> cpu \<Rightarrow> logger \<Rightarrow> logger" where
  "set_cpu c l s = s\<lparr>cpus := (cpus s)[c := l]\<rparr>"

text \<open>\<open>make_entry(&pending[n++], a->cpu)\<close>, or the end of the loop; a write past the end of \<open>pending\<close> is no step.\<close>

definition make_pending :: "u64 \<Rightarrow> nat \<Rightarrow> logger \<Rightarrow> logger option" where
  "make_pending now c s = (let l = cpus s ! c in
     if lpc l = Make \<and> it l < ENTRIES_PER_CPU \<and> clock s \<le> now \<and> length (pending l) < LOCAL_CAP
     then Some ((set_cpu c (l\<lparr>pending := pending l @ [make_entry now (cpu l)], lpc := Try\<rparr>) s)\<lparr>clock := now\<rparr>)
     else None)"

definition leave_loop :: "nat \<Rightarrow> logger \<Rightarrow> logger option" where
  "leave_loop c s = (let l = cpus s ! c in
     if lpc l = Make \<and> \<not> it l < ENTRIES_PER_CPU
     then Some (set_cpu c (if pending l \<noteq> [] then l\<lparr>draining := True, lpc := Wait_Begin\<rparr> else l\<lparr>lpc := Returned\<rparr>) s)
     else None)"

definition try_begin_write :: "nat \<Rightarrow> logger \<Rightarrow> logger option" where
  "try_begin_write c s = (let l = cpus s ! c in
     if lpc l = Try
     then Some (if \<not> g_busy s then (set_cpu c (l\<lparr>lpc := Flush 0\<rparr>) s)\<lparr>g_busy := True\<rparr>
       else if length (pending l) = LOCAL_CAP then set_cpu c (l\<lparr>slept := slept l + 1, lpc := Wait_Begin\<rparr>) s
       else set_cpu c (l\<lparr>overlapped := overlapped l + 1, it := it l + 1, lpc := Make\<rparr>) s)
     else None)"

definition wait_begin_write :: "nat \<Rightarrow> logger \<Rightarrow> logger option" where
  "wait_begin_write c s = (let l = cpus s ! c in
     if lpc l = Wait_Begin
     then Some (if g_busy s then set_cpu c (l\<lparr>lpc := Sleep\<rparr>) s
       else (set_cpu c (l\<lparr>lpc := Flush 0\<rparr>) s)\<lparr>g_busy := True\<rparr>)
     else None)"

text \<open>
  \<open>flush\<close>: the loop test and the beginning of a copy (or the end of the loop, after which \<open>n = 0\<close>; the last flush of
  a CPU leaves \<open>n\<close> as it is, but \<open>n\<close> is not used any more), and the end of the copy.
\<close>

definition flush :: "log_entry \<Rightarrow> nat \<Rightarrow> logger \<Rightarrow> logger option" where
  "flush junk c s = (let l = cpus s ! c in
     case lpc l of
       Flush k \<Rightarrow>
         if k < length (pending l) \<and> g_count s < LOG_CAPACITY
         then do {
           lg \<leftarrow> wr (g_log s) (g_count s) junk;
           Some ((set_cpu c (l\<lparr>lpc := Copying k (g_count s)\<rparr>) s)\<lparr>g_log := lg, g_count := g_count s + 1\<rparr>)
         }
         else Some (set_cpu c (l\<lparr>pending := [], lpc := End_Write\<rparr>) s)
     | Copying k slot \<Rightarrow> do {
         lg \<leftarrow> wr (g_log s) slot (pending l ! k);
         Some ((set_cpu c (l\<lparr>lpc := Flush (k + 1)\<rparr>) s)\<lparr>g_log := lg\<rparr>)
       }
     | _ \<Rightarrow> None)"

definition wake :: "cpu \<Rightarrow> cpu" where
  "wake l = (if lpc l = Sleep then l\<lparr>lpc := Wait_Begin\<rparr> else l)"

definition end_write :: "nat \<Rightarrow> logger \<Rightarrow> logger option" where
  "end_write c s = (let l = cpus s ! c in
     if lpc l = End_Write
     then Some (set_cpu c (if draining l then l\<lparr>lpc := Returned\<rparr> else l\<lparr>it := it l + 1, lpc := Make\<rparr>)
       (s\<lparr>g_busy := False, cpus := map wake (cpus s)\<rparr>))
     else None)"

inductive log_step :: "logger \<Rightarrow> logger \<Rightarrow> bool" where
  make: "c < length (cpus s) \<Longrightarrow> make_pending now c s = Some s' \<Longrightarrow> log_step s s'"
| leave: "c < length (cpus s) \<Longrightarrow> leave_loop c s = Some s' \<Longrightarrow> log_step s s'"
| try_begin: "c < length (cpus s) \<Longrightarrow> try_begin_write c s = Some s' \<Longrightarrow> log_step s s'"
| wait: "c < length (cpus s) \<Longrightarrow> wait_begin_write c s = Some s' \<Longrightarrow> log_step s s'"
| copy: "c < length (cpus s) \<Longrightarrow> flush junk c s = Some s' \<Longrightarrow> log_step s s'"
| finish: "c < length (cpus s) \<Longrightarrow> end_write c s = Some s' \<Longrightarrow> log_step s s'"

inductive log_spurious :: "logger \<Rightarrow> logger \<Rightarrow> bool" where
  wakeup: "c < length (cpus s) \<Longrightarrow> lpc (cpus s ! c) = Sleep \<Longrightarrow>
    log_spurious s (set_cpu c (wake (cpus s ! c)) s)"

text \<open>\<open>main\<close>: the number of CPUs (signed overflow is undefined), the start, and the check of the log.\<close>

definition main_ncpu :: "int \<Rightarrow> int option" where
  "main_ncpu arg = do {
     let ncpu = (if arg < 1 then 1 else arg);
     p \<leftarrow> to_i64 (ncpu * int ENTRIES_PER_CPU);
     Some (if p > int LOG_CAPACITY then int LOG_CAPACITY div int ENTRIES_PER_CPU else ncpu)
   }"

definition log_start :: "log_entry list \<Rightarrow> u64 \<Rightarrow> nat \<Rightarrow> logger" where
  "log_start lg now ncpu = \<lparr>g_log = lg, g_count = 0, g_busy = False, clock = now,
     cpus = map (\<lambda>c. \<lparr>cpu = c, it = 0, pending = [], lpc = Make, draining = False, overlapped = 0, slept = 0\<rparr>) [0..<ncpu]\<rparr>"

text \<open>\<open>last_ts\<close> is the array of 256 time stamps; the result is \<open>torn\<close> and \<open>unordered\<close>.\<close>

fun check_log :: "log_entry list \<Rightarrow> u64 list \<Rightarrow> nat \<Rightarrow> nat \<Rightarrow> (nat \<times> nat) option" where
  "check_log [] last_ts torn unordered = Some (torn, unordered)"
| "check_log (e # es) last_ts torn unordered = do {
     let torn = (if torn_entry e then torn + 1 else torn);
     if cpu_id e < 256 then do {
       ts \<leftarrow> rd last_ts (unat (cpu_id e));
       let unordered = (if timestamp_ns e < ts then unordered + 1 else unordered);
       last_ts \<leftarrow> wr last_ts (unat (cpu_id e)) (timestamp_ns e);
       check_log es last_ts torn unordered
     } else check_log es last_ts torn unordered
   }"

definition main_check :: "nat \<Rightarrow> logger \<Rightarrow> int option" where
  "main_check ncpu s = do {
     (torn, unordered) \<leftarrow> check_log (take (g_count s) (g_log s)) (replicate 256 0) 0 0;
     Some (if g_count s = ncpu * ENTRIES_PER_CPU \<and> torn = 0 \<and> unordered = 0 then 0 else 1)
   }"

inductive log_reach :: "logger \<Rightarrow> logger \<Rightarrow> bool" for s0 where
  start: "log_reach s0 s0"
| step: "log_reach s0 s \<Longrightarrow> log_step s s' \<Longrightarrow> log_reach s0 s'"
| spurious: "log_reach s0 s \<Longrightarrow> log_spurious s s' \<Longrightarrow> log_reach s0 s'"

definition returned :: "logger \<Rightarrow> bool" where
  "returned s \<longleftrightarrow> (\<forall>l \<in> set (cpus s). lpc l = Returned)"

subsection \<open>The invariant\<close>

fun owning :: "log_pc \<Rightarrow> bool" where
  "owning (Flush k) = True" | "owning (Copying k slot) = True" | "owning End_Write = True" | "owning _ = False"

fun copying :: "log_pc \<Rightarrow> bool" where
  "copying (Copying k slot) = True" | "copying _ = False"

text \<open>The entries that are completely in the log.\<close>

definition committed :: "logger \<Rightarrow> log_entry list" where
  "committed s = take (g_count s - cnt (\<lambda>l. copying (lpc l)) (cpus s)) (g_log s)"

definition entries_of :: "nat \<Rightarrow> log_entry list \<Rightarrow> log_entry list" where
  "entries_of c es = filter (\<lambda>e. cpu_id e = of_nat c) es"

text \<open>What a CPU still has to copy, and how many entries it has made.\<close>

definition unlogged :: "cpu \<Rightarrow> log_entry list" where
  "unlogged l = (case lpc l of Flush k \<Rightarrow> drop k (pending l) | Copying k slot \<Rightarrow> drop k (pending l) | _ \<Rightarrow> pending l)"

definition made :: "cpu \<Rightarrow> nat" where
  "made l = it l + (if lpc l = Make \<or> draining l \<or> lpc l = Returned then 0 else 1)"

text \<open>Everything a CPU has made, in order: first what is in the log, then what is pending.\<close>

definition stream :: "logger \<Rightarrow> nat \<Rightarrow> log_entry list" where
  "stream s c = entries_of c (committed s) @ unlogged (cpus s ! c)"

definition stream_ok :: "u64 \<Rightarrow> nat \<Rightarrow> log_entry list \<Rightarrow> bool" where
  "stream_ok now c es \<longleftrightarrow> (\<forall>e \<in> set es. e = make_entry (timestamp_ns e) c \<and> timestamp_ns e \<le> now)
     \<and> sorted (map timestamp_ns es)"

definition cpu_ok :: "nat \<Rightarrow> cpu \<Rightarrow> bool" where
  "cpu_ok c l \<longleftrightarrow> cpu l = c \<and> made l \<le> ENTRIES_PER_CPU
     \<and> length (pending l) \<le> LOCAL_CAP
     \<and> (lpc l = Make \<longrightarrow> length (pending l) < LOCAL_CAP \<and> \<not> draining l)
     \<and> (lpc l = Try \<longrightarrow> \<not> draining l)
     \<and> (draining l \<or> lpc l = Returned \<longrightarrow> it l = ENTRIES_PER_CPU)
     \<and> (lpc l = Returned \<or> lpc l = End_Write \<longrightarrow> pending l = [])
     \<and> (\<forall>k slot. lpc l = Copying k slot \<longrightarrow> k < length (pending l))"

definition log_inv :: "logger \<Rightarrow> bool" where
  "log_inv s \<longleftrightarrow> length (cpus s) * ENTRIES_PER_CPU \<le> LOG_CAPACITY \<and> length (g_log s) = LOG_CAPACITY \<and> g_count s \<le> LOG_CAPACITY
     \<and> cnt (\<lambda>l. owning (lpc l)) (cpus s) = (if g_busy s then 1 else 0)
     \<and> (\<forall>l \<in> set (cpus s). lpc l = Sleep \<longrightarrow> g_busy s)
     \<and> (\<forall>l \<in> set (cpus s). \<forall>k slot. lpc l = Copying k slot \<longrightarrow> g_count s = slot + 1)
     \<and> (\<forall>c < length (cpus s). cpu_ok c (cpus s ! c)
          \<and> length (stream s c) = made (cpus s ! c) \<and> stream_ok (clock s) c (stream s c))
     \<and> (\<forall>e \<in> set (committed s). \<exists>c < length (cpus s). cpu_id e = of_nat c)"

lemma set_cpu_simps [simp]:
  "g_log (set_cpu c l s) = g_log s" "g_count (set_cpu c l s) = g_count s" "g_busy (set_cpu c l s) = g_busy s"
  "clock (set_cpu c l s) = clock s" "cpus (set_cpu c l s) = (cpus s)[c := l]"
  by (simp_all add: set_cpu_def)

lemma wake_simps [simp]:
  "owning (lpc (wake l)) = owning (lpc l)" "copying (lpc (wake l)) = copying (lpc l)"
  "lpc (wake l) \<noteq> Sleep" "lpc (wake l) = Copying k slot \<longleftrightarrow> lpc l = Copying k slot"
  "unlogged (wake l) = unlogged l" "made (wake l) = made l"
  by (auto simp: wake_def unlogged_def made_def split: log_pc.splits)

lemma cpu_ok_wake: "cpu_ok c l \<Longrightarrow> cpu_ok c (wake l)"
  by (auto simp: wake_def cpu_ok_def made_def)

lemma copying_owning: "copying p \<Longrightarrow> owning p"
  by (cases p) simp_all

lemma entries_of_simps [simp]:
  "entries_of c [] = []" "entries_of c (xs @ ys) = entries_of c xs @ entries_of c ys"
  by (simp_all add: entries_of_def)

lemma of_nat_cpu_inj:
  assumes "c < n" and "d < n" and "n * ENTRIES_PER_CPU \<le> LOG_CAPACITY" and "(of_nat c :: u32) = of_nat d"
  shows "c = d"
proof -
  have "n \<le> 16" using assms(3) by (simp add: ENTRIES_PER_CPU_def LOG_CAPACITY_def)
  then have small: "c < 2 ^ LENGTH(32)" "d < 2 ^ LENGTH(32)" using assms(1,2) by simp_all
  from of_nat_word_inj [OF this assms(4)] show ?thesis .
qed

lemma stream_ok_mono: "stream_ok now c es \<Longrightarrow> now \<le> now' \<Longrightarrow> stream_ok now' c es"
  by (auto simp: stream_ok_def intro: order_trans)

lemma stream_ok_snoc:
  assumes "stream_ok now c es" and "now \<le> now'"
  shows "stream_ok now' c (es @ [make_entry now' c])"
proof -
  have le: "timestamp_ns e \<le> now'" if "e \<in> set es" for e
    using that assms by (meson order_trans stream_ok_def)
  have ts: "timestamp_ns (make_entry now' c) = now'" by (simp add: make_entry_def)
  then have "sorted (map timestamp_ns (es @ [make_entry now' c]))"
    using assms(1) le by (simp add: stream_ok_def sorted_append)
  then show ?thesis using assms(1) le ts by (auto simp: stream_ok_def)
qed

text \<open>
  What a step of CPU \<open>c\<close> has to show: \<open>new\<close> is what it adds to the committed part of the log and \<open>ext\<close> the entry it
  makes; other CPUs are at most woken.
\<close>

lemma log_inv_step:
  assumes inv: "log_inv s" and c: "c < length (cpus s)" and len: "length (cpus s') = length (cpus s)"
    and others: "\<And>d. d < length (cpus s) \<Longrightarrow> d \<noteq> c \<Longrightarrow> cpus s' ! d \<in> {cpus s ! d, wake (cpus s ! d)}"
    and lg: "length (g_log s') = LOG_CAPACITY" "g_count s' \<le> LOG_CAPACITY"
    and own: "cnt (\<lambda>l. owning (lpc l)) (cpus s') = (if g_busy s' then 1 else 0)"
    and sleep: "\<And>d. d < length (cpus s') \<Longrightarrow> lpc (cpus s' ! d) = Sleep \<Longrightarrow> g_busy s'"
    and slot: "\<And>d k slot. d < length (cpus s') \<Longrightarrow> lpc (cpus s' ! d) = Copying k slot \<Longrightarrow> g_count s' = slot + 1"
    and ok: "cpu_ok c (cpus s' ! c)" and clk: "clock s \<le> clock s'"
    and com: "committed s' = committed s @ new" "\<forall>e \<in> set new. cpu_id e = of_nat c"
    and str: "new @ unlogged (cpus s' ! c) = unlogged (cpus s ! c) @ ext" "made (cpus s' ! c) = made (cpus s ! c) + length ext"
      "ext = [] \<or> ext = [make_entry (clock s') c]"
  shows "log_inv s'"
proof -
  have iv: "length (cpus s) * ENTRIES_PER_CPU \<le> LOG_CAPACITY"
    "\<And>d. d < length (cpus s) \<Longrightarrow> cpu_ok d (cpus s ! d) \<and> length (stream s d) = made (cpus s ! d)
      \<and> stream_ok (clock s) d (stream s d)"
    "\<forall>e \<in> set (committed s). \<exists>c < length (cpus s). cpu_id e = of_nat c"
    using inv unfolding log_inv_def by simp_all
  have "cpu_ok d (cpus s' ! d) \<and> length (stream s' d) = made (cpus s' ! d) \<and> stream_ok (clock s') d (stream s' d)"
    if d: "d < length (cpus s)" for d
  proof (cases "d = c")
    case True
    have "entries_of c new = new" using com(2) by (simp add: entries_of_def)
    then have st: "stream s' c = stream s c @ ext" using str(1) com(1) by (simp add: stream_def)
    have "stream_ok (clock s') c (stream s c @ ext)"
      using str(3) iv(2) [OF c] stream_ok_mono [OF _ clk, of c "stream s c"] stream_ok_snoc [OF _ clk, of c "stream s c"] by auto
    then show ?thesis using True ok iv(2) [OF c] str(2) st by simp
  next
    case False
    have "entries_of d new = []"
      using com(2) of_nat_cpu_inj [OF d c iv(1)] False by (metis (mono_tags, lifting) entries_of_def filter_False)
    moreover have "unlogged (cpus s' ! d) = unlogged (cpus s ! d)" "made (cpus s' ! d) = made (cpus s ! d)"
      "cpu_ok d (cpus s' ! d)"
      using others [OF d False] iv(2) [OF d] cpu_ok_wake by auto
    ultimately show ?thesis
      using iv(2) [OF d] com(1) stream_ok_mono [OF _ clk, of d "stream s d"] by (simp add: stream_def)
  qed
  moreover have "\<forall>e \<in> set (committed s'). \<exists>c < length (cpus s'). cpu_id e = of_nat c"
    using iv(3) com c len by auto
  moreover have "\<forall>l \<in> set (cpus s'). lpc l = Sleep \<longrightarrow> g_busy s'"
    "\<forall>l \<in> set (cpus s'). \<forall>k slot. lpc l = Copying k slot \<longrightarrow> g_count s' = slot + 1"
    unfolding all_set_conv_all_nth using sleep slot by blast+
  ultimately show ?thesis
    unfolding log_inv_def len using iv(1) lg own [unfolded len] by blast
qed

lemma log_invD:
  assumes "log_inv s"
  shows "length (cpus s) * ENTRIES_PER_CPU \<le> LOG_CAPACITY" and "length (g_log s) = LOG_CAPACITY"
    and "g_count s \<le> LOG_CAPACITY" and "cnt (\<lambda>l. owning (lpc l)) (cpus s) = (if g_busy s then 1 else 0)"
    and "c < length (cpus s) \<Longrightarrow> lpc (cpus s ! c) = Sleep \<Longrightarrow> g_busy s"
    and "c < length (cpus s) \<Longrightarrow> lpc (cpus s ! c) = Copying k slot \<Longrightarrow> g_count s = slot + 1"
    and "c < length (cpus s) \<Longrightarrow> cpu_ok c (cpus s ! c)"
    and "c < length (cpus s) \<Longrightarrow> length (stream s c) = made (cpus s ! c)"
    and "c < length (cpus s) \<Longrightarrow> stream_ok (clock s) c (stream s c)"
    and "e \<in> set (committed s) \<Longrightarrow> \<exists>c < length (cpus s). cpu_id e = of_nat c"
  using assms nth_mem unfolding log_inv_def by blast+

lemma owner_unique:
  assumes "log_inv s" and "c < length (cpus s)" and "d < length (cpus s)"
    and "owning (lpc (cpus s ! c))" and "owning (lpc (cpus s ! d))"
  shows "c = d"
  using cnt_one_unique [of "\<lambda>l. owning (lpc l)" "cpus s" c d] assms log_invD(4) [OF assms(1)] by (simp split: if_splits)

lemma owner_busy:
  assumes "log_inv s" and "c < length (cpus s)" and "owning (lpc (cpus s ! c))"
  shows "g_busy s"
proof (rule ccontr)
  assume "\<not> g_busy s"
  then have "cnt (\<lambda>l. owning (lpc l)) (cpus s) = 0" using log_invD(4) [OF assms(1)] by simp
  then show False using assms(2,3) by (auto simp: cnt_zero_iff)
qed

text \<open>Steps of CPU \<open>c\<close> that leave the log alone.\<close>

lemma log_inv_local:
  assumes inv: "log_inv s" and c: "c < length (cpus s)" and l: "l = cpus s ! c"
    and s': "s' = (set_cpu c l' s)\<lparr>g_busy := b, clock := now\<rparr>"
    and busy: "(if owning (lpc l) then 1 else 0) + (if b then 1 else 0) = (if owning (lpc l') then 1 else 0) + (if g_busy s then 1 else (0::nat))"
    and up: "g_busy s \<longrightarrow> b" and sl: "lpc l' = Sleep \<longrightarrow> b" and cp: "\<not> copying (lpc l)" "\<not> copying (lpc l')"
    and ok: "cpu_ok c l'" and clk: "clock s \<le> now"
    and str: "unlogged l' = unlogged l @ ext" "made l' = made l + length ext" "ext = [] \<or> ext = [make_entry now c]"
  shows "log_inv s'"
proof (rule log_inv_step [OF inv c, where new = "[]" and ext = ext])
  show "committed s' = committed s @ []"
    using cnt_update [OF c, of "\<lambda>l. copying (lpc l)" l'] cp l by (simp add: committed_def s')
  show "cnt (\<lambda>l. owning (lpc l)) (cpus s') = (if g_busy s' then 1 else 0)"
    using cnt_update [OF c, of "\<lambda>l. owning (lpc l)" l'] busy log_invD(4) [OF inv] l s' by (auto split: if_splits)
  show "g_busy s'" if "d < length (cpus s')" "lpc (cpus s' ! d) = Sleep" for d
    using that log_invD(5) [OF inv, of d] sl up s' by (cases "d = c") auto
  show "g_count s' = slot + 1" if "d < length (cpus s')" "lpc (cpus s' ! d) = Copying k slot" for d k slot
    using that log_invD(6) [OF inv, of d k slot] cp s' by (cases "d = c") auto
qed (use s' c ok clk str l log_invD(2,3) [OF inv] in simp_all)

lemma same_busy_clock: "(s::logger)\<lparr>g_busy := g_busy s, clock := clock s\<rparr> = s"
  by simp

lemma set_cpu_local: "set_cpu c l' s = (set_cpu c l' s)\<lparr>g_busy := g_busy s, clock := clock s\<rparr>"
  by (simp add: set_cpu_def)

lemma make_inv:
  assumes "log_inv s" and "c < length (cpus s)" and "make_pending now c s = Some s'"
  shows "log_inv s'"
proof -
  let ?l = "cpus s ! c"
  let ?l' = "?l\<lparr>pending := pending ?l @ [make_entry now (cpu ?l)], lpc := Try\<rparr>"
  have m: "lpc ?l = Make" "it ?l < ENTRIES_PER_CPU" "clock s \<le> now" and s': "s' = (set_cpu c ?l' s)\<lparr>clock := now\<rparr>"
    using assms(3) by (auto simp: make_pending_def Let_def split: if_splits)
  have ok: "cpu_ok c ?l" by (rule log_invD(7) [OF assms(1,2)])
  show ?thesis
  proof (rule log_inv_local [OF assms(1,2) refl, where l' = ?l' and b = "g_busy s" and now = now and ext = "[make_entry now c]"])
    show "s' = (set_cpu c ?l' s)\<lparr>g_busy := g_busy s, clock := now\<rparr>" using s' by (simp add: set_cpu_def)
    show "cpu_ok c ?l'" using ok m by (auto simp: cpu_ok_def made_def)
    show "unlogged ?l' = unlogged ?l @ [make_entry now c]" using ok m by (simp add: unlogged_def cpu_ok_def)
    show "made ?l' = made ?l + length [make_entry now c]" using ok m by (simp add: made_def cpu_ok_def)
  qed (use m in simp_all)
qed

lemma leave_inv:
  assumes "log_inv s" and "c < length (cpus s)" and "leave_loop c s = Some s'"
  shows "log_inv s'"
proof -
  let ?l = "cpus s ! c"
  let ?l' = "if pending ?l \<noteq> [] then ?l\<lparr>draining := True, lpc := Wait_Begin\<rparr> else ?l\<lparr>lpc := Returned\<rparr>"
  have m: "lpc ?l = Make" "\<not> it ?l < ENTRIES_PER_CPU" and s': "s' = set_cpu c ?l' s"
    using assms(3) by (simp_all add: leave_loop_def Let_def split: if_splits)
  have ok: "cpu_ok c ?l" by (rule log_invD(7) [OF assms(1,2)])
  show ?thesis unfolding s'
    by (rule log_inv_local [OF assms(1,2) refl set_cpu_local, where ext = "[]"])
       (use ok m in \<open>auto simp: cpu_ok_def made_def unlogged_def\<close>)
qed

lemma try_inv:
  assumes "log_inv s" and "c < length (cpus s)" and "try_begin_write c s = Some s'"
  shows "log_inv s'"
proof -
  let ?l = "cpus s ! c"
  have m: "lpc ?l = Try" using assms(3) by (auto simp: try_begin_write_def Let_def split: if_splits)
  have ok: "cpu_ok c ?l" by (rule log_invD(7) [OF assms(1,2)])
  consider "\<not> g_busy s" "s' = (set_cpu c (?l\<lparr>lpc := Flush 0\<rparr>) s)\<lparr>g_busy := True, clock := clock s\<rparr>"
    | "g_busy s" "length (pending ?l) = LOCAL_CAP" "s' = set_cpu c (?l\<lparr>slept := slept ?l + 1, lpc := Wait_Begin\<rparr>) s"
    | "g_busy s" "length (pending ?l) \<noteq> LOCAL_CAP"
      "s' = set_cpu c (?l\<lparr>overlapped := overlapped ?l + 1, it := it ?l + 1, lpc := Make\<rparr>) s"
    using assms(3) m by (auto simp: try_begin_write_def Let_def set_cpu_def split: if_splits)
  then show ?thesis
  proof cases
    case 1
    show ?thesis unfolding 1
      by (rule log_inv_local [OF assms(1,2) refl refl, where ext = "[]"])
         (use 1 ok m in \<open>auto simp: cpu_ok_def made_def unlogged_def\<close>)
  next
    case 2
    show ?thesis unfolding 2
      by (rule log_inv_local [OF assms(1,2) refl set_cpu_local, where ext = "[]"])
         (use 2 ok m in \<open>auto simp: cpu_ok_def made_def unlogged_def\<close>)
  next
    case 3
    show ?thesis unfolding 3
      by (rule log_inv_local [OF assms(1,2) refl set_cpu_local, where ext = "[]"])
         (use 3 ok m in \<open>auto simp: cpu_ok_def made_def unlogged_def\<close>)
  qed
qed

lemma wait_inv:
  assumes "log_inv s" and "c < length (cpus s)" and "wait_begin_write c s = Some s'"
  shows "log_inv s'"
proof -
  let ?l = "cpus s ! c"
  have m: "lpc ?l = Wait_Begin" using assms(3) by (auto simp: wait_begin_write_def Let_def split: if_splits)
  have ok: "cpu_ok c ?l" by (rule log_invD(7) [OF assms(1,2)])
  consider "g_busy s" "s' = set_cpu c (?l\<lparr>lpc := Sleep\<rparr>) s"
    | "\<not> g_busy s" "s' = (set_cpu c (?l\<lparr>lpc := Flush 0\<rparr>) s)\<lparr>g_busy := True, clock := clock s\<rparr>"
    using assms(3) m by (auto simp: wait_begin_write_def Let_def set_cpu_def split: if_splits)
  then show ?thesis
  proof cases
    case 1
    show ?thesis unfolding 1
      by (rule log_inv_local [OF assms(1,2) refl set_cpu_local, where ext = "[]"])
         (use 1 ok m in \<open>auto simp: cpu_ok_def made_def unlogged_def\<close>)
  next
    case 2
    show ?thesis unfolding 2
      by (rule log_inv_local [OF assms(1,2) refl refl, where ext = "[]"])
         (use 2 ok m in \<open>auto simp: cpu_ok_def made_def unlogged_def\<close>)
  qed
qed

lemma spurious_inv:
  assumes "log_inv s" and "log_spurious s s'"
  shows "log_inv s'"
  using assms(2)
proof cases
  case (wakeup c)
  have ok: "cpu_ok c (cpus s ! c)" by (rule log_invD(7) [OF assms(1) wakeup(2)])
  show ?thesis unfolding wakeup(1)
    by (rule log_inv_local [OF assms(1) wakeup(2) refl set_cpu_local, where ext = "[]"])
       (use wakeup(3) cpu_ok_wake [OF ok] in simp_all)
qed

lemma end_inv:
  assumes "log_inv s" and "c < length (cpus s)" and "end_write c s = Some s'"
  shows "log_inv s'"
proof -
  let ?l = "cpus s ! c"
  let ?l' = "if draining ?l then ?l\<lparr>lpc := Returned\<rparr> else ?l\<lparr>it := it ?l + 1, lpc := Make\<rparr>"
  have m: "lpc ?l = End_Write" and s': "s' = set_cpu c ?l' (s\<lparr>g_busy := False, cpus := map wake (cpus s)\<rparr>)"
    using assms(3) by (auto simp: end_write_def Let_def split: if_splits)
  have ok: "cpu_ok c ?l" by (rule log_invD(7) [OF assms(1,2)])
  have busy: "g_busy s" using owner_busy [OF assms(1,2)] m by simp
  have cmap: "c < length (map wake (cpus s))" using assms(2) by simp
  have cnts: "cnt (\<lambda>l. owning (lpc l)) (cpus s') = 0" "cnt (\<lambda>l. copying (lpc l)) (cpus s') = cnt (\<lambda>l. copying (lpc l)) (cpus s)"
    using cnt_update [OF cmap, of "\<lambda>l. owning (lpc l)" ?l'] cnt_update [OF cmap, of "\<lambda>l. copying (lpc l)" ?l']
      log_invD(4) [OF assms(1)] busy m assms(2) s' by (auto simp: cnt_map split: if_splits)
  have nth: "cpus s' ! d = (if d = c then ?l' else wake (cpus s ! d))" if "d < length (cpus s)" for d
    using that s' assms(2) by (simp add: nth_list_update)
  show ?thesis
  proof (rule log_inv_step [OF assms(1,2), where new = "[]" and ext = "[]"])
    show "committed s' = committed s @ []" using cnts(2) s' by (simp add: committed_def)
    show "g_busy s'" if "d < length (cpus s')" "lpc (cpus s' ! d) = Sleep" for d
      using that nth [of d] s' by (auto split: if_splits)
    show "g_count s' = slot + 1" if "d < length (cpus s')" "lpc (cpus s' ! d) = Copying k slot" for d k slot
      using that nth [of d] s' log_invD(6) [OF assms(1), of d k slot] by (auto split: if_splits)
    show "cpu_ok c (cpus s' ! c)" using nth [OF assms(2)] ok m by (auto simp: cpu_ok_def made_def LOCAL_CAP_def)
    show "[] @ unlogged (cpus s' ! c) = unlogged ?l @ []" "made (cpus s' ! c) = made ?l + length []"
      using nth [OF assms(2)] ok m by (auto simp: unlogged_def made_def cpu_ok_def)
  qed (use s' nth cnts(1) log_invD(2,3) [OF assms(1)] in auto)
qed

subsection \<open>Copying\<close>

lemma entries_partition:
  assumes "\<forall>e \<in> set es. \<exists>c < n. cpu_id e = of_nat c" and "n * ENTRIES_PER_CPU \<le> LOG_CAPACITY"
  shows "length es = (\<Sum>c<n. length (entries_of c es))"
  using assms(1)
proof (induction es)
  case Nil
  then show ?case by simp
next
  case (Cons e es)
  then obtain c where c: "c < n" "cpu_id e = of_nat c" by auto
  have "length (entries_of d (e # es)) = length (entries_of d es) + (if d = c then 1 else 0)" if "d < n" for d
    using of_nat_cpu_inj [OF c(1) that assms(2)] c(2) by (auto simp: entries_of_def)
  then have "(\<Sum>d<n. length (entries_of d (e # es))) = (\<Sum>d<n. length (entries_of d es) + (if d = c then 1 else 0))"
    by (intro sum.cong) auto
  also have "\<dots> = (\<Sum>d<n. length (entries_of d es)) + 1" using c(1) by (simp add: sum.distrib)
  finally show ?case using Cons by simp
qed

lemma entries_le:
  assumes "log_inv s" and "c < length (cpus s)"
  shows "length (entries_of c (committed s)) + length (unlogged (cpus s ! c)) \<le> ENTRIES_PER_CPU"
  using log_invD(7,8) [OF assms] by (simp add: stream_def cpu_ok_def)

lemma not_copying:
  assumes "log_inv s" and "c < length (cpus s)" and "owning (lpc (cpus s ! c))" and "\<not> copying (lpc (cpus s ! c))"
  shows "cnt (\<lambda>l. copying (lpc l)) (cpus s) = 0"
  unfolding cnt_zero_iff using owner_unique [OF assms(1,2) _ assms(3)] copying_owning assms(4) by blast

lemma room_left:
  assumes inv: "log_inv s" and c: "c < length (cpus s)" and pc: "lpc (cpus s ! c) = Flush k" and k: "k < length (pending (cpus s ! c))"
  shows "g_count s < LOG_CAPACITY"
proof -
  let ?n = "length (cpus s)"
  have "cnt (\<lambda>l. copying (lpc l)) (cpus s) = 0" using not_copying [OF inv c] pc by simp
  then have "g_count s = length (committed s)" using log_invD(2,3) [OF inv] by (simp add: committed_def)
  also have "\<dots> = (\<Sum>c<?n. length (entries_of c (committed s)))"
    by (rule entries_partition) (use log_invD(1,10) [OF inv] in auto)
  also have "\<dots> < (\<Sum>c<?n. ENTRIES_PER_CPU)"
  proof (rule sum_strict_mono_ex1)
    show "\<forall>x \<in> {..<?n}. length (entries_of x (committed s)) \<le> ENTRIES_PER_CPU"
      using entries_le [OF inv] by (metis add_leD1 lessThan_iff)
    have "0 < length (unlogged (cpus s ! c))" using pc k by (simp add: unlogged_def)
    then have "length (entries_of c (committed s)) < ENTRIES_PER_CPU" using entries_le [OF inv c] by linarith
    then show "\<exists>a \<in> {..<?n}. length (entries_of a (committed s)) < ENTRIES_PER_CPU" using c by blast
  qed simp
  also have "\<dots> \<le> LOG_CAPACITY" using log_invD(1) [OF inv] by simp
  finally show ?thesis .
qed

lemma copy_begin_inv:
  assumes inv: "log_inv s" and c: "c < length (cpus s)" and pc: "lpc (cpus s ! c) = Flush k" "k < length (pending (cpus s ! c))"
    and s': "s' = (set_cpu c ((cpus s ! c)\<lparr>lpc := Copying k (g_count s)\<rparr>) s)
      \<lparr>g_log := (g_log s)[g_count s := junk], g_count := g_count s + 1\<rparr>"
  shows "log_inv s'"
proof -
  let ?l = "cpus s ! c" and ?l' = "(cpus s ! c)\<lparr>lpc := Copying k (g_count s)\<rparr>"
  have ok: "cpu_ok c ?l" by (rule log_invD(7) [OF inv c])
  have room: "g_count s < LOG_CAPACITY" by (rule room_left [OF inv c pc])
  have none: "cnt (\<lambda>l. copying (lpc l)) (cpus s) = 0" using not_copying [OF inv c] pc by simp
  have one: "cnt (\<lambda>l. copying (lpc l)) (cpus s') = 1"
    using cnt_update [OF c, of "\<lambda>l. copying (lpc l)" ?l'] none pc s' by simp
  have nocp: "lpc (cpus s ! d) \<noteq> Copying j slot" if "d < length (cpus s)" for d j slot
    using none that by (auto simp: cnt_zero_iff)
  show ?thesis
  proof (rule log_inv_step [OF inv c, where new = "[]" and ext = "[]"])
    show "committed s' = committed s @ []" using none one s' by (simp add: committed_def)
    show "cnt (\<lambda>l. owning (lpc l)) (cpus s') = (if g_busy s' then 1 else 0)"
      using cnt_update [OF c, of "\<lambda>l. owning (lpc l)" ?l'] log_invD(4) [OF inv] pc s' by simp
    show "g_busy s'" if "d < length (cpus s')" "lpc (cpus s' ! d) = Sleep" for d
      using that log_invD(5) [OF inv, of d] s' by (cases "d = c") auto
    show "g_count s' = slot + 1" if "d < length (cpus s')" "lpc (cpus s' ! d) = Copying j slot" for d j slot
      using that nocp [of d j slot] s' by (cases "d = c") auto
    show "cpu_ok c (cpus s' ! c)" using ok pc s' c by (simp add: cpu_ok_def made_def)
    show "[] @ unlogged (cpus s' ! c) = unlogged ?l @ []" "made (cpus s' ! c) = made ?l + length []"
      using pc s' c by (simp_all add: unlogged_def made_def)
  qed (use s' room log_invD(2) [OF inv] in auto)
qed

lemma flush_end_inv:
  assumes inv: "log_inv s" and c: "c < length (cpus s)" and pc: "lpc (cpus s ! c) = Flush k"
    and stop: "\<not> (k < length (pending (cpus s ! c)) \<and> g_count s < LOG_CAPACITY)"
  shows "log_inv (set_cpu c ((cpus s ! c)\<lparr>pending := [], lpc := End_Write\<rparr>) s)"
proof -
  have ok: "cpu_ok c (cpus s ! c)" by (rule log_invD(7) [OF inv c])
  have "length (pending (cpus s ! c)) \<le> k" using stop room_left [OF inv c pc] by linarith
  then show ?thesis
    by (intro log_inv_local [OF inv c refl set_cpu_local, where ext = "[]"])
       (use ok pc in \<open>auto simp: cpu_ok_def made_def unlogged_def\<close>)
qed

lemma copy_end_inv:
  assumes inv: "log_inv s" and c: "c < length (cpus s)" and pc: "lpc (cpus s ! c) = Copying k slot"
    and s': "s' = (set_cpu c ((cpus s ! c)\<lparr>lpc := Flush (k + 1)\<rparr>) s)\<lparr>g_log := (g_log s)[slot := pending (cpus s ! c) ! k]\<rparr>"
  shows "log_inv s'"
proof -
  let ?l = "cpus s ! c" and ?l' = "(cpus s ! c)\<lparr>lpc := Flush (k + 1)\<rparr>"
  have ok: "cpu_ok c ?l" by (rule log_invD(7) [OF inv c])
  then have k: "k < length (pending ?l)" using pc by (simp add: cpu_ok_def)
  have slot: "g_count s = slot + 1" by (rule log_invD(6) [OF inv c pc])
  have le: "slot < length (g_log s)" using slot log_invD(2,3) [OF inv] by simp
  have others: "\<not> copying (lpc (cpus s ! d))" if "d < length (cpus s)" "d \<noteq> c" for d
    using owner_unique [OF inv c that(1)] copying_owning pc that(2) by auto
  have "\<forall>d < length (cpus s'). \<not> copying (lpc (cpus s' ! d))" using others s' c by (auto simp: nth_list_update)
  then have none: "cnt (\<lambda>l. copying (lpc l)) (cpus s') = 0" by (simp add: cnt_zero_iff)
  have one: "cnt (\<lambda>l. copying (lpc l)) (cpus s) = 1"
    using cnt_update [OF c, of "\<lambda>l. copying (lpc l)" ?l'] none pc s' by simp
  have unl: "unlogged ?l = pending ?l ! k # drop (k + 1) (pending ?l)" using pc k by (simp add: unlogged_def Cons_nth_drop_Suc)
  then have "pending ?l ! k = make_entry (timestamp_ns (pending ?l ! k)) c"
    using log_invD(9) [OF inv c] by (simp add: stream_ok_def stream_def)
  then have id: "cpu_id (pending ?l ! k) = of_nat c" by (metis log_entry.select_convs(2) make_entry_def)
  show ?thesis
  proof (rule log_inv_step [OF inv c, where new = "[pending ?l ! k]" and ext = "[]"])
    show "committed s' = committed s @ [pending ?l ! k]"
      using none one s' slot le by (simp add: committed_def take_Suc_conv_app_nth)
    show "cnt (\<lambda>l. owning (lpc l)) (cpus s') = (if g_busy s' then 1 else 0)"
      using cnt_update [OF c, of "\<lambda>l. owning (lpc l)" ?l'] log_invD(4) [OF inv] pc s' by simp
    show "g_busy s'" if "d < length (cpus s')" "lpc (cpus s' ! d) = Sleep" for d
      using that log_invD(5) [OF inv, of d] s' by (cases "d = c") auto
    show "g_count s' = slot' + 1" if "d < length (cpus s')" "lpc (cpus s' ! d) = Copying j slot'" for d j slot'
      using that others [of d] s' by (cases "d = c") auto
    show "cpu_ok c (cpus s' ! c)" using ok pc s' c by (simp add: cpu_ok_def made_def)
    show "[pending ?l ! k] @ unlogged (cpus s' ! c) = unlogged ?l @ []" "made (cpus s' ! c) = made ?l + length []"
      using unl pc s' c by (simp_all add: unlogged_def made_def)
  qed (use s' id log_invD(2,3) [OF inv] in auto)
qed

lemma flush_inv:
  assumes "log_inv s" and "c < length (cpus s)" and "flush junk c s = Some s'"
  shows "log_inv s'"
proof (cases "lpc (cpus s ! c)")
  case (Flush k)
  show ?thesis
  proof (cases "k < length (pending (cpus s ! c)) \<and> g_count s < LOG_CAPACITY")
    case True
    then show ?thesis
      using assms(3) Flush log_invD(2) [OF assms(1)] copy_begin_inv [OF assms(1,2) Flush]
      by (auto simp: flush_def Let_def)
  next
    case False
    then show ?thesis
      using assms(3) Flush flush_end_inv [OF assms(1,2) Flush False] by (auto simp: flush_def Let_def)
  qed
next
  case (Copying k slot)
  have "slot < length (g_log s)" using log_invD(2,3,6) [OF assms(1)] assms(2) Copying by (metis Suc_le_eq Suc_eq_plus1)
  then show ?thesis
    using assms(3) Copying copy_end_inv [OF assms(1,2) Copying] by (auto simp: flush_def Let_def)
qed (use assms(3) in \<open>simp_all add: flush_def Let_def\<close>)

lemma log_step_inv: "log_inv s \<Longrightarrow> log_step s s' \<Longrightarrow> log_inv s'"
  by (erule log_step.cases) (auto intro: make_inv leave_inv try_inv wait_inv flush_inv end_inv)

lemma log_start_inv:
  assumes "length lg = LOG_CAPACITY" and "ncpu * ENTRIES_PER_CPU \<le> LOG_CAPACITY"
  shows "log_inv (log_start lg now ncpu)"
proof -
  have "cnt (\<lambda>l. owning (lpc l)) (cpus (log_start lg now ncpu)) = 0"
    by (rule cnt_none_true) (simp add: log_start_def)
  then show ?thesis
    using assms by (auto simp: log_inv_def log_start_def committed_def stream_def stream_ok_def cpu_ok_def made_def
        unlogged_def LOCAL_CAP_def)
qed

lemma flush_cases:
  assumes "flush junk c s = Some s'"
  obtains (copy_start) k where "lpc (cpus s ! c) = Flush k" "k < length (pending (cpus s ! c))" "g_count s < LOG_CAPACITY"
      "cpus s' = (cpus s)[c := (cpus s ! c)\<lparr>lpc := Copying k (g_count s)\<rparr>]"
    | (stop) k where "lpc (cpus s ! c) = Flush k" "cpus s' = (cpus s)[c := (cpus s ! c)\<lparr>pending := [], lpc := End_Write\<rparr>]"
    | (end_copy) k slot where "lpc (cpus s ! c) = Copying k slot" "cpus s' = (cpus s)[c := (cpus s ! c)\<lparr>lpc := Flush (k + 1)\<rparr>]"
proof (cases "lpc (cpus s ! c)")
  case (Flush k)
  show thesis
  proof (cases "k < length (pending (cpus s ! c)) \<and> g_count s < LOG_CAPACITY")
    case True
    then show thesis using assms Flush copy_start by (auto simp: flush_def Let_def wr_def split: if_splits)
  next
    case False
    then show thesis using assms Flush stop by (auto simp: flush_def Let_def)
  qed
next
  case (Copying k slot)
  then show thesis using assms end_copy by (auto simp: flush_def Let_def wr_def split: if_splits)
qed (use assms in \<open>simp_all add: flush_def Let_def\<close>)

lemma log_step_length: "log_step s s' \<Longrightarrow> length (cpus s') = length (cpus s)"
proof (induction rule: log_step.induct)
  case (copy c s junk s')
  from copy(2) show ?case by (cases rule: flush_cases) simp_all
qed (auto simp: make_pending_def leave_loop_def try_begin_write_def wait_begin_write_def end_write_def Let_def
    split: if_splits)

lemma log_reach_inv:
  assumes "log_reach (log_start lg now ncpu) s" and "length lg = LOG_CAPACITY" and "ncpu * ENTRIES_PER_CPU \<le> LOG_CAPACITY"
  shows "log_inv s \<and> length (cpus s) = ncpu"
  using assms(1)
proof (induction rule: log_reach.induct)
  case start
  then show ?case using log_start_inv [OF assms(2,3)] by (simp add: log_start_def)
next
  case (step s s')
  then show ?case using log_step_inv [of s s'] log_step_length [of s s'] by simp
next
  case (spurious s s')
  then show ?case using spurious_inv [of s s'] by (auto elim!: log_spurious.cases)
qed

subsection \<open>The check of the finished log\<close>

lemma payload_byte: "c < 16 \<Longrightarrow> (ucast ((of_nat c :: u32) AND 0xFF) :: u8) = of_nat c AND 0xFF"
proof -
  assume "c < 16"
  then have "c \<in> set [0..<16]" by simp
  moreover have "\<forall>c \<in> set [0..<16]. (ucast ((of_nat c :: u32) AND 0xFF) :: u8) = of_nat c AND 0xFF" by code_simp
  ultimately show ?thesis by blast
qed

lemma make_entry_intact: "c < 16 \<Longrightarrow> \<not> torn_entry (make_entry now c)"
  by (simp add: torn_entry_def make_entry_def list_ex_iff payload_byte)

lemma check_log_passes:
  assumes "length last_ts = 256" and "\<forall>e \<in> set es. \<not> torn_entry e \<and> cpu_id e < 256"
    and "\<forall>c < 256. sorted (last_ts ! c # map timestamp_ns (entries_of c es))"
  shows "check_log es last_ts torn unordered = Some (torn, unordered)"
  using assms
proof (induction es arbitrary: last_ts)
  case Nil
  then show ?case by simp
next
  case (Cons e es)
  define c where "c = unat (cpu_id e)"
  have c: "c < 256" "cpu_id e = of_nat c" using Cons.prems(2) by (simp_all add: c_def word_less_nat_alt)
  have other: "entries_of d (e # es) = entries_of d es" if "d < 256" "d \<noteq> c" for d
    using of_nat_word_inj [where ?'a = 32, of c d] that c by (auto simp: entries_of_def)
  have same: "entries_of c (e # es) = e # entries_of c es" using c(2) by (simp add: entries_of_def)
  then have le: "last_ts ! c \<le> timestamp_ns e" "sorted (timestamp_ns e # map timestamp_ns (entries_of c es))"
    using Cons.prems(3) c(1) by auto
  have ge: "(timestamp_ns e < last_ts ! c) = False" using le(1) leD by blast
  have "check_log (e # es) last_ts torn unordered = check_log es (last_ts[c := timestamp_ns e]) torn unordered"
    using Cons.prems(1,2) c(1) ge by (simp add: c_def [symmetric] Let_def)
  also have "\<dots> = Some (torn, unordered)"
  proof (rule Cons.IH)
    show "\<forall>d < 256. sorted (last_ts[c := timestamp_ns e] ! d # map timestamp_ns (entries_of d es))"
    proof (intro allI impI)
      fix d :: nat
      assume d: "d < 256"
      show "sorted (last_ts[c := timestamp_ns e] ! d # map timestamp_ns (entries_of d es))"
      proof (cases "d = c")
        case True
        then show ?thesis using le(2) Cons.prems(1) c(1) by simp
      next
        case False
        have "sorted (last_ts ! d # map timestamp_ns (entries_of d (e # es)))" using Cons.prems(3) d by blast
        then show ?thesis unfolding other [OF d False] using False by simp
      qed
    qed
  qed (use Cons.prems in simp_all)
  finally show ?case .
qed

lemma returned_committed:
  assumes "log_inv s" and "returned s"
  shows "committed s = take (g_count s) (g_log s)" and "g_count s = length (cpus s) * ENTRIES_PER_CPU"
    and "c < length (cpus s) \<Longrightarrow> length (entries_of c (committed s)) = ENTRIES_PER_CPU
      \<and> stream_ok (clock s) c (entries_of c (committed s))"
proof -
  have ret: "lpc (cpus s ! c) = Returned" if "c < length (cpus s)" for c
    using assms(2) that by (simp add: returned_def)
  have "cnt (\<lambda>l. copying (lpc l)) (cpus s) = 0" using ret by (simp add: cnt_zero_iff)
  then show com: "committed s = take (g_count s) (g_log s)" by (simp add: committed_def)
  show each: "length (entries_of c (committed s)) = ENTRIES_PER_CPU \<and> stream_ok (clock s) c (entries_of c (committed s))"
    if c: "c < length (cpus s)" for c
    using log_invD(7-9) [OF assms(1) c] ret [OF c] by (simp add: stream_def cpu_ok_def unlogged_def made_def)
  have "g_count s = length (committed s)" using com log_invD(2,3) [OF assms(1)] by simp
  also have "\<dots> = (\<Sum>c<length (cpus s). length (entries_of c (committed s)))"
    by (rule entries_partition) (use log_invD(1,10) [OF assms(1)] in auto)
  also have "\<dots> = length (cpus s) * ENTRIES_PER_CPU" using each by simp
  finally show "g_count s = length (cpus s) * ENTRIES_PER_CPU" .
qed

lemma entries_empty:
  assumes "\<forall>e \<in> set es. \<exists>c < n. cpu_id e = of_nat c" and "n \<le> 16" and "n \<le> d" and "d < 256"
  shows "entries_of d es = []"
proof -
  have "cpu_id e \<noteq> of_nat d" if e: "e \<in> set es" for e
  proof
    assume eq: "cpu_id e = of_nat d"
    obtain c where c: "c < n" "cpu_id e = of_nat c" using assms(1) e by blast
    have "c < 2 ^ LENGTH(32)" using c(1) assms(2) by simp
    moreover have "d < 2 ^ LENGTH(32)" using assms(4) by simp
    moreover have "(of_nat c :: u32) = of_nat d" using c(2) eq by (rule subst)
    ultimately have "c = d" by (rule of_nat_word_inj)
    with c(1) assms(3) show False by simp
  qed
  then show ?thesis unfolding entries_of_def by (intro filter_False ballI)
qed

lemma committed_intact:
  assumes "log_inv s" and "returned s" and "e \<in> set (committed s)"
  shows "\<not> torn_entry e \<and> cpu_id e < 256"
proof -
  obtain c where c: "c < length (cpus s)" "cpu_id e = of_nat c" using log_invD(10) [OF assms(1,3)] by blast
  have c16: "c < 16" using c(1) log_invD(1) [OF assms(1)] by (simp add: ENTRIES_PER_CPU_def LOG_CAPACITY_def)
  have "e \<in> set (entries_of c (committed s))" using c(2) assms(3) by (simp add: entries_of_def)
  then have "e = make_entry (timestamp_ns e) c"
    using returned_committed(3) [OF assms(1,2) c(1)] unfolding stream_ok_def by blast
  then have "\<not> torn_entry e" using make_entry_intact [OF c16, of "timestamp_ns e"] by metis
  moreover have "unat (of_nat c :: u32) = c" by (rule unat_of_nat_small) (use c16 in simp)
  then have "cpu_id e < 256" unfolding c(2) word_less_nat_alt using c16 by simp
  ultimately show ?thesis ..
qed

lemma committed_ordered:
  assumes "log_inv s" and "returned s" and "c < 256"
  shows "sorted (0 # map timestamp_ns (entries_of c (committed s)))"
proof (cases "c < length (cpus s)")
  case True
  then show ?thesis using returned_committed(3) [OF assms(1,2) True] by (simp add: stream_ok_def)
next
  case False
  have "length (cpus s) \<le> 16" using log_invD(1) [OF assms(1)] by (simp add: ENTRIES_PER_CPU_def LOG_CAPACITY_def)
  then have "entries_of c (committed s) = []"
    using entries_empty [of "committed s" "length (cpus s)" c] log_invD(10) [OF assms(1)] False assms(3) by auto
  then show ?thesis by simp
qed

lemma main_check_passes:
  assumes "log_inv s" and "returned s"
  shows "main_check (length (cpus s)) s = Some 0"
proof -
  have "check_log (committed s) (replicate 256 0) 0 0 = Some (0, 0)"
  proof (rule check_log_passes)
    show "\<forall>c < 256. sorted (replicate 256 0 ! c # map timestamp_ns (entries_of c (committed s)))"
      using committed_ordered [OF assms] by (metis nth_replicate)
  qed (use committed_intact [OF assms] in \<open>auto\<close>)
  then have "check_log (take (g_count s) (g_log s)) (replicate 256 0) 0 0 = Some (0, 0)"
    unfolding returned_committed(1) [OF assms] .
  then show ?thesis using returned_committed(2) [OF assms] unfolding main_check_def by (simp only: bind.simps prod.case) simp
qed

subsection \<open>Every run ends\<close>

text \<open>The steps a CPU has before it, not counting going to sleep and being woken.\<close>

fun pc_rank :: "nat \<Rightarrow> log_pc \<Rightarrow> nat" where
  "pc_rank n Make = 26"
| "pc_rank n Try = 25"
| "pc_rank n Wait_Begin = 24"
| "pc_rank n Sleep = 24"
| "pc_rank n (Flush k) = 2 * (n - k) + 5"
| "pc_rank n (Copying k slot) = 2 * (n - k) + 4"
| "pc_rank n End_Write = 3"
| "pc_rank n Returned = 0"

definition work :: "cpu \<Rightarrow> nat" where
  "work l = 30 * (ENTRIES_PER_CPU - it l) + pc_rank (length (pending l)) (lpc l)"

definition mu :: "logger \<Rightarrow> nat" where
  "mu s = (length (cpus s) + 1) * sum_list (map work (cpus s)) + cnt (\<lambda>l. lpc l = Wait_Begin) (cpus s)"

lemma work_wake [simp]: "work (wake l) = work l"
  by (auto simp: work_def wake_def)

lemma sum_work_update:
  "c < length ls \<Longrightarrow> sum_list (map work (ls[c := l])) + work (ls ! c) = sum_list (map work ls) + work l"
proof (induction ls arbitrary: c)
  case (Cons x xs)
  then show ?case by (cases c) auto
qed simp

lemma mu_less:
  assumes "c < length (cpus s)" and "work l' < work (cpus s ! c)" and "length ls = length (cpus s)"
    and "map work ls = map work (cpus s)" and "cpus s' = ls[c := l']"
  shows "mu s' < mu s"
proof -
  let ?n = "length (cpus s)"
  have "work (ls ! c) = work (cpus s ! c)" using assms(1,3,4) by (metis nth_map)
  then have "sum_list (map work (cpus s')) < sum_list (map work (cpus s))"
    using sum_work_update [of c ls l'] assms by simp
  then have "(?n + 1) * (sum_list (map work (cpus s')) + 1) \<le> (?n + 1) * sum_list (map work (cpus s))"
    by (intro mult_le_mono2) simp
  moreover have "cnt (\<lambda>l. lpc l = Wait_Begin) (cpus s') \<le> ?n" "length (cpus s') = ?n"
    using cnt_le_length [of _ "cpus s'"] assms(3,5) by simp_all
  ultimately show ?thesis by (simp add: mu_def)
qed

lemmas mu_less_local = mu_less [OF _ _ refl refl]

lemma work_simps:
  assumes "cpu_ok c l"
  shows "it l \<le> ENTRIES_PER_CPU" and "lpc l \<noteq> Make \<Longrightarrow> lpc l \<noteq> Returned \<Longrightarrow> \<not> draining l \<Longrightarrow> it l < ENTRIES_PER_CPU"
    and "length (pending l) \<le> 8"
  using assms by (auto simp: cpu_ok_def made_def LOCAL_CAP_def split: if_splits)

lemma log_step_decreases:
  assumes "log_inv s" and "log_step s s'"
  shows "mu s' < mu s"
  using assms(2)
proof cases
  case (make c now)
  show ?thesis
    by (rule mu_less_local [OF make(1), of "(cpus s ! c)\<lparr>pending := pending (cpus s ! c) @ [make_entry now (cpu (cpus s ! c))], lpc := Try\<rparr>"])
       (use make(2) in \<open>auto simp: make_pending_def Let_def work_def split: if_splits\<close>)
next
  case (leave c)
  let ?l = "cpus s ! c"
  show ?thesis
    by (rule mu_less_local [OF leave(1), of "if pending ?l \<noteq> [] then ?l\<lparr>draining := True, lpc := Wait_Begin\<rparr> else ?l\<lparr>lpc := Returned\<rparr>"])
       (use leave(2) in \<open>auto simp: leave_loop_def Let_def work_def split: if_splits\<close>)
next
  case (try_begin c)
  let ?l = "cpus s ! c"
  note ok = work_simps [OF log_invD(7) [OF assms(1) try_begin(1)]]
  have pc: "lpc ?l = Try" using try_begin(2) by (auto simp: try_begin_write_def Let_def split: if_splits)
  have nd: "\<not> draining ?l" using log_invD(7) [OF assms(1) try_begin(1)] pc by (simp add: cpu_ok_def)
  let ?l' = "if \<not> g_busy s then ?l\<lparr>lpc := Flush 0\<rparr> else if length (pending ?l) = LOCAL_CAP then ?l\<lparr>slept := slept ?l + 1, lpc := Wait_Begin\<rparr>
    else ?l\<lparr>overlapped := overlapped ?l + 1, it := it ?l + 1, lpc := Make\<rparr>"
  show ?thesis
    by (rule mu_less_local [OF try_begin(1), of ?l'])
       (use try_begin(2) ok pc nd in \<open>auto simp: try_begin_write_def Let_def work_def split: if_splits\<close>)
next
  case (wait c)
  let ?l = "cpus s ! c"
  have pc: "lpc ?l = Wait_Begin" using wait(2) by (auto simp: wait_begin_write_def Let_def split: if_splits)
  show ?thesis
  proof (cases "g_busy s")
    case True
    then have s': "cpus s' = (cpus s)[c := ?l\<lparr>lpc := Sleep\<rparr>]" using wait(2) pc by (auto simp: wait_begin_write_def Let_def)
    have "sum_list (map work (cpus s')) = sum_list (map work (cpus s))"
      using sum_work_update [OF wait(1), of "?l\<lparr>lpc := Sleep\<rparr>"] pc s' by (simp add: work_def)
    then show ?thesis
      using cnt_update [OF wait(1), of "\<lambda>l. lpc l = Wait_Begin" "?l\<lparr>lpc := Sleep\<rparr>"] pc s' by (simp add: mu_def)
  next
    case False
    show ?thesis
      by (rule mu_less_local [OF wait(1), of "?l\<lparr>lpc := Flush 0\<rparr>"])
         (use wait(2) work_simps(3) [OF log_invD(7) [OF assms(1) wait(1)]] pc False in
           \<open>auto simp: wait_begin_write_def Let_def work_def split: if_splits\<close>)
  qed
next
  case (copy c junk)
  have ok: "cpu_ok c (cpus s ! c)" by (rule log_invD(7) [OF assms(1) copy(1)])
  from copy(2) show ?thesis
  proof (cases rule: flush_cases)
    case (copy_start k)
    show ?thesis by (rule mu_less_local [OF copy(1) _ copy_start(4)]) (use copy_start(1) in \<open>simp add: work_def\<close>)
  next
    case (stop k)
    show ?thesis by (rule mu_less_local [OF copy(1) _ stop(2)]) (use stop(1) in \<open>simp add: work_def\<close>)
  next
    case (end_copy k slot)
    then have "k < length (pending (cpus s ! c))" using ok by (simp add: cpu_ok_def)
    then show ?thesis by (intro mu_less_local [OF copy(1) _ end_copy(2)]) (use end_copy(1) in \<open>simp add: work_def\<close>)
  qed
next
  case (finish c)
  let ?l = "cpus s ! c"
  have pc: "lpc ?l = End_Write" using finish(2) by (auto simp: end_write_def Let_def split: if_splits)
  note ok = work_simps [OF log_invD(7) [OF assms(1) finish(1)]]
  let ?l' = "if draining ?l then ?l\<lparr>lpc := Returned\<rparr> else ?l\<lparr>it := it ?l + 1, lpc := Make\<rparr>"
  show ?thesis
  proof (rule mu_less [OF finish(1), of ?l' "map wake (cpus s)"])
    show "work ?l' < work ?l" using pc ok(2) by (auto simp: work_def)
  qed (use finish(2) in \<open>auto simp: end_write_def Let_def split: if_splits\<close>)
qed

lemma cpu_can_step:
  assumes "log_inv s" and "c < length (cpus s)" and "lpc (cpus s ! c) \<noteq> Returned" and "lpc (cpus s ! c) \<noteq> Sleep"
  shows "\<exists>s'. log_step s s'"
proof (cases "lpc (cpus s ! c)")
  case Make
  then have "length (pending (cpus s ! c)) < LOCAL_CAP" using log_invD(7) [OF assms(1,2)] by (simp add: cpu_ok_def)
  with Make have "(\<exists>s'. make_pending (clock s) c s = Some s') \<or> (\<exists>s'. leave_loop c s = Some s')"
    by (simp add: make_pending_def leave_loop_def Let_def)
  then show ?thesis using assms(2) log_step.make log_step.leave by blast
next
  case Try
  then have "\<exists>s'. try_begin_write c s = Some s'" by (simp add: try_begin_write_def Let_def)
  then show ?thesis using assms(2) log_step.try_begin by blast
next
  case Wait_Begin
  then have "\<exists>s'. wait_begin_write c s = Some s'" by (simp add: wait_begin_write_def Let_def)
  then show ?thesis using assms(2) log_step.wait by blast
next
  case (Flush k)
  then have "\<exists>s'. flush undefined c s = Some s'" using log_invD(2) [OF assms(1)] by (simp add: flush_def Let_def)
  then show ?thesis using assms(2) log_step.copy by blast
next
  case (Copying k slot)
  then have "slot < length (g_log s)" using log_invD(2,3,6) [OF assms(1)] assms(2) by (metis Suc_le_eq Suc_eq_plus1)
  then have "\<exists>s'. flush undefined c s = Some s'" using Copying by (simp add: flush_def Let_def)
  then show ?thesis using assms(2) log_step.copy by blast
next
  case End_Write
  then have "\<exists>s'. end_write c s = Some s'" by (simp add: end_write_def Let_def)
  then show ?thesis using assms(2) log_step.finish by blast
qed (use assms in simp_all)

lemma not_stuck:
  assumes "log_inv s" and "\<not> returned s"
  shows "\<exists>s'. log_step s s'"
proof -
  obtain c where c: "c < length (cpus s)" "lpc (cpus s ! c) \<noteq> Returned"
    using assms(2) by (auto simp: returned_def in_set_conv_nth)
  show ?thesis
  proof (cases "lpc (cpus s ! c) = Sleep")
    case True
    then have "g_busy s" by (rule log_invD(5) [OF assms(1) c(1)])
    then have "0 < cnt (\<lambda>l. owning (lpc l)) (cpus s)" using log_invD(4) [OF assms(1)] by simp
    then obtain d where "d < length (cpus s)" "owning (lpc (cpus s ! d))" unfolding cnt_pos_iff by blast
    then show ?thesis using cpu_can_step [OF assms(1), of d] by force
  next
    case False
    then show ?thesis using cpu_can_step [OF assms(1) c] by blast
  qed
qed

lemma can_return:
  assumes "log_reach s0 s" and "log_inv s"
  shows "\<exists>s'. log_reach s0 s' \<and> returned s'"
  using assms
proof (induction "mu s" arbitrary: s rule: less_induct)
  case less
  show ?case
  proof (cases "returned s")
    case False
    then obtain s' where "log_step s s'" using not_stuck [OF less.prems(2)] by blast
    then show ?thesis
      using less.hyps [of s'] log_step_decreases [OF less.prems(2)] log_step_inv [OF less.prems(2)]
        log_reach.step [OF less.prems(1)] by blast
  qed (use less.prems in blast)
qed

lemma no_infinite_run:
  assumes "log_inv (f 0)" and "\<And>n. log_step (f n) (f (Suc n))"
  shows False
proof -
  have "log_inv (f n)" for n by (induction n) (use assms log_step_inv in auto)
  then have dec: "mu (f (Suc n)) < mu (f n)" for n using log_step_decreases assms(2) by blast
  have "mu (f n) + n \<le> mu (f 0)" for n
  proof (induction n)
    case (Suc n)
    then show ?case using dec [of n] by linarith
  qed simp
  from this [of "Suc (mu (f 0))"] show False by simp
qed

subsection \<open>Properties\<close>

text \<open>
  The busy flag gives exclusive access to the log although the copies run without the mutex: in every reachable
  state at most one CPU is between claiming and releasing it, every copy goes to a slot inside the log, and no CPU
  stages more than \<open>LOCAL_CAP\<close> entries.
\<close>

theorem logger_exclusive:
  assumes "log_reach (log_start lg now ncpu) s" and "length lg = LOG_CAPACITY" and "ncpu * ENTRIES_PER_CPU \<le> LOG_CAPACITY"
    and "c < ncpu"
  shows "(owning (lpc (cpus s ! c)) \<longrightarrow> g_busy s \<and> (\<forall>d < ncpu. owning (lpc (cpus s ! d)) \<longrightarrow> d = c))
    \<and> (\<forall>k slot. lpc (cpus s ! c) = Copying k slot \<longrightarrow> slot < length (g_log s) \<and> k < length (pending (cpus s ! c)))
    \<and> (if lpc (cpus s ! c) = Make then length (pending (cpus s ! c)) < LOCAL_CAP else length (pending (cpus s ! c)) \<le> LOCAL_CAP)"
proof -
  have inv: "log_inv s" and n: "length (cpus s) = ncpu" using log_reach_inv [OF assms(1-3)] by simp_all
  have c: "c < length (cpus s)" using assms(4) n by simp
  have ok: "cpu_ok c (cpus s ! c)" by (rule log_invD(7) [OF inv c])
  have "slot < length (g_log s)" if "lpc (cpus s ! c) = Copying k slot" for k slot
    using log_invD(6) [OF inv c that] log_invD(2,3) [OF inv] by simp
  moreover have "d = c" if "owning (lpc (cpus s ! c))" "d < ncpu" "owning (lpc (cpus s ! d))" for d
    using owner_unique [OF inv c _ that(1,3)] that(2) n by simp
  ultimately show ?thesis using owner_busy [OF inv c] ok by (auto simp: cpu_ok_def)
qed

definition blank_log :: "log_entry list" where
  "blank_log = replicate LOG_CAPACITY \<lparr>timestamp_ns = 0, cpu_id = 0, len = 0, payload = []\<rparr>"

theorem logger_exclusive_witness:
  "length (pending (cpus (log_start blank_log 0 2) ! 1)) < LOCAL_CAP"
  using logger_exclusive [OF log_reach.start, of blank_log 2 1 0]
  by (simp add: blank_log_def ENTRIES_PER_CPU_def LOG_CAPACITY_def log_start_def split: if_splits)

text \<open>
  C12: When all CPUs have returned, the log holds exactly \<open>ENTRIES_PER_CPU\<close> entries of every CPU, each intact and in the order
  of its time stamps, however the CPUs were interleaved and whatever an unfinished copy left in a slot, and the
  check of \<open>main\<close> succeeds (exit code 0).
\<close>

theorem logger_complete:
  assumes "log_reach (log_start lg now ncpu) s" and "length lg = LOG_CAPACITY" and "ncpu * ENTRIES_PER_CPU \<le> LOG_CAPACITY"
    and "returned s"
  shows "main_check ncpu s = Some 0 \<and> g_count s = ncpu * ENTRIES_PER_CPU
    \<and> (\<forall>c < ncpu. length (entries_of c (take (g_count s) (g_log s))) = ENTRIES_PER_CPU
        \<and> (\<forall>e \<in> set (entries_of c (take (g_count s) (g_log s))). e = make_entry (timestamp_ns e) c)
        \<and> sorted (map timestamp_ns (entries_of c (take (g_count s) (g_log s)))))"
proof -
  have inv: "log_inv s" and n: "length (cpus s) = ncpu" using log_reach_inv [OF assms(1-3)] by simp_all
  note ret = returned_committed [OF inv assms(4)]
  show ?thesis
    using main_check_passes [OF inv assms(4)] ret(2,3) n unfolding ret(1) stream_ok_def by metis
qed

theorem logger_complete_witness:
  "\<exists>s. log_reach (log_start blank_log 0 3) s \<and> returned s \<and> main_check 3 s = Some 0 \<and> g_count s = 768"
proof -
  have *: "length blank_log = LOG_CAPACITY" "3 * ENTRIES_PER_CPU \<le> LOG_CAPACITY"
    by (simp_all add: blank_log_def ENTRIES_PER_CPU_def LOG_CAPACITY_def)
  obtain s where "log_reach (log_start blank_log 0 3) s" "returned s"
    using can_return [OF log_reach.start log_start_inv [OF *]] by blast
  then show ?thesis using logger_complete [of blank_log 0 3 s] * by (auto simp: ENTRIES_PER_CPU_def)
qed

text \<open>
  C35: The logger neither deadlocks nor loses a wake-up: as long as some CPU has not returned, some CPU can take a step that
  is not a spurious wake-up, and there is no infinite run of such steps.
\<close>

theorem logger_terminates:
  assumes "log_reach (log_start lg now ncpu) s" and "length lg = LOG_CAPACITY" and "ncpu * ENTRIES_PER_CPU \<le> LOG_CAPACITY"
  shows "(returned s \<or> (\<exists>s'. log_step s s')) \<and> \<not> (\<exists>f. f 0 = s \<and> (\<forall>n. log_step (f n) (f (Suc n))))"
proof -
  have inv: "log_inv s" using log_reach_inv [OF assms] by simp
  then show ?thesis using not_stuck no_infinite_run by blast
qed

theorem logger_terminates_witness:
  "\<exists>s'. log_step (log_start blank_log 0 1) s'"
  using logger_terminates [OF log_reach.start, of blank_log 1 0]
  by (simp add: blank_log_def ENTRIES_PER_CPU_def LOG_CAPACITY_def returned_def log_start_def)

text \<open>
  The number of CPUs \<open>main\<close> starts is always between 1 and 16, so that all entries fit in the log; the only
  argument it mishandles is one so large that the product with \<open>ENTRIES_PER_CPU\<close> overflows a \<open>long\<close>.
\<close>

theorem main_ncpu_bounds:
  "(case main_ncpu arg of
      Some n \<Rightarrow> 1 \<le> n \<and> nat n * ENTRIES_PER_CPU \<le> LOG_CAPACITY \<and> arg * 256 < 2 ^ 63
    | None \<Rightarrow> 2 ^ 63 \<le> arg * 256)"
proof (cases "main_ncpu arg")
  case None
  then show ?thesis by (auto simp: main_ncpu_def to_i64_def ENTRIES_PER_CPU_def Let_def split: if_splits)
next
  case (Some n)
  then show ?thesis
    by (auto simp: main_ncpu_def to_i64_def ENTRIES_PER_CPU_def LOG_CAPACITY_def Let_def split: if_splits)
qed

end
