(* ===== verification/Logger_Free.thy ===== *)
theory Logger_Free
  imports Log_Entry Thread_Pool
begin

text \<open>
  \<open>CPU_logger/cpu_logger_lock_free.c\<close>: writers reserve a slot with one atomic fetch-and-add, mark it as being written, copy
  their entry without a lock and publish it through the slot's sequence number; readers check the sequence number
  before and after they copy.  A sequence number is the list of all values it has had, newest last: a load may
  return an old one.  A reader that sees the value of the releasing store also sees the copy before it; a copy into a slot
  is two steps with arbitrary contents in between.  The fences order the copies after the mark of their writer and before
  the second load of the reader: a reader whose copy saw a store to the entry cannot then load a sequence number older than
  the mark of the writer that made the store (a copy that saw none of the stores is one made before them).  \<open>fenced\<close> is the position of that mark; it is the order the fences guarantee and not a variable of the
  program.  The second load returns nothing older than the first one either.

  \<open>issued\<close> records who reserved each ticket and for which entry; the program does not have it and no step depends
  on it.
\<close>

definition LOG_SLOTS :: u64 where "LOG_SLOTS = 4096"

record log_slot =
  seq :: "u64 list"
  entry :: log_entry
  fenced :: nat

record log_buffer =
  head :: u64
  slots :: "log_slot list"
  issued :: "(nat \<times> log_entry) list"

definition slot_of :: "u64 \<Rightarrow> nat" where
  "slot_of ticket = unat (ticket AND (LOG_SLOTS - 1))"

definition store_seq :: "log_buffer \<Rightarrow> u64 \<Rightarrow> u64 \<Rightarrow> log_buffer" where
  "store_seq log ticket v = (let s = slots log ! slot_of ticket in
     log\<lparr>slots := (slots log)[slot_of ticket := s\<lparr>seq := seq s @ [v]\<rparr>]\<rparr>)"

definition store_entry :: "log_buffer \<Rightarrow> u64 \<Rightarrow> log_entry \<Rightarrow> log_buffer" where
  "store_entry log ticket e = (let s = slots log ! slot_of ticket in
     log\<lparr>slots := (slots log)[slot_of ticket := s\<lparr>entry := e, fenced := length (takeWhile (\<lambda>v. v \<noteq> 2 * ticket + 1) (seq s))\<rparr>]\<rparr>)"

text \<open>The record a worker builds before each \<open>log_write\<close>, from the clock and \<open>sched_getcpu\<close>.\<close>

definition build_entry :: "u64 \<Rightarrow> u32 \<Rightarrow> log_entry" where
  "build_entry now cpu = \<lparr>timestamp_ns = now, cpu_id = cpu, len = of_nat PAYLOAD_BYTES,
     payload = replicate PAYLOAD_BYTES (ucast (cpu AND 0xFF))\<rparr>"

datatype write_pc = Next | Reserved u64 | Marked u64 | Copying u64 | Copied u64

record writer =
  wid :: nat
  wit :: nat
  wpc :: write_pc
  we :: log_entry

datatype read_pc = Load1 | Copy_Out nat | Load2 nat | Failed | Read

record reader =
  rticket :: u64
  rpc :: read_pc
  rout :: log_entry

datatype client = Writer writer | Reader reader

text \<open>\<open>worker\<close> with \<open>log_write\<close> (at most \<open>iters\<close> calls each), and \<open>log_read\<close>, step by step.\<close>

inductive log_client :: "nat \<Rightarrow> log_buffer \<times> client \<Rightarrow> log_buffer \<times> client \<Rightarrow> bool" for iters where
  reserve: "wpc w = Next \<Longrightarrow> wit w < iters \<Longrightarrow> e = build_entry now cpu \<Longrightarrow>
    log_client iters (log, Writer w)
      (log\<lparr>head := head log + 1, issued := issued log @ [(wid w, e)]\<rparr>, Writer (w\<lparr>wpc := Reserved (head log), we := e\<rparr>))"
| mark: "wpc w = Reserved t \<Longrightarrow>
    log_client iters (log, Writer w) (store_seq log t (2 * t + 1), Writer (w\<lparr>wpc := Marked t\<rparr>))"
| copy_begin: "wpc w = Marked t \<Longrightarrow>
    log_client iters (log, Writer w) (store_entry log t junk, Writer (w\<lparr>wpc := Copying t\<rparr>))"
| copy_end: "wpc w = Copying t \<Longrightarrow>
    log_client iters (log, Writer w) (store_entry log t (we w), Writer (w\<lparr>wpc := Copied t\<rparr>))"
| publish: "wpc w = Copied t \<Longrightarrow>
    log_client iters (log, Writer w) (store_seq log t (2 * t + 2), Writer (w\<lparr>wpc := Next, wit := wit w + 1\<rparr>))"
| load1: "rpc r = Load1 \<Longrightarrow> p < length (seq (slots log ! slot_of (rticket r))) \<Longrightarrow>
    pc = (if seq (slots log ! slot_of (rticket r)) ! p = 2 * rticket r + 2 then Copy_Out p else Failed) \<Longrightarrow>
    log_client iters (log, Reader r) (log, Reader (r\<lparr>rpc := pc\<rparr>))"
| copy_out: "rpc r = Copy_Out p \<Longrightarrow>
    log_client iters (log, Reader r) (log, Reader (r\<lparr>rout := entry (slots log ! slot_of (rticket r)), rpc := Load2 (max p (fenced (slots log ! slot_of (rticket r))))\<rparr>))"
| load2: "rpc r = Load2 p \<Longrightarrow> q < length (seq (slots log ! slot_of (rticket r))) \<Longrightarrow>
    p \<le> q \<or> length (seq (slots log ! slot_of (rticket r))) \<le> p \<Longrightarrow>
    pc = (if seq (slots log ! slot_of (rticket r)) ! q = 2 * rticket r + 2 then Read else Failed) \<Longrightarrow>
    log_client iters (log, Reader r) (log, Reader (r\<lparr>rpc := pc\<rparr>))"

text \<open>\<open>log_read\<close> when nobody else runs, and the check of \<open>main\<close>: the counts of good and of torn entries.\<close>

definition log_read :: "log_buffer \<Rightarrow> u64 \<Rightarrow> log_entry option" where
  "log_read log ticket = (let s = slots log ! slot_of ticket in
     if last (seq s) \<noteq> 2 * ticket + 2 then None
     else let out = entry s in if last (seq s) \<noteq> 2 * ticket + 2 then None else Some out)"

fun verify :: "log_buffer \<Rightarrow> nat list \<Rightarrow> nat \<Rightarrow> nat \<Rightarrow> nat \<times> nat" where
  "verify log [] ok torn = (ok, torn)"
| "verify log (t # ts) ok torn =
     (case log_read log (of_nat t) of
        None \<Rightarrow> verify log ts ok torn
      | Some e \<Rightarrow> if torn_entry e then verify log ts ok (torn + 1) else verify log ts (ok + 1) torn)"

definition main_verify :: "log_buffer \<Rightarrow> int" where
  "main_verify log = (let total = unat (head log); (ok, torn) = verify log [0..<total] 0 0
     in if ok = total \<and> torn = 0 then 0 else 1)"

definition main_ncpu_free :: "int \<Rightarrow> int option" where
  "main_ncpu_free n = do {
     let ncpu = (if n < 1 then 1 else n);
     p \<leftarrow> to_i64 (ncpu * int ENTRIES_PER_CPU);
     Some (if p > uint LOG_SLOTS then uint LOG_SLOTS div int ENTRIES_PER_CPU else ncpu)
   }"

text \<open>The static buffer is zeroed; \<open>readers\<close> are the tickets that readers ask for.\<close>

definition zero_entry :: log_entry where
  "zero_entry = \<lparr>timestamp_ns = 0, cpu_id = 0, len = 0, payload = replicate PAYLOAD_BYTES 0\<rparr>"

definition zero_buffer :: log_buffer where
  "zero_buffer = \<lparr>head = 0, slots = replicate (unat LOG_SLOTS) \<lparr>seq = [0], entry = zero_entry, fenced = 0\<rparr>, issued = []\<rparr>"

definition free_start :: "nat \<Rightarrow> u64 list \<Rightarrow> log_buffer \<times> client list" where
  "free_start ncpu readers = (zero_buffer,
     map (\<lambda>i. Writer \<lparr>wid = i, wit = 0, wpc = Next, we = zero_entry\<rparr>) [0..<ncpu]
     @ map (\<lambda>t. Reader \<lparr>rticket = t, rpc = Load1, rout = zero_entry\<rparr>) readers)"

subsection \<open>Slots and tickets\<close>

lemma slot_of_eq: "slot_of t = unat t mod 4096"
proof -
  have "LOG_SLOTS - 1 = 2 ^ 12 - 1" by (simp add: LOG_SLOTS_def)
  then show ?thesis unfolding slot_of_def using unat_and_pow2_minus_1 [of 12 t] by simp
qed

lemma slot_of_of_nat: "n < 4096 \<Longrightarrow> slot_of (of_nat n) = n"
  by (simp add: slot_of_eq unat_of_nat)

lemma unat_of_nat_ticket: "n < 4096 \<Longrightarrow> unat (of_nat n :: u64) = n"
  by (simp add: unat_of_nat)

text \<open>The sequence number of slot \<open>n\<close>: fresh, being written, committed.\<close>

definition fresh :: "u64 list" where "fresh = [0]"
definition writing :: "nat \<Rightarrow> u64 list" where "writing n = [0, 2 * of_nat n + 1]"
definition commit :: "nat \<Rightarrow> u64 list" where "commit n = [0, 2 * of_nat n + 1, 2 * of_nat n + 2]"

lemma phases_distinct [simp]:
  "fresh \<noteq> writing n" "writing n \<noteq> fresh" "commit n \<noteq> fresh" "commit n \<noteq> writing n" "fresh \<noteq> commit n" "writing n \<noteq> commit n"
  by (simp_all add: fresh_def writing_def commit_def)

lemma committed_value:
  assumes "n < 4096" and "unat t < 2 ^ 62" and "s = fresh \<or> s = writing n \<or> s = commit n"
    and "p < length s" and "s ! p = 2 * t + 2"
  shows "t = of_nat n" and "s = commit n" and "p = 2"
proof -
  have v: "unat (2 * t + 2) = 2 * unat t + 2" using assms(2) by (simp add: unat_word_ariths)
  have w: "unat (2 * of_nat n + 1 :: u64) = 2 * n + 1" "unat (2 * of_nat n + 2 :: u64) = 2 * n + 2"
    using assms(1) by (simp_all add: unat_word_ariths unat_of_nat)
  have e: "unat (s ! p) = 2 * unat t + 2" using assms(5) v by simp
  have "\<not> (p = 0 \<or> p = 1)"
  proof
    assume "p = 0 \<or> p = 1"
    then have "s ! p = 0 \<or> s ! p = 2 * of_nat n + 1" using assms(3,4) by (auto simp: fresh_def writing_def commit_def)
    then have "unat (s ! p) = 0 \<or> unat (s ! p) = 2 * n + 1" using w(1) by auto
    then show False using e by presburger
  qed
  then show p: "p = 2" and s: "s = commit n" using assms(3,4) by (auto simp: fresh_def writing_def commit_def)
  then have "2 * n + 2 = 2 * unat t + 2" using e w(2) by (simp add: commit_def)
  then show "t = of_nat n" by simp
qed

subsection \<open>The invariant while no slot is used twice\<close>

definition slot_ok :: "log_buffer \<Rightarrow> nat \<Rightarrow> bool" where
  "slot_ok log n \<longleftrightarrow> (let s = slots log ! n in
     (seq s = fresh \<or> seq s = writing n \<or> seq s = commit n)
     \<and> (length (issued log) \<le> n \<longrightarrow> seq s = fresh) \<and> (seq s = commit n \<longrightarrow> entry s = snd (issued log ! n)))"

definition free_inv :: "log_buffer \<Rightarrow> bool" where
  "free_inv log \<longleftrightarrow> length (slots log) = 4096 \<and> head log = of_nat (length (issued log))
     \<and> (length (issued log) \<le> 4096 \<longrightarrow> (\<forall>n < 4096. slot_ok log n))"

text \<open>A writer's ticket, and what its slot looks like at that point.\<close>

definition holds :: "nat \<Rightarrow> log_buffer \<Rightarrow> log_entry \<Rightarrow> u64 \<Rightarrow> bool" where
  "holds i log e t \<longleftrightarrow> unat t < length (issued log) \<and> issued log ! unat t = (i, e)"

fun writer_ok :: "nat \<Rightarrow> log_buffer \<Rightarrow> log_entry \<Rightarrow> write_pc \<Rightarrow> bool" where
  "writer_ok i log e Next = True"
| "writer_ok i log e (Reserved t) = (holds i log e t \<and> seq (slots log ! unat t) = fresh)"
| "writer_ok i log e (Marked t) = (holds i log e t \<and> seq (slots log ! unat t) = writing (unat t))"
| "writer_ok i log e (Copying t) = (holds i log e t \<and> seq (slots log ! unat t) = writing (unat t))"
| "writer_ok i log e (Copied t) = (holds i log e t \<and> seq (slots log ! unat t) = writing (unat t) \<and> entry (slots log ! unat t) = e)"

definition committed_slot :: "log_buffer \<Rightarrow> u64 \<Rightarrow> bool" where
  "committed_slot log t \<longleftrightarrow> unat t < length (issued log) \<and> unat t < 4096 \<and> seq (slots log ! unat t) = commit (unat t)
     \<and> entry (slots log ! unat t) = snd (issued log ! unat t)"

fun reader_ok :: "log_buffer \<Rightarrow> u64 \<Rightarrow> log_entry \<Rightarrow> read_pc \<Rightarrow> bool" where
  "reader_ok log t e Load1 = True"
| "reader_ok log t e (Copy_Out p) = (committed_slot log t)"
| "reader_ok log t e (Load2 p) = (committed_slot log t \<and> e = snd (issued log ! unat t))"
| "reader_ok log t e Failed = True"
| "reader_ok log t e Read = (committed_slot log t \<and> e = snd (issued log ! unat t))"

fun client_ok :: "nat \<Rightarrow> log_buffer \<Rightarrow> client \<Rightarrow> bool" where
  "client_ok i log (Writer w) \<longleftrightarrow> wid w = i \<and> (length (issued log) \<le> 4096 \<longrightarrow> writer_ok i log (we w) (wpc w))"
| "client_ok i log (Reader r) \<longleftrightarrow> unat (rticket r) < 2 ^ 62
     \<and> (length (issued log) \<le> 4096 \<longrightarrow> reader_ok log (rticket r) (rout r) (rpc r))"

lemma store_simps [simp]:
  "head (store_seq log t v) = head log" "issued (store_seq log t v) = issued log"
  "length (slots (store_seq log t v)) = length (slots log)"
  "head (store_entry log t e) = head log" "issued (store_entry log t e) = issued log"
  "length (slots (store_entry log t e)) = length (slots log)"
  by (simp_all add: store_seq_def store_entry_def Let_def)

lemma store_nth:
  assumes "unat t < 4096" and "length (slots log) = 4096" and "n < 4096"
  shows "slots (store_seq log t v) ! n = (if n = unat t then (slots log ! n)\<lparr>seq := seq (slots log ! n) @ [v]\<rparr> else slots log ! n)"
    and "slots (store_entry log t e) ! n = (if n = unat t then (slots log ! n)\<lparr>entry := e, fenced := length (takeWhile (\<lambda>v. v \<noteq> 2 * t + 1) (seq (slots log ! n)))\<rparr> else slots log ! n)"
  using assms by (auto simp: store_seq_def store_entry_def Let_def slot_of_eq nth_list_update)

text \<open>A step that only changes the slot of a ticket that thread \<open>i\<close> holds leaves the others' slots alone.\<close>

lemma others_ok:
  assumes j: "j \<noteq> i" and m: "client_ok j log m" and hold: "length (issued log) \<le> 4096 \<Longrightarrow> holds i log e t"
    and nc: "length (issued log) \<le> 4096 \<Longrightarrow> seq (slots log ! unat t) \<noteq> commit (unat t)"
    and iss: "issued log' = issued log"
    and sl: "\<And>n. length (issued log) \<le> 4096 \<Longrightarrow> n < 4096 \<Longrightarrow> n \<noteq> unat t \<Longrightarrow> slots log' ! n = slots log ! n"
  shows "client_ok j log' m"
proof (cases "length (issued log) \<le> 4096")
  case True
  have same: "slots log' ! unat t' = slots log ! unat t'" if "holds j log e' t'" for e' t'
    using that hold [OF True] j True by (intro sl [OF True]) (auto simp: holds_def)
  have com: "committed_slot log' t'" if "committed_slot log t'" for t'
  proof -
    have "unat t' \<noteq> unat t" using that nc [OF True] by (auto simp: committed_slot_def)
    then show ?thesis using that sl [OF True, of "unat t'"] iss by (simp add: committed_slot_def)
  qed
  show ?thesis
  proof (cases m)
    case (Writer w)
    then show ?thesis using m True same iss by (cases "wpc w") (auto simp: holds_def)
  next
    case (Reader r)
    then show ?thesis using m True com iss by (cases "rpc r") auto
  qed
next
  case False
  then show ?thesis using m iss by (cases m) auto
qed

lemma free_invD:
  assumes "free_inv log"
  shows "length (slots log) = 4096" and "head log = of_nat (length (issued log))"
    and "length (issued log) \<le> 4096 \<Longrightarrow> n < 4096 \<Longrightarrow> slot_ok log n"
  using assms by (simp_all add: free_inv_def)

lemma slot_step:
  assumes inv: "free_inv log" and len: "length (slots log') = 4096" "issued log' = issued log" "head log' = head log"
    and sl: "\<And>n. length (issued log) \<le> 4096 \<Longrightarrow> n < 4096 \<Longrightarrow> n \<noteq> k \<Longrightarrow> slots log' ! n = slots log ! n"
    and k: "length (issued log) \<le> 4096 \<Longrightarrow> k < 4096 \<Longrightarrow> slot_ok log' k"
  shows "free_inv log'"
proof -
  have "slot_ok log' n" if "length (issued log) \<le> 4096" "n < 4096" for n
    using free_invD(3) [OF inv that] sl [OF that] k that len(2) by (cases "n = k") (auto simp: slot_ok_def Let_def)
  then show ?thesis using free_invD(2) [OF inv] len by (simp add: free_inv_def)
qed

lemma reserve_ok:
  assumes inv: "free_inv log" and l: "client_ok i log (Writer w)"
    and log': "log' = log\<lparr>head := head log + 1, issued := issued log @ [(wid w, e)]\<rparr>"
  shows "free_inv log' \<and> client_ok i log' (Writer (w\<lparr>wpc := Reserved (head log), we := e\<rparr>))
    \<and> (\<forall>j m. client_ok j log m \<longrightarrow> client_ok j log' m)"
proof (intro conjI allI impI)
  let ?n = "length (issued log)"
  have iss: "issued log' = issued log @ [(wid w, e)]" "slots log' = slots log" by (simp_all add: log')
  have app: "issued log' ! k = issued log ! k" if "k < ?n" for k using that iss by (simp add: nth_append)
  have "slot_ok log' k" if n: "?n + 1 \<le> 4096" "k < 4096" for k
  proof (cases "k < ?n")
    case True
    then show ?thesis using free_invD(3) [OF inv _ n(2)] n(1) app iss by (auto simp: slot_ok_def Let_def)
  next
    case False
    then show ?thesis using free_invD(3) [OF inv _ n(2)] n(1) iss by (auto simp: slot_ok_def Let_def)
  qed
  then show "free_inv log'" using free_invD(1,2) [OF inv] iss by (simp add: free_inv_def log')
  show "client_ok i log' (Writer (w\<lparr>wpc := Reserved (head log), we := e\<rparr>))"
  proof (cases "?n + 1 \<le> 4096")
    case True
    then have "unat (head log) = ?n" using free_invD(2) [OF inv] unat_of_nat_ticket [of ?n] by simp
    moreover have "seq (slots log ! ?n) = fresh" using free_invD(3) [OF inv, of ?n] True by (auto simp: slot_ok_def Let_def)
    ultimately show ?thesis using l iss by (simp add: holds_def)
  next
    case False
    then show ?thesis using l iss by simp
  qed
  fix j m
  assume m: "client_ok j log m"
  have hold: "holds j log e' t \<Longrightarrow> holds j log' e' t" for e' t using app iss by (simp add: holds_def)
  have com: "committed_slot log t \<Longrightarrow> committed_slot log' t \<and> issued log' ! unat t = issued log ! unat t" for t
    using app iss by (simp add: committed_slot_def)
  show "client_ok j log' m"
  proof (cases m)
    case (Writer v)
    then show ?thesis using m hold iss by (cases "wpc v") auto
  next
    case (Reader r)
    then show ?thesis using m com iss by (cases "rpc r") auto
  qed
qed

text \<open>The steps of a writer on its own slot.\<close>

lemma writer_slot_step:
  assumes inv: "free_inv log" and wid: "wid w = i" and hold: "length (issued log) \<le> 4096 \<Longrightarrow> holds i log (we w) t"
    and nc: "length (issued log) \<le> 4096 \<Longrightarrow> seq (slots log ! unat t) = fresh \<or> seq (slots log ! unat t) = writing (unat t)"
    and log': "log' = store_seq log t v \<or> log' = store_entry log t e"
    and w': "wid w' = i"
    and new: "length (issued log) \<le> 4096 \<Longrightarrow> unat t < 4096 \<Longrightarrow> slot_ok log' (unat t) \<and> writer_ok i log' (we w') (wpc w')"
  shows "free_inv log' \<and> client_ok i log' (Writer w') \<and> (\<forall>j m. j \<noteq> i \<longrightarrow> client_ok j log m \<longrightarrow> client_ok j log' m)"
proof (intro conjI allI impI)
  have t: "unat t < 4096" if "length (issued log) \<le> 4096" using hold [OF that] that by (simp add: holds_def)
  have len: "length (slots log') = 4096" and iss: "issued log' = issued log" and hd: "head log' = head log"
    using log' free_invD(1) [OF inv] by auto
  have sl: "slots log' ! n = slots log ! n" if "length (issued log) \<le> 4096" "n < 4096" "n \<noteq> unat t" for n
    using log' store_nth [OF t [OF that(1)] free_invD(1) [OF inv] that(2)] that(3) by auto
  show "free_inv log'" by (rule slot_step [OF inv len iss hd sl]) (use new in auto)
  show "client_ok i log' (Writer w')" using new t w' iss by simp
  show "client_ok j log' m" if "j \<noteq> i" "client_ok j log m" for j m
    by (rule others_ok [OF that hold _ iss sl]) (use nc in auto)
qed

lemma unat_ticket: "of_nat (unat t) = (t :: u64)"
  by simp

lemma mark_ok:
  assumes inv: "free_inv log" and l: "client_ok i log (Writer w)" and pc: "wpc w = Reserved t"
  shows "free_inv (store_seq log t (2 * t + 1)) \<and> client_ok i (store_seq log t (2 * t + 1)) (Writer (w\<lparr>wpc := Marked t\<rparr>))
    \<and> (\<forall>j m. j \<noteq> i \<longrightarrow> client_ok j log m \<longrightarrow> client_ok j (store_seq log t (2 * t + 1)) m)"
proof (rule writer_slot_step [OF inv, where w = w and v = "2 * t + 1"])
  let ?s = "slots log ! unat t" and ?log = "store_seq log t (2 * t + 1)"
  assume n: "length (issued log) \<le> 4096" "unat t < 4096"
  have h: "holds i log (we w) t" "seq ?s = fresh" using l pc n(1) by simp_all
  have s': "slots ?log ! unat t = ?s\<lparr>seq := writing (unat t)\<rparr>"
    using store_nth(1) [OF n(2) free_invD(1) [OF inv] n(2)] h(2) by (simp add: fresh_def writing_def)
  have "slot_ok ?log (unat t)" unfolding slot_ok_def s' using h(1) by (simp add: Let_def holds_def)
  moreover have "writer_ok i ?log (we w) (Marked t)" using h(1) s' by (simp add: holds_def)
  ultimately show "slot_ok ?log (unat t) \<and> writer_ok i ?log (we (w\<lparr>wpc := Marked t\<rparr>)) (wpc (w\<lparr>wpc := Marked t\<rparr>))" by simp
qed (use l pc in simp_all)

lemma copy_ok:
  assumes inv: "free_inv log" and l: "client_ok i log (Writer w)"
    and pc: "wpc w = Marked t \<and> pc' = Copying t \<or> wpc w = Copying t \<and> pc' = Copied t \<and> e = we w"
  shows "free_inv (store_entry log t e) \<and> client_ok i (store_entry log t e) (Writer (w\<lparr>wpc := pc'\<rparr>))
    \<and> (\<forall>j m. j \<noteq> i \<longrightarrow> client_ok j log m \<longrightarrow> client_ok j (store_entry log t e) m)"
proof (rule writer_slot_step [OF inv, where w = w])
  let ?s = "slots log ! unat t" and ?log = "store_entry log t e"
  assume n: "length (issued log) \<le> 4096" "unat t < 4096"
  have h: "holds i log (we w) t" "seq ?s = writing (unat t)" using l pc n(1) by auto
  have s': "slots ?log ! unat t = ?s\<lparr>entry := e, fenced := length (takeWhile (\<lambda>v. v \<noteq> 2 * t + 1) (seq ?s))\<rparr>" using store_nth(2) [OF n(2) free_invD(1) [OF inv] n(2)] by simp
  have "slot_ok ?log (unat t)" unfolding slot_ok_def s' using h by (simp add: Let_def holds_def)
  moreover have "writer_ok i ?log (we w) pc'" using h s' pc by (auto simp: holds_def)
  ultimately show "slot_ok ?log (unat t) \<and> writer_ok i ?log (we (w\<lparr>wpc := pc'\<rparr>)) (wpc (w\<lparr>wpc := pc'\<rparr>))" by simp
qed (use l pc in auto)

lemma publish_ok:
  assumes inv: "free_inv log" and l: "client_ok i log (Writer w)" and pc: "wpc w = Copied t"
  shows "free_inv (store_seq log t (2 * t + 2)) \<and> client_ok i (store_seq log t (2 * t + 2)) (Writer (w\<lparr>wpc := Next, wit := k\<rparr>))
    \<and> (\<forall>j m. j \<noteq> i \<longrightarrow> client_ok j log m \<longrightarrow> client_ok j (store_seq log t (2 * t + 2)) m)"
proof (rule writer_slot_step [OF inv, where w = w and v = "2 * t + 2"])
  let ?s = "slots log ! unat t" and ?log = "store_seq log t (2 * t + 2)"
  assume n: "length (issued log) \<le> 4096" "unat t < 4096"
  have h: "holds i log (we w) t" "seq ?s = writing (unat t)" "entry ?s = we w" using l pc n(1) by simp_all
  have s': "slots ?log ! unat t = ?s\<lparr>seq := commit (unat t)\<rparr>"
    using store_nth(1) [OF n(2) free_invD(1) [OF inv] n(2)] h(2) by (simp add: commit_def writing_def)
  have "slot_ok ?log (unat t)" unfolding slot_ok_def s' using h by (simp add: Let_def holds_def)
  then show "slot_ok ?log (unat t) \<and> writer_ok i ?log (we (w\<lparr>wpc := Next, wit := k\<rparr>)) (wpc (w\<lparr>wpc := Next, wit := k\<rparr>))" by simp
qed (use l pc in simp_all)

lemma load_committed:
  assumes inv: "free_inv log" and n: "length (issued log) \<le> 4096" and t: "unat t < 2 ^ 62"
    and p: "p < length (seq (slots log ! slot_of t))" and v: "seq (slots log ! slot_of t) ! p = 2 * t + 2"
  shows "committed_slot log t"
proof -
  define k where "k = slot_of t"
  have k: "k < 4096" by (simp add: k_def slot_of_eq)
  have ok: "slot_ok log k" by (rule free_invD(3) [OF inv n k])
  then have ph: "seq (slots log ! k) = fresh \<or> seq (slots log ! k) = writing k \<or> seq (slots log ! k) = commit k"
    by (simp add: slot_ok_def Let_def)
  note c = committed_value [OF k t ph p [folded k_def] v [folded k_def]]
  have u: "unat t = k" unfolding c(1) by (rule unat_of_nat_ticket [OF k])
  have "\<not> length (issued log) \<le> k" using ok c(2) by (auto simp: slot_ok_def Let_def)
  then show ?thesis using ok c(2) k unfolding committed_slot_def u by (simp add: slot_ok_def Let_def)
qed

lemma client_step:
  assumes inv: "free_inv log" and l: "client_ok i log l" and st: "log_client iters (log, l) (log', l')"
  shows "free_inv log' \<and> client_ok i log' l' \<and> (\<forall>j m. j \<noteq> i \<longrightarrow> client_ok j log m \<longrightarrow> client_ok j log' m)"
  using st
proof cases
  case (reserve w e now cpu)
  have lw: "client_ok i log (Writer w)" using l reserve(1) by simp
  show ?thesis using reserve_ok [OF inv lw refl, of e] reserve(2,3) by blast
next
  case (mark w t)
  show ?thesis unfolding mark(2,3) by (rule mark_ok [OF inv]) (use l mark(1,4) in simp_all)
next
  case (copy_begin w t junk)
  show ?thesis unfolding copy_begin(2,3) by (rule copy_ok [OF inv]) (use l copy_begin(1,4) in simp_all)
next
  case (copy_end w t)
  show ?thesis unfolding copy_end(2,3) by (rule copy_ok [OF inv]) (use l copy_end(1,4) in simp_all)
next
  case (publish w t)
  show ?thesis unfolding publish(2,3) by (rule publish_ok [OF inv]) (use l publish(1,4) in simp_all)
next
  case (load1 r p pc)
  have t: "unat (rticket r) < 2 ^ 62" using l load1(1) by simp
  have "reader_ok log (rticket r) (rout r) pc" if "length (issued log) \<le> 4096"
    using load_committed [OF inv that t load1(5)] load1(6) by simp
  then show ?thesis using inv t load1(2,3) by simp
next
  case (copy_out r p)
  have "slot_of (rticket r) = unat (rticket r)" if "committed_slot log (rticket r)"
    using that by (simp add: slot_of_eq committed_slot_def)
  then show ?thesis using inv l copy_out by (simp add: committed_slot_def)
next
  case (load2 r p q pc)
  then show ?thesis using inv l by simp
qed

subsection \<open>Counting tickets\<close>

fun taken :: "client \<Rightarrow> int" where
  "taken (Writer w) = int (wit w) + (if wpc w = Next then 0 else 1)"
| "taken (Reader r) = 0"

interpretation tickets: accumulator "log_client iters" "\<lambda>log. int (length (issued log))" taken "\<lambda>_ _. True"
proof
  fix log log' l l'
  assume "log_client iters (log, l) (log', l')"
  then show "int (length (issued log')) - int (length (issued log)) = taken l' - taken l"
    by cases simp_all
qed simp

text \<open>Every entry handed out is one that a worker built, and no worker takes more than \<open>iters\<close> tickets.\<close>

definition is_built :: "log_entry \<Rightarrow> bool" where
  "is_built e \<longleftrightarrow> (\<exists>now cpu. e = build_entry now cpu)"

lemma is_built_build [simp]: "is_built (build_entry now cpu)"
  by (auto simp: is_built_def)

definition built :: "log_buffer \<Rightarrow> bool" where
  "built log \<longleftrightarrow> (\<forall>x \<in> set (issued log). is_built (snd x))"

lemma pool_built:
  assumes "pool_reach (log_client iters) (free_start ncpu readers) c"
  shows "built (fst c) \<and> (\<forall>l \<in> set (snd c). taken l \<le> int iters)"
proof (rule pool_invariant [OF assms])
  show "built (fst (free_start ncpu readers))" by (simp add: free_start_def zero_buffer_def built_def)
  show "\<forall>l \<in> set (snd (free_start ncpu readers)). taken l \<le> int iters" by (auto simp: free_start_def)
  fix log l log' l'
  assume "built log" "taken l \<le> int iters" "log_client iters (log, l) (log', l')"
  then show "built log' \<and> taken l' \<le> int iters \<and> (\<forall>m. taken m \<le> int iters \<longrightarrow> taken m \<le> int iters)"
    by (auto simp: built_def elim!: log_client.cases)
qed

lemma built_intact: "is_built e \<Longrightarrow> \<not> torn_entry e"
  by (auto simp: is_built_def torn_entry_def build_entry_def list_ex_iff)

fun is_writer :: "client \<Rightarrow> bool" where
  "is_writer (Writer w) = True"
| "is_writer (Reader r) = False"

lemma kinds_kept:
  assumes "pool_reach T c0 c" and "\<And>s l s' l'. T (s, l) (s', l') \<Longrightarrow> is_writer l' = is_writer l"
  shows "map is_writer (snd c) = map is_writer (snd c0)"
  using assms(1)
proof (induction rule: pool_reach.induct)
  case (step c c')
  from step.hyps(2) obtain i s ls s' l' where c: "c = (s, ls)" "c' = (s', ls[i := l'])"
    and i: "i < length ls" "T (s, ls ! i) (s', l')" by (auto elim: pool_stepE)
  then have "map is_writer (ls[i := l']) = map is_writer ls" using assms(2) [OF i(2)] i(1)
    by (simp add: map_update list_update_same_conv)
  then show ?case using step.IH c by simp
qed simp

lemma client_kind: "log_client iters (s, l) (s', l') \<Longrightarrow> is_writer l' = is_writer l"
  by (erule log_client.cases) auto

lemma sum_taken_bound:
  assumes "\<forall>l \<in> set ls. taken l \<le> b" and "0 \<le> b"
  shows "sum_list (map taken ls) \<le> int (cnt is_writer ls) * b"
  using assms(1)
proof (induction ls)
  case (Cons l ls)
  then show ?case using assms(2) by (cases l) (auto simp: distrib_right)
qed simp

lemma writers_kept:
  assumes r: "pool_reach (log_client iters) (free_start ncpu readers) c"
  shows "cnt is_writer (snd c) = ncpu"
proof -
  have "map is_writer (snd c) = map is_writer (snd (free_start ncpu readers))" by (rule kinds_kept [OF r client_kind])
  then have "cnt is_writer (snd c) = cnt is_writer (snd (free_start ncpu readers))"
    using cnt_map [of "\<lambda>b. b" is_writer "snd c"] cnt_map [of "\<lambda>b. b" is_writer "snd (free_start ncpu readers)"] by simp
  also have "\<dots> = ncpu" by (simp add: free_start_def cnt_def comp_def)
  finally show ?thesis .
qed

lemma issued_sum:
  assumes r: "pool_reach (log_client iters) (free_start ncpu readers) c"
  shows "int (length (issued (fst c))) = sum_list (map taken (snd c))"
proof -
  have "sum_list (map taken (snd (free_start ncpu readers))) = 0" by (simp add: free_start_def comp_def sum_list_triv)
  then show ?thesis using tickets.nothing_lost [OF r] by (simp add: free_start_def zero_buffer_def)
qed

lemma issued_bound:
  assumes r: "pool_reach (log_client iters) (free_start ncpu readers) c"
  shows "length (issued (fst c)) \<le> ncpu * iters"
proof -
  have n: "cnt is_writer (snd c) = ncpu" by (rule writers_kept [OF r])
  have "int (length (issued (fst c))) = sum_list (map taken (snd c))" by (rule issued_sum [OF r])
  also have "\<dots> \<le> int ncpu * int iters" using sum_taken_bound [of "snd c" "int iters"] pool_built [OF r] n by simp
  finally show ?thesis by (metis of_nat_le_iff of_nat_mult)
qed

lemma free_start_inv:
  assumes "\<forall>t \<in> set readers. unat t < 2 ^ 62"
  shows "free_inv (fst (free_start ncpu readers))"
    and "i < length (snd (free_start ncpu readers)) \<Longrightarrow> client_ok i (fst (free_start ncpu readers)) (snd (free_start ncpu readers) ! i)"
proof -
  show "free_inv (fst (free_start ncpu readers))"
    by (auto simp: free_inv_def free_start_def zero_buffer_def slot_ok_def Let_def LOG_SLOTS_def fresh_def writing_def commit_def)
  show "client_ok i (fst (free_start ncpu readers)) (snd (free_start ncpu readers) ! i)"
    if "i < length (snd (free_start ncpu readers))" using that assms by (auto simp: free_start_def nth_append)
qed

lemma free_reach_inv:
  assumes "pool_reach (log_client iters) (free_start ncpu readers) c" and "\<forall>t \<in> set readers. unat t < 2 ^ 62"
  shows "free_inv (fst c) \<and> (\<forall>i < length (snd c). client_ok i (fst c) (snd c ! i))"
  by (rule pool_invariant_idx [OF assms(1)]) (use free_start_inv [OF assms(2)] client_step in blast)+

subsection \<open>Every reserved slot is committed or has a writer\<close>

fun ticket_of :: "client \<Rightarrow> u64 option" where
  "ticket_of (Writer w) = (case wpc w of Next \<Rightarrow> None | Reserved t \<Rightarrow> Some t | Marked t \<Rightarrow> Some t | Copying t \<Rightarrow> Some t
     | Copied t \<Rightarrow> Some t)"
| "ticket_of (Reader r) = None"

lemma store_seq_other:
  assumes "free_inv log" and "unat t < 4096" and "n < 4096" and "of_nat n \<noteq> t"
  shows "seq (slots (store_seq log t v) ! n) = seq (slots log ! n)"
proof -
  have "n \<noteq> unat t" using assms(4) by auto
  then show ?thesis using store_nth(1) [OF assms(2) free_invD(1) [OF assms(1)] assms(3)] by simp
qed

lemma store_entry_seq:
  assumes "free_inv log" and "unat t < 4096" and "n < 4096"
  shows "seq (slots (store_entry log t e) ! n) = seq (slots log ! n)"
  using store_nth(2) [OF assms(2) free_invD(1) [OF assms(1)] assms(3)] by simp

lemma step_open:
  assumes inv: "free_inv log" and l: "client_ok i log l" and st: "log_client iters (log, l) (log', l')"
    and len: "length (issued log') \<le> 4096" and n: "n < length (issued log')"
  shows "seq (slots log' ! n) = commit n \<or> ticket_of l' = Some (of_nat n)
    \<or> (n < length (issued log) \<and> seq (slots log' ! n) = seq (slots log ! n) \<and> ticket_of l \<noteq> Some (of_nat n))"
  using st
proof cases
  case (reserve w e now cpu)
  then show ?thesis using free_invD(2) [OF inv] n by (auto simp: less_Suc_eq)
next
  case (mark w t)
  have "unat t < 4096" using l len mark by (simp add: holds_def)
  then show ?thesis using store_seq_other [OF inv, of t n] mark n len by auto
next
  case (copy_begin w t junk)
  have "unat t < 4096" using l len copy_begin by (simp add: holds_def)
  then show ?thesis using store_entry_seq [OF inv, of t n] copy_begin n len by auto
next
  case (copy_end w t)
  have "unat t < 4096" using l len copy_end by (simp add: holds_def)
  then show ?thesis using store_entry_seq [OF inv, of t n] copy_end n len by auto
next
  case (publish w t)
  have iss: "length (issued log) \<le> 4096" using len publish(2) by simp
  have t: "unat t < 4096" and ws: "seq (slots log ! unat t) = writing (unat t)"
    using l iss publish by (simp_all add: holds_def)
  show ?thesis
  proof (cases "of_nat n = t")
    case True
    have n4: "n < 4096" using n len by simp
    then have u: "unat t = n" using unat_of_nat_ticket [of n] True by simp
    have "slots log' ! n = (slots log ! n)\<lparr>seq := seq (slots log ! n) @ [2 * t + 2]\<rparr>"
      unfolding publish(2) using store_nth(1) [OF t free_invD(1) [OF inv] n4] u by simp
    then show ?thesis using ws u True by (simp add: writing_def commit_def)
  next
    case False
    then show ?thesis using store_seq_other [OF inv t, of n] publish n len by auto
  qed
qed (use n in auto)

lemma open_tickets:
  assumes r: "pool_reach (log_client iters) (free_start ncpu readers) c" and t: "\<forall>t \<in> set readers. unat t < 2 ^ 62"
    and len: "length (issued (fst c)) \<le> 4096" and n: "n < length (issued (fst c))"
  shows "seq (slots (fst c) ! n) = commit n \<or> (\<exists>i < length (snd c). ticket_of (snd c ! i) = Some (of_nat n))"
  using r len n
proof (induction rule: pool_reach.induct)
  case start
  then show ?case by (simp add: free_start_def zero_buffer_def)
next
  case (step c c')
  from step.hyps(2) obtain i log ls log' l' where c: "c = (log, ls)" "c' = (log', ls[i := l'])"
    and i: "i < length ls" "log_client iters (log, ls ! i) (log', l')" by (auto elim: pool_stepE)
  have inv: "free_inv log" "client_ok i log (ls ! i)" using free_reach_inv [OF step.hyps(1) t] c i(1) by simp_all
  have grow: "length (issued log) \<le> length (issued log')" using i(2) by cases simp_all
  consider "seq (slots log' ! n) = commit n" | "ticket_of l' = Some (of_nat n)"
    | "n < length (issued log)" "seq (slots log' ! n) = seq (slots log ! n)" "ticket_of (ls ! i) \<noteq> Some (of_nat n)"
    using step_open [OF inv i(2), of n] step.prems c by auto
  then show ?case
  proof cases
    case 2
    then show ?thesis using c i(1) by (auto intro!: exI [of _ i])
  next
    case 3
    have "length (issued (fst c)) \<le> 4096" using grow step.prems(1) c by simp
    then consider "seq (slots log ! n) = commit n" | j where "j < length ls" "ticket_of (ls ! j) = Some (of_nat n)"
      using step.IH 3(1) c by auto
    then show ?thesis
    proof cases
      case (2 j)
      then have "j \<noteq> i" using 3(3) by auto
      then show ?thesis using 2 c by (auto intro!: exI [of _ j])
    qed (use 3(2) c in simp)
  qed (use c in simp)
qed

definition client_done :: "nat \<Rightarrow> client \<Rightarrow> bool" where
  "client_done iters l \<longleftrightarrow> (case l of Writer w \<Rightarrow> wpc w = Next \<and> \<not> wit w < iters | Reader r \<Rightarrow> rpc r = Failed \<or> rpc r = Read)"

lemma verify_all:
  assumes "\<forall>t \<in> set ts. \<exists>e. log_read log (of_nat t) = Some e \<and> \<not> torn_entry e"
  shows "verify log ts ok torn = (ok + length ts, torn)"
  using assms by (induction ts arbitrary: ok) auto

lemma sum_taken_done:
  "\<forall>l \<in> set ls. client_done iters l \<and> taken l \<le> int iters \<Longrightarrow> sum_list (map taken ls) = int (cnt is_writer ls) * int iters"
proof (induction ls)
  case (Cons l ls)
  then show ?case by (cases l) (auto simp: client_done_def distrib_right)
qed simp

subsection \<open>Running alone\<close>

definition usable :: "log_buffer \<Rightarrow> bool" where
  "usable log \<longleftrightarrow> length (slots log) = 4096 \<and> (\<forall>s \<in> set (slots log). seq s \<noteq> [])"

lemma slot_of_less: "slot_of t < 4096"
  by (simp add: slot_of_eq)

lemma usable_store [simp]:
  "usable log \<Longrightarrow> usable (store_seq log t v)" "usable log \<Longrightarrow> usable (store_entry log t e)"
  using slot_of_less [of t] unfolding usable_def store_seq_def store_entry_def Let_def
  by (auto dest!: in_set_dropD set_update_subset_insert [THEN subsetD])

definition writes_out :: "nat \<Rightarrow> log_buffer \<Rightarrow> writer \<Rightarrow> bool" where
  "writes_out iters log w \<longleftrightarrow> (\<exists>log' w'. (log_client iters)\<^sup>*\<^sup>* (log, Writer w) (log', Writer w') \<and> usable log'
     \<and> wpc w' = Next \<and> wit w' = wit w + 1)"

lemma writes_out_step:
  assumes "log_client iters (log, Writer w) (log1, Writer w1)" and "wit w1 = wit w" and "writes_out iters log1 w1"
  shows "writes_out iters log w"
  using assms unfolding writes_out_def by (metis converse_rtranclp_into_rtranclp)

lemma write_finishes:
  assumes "usable log" and "wpc w \<noteq> Next"
  shows "writes_out iters log w"
proof -
  have pub: "writes_out iters log w" if "usable log" "wpc w = Copied t" for log w t
  proof -
    have "(log_client iters)\<^sup>*\<^sup>* (log, Writer w) (store_seq log t (2 * t + 2), Writer (w\<lparr>wpc := Next, wit := wit w + 1\<rparr>))"
      using log_client.publish [OF that(2)] by blast
    moreover have "usable (store_seq log t (2 * t + 2))" using that(1) by simp
    ultimately show ?thesis unfolding writes_out_def by force
  qed
  have ce: "writes_out iters log w" if "usable log" "wpc w = Copying t" for log w t
    by (rule writes_out_step [OF log_client.copy_end [OF that(2)]]) (use pub that(1) in simp_all)
  have cb: "writes_out iters log w" if "usable log" "wpc w = Marked t" for log w t
    by (rule writes_out_step [OF log_client.copy_begin [OF that(2), where junk = zero_entry]]) (use ce that(1) in simp_all)
  have mk: "writes_out iters log w" if "usable log" "wpc w = Reserved t" for log w t
    by (rule writes_out_step [OF log_client.mark [OF that(2)]]) (use cb that(1) in simp_all)
  show ?thesis using assms pub ce cb mk by (cases "wpc w") auto
qed

lemma next_write:
  assumes "usable log" and "wpc w = Next" and "wit w < iters"
  shows "writes_out iters log w"
proof (rule writes_out_step [OF log_client.reserve [OF assms(2,3) refl, where now = 0 and cpu = 0]])
  show "writes_out iters (log\<lparr>head := head log + 1, issued := issued log @ [(wid w, build_entry 0 0)]\<rparr>)
      (w\<lparr>wpc := Reserved (head log), we := build_entry 0 0\<rparr>)"
    by (rule write_finishes) (use assms(1) in \<open>simp_all add: usable_def\<close>)
qed simp

lemma writer_runs:
  "usable log \<Longrightarrow> \<exists>log' w'. (log_client iters)\<^sup>*\<^sup>* (log, Writer w) (log', Writer w') \<and> usable log' \<and> client_done iters (Writer w')"
proof (induction "iters + 1 - wit w + (if wpc w = Next then 0 else 1)" arbitrary: log w rule: less_induct)
  case less
  show ?case
  proof (cases "client_done iters (Writer w)")
    case False
    then have "writes_out iters log w"
      using write_finishes [OF less.prems] next_write [OF less.prems] by (auto simp: client_done_def)
    then obtain log1 w1 where s: "(log_client iters)\<^sup>*\<^sup>* (log, Writer w) (log1, Writer w1)" "usable log1"
      and w1: "wpc w1 = Next" "wit w1 = wit w + 1" unfolding writes_out_def by blast
    have "iters + 1 - wit w1 + (if wpc w1 = Next then 0 else 1) < iters + 1 - wit w + (if wpc w = Next then 0 else 1)"
      using False w1 by (auto simp: client_done_def)
    from less.hyps [OF this s(2)] s(1) show ?thesis by (meson rtranclp_trans)
  qed (use less.prems in blast)
qed

lemma reader_runs:
  assumes "usable log"
  shows "\<exists>r'. (log_client iters)\<^sup>*\<^sup>* (log, Reader r) (log, Reader r') \<and> client_done iters (Reader r')"
proof -
  have ne: "0 < length (seq (slots log ! slot_of t))" for t
    using assms slot_of_less [of t] by (auto simp: usable_def)
  have l2: "\<exists>r'. (log_client iters)\<^sup>*\<^sup>* (log, Reader r) (log, Reader r') \<and> client_done iters (Reader r')" if "rpc r = Load2 p" for r p
  proof -
    let ?q = "length (seq (slots log ! slot_of (rticket r))) - 1"
    have "?q < length (seq (slots log ! slot_of (rticket r)))" "p \<le> ?q \<or> length (seq (slots log ! slot_of (rticket r))) \<le> p"
      using ne [of "rticket r"] by auto
    note step = log_client.load2 [OF that this refl, of iters]
    show ?thesis by (rule exI, rule conjI, rule r_into_rtranclp, rule step) (simp add: client_done_def)
  qed
  have co: "\<exists>r'. (log_client iters)\<^sup>*\<^sup>* (log, Reader r) (log, Reader r') \<and> client_done iters (Reader r')" if "rpc r = Copy_Out p" for r p
    using l2 [of "r\<lparr>rout := entry (slots log ! slot_of (rticket r)), rpc := Load2 (max p (fenced (slots log ! slot_of (rticket r))))\<rparr>"
        "max p (fenced (slots log ! slot_of (rticket r)))"] log_client.copy_out [OF that, of iters log]
    by (auto intro: converse_rtranclp_into_rtranclp)
  have l1: "\<exists>r'. (log_client iters)\<^sup>*\<^sup>* (log, Reader r) (log, Reader r') \<and> client_done iters (Reader r')" if "rpc r = Load1" for r
  proof -
    define pc where "pc = (if seq (slots log ! slot_of (rticket r)) ! 0 = 2 * rticket r + 2 then Copy_Out 0 else Failed)"
    have st: "log_client iters (log, Reader r) (log, Reader (r\<lparr>rpc := pc\<rparr>))"
      by (rule log_client.load1 [OF that ne pc_def])
    have "\<exists>r'. (log_client iters)\<^sup>*\<^sup>* (log, Reader (r\<lparr>rpc := pc\<rparr>)) (log, Reader r') \<and> client_done iters (Reader r')"
    proof (cases "pc = Failed")
      case True
      then show ?thesis by (intro exI [of _ "r\<lparr>rpc := pc\<rparr>"]) (simp add: client_done_def)
    next
      case False
      then show ?thesis using co [of "r\<lparr>rpc := pc\<rparr>" 0] by (simp add: pc_def split: if_splits)
    qed
    with st show ?thesis by (meson converse_rtranclp_into_rtranclp)
  qed
  show ?thesis
  proof (cases "rpc r")
    case Failed
    then show ?thesis by (intro exI [of _ r]) (simp add: client_done_def)
  next
    case Read
    then show ?thesis by (intro exI [of _ r]) (simp add: client_done_def)
  qed (use l1 co l2 in auto)
qed

interpretation free_live: finishing "log_client iters" "client_done iters" usable
proof
  fix log l
  assume "usable log"
  then show "\<exists>log' l'. (log_client iters)\<^sup>*\<^sup>* (log, l) (log', l') \<and> usable log' \<and> client_done iters l'"
    using writer_runs [of log iters] reader_runs [of log iters] by (cases l) blast+
qed

lemma usable_start: "usable (fst (free_start ncpu readers))"
  by (simp add: usable_def free_start_def zero_buffer_def LOG_SLOTS_def)

lemma usable_reserve [simp]: "usable (log\<lparr>head := a, issued := b\<rparr>) = usable log"
  by (simp add: usable_def)

lemma client_usable: "log_client iters (log, l) (log', l') \<Longrightarrow> usable log \<Longrightarrow> usable log'"
  by (erule log_client.cases) auto

lemma pool_usable: "pool_reach (log_client iters) (free_start ncpu readers) c \<Longrightarrow> usable (fst c)"
  by (induction rule: pool_reach.induct) (auto simp: usable_start elim!: pool_stepE dest: client_usable)

subsection \<open>Lapped writers\<close>

text \<open>The effect of one complete \<open>log_write\<close> that nobody interferes with.\<close>

definition full_write :: "nat \<Rightarrow> log_buffer \<Rightarrow> log_entry \<Rightarrow> log_buffer" where
  "full_write k log e = (let t = head log; log1 = log\<lparr>head := t + 1, issued := issued log @ [(k, e)]\<rparr>
     in store_seq (store_entry (store_entry (store_seq log1 t (2 * t + 1)) t zero_entry) t e) t (2 * t + 2))"

lemma full_write_run:
  assumes "wpc w = Next" and "wit w < iters"
  shows "(log_client iters)\<^sup>*\<^sup>* (log, Writer w)
    (full_write (wid w) log (build_entry 0 c), Writer (w\<lparr>we := build_entry 0 c, wpc := Next, wit := wit w + 1\<rparr>))"
proof -
  let ?e = "build_entry 0 c" and ?t = "head log"
  define log1 where "log1 = log\<lparr>head := ?t + 1, issued := issued log @ [(wid w, ?e)]\<rparr>"
  define log2 where "log2 = store_seq log1 ?t (2 * ?t + 1)"
  define log3 where "log3 = store_entry log2 ?t zero_entry"
  define log4 where "log4 = store_entry log3 ?t ?e"
  define v where "v = w\<lparr>we := ?e\<rparr>"
  have 1: "log_client iters (log, Writer w) (log1, Writer (v\<lparr>wpc := Reserved ?t\<rparr>))"
  proof -
    have "w\<lparr>wpc := Reserved ?t, we := ?e\<rparr> = v\<lparr>wpc := Reserved ?t\<rparr>" by (simp add: v_def)
    then show ?thesis unfolding log1_def using log_client.reserve [OF assms refl, where log = log and now = 0 and cpu = c] by metis
  qed
  have 2: "log_client iters (log1, Writer (v\<lparr>wpc := Reserved ?t\<rparr>)) (log2, Writer (v\<lparr>wpc := Marked ?t\<rparr>))"
    unfolding log2_def using log_client.mark [of "v\<lparr>wpc := Reserved ?t\<rparr>" ?t iters log1] by simp
  have 3: "log_client iters (log2, Writer (v\<lparr>wpc := Marked ?t\<rparr>)) (log3, Writer (v\<lparr>wpc := Copying ?t\<rparr>))"
    unfolding log3_def using log_client.copy_begin [of "v\<lparr>wpc := Marked ?t\<rparr>" ?t iters log2 zero_entry] by simp
  have 4: "log_client iters (log3, Writer (v\<lparr>wpc := Copying ?t\<rparr>)) (log4, Writer (v\<lparr>wpc := Copied ?t\<rparr>))"
    unfolding log4_def using log_client.copy_end [of "v\<lparr>wpc := Copying ?t\<rparr>" ?t iters log3] by (simp add: v_def)
  have 5: "log_client iters (log4, Writer (v\<lparr>wpc := Copied ?t\<rparr>)) (store_seq log4 ?t (2 * ?t + 2), Writer (v\<lparr>wpc := Next, wit := wit w + 1\<rparr>))"
    using log_client.publish [of "v\<lparr>wpc := Copied ?t\<rparr>" ?t iters log4] by (simp add: v_def)
  have f: "full_write (wid w) log ?e = store_seq log4 ?t (2 * ?t + 2)"
    by (simp add: full_write_def Let_def log4_def log3_def log2_def log1_def)
  show ?thesis unfolding f using 1 2 3 4 5 unfolding v_def
    by (meson converse_rtranclp_into_rtranclp rtranclp.rtrancl_refl)
qed

lemma full_write_simps:
  assumes "length (slots log) = 4096"
  shows "head (full_write k log e) = head log + 1" and "issued (full_write k log e) = issued log @ [(k, e)]"
    and "length (slots (full_write k log e)) = 4096"
    and "n \<noteq> slot_of (head log) \<Longrightarrow> slots (full_write k log e) ! n = slots log ! n"
    and "slots (full_write k log e) ! slot_of (head log) = (slots log ! slot_of (head log))
      \<lparr>seq := seq (slots log ! slot_of (head log)) @ [2 * head log + 1, 2 * head log + 2], entry := e,
        fenced := length (takeWhile (\<lambda>v. v \<noteq> 2 * head log + 1) (seq (slots log ! slot_of (head log)) @ [2 * head log + 1]))\<rparr>"
  using assms slot_of_less [of "head log"] by (simp_all add: full_write_def store_seq_def store_entry_def Let_def)

text \<open>A writer can write often without touching slot 0, up to the last slot.\<close>

lemma many_writes:
  assumes "length (slots log) = 4096" and "head log = 1" and "length (issued log) = 1" and "wpc w = Next" and "wit w = d"
    and "k \<le> 4095" and "d + 4096 \<le> iters"
  shows "\<exists>log' w'. (log_client iters)\<^sup>*\<^sup>* (log, Writer w) (log', Writer w') \<and> length (slots log') = 4096
    \<and> head log' = of_nat (k + 1) \<and> length (issued log') = k + 1 \<and> slots log' ! 0 = slots log ! 0
    \<and> wpc w' = Next \<and> wit w' = d + k \<and> issued log' ! 0 = issued log ! 0"
  using assms(6)
proof (induction k)
  case 0
  then show ?case using assms by (intro exI [of _ log] exI [of _ w]) simp
next
  case (Suc k)
  then obtain log' w' where IH: "(log_client iters)\<^sup>*\<^sup>* (log, Writer w) (log', Writer w')" "length (slots log') = 4096"
    "head log' = of_nat (k + 1)" "length (issued log') = k + 1" "slots log' ! 0 = slots log ! 0" "wpc w' = Next" "wit w' = d + k"
    "issued log' ! 0 = issued log ! 0"
    by auto
  have sl: "0 \<noteq> slot_of (head log')" using slot_of_of_nat [of "k + 1"] Suc.prems IH(3) by simp
  have "wit w' < iters" using IH(7) Suc.prems assms(7) by simp
  note run = full_write_run [OF IH(6) this, of log' 0]
  show ?case
    by (intro exI conjI, rule rtranclp_trans [OF IH(1) run])
       (use full_write_simps [OF IH(2)] IH(3-8) sl in \<open>simp_all add: nth_append\<close>)
qed

lemma pool_thread_run:
  assumes "pool_reach T c0 (s, ls)" and "i < length ls" and "T\<^sup>*\<^sup>* (s, ls ! i) (s', l')"
  shows "pool_reach T c0 (s', ls[i := l'])"
  using pool_reach_steps [OF pool_run [OF assms(3,2)] assms(1)] .

lemma zero_buffer_simps:
  "head zero_buffer = 0" "issued zero_buffer = []" "length (slots zero_buffer) = 4096" "seq (slots zero_buffer ! 0) = [0]"
  by (simp_all add: zero_buffer_def LOG_SLOTS_def)

lemma slot_of_wrap: "slot_of 0 = 0" "slot_of 4096 = 0"
  by (simp_all add: slot_of_eq)

text \<open>The slow writer reserves ticket 0, marks the slot and begins to copy.\<close>

definition slow :: "write_pc \<Rightarrow> writer" where
  "slow p = \<lparr>wid = 0, wit = 0, wpc = p, we = build_entry 0 7\<rparr>"

definition begun :: log_buffer where
  "begun = store_entry (store_seq (zero_buffer\<lparr>head := 1, issued := [(0, build_entry 0 7)]\<rparr>) 0 1) 0 zero_entry"

lemma begun_simps:
  "length (slots begun) = 4096" "head begun = 1" "length (issued begun) = 1" "seq (slots begun ! 0) = [0, 1]"
  "issued begun ! 0 = (0, build_entry 0 7)"
  using zero_buffer_simps by (simp_all add: begun_def store_seq_def store_entry_def Let_def slot_of_wrap)

lemma slow_begins:
  "(log_client 4096)\<^sup>*\<^sup>* (zero_buffer, Writer \<lparr>wid = 0, wit = 0, wpc = Next, we = zero_entry\<rparr>) (begun, Writer (slow (Copying 0)))"
proof -
  define log1 where "log1 = zero_buffer\<lparr>head := 1, issued := [(0, build_entry 0 7)]\<rparr>"
  have 1: "log_client 4096 (zero_buffer, Writer \<lparr>wid = 0, wit = 0, wpc = Next, we = zero_entry\<rparr>) (log1, Writer (slow (Reserved 0)))"
    using log_client.reserve [of "\<lparr>wid = 0, wit = 0, wpc = Next, we = zero_entry\<rparr>" 4096 "build_entry 0 7" 0 7 zero_buffer]
    by (simp add: zero_buffer_simps log1_def slow_def)
  have 2: "log_client 4096 (log1, Writer (slow (Reserved 0))) (store_seq log1 0 1, Writer (slow (Marked 0)))"
    using log_client.mark [of "slow (Reserved 0)" 0 4096 log1] by (simp add: slow_def)
  have 3: "log_client 4096 (store_seq log1 0 1, Writer (slow (Marked 0))) (begun, Writer (slow (Copying 0)))"
    using log_client.copy_begin [of "slow (Marked 0)" 0 4096 "store_seq log1 0 1" zero_entry]
    by (simp add: slow_def begun_def log1_def)
  from 1 2 3 show ?thesis by (meson converse_rtranclp_into_rtranclp rtranclp.rtrancl_refl)
qed

text \<open>The other writer goes once round the buffer and commits ticket 4096, which has slot 0 again.\<close>

lemma fast_laps:
  "\<exists>log w. (log_client 4096)\<^sup>*\<^sup>* (begun, Writer \<lparr>wid = 1, wit = 0, wpc = Next, we = zero_entry\<rparr>) (log, Writer w)
    \<and> length (slots log) = 4096 \<and> seq (slots log ! 0) = [0, 1, 8193, 8194] \<and> length (issued log) = 4097
    \<and> issued log ! 0 = (0, build_entry 0 7) \<and> snd (issued log ! 4096) = build_entry 0 9"
proof -
  obtain log2 w2 where w1: "(log_client 4096)\<^sup>*\<^sup>* (begun, Writer \<lparr>wid = 1, wit = 0, wpc = Next, we = zero_entry\<rparr>) (log2, Writer w2)"
    and l2: "length (slots log2) = 4096" "head log2 = of_nat (4095 + 1)" "length (issued log2) = 4095 + 1" "slots log2 ! 0 = slots begun ! 0"
      "wpc w2 = Next" "wit w2 = 4095" "issued log2 ! 0 = issued begun ! 0"
    using many_writes [OF begun_simps(1-3), of "\<lparr>wid = 1, wit = 0, wpc = Next, we = zero_entry\<rparr>" 0 4095 4096] by auto
  have hd: "head log2 = 4096" using l2(2) by simp
  note f = full_write_simps [OF l2(1), where k = "wid w2" and e = "build_entry 0 9", unfolded hd slot_of_wrap]
  have "wit w2 < 4096" using l2(6) by simp
  from rtranclp_trans [OF w1 full_write_run [OF l2(5) this, where c = 9]] show ?thesis
    using f(2,3,5) l2(3,4,7) begun_simps(4,5) by (intro exI conjI) (assumption, simp_all add: nth_append)
qed

text \<open>The slow writer finishes its copy into slot 0, and a reader of ticket 4096 sees the committed number twice.\<close>

lemma read_run:
  assumes "p < length (seq (slots log ! slot_of t))" and "seq (slots log ! slot_of t) ! p = 2 * t + 2"
    and "fenced (slots log ! slot_of t) \<le> p"
  shows "(log_client iters)\<^sup>*\<^sup>* (log, Reader \<lparr>rticket = t, rpc = Load1, rout = x\<rparr>)
    (log, Reader \<lparr>rticket = t, rpc = Read, rout = entry (slots log ! slot_of t)\<rparr>)"
proof -
  let ?R = "\<lambda>p x. Reader \<lparr>rticket = t, rpc = p, rout = x\<rparr>" and ?e = "entry (slots log ! slot_of t)"
  have 1: "log_client iters (log, ?R Load1 x) (log, ?R (Copy_Out p) x)"
    using log_client.load1 [of "\<lparr>rticket = t, rpc = Load1, rout = x\<rparr>" p log "Copy_Out p" iters] assms by simp
  have 2: "log_client iters (log, ?R (Copy_Out p) x) (log, ?R (Load2 p) ?e)"
    using log_client.copy_out [of "\<lparr>rticket = t, rpc = Copy_Out p, rout = x\<rparr>" p iters log] assms(3) by (simp add: max_absorb1)
  have 3: "log_client iters (log, ?R (Load2 p) ?e) (log, ?R Read ?e)"
    using log_client.load2 [of "\<lparr>rticket = t, rpc = Load2 p, rout = ?e\<rparr>" p p log Read iters] assms by simp
  from 1 2 3 show ?thesis by (meson converse_rtranclp_into_rtranclp rtranclp.rtrancl_refl)
qed

lemma read_lapped:
  assumes "length (slots log) = 4096" and "seq (slots log ! 0) = [0, 1, 8193, 8194]"
  shows "(log_client 4096)\<^sup>*\<^sup>* (store_entry log 0 e, Reader \<lparr>rticket = 4096, rpc = Load1, rout = zero_entry\<rparr>)
    (store_entry log 0 e, Reader \<lparr>rticket = 4096, rpc = Read, rout = e\<rparr>)"
proof -
  have "seq (slots (store_entry log 0 e) ! slot_of 4096) = [0, 1, 8193, 8194]" "entry (slots (store_entry log 0 e) ! slot_of 4096) = e"
      "fenced (slots (store_entry log 0 e) ! slot_of 4096) = 1"
    using assms by (simp_all add: store_entry_def Let_def slot_of_wrap)
  then show ?thesis using read_run [of 3 "store_entry log 0 e" 4096 4096 zero_entry] by simp
qed

lemma lapped_writer:
  "\<exists>log w. pool_reach (log_client 4096) (free_start 2 [4096])
      (store_entry log 0 (build_entry 0 7), [Writer (slow (Copied 0)), Writer w, Reader \<lparr>rticket = 4096, rpc = Read, rout = build_entry 0 7\<rparr>])
    \<and> length (slots log) = 4096 \<and> seq (slots log ! 0) = [0, 1, 8193, 8194] \<and> length (issued log) = 4097
    \<and> issued log ! 0 = (0, build_entry 0 7) \<and> snd (issued log ! 4096) = build_entry 0 9"
proof -
  let ?c0 = "free_start 2 [4096]" and ?e = "build_entry 0 7"
  define A where "A = Writer \<lparr>wid = 0, wit = 0, wpc = Next, we = zero_entry\<rparr>"
  define B where "B = Writer \<lparr>wid = 1, wit = 0, wpc = Next, we = zero_entry\<rparr>"
  define R where "R = (\<lambda>p x. Reader \<lparr>rticket = 4096, rpc = p, rout = x\<rparr>)"
  have "?c0 = (zero_buffer, [A, B, R Load1 zero_entry])"
    by (simp add: free_start_def A_def B_def R_def upt_rec)
  then have 0: "pool_reach (log_client 4096) ?c0 (zero_buffer, [A, B, R Load1 zero_entry])" by (metis pool_reach.start)
  have 1: "pool_reach (log_client 4096) ?c0 (begun, [Writer (slow (Copying 0)), B, R Load1 zero_entry])"
    using pool_thread_run [OF 0, of 0] slow_begins by (simp add: A_def)
  obtain log w where w: "(log_client 4096)\<^sup>*\<^sup>* (begun, B) (log, Writer w)" and l: "length (slots log) = 4096"
      "seq (slots log ! 0) = [0, 1, 8193, 8194]" "length (issued log) = 4097" "issued log ! 0 = (0, ?e)"
      "snd (issued log ! 4096) = build_entry 0 9"
    using fast_laps unfolding B_def by blast
  have 2: "pool_reach (log_client 4096) ?c0 (log, [Writer (slow (Copying 0)), Writer w, R Load1 zero_entry])"
    using pool_thread_run [OF 1, of 1] w by simp
  have "log_client 4096 (log, Writer (slow (Copying 0))) (store_entry log 0 ?e, Writer (slow (Copied 0)))"
    using log_client.copy_end [of "slow (Copying 0)" 0 4096 log] by (simp add: slow_def)
  then have 3: "pool_reach (log_client 4096) ?c0 (store_entry log 0 ?e, [Writer (slow (Copied 0)), Writer w, R Load1 zero_entry])"
    using pool_thread_run [OF 2, of 0] by (simp add: r_into_rtranclp)
  have "pool_reach (log_client 4096) ?c0 (store_entry log 0 ?e, [Writer (slow (Copied 0)), Writer w, R Read ?e])"
    using pool_thread_run [OF 3, of 2] read_lapped [OF l(1,2), of ?e] by (simp add: R_def)
  then show ?thesis using l unfolding R_def by blast
qed

subsection \<open>Properties\<close>

text \<open>
  As long as the log does not wrap around, a read that succeeds is never torn, at any interleaving with the writers and with
  stale loads of the sequence number: it returns exactly the entry the writer of that ticket logged.
\<close>

theorem log_read_untorn:
  assumes "pool_reach (log_client iters) (free_start ncpu readers) c" and "ncpu * iters \<le> 4096"
    and "\<forall>t \<in> set readers. unat t < 2 ^ 62"
    and "j < length (snd c)" and "snd c ! j = Reader r" and "rpc r = Read"
  shows "unat (rticket r) < length (issued (fst c)) \<and> rout r = snd (issued (fst c) ! unat (rticket r)) \<and> \<not> torn_entry (rout r)"
proof -
  have n: "length (issued (fst c)) \<le> 4096" using issued_bound [OF assms(1)] assms(2) by simp
  have "client_ok j (fst c) (Reader r)" using free_reach_inv [OF assms(1,3)] assms(4,5) by metis
  then have cs: "committed_slot (fst c) (rticket r)" "rout r = snd (issued (fst c) ! unat (rticket r))"
    using n assms(6) by simp_all
  then have lt: "unat (rticket r) < length (issued (fst c))" by (simp add: committed_slot_def)
  then have "is_built (snd (issued (fst c) ! unat (rticket r)))"
    using pool_built [OF assms(1)] by (simp add: built_def)
  then show ?thesis using lt cs(2) built_intact by simp
qed

theorem log_read_untorn_witness:
  "\<exists>c. pool_reach (log_client 1) (free_start 1 [0]) c \<and> snd c ! 1 = Reader \<lparr>rticket = 0, rpc = Read, rout = build_entry 0 5\<rparr>
    \<and> \<not> torn_entry (build_entry 0 5)"
proof -
  let ?c0 = "free_start 1 [0]" and ?log = "full_write 0 zero_buffer (build_entry 0 5)"
  define A where "A = Writer \<lparr>wid = 0, wit = 0, wpc = Next, we = zero_entry\<rparr>"
  define R where "R = (\<lambda>p x. Reader \<lparr>rticket = 0, rpc = p, rout = x\<rparr>)"
  have "?c0 = (zero_buffer, [A, R Load1 zero_entry])" by (simp add: free_start_def A_def R_def upt_rec)
  then have 0: "pool_reach (log_client 1) ?c0 (zero_buffer, [A, R Load1 zero_entry])" by (metis pool_reach.start)
  obtain l where "(log_client 1)\<^sup>*\<^sup>* (zero_buffer, A) (?log, l)"
    using full_write_run [of "\<lparr>wid = 0, wit = 0, wpc = Next, we = zero_entry\<rparr>" 1 zero_buffer 5] by (auto simp: A_def)
  then have 1: "pool_reach (log_client 1) ?c0 (?log, [l, R Load1 zero_entry])" using pool_thread_run [OF 0, of 0] by simp
  have "seq (slots ?log ! slot_of 0) = [0, 1, 2]" "entry (slots ?log ! slot_of 0) = build_entry 0 5" "fenced (slots ?log ! slot_of 0) = 1"
    using full_write_simps(5) [OF zero_buffer_simps(3), of 0 "build_entry 0 5"] by (simp_all add: zero_buffer_simps slot_of_wrap)
  then have "(log_client 1)\<^sup>*\<^sup>* (?log, R Load1 zero_entry) (?log, R Read (build_entry 0 5))"
    using read_run [of 2 ?log 0 1 zero_entry] by (simp add: R_def)
  then have 2: "pool_reach (log_client 1) ?c0 (?log, [l, R Read (build_entry 0 5)])" using pool_thread_run [OF 1, of 1] by simp
  from log_read_untorn [OF 2, of 1] have "\<not> torn_entry (build_entry 0 5)" by (simp add: R_def)
  with 2 show ?thesis by (intro exI [of _ "(?log, [l, R Read (build_entry 0 5)])"]) (simp add: R_def)
qed

text \<open>
  C40: When the lock-free logger's workers have finished, in any interleaving, and the 4096 slots are enough for their tickets (\<open>main\<close> lowers the number of
  workers until they are), exactly \<open>ncpu * iters\<close> tickets have been handed out, reading any of them gives back the very entry
  logged under it, which is not torn, and the check of \<open>main\<close> returns 0.
\<close>

theorem free_logger_complete:
  assumes "pool_reach (log_client iters) (free_start ncpu []) c" and "ncpu * iters \<le> 4096"
    and "\<forall>l \<in> set (snd c). client_done iters l"
  shows "main_verify (fst c) = 0 \<and> unat (head (fst c)) = ncpu * iters
    \<and> (\<forall>t < ncpu * iters. log_read (fst c) (of_nat t) = Some (snd (issued (fst c) ! t)) \<and> \<not> torn_entry (snd (issued (fst c) ! t)))"
proof -
  let ?log = "fst c" and ?n = "length (issued (fst c))"
  have le: "?n \<le> 4096" using issued_bound [OF assms(1)] assms(2) by simp
  have inv: "free_inv ?log" using free_reach_inv [OF assms(1)] by simp
  have hd: "unat (head ?log) = ?n" using free_invD(2) [OF inv] le by (simp add: unat_of_nat)
  have good: "log_read ?log (of_nat t) = Some (snd (issued ?log ! t)) \<and> \<not> torn_entry (snd (issued ?log ! t))" if t: "t < ?n" for t
  proof -
    have "ticket_of (snd c ! i) \<noteq> Some (of_nat t)" if "i < length (snd c)" for i
    proof -
      have "client_done iters (snd c ! i)" using assms(3) that by simp
      then show ?thesis by (cases "snd c ! i") (auto simp: client_done_def)
    qed
    then have "seq (slots ?log ! t) = commit t" using open_tickets [OF assms(1) _ le t] by auto
    moreover have "slot_ok ?log t" "slot_of (of_nat t) = t" using free_invD(3) [OF inv le] slot_of_of_nat t le by simp_all
    ultimately have "log_read ?log (of_nat t) = Some (snd (issued ?log ! t))"
      by (simp add: log_read_def Let_def slot_ok_def commit_def)
    moreover have "is_built (snd (issued ?log ! t))" using pool_built [OF assms(1)] t by (simp add: built_def)
    ultimately show ?thesis using built_intact by blast
  qed
  then have "verify ?log [0..<?n] 0 0 = (0 + length [0..<?n], 0)" by (intro verify_all) auto
  then have "main_verify ?log = 0" unfolding main_verify_def hd by simp
  moreover have "?n = ncpu * iters"
  proof -
    have ws: "cnt is_writer (snd c) = ncpu" by (rule writers_kept [OF assms(1)])
    have "int ?n = sum_list (map taken (snd c))" by (rule issued_sum [OF assms(1)])
    also have "\<dots> = int ncpu * int iters" using sum_taken_done [of "snd c" iters] assms(3) pool_built [OF assms(1)] ws by simp
    finally show ?thesis by (metis of_nat_eq_iff of_nat_mult)
  qed
  ultimately show ?thesis using hd good by simp
qed

theorem free_logger_complete_witness:
  "\<exists>c. pool_reach (log_client 2) (free_start 3 []) c \<and> main_verify (fst c) = 0 \<and> unat (head (fst c)) = 6
    \<and> log_read (fst c) 5 = Some (snd (issued (fst c) ! 5))"
proof -
  obtain c where c: "(pool_step (log_client 2))\<^sup>*\<^sup>* (free_start 3 []) c" "\<forall>l \<in> set (snd c). client_done 2 l"
    using free_live.pool_finishes [OF usable_start] by blast
  have reach: "pool_reach (log_client 2) (free_start 3 []) c" by (rule pool_reach_steps [OF c(1) pool_reach.start])
  note all = free_logger_complete [OF reach _ c(2)]
  have "log_read (fst c) (of_nat 5) = Some (snd (issued (fst c) ! 5))" using all by (auto simp del: of_nat_numeral)
  moreover have "main_verify (fst c) = 0" "unat (head (fst c)) = 6" using all by simp_all
  ultimately show ?thesis using reach by (intro exI [of _ c]) simp
qed

text \<open>
  Writers and readers never wait for one another: from every reachable state, wrapped around or not, every client can complete
  all its calls by its own steps alone, and all of them can complete.
\<close>

theorem free_logger_nonblocking:
  assumes "pool_reach (log_client iters) (free_start ncpu readers) (log, ls)" and "i < length ls"
  shows "(\<exists>log' l'. (log_client iters)\<^sup>*\<^sup>* (log, ls ! i) (log', l') \<and> client_done iters l')
    \<and> (\<exists>c'. (pool_step (log_client iters))\<^sup>*\<^sup>* (log, ls) c' \<and> (\<forall>l \<in> set (snd c'). client_done iters l))"
proof -
  have "usable log" using pool_usable [OF assms(1)] by simp
  then show ?thesis using free_live.runs [of log] free_live.pool_finishes [of "(log, ls)"] by fastforce
qed

theorem free_logger_nonblocking_witness:
  "\<exists>log' l'. (log_client 1)\<^sup>*\<^sup>* (zero_buffer, Reader \<lparr>rticket = 9, rpc = Load1, rout = zero_entry\<rparr>) (log', l') \<and> client_done 1 l'"
  using free_logger_nonblocking [of 1 0 "[9]" zero_buffer "[Reader \<lparr>rticket = 9, rpc = Load1, rout = zero_entry\<rparr>]" 0]
    pool_reach.start [of "log_client 1" "free_start 0 [9]"]
  by (simp add: free_start_def)

text \<open>
  C37: Without that bound the sequence numbers are not enough.  Two writers and a reader of ticket 4096 can reach a state in which the first writer still
  holds ticket 0 and has just copied its entry, while the second has gone once round the buffer: 4097 tickets are issued, tickets 0 and
  4096 have the same slot, and the slot's newest sequence number is the committed number of ticket 4096.  The reader's \<open>log_read\<close> of ticket 4096 has
  passed both its checks, with the entry of ticket 0, which is not the one logged under ticket 4096; and a \<open>log_read\<close> of ticket 4096 that now runs alone succeeds with the same wrong
  entry.
\<close>

theorem log_read_lapped_writer:
  "\<exists>c w r. pool_reach (log_client 4096) (free_start 2 [4096]) c
    \<and> snd c ! 0 = Writer w \<and> wpc w = Copied 0 \<and> wid w = fst (issued (fst c) ! 0) \<and> we w = snd (issued (fst c) ! 0)
    \<and> length (issued (fst c)) = 4097 \<and> slot_of 4096 = slot_of 0
    \<and> last (seq (slots (fst c) ! slot_of 4096)) = 2 * 4096 + 2
    \<and> snd c ! 2 = Reader r \<and> rpc r = Read \<and> rticket r = 4096
    \<and> rout r = snd (issued (fst c) ! 0) \<and> rout r \<noteq> snd (issued (fst c) ! 4096)
    \<and> log_read (fst c) 4096 = Some (rout r)"
proof -
  let ?e = "build_entry 0 7" and ?r = "\<lparr>rticket = 4096, rpc = Read, rout = build_entry 0 7\<rparr>"
  have ne: "?e \<noteq> build_entry 0 9" by (simp add: build_entry_def)
  obtain log w where c: "pool_reach (log_client 4096) (free_start 2 [4096]) (store_entry log 0 ?e, [Writer (slow (Copied 0)), Writer w, Reader ?r])"
    and l: "length (slots log) = 4096" "seq (slots log ! 0) = [0, 1, 8193, 8194]" "length (issued log) = 4097"
      "issued log ! 0 = (0, ?e)" "snd (issued log ! 4096) = build_entry 0 9"
    using lapped_writer by blast
  have "issued (store_entry log 0 ?e) = issued log" "seq (slots (store_entry log 0 ?e) ! 0) = [0, 1, 8193, 8194]"
    "entry (slots (store_entry log 0 ?e) ! 0) = ?e"
    using l(1,2) by (simp_all add: store_entry_def Let_def slot_of_wrap)
  then show ?thesis
    using l(3-5) ne
    by (intro exI [of _ "(store_entry log 0 ?e, [Writer (slow (Copied 0)), Writer w, Reader ?r])"] exI [of _ "slow (Copied 0)"] exI [of _ ?r] conjI c)
      (simp_all add: slow_def slot_of_wrap log_read_def Let_def)
qed

end
