(* ===== verification/Logger_Wrap.thy ===== *)
theory Logger_Wrap
  imports Logger_Free
begin

text \<open>
  The lock-free log of \<open>CPU_logger/cpu_logger_lock_free.c\<close> when it wraps around.  Slots are used again and again; a reader may be overtaken by
  a writer at any point, and detects it with the second load of the sequence number.  The only condition is that no writer is
  lapped: while a writer has a ticket, nobody gets another ticket for the same slot.  \<open>Logger_Free\<close> has a run that shows that the
  condition cannot be dropped.
\<close>

definition unlapped :: "client list \<Rightarrow> bool" where
  "unlapped ls \<longleftrightarrow> (\<forall>i < length ls. \<forall>j < length ls. \<forall>t t'. i \<noteq> j \<longrightarrow> ticket_of (ls ! i) = Some t \<longrightarrow> ticket_of (ls ! j) = Some t' \<longrightarrow>
     slot_of t \<noteq> slot_of t')"

inductive unlapped_reach :: "nat \<Rightarrow> log_buffer \<times> client list \<Rightarrow> log_buffer \<times> client list \<Rightarrow> bool" for iters c0 where
  start: "unlapped_reach iters c0 c0"
| step: "unlapped_reach iters c0 c \<Longrightarrow> pool_step (log_client iters) c c' \<Longrightarrow> unlapped (snd c') \<Longrightarrow> unlapped_reach iters c0 c'"

lemma unlapped_pool: "unlapped_reach iters c0 c \<Longrightarrow> pool_reach (log_client iters) c0 c"
  by (induction rule: unlapped_reach.induct) (auto intro: pool_reach.intros)

subsection \<open>Sequence numbers\<close>

lemma unat_mark: "unat t < 2 ^ 62 \<Longrightarrow> unat (2 * t + 1 :: u64) = 2 * unat t + 1"
  by (simp add: unat_word_ariths)

lemma unat_commit: "unat t < 2 ^ 62 \<Longrightarrow> unat (2 * t + 2 :: u64) = 2 * unat t + 2"
  by (simp add: unat_word_ariths)

text \<open>The numbers a slot has had, as natural numbers: increasing, 0 first, and all of tickets that have been handed out.\<close>

abbreviation nums :: "log_slot \<Rightarrow> nat list" where
  "nums s \<equiv> map unat (seq s)"

definition slot_hist :: "nat \<Rightarrow> log_slot \<Rightarrow> bool" where
  "slot_hist m s \<longleftrightarrow> sorted_wrt (<) (nums s) \<and> seq s \<noteq> [] \<and> hd (nums s) = 0 \<and> (\<forall>v \<in> set (nums s). v \<le> 2 * m)"

text \<open>
  The last writer that stored into the entry has its mark at position \<open>fenced\<close>.  After its commitment follows at most the mark of the next
  writer, which has not begun to store.
\<close>

definition slot_content :: "(nat \<times> log_entry) list \<Rightarrow> log_slot \<Rightarrow> bool" where
  "slot_content iss s \<longleftrightarrow> fenced s < length (seq s)
     \<and> (if fenced s = 0 then length (seq s) \<le> 2
        else (\<exists>k < length iss. nums s ! fenced s = 2 * k + 1
          \<and> (fenced s + 1 < length (seq s) \<longrightarrow> nums s ! (fenced s + 1) = 2 * k + 2 \<and> entry s = snd (iss ! k)))
          \<and> length (seq s) \<le> fenced s + 3)
     \<and> (\<forall>q < length (seq s). fenced s + 1 < q \<or> fenced s = 0 \<and> 0 < q \<longrightarrow> odd (nums s ! q))"

definition slot_inv :: "log_buffer \<Rightarrow> nat \<Rightarrow> bool" where
  "slot_inv log n \<longleftrightarrow> slot_hist (length (issued log)) (slots log ! n) \<and> slot_content (issued log) (slots log ! n)"

fun wrap_writer :: "log_buffer \<Rightarrow> log_entry \<Rightarrow> write_pc \<Rightarrow> bool" where
  "wrap_writer log e Next \<longleftrightarrow> True"
| "wrap_writer log e (Reserved t) \<longleftrightarrow> unat t < length (issued log) \<and> snd (issued log ! unat t) = e
     \<and> (\<forall>v \<in> set (nums (slots log ! slot_of t)). v < 2 * unat t + 1) \<and> even (last (nums (slots log ! slot_of t)))"
| "wrap_writer log e (Marked t) \<longleftrightarrow> unat t < length (issued log) \<and> snd (issued log ! unat t) = e
     \<and> last (nums (slots log ! slot_of t)) = 2 * unat t + 1"
| "wrap_writer log e (Copying t) \<longleftrightarrow> unat t < length (issued log) \<and> snd (issued log ! unat t) = e
     \<and> last (nums (slots log ! slot_of t)) = 2 * unat t + 1 \<and> fenced (slots log ! slot_of t) = length (seq (slots log ! slot_of t)) - 1"
| "wrap_writer log e (Copied t) \<longleftrightarrow> unat t < length (issued log) \<and> snd (issued log ! unat t) = e
     \<and> last (nums (slots log ! slot_of t)) = 2 * unat t + 1 \<and> fenced (slots log ! slot_of t) = length (seq (slots log ! slot_of t)) - 1
     \<and> entry (slots log ! slot_of t) = e"

fun wrap_reader :: "log_buffer \<Rightarrow> u64 \<Rightarrow> log_entry \<Rightarrow> read_pc \<Rightarrow> bool" where
  "wrap_reader log t out Load1 \<longleftrightarrow> True"
| "wrap_reader log t out (Copy_Out p) \<longleftrightarrow> p < length (seq (slots log ! slot_of t)) \<and> nums (slots log ! slot_of t) ! p = 2 * unat t + 2"
| "wrap_reader log t out (Load2 b) \<longleftrightarrow> b < length (seq (slots log ! slot_of t)) \<and> unat t < length (issued log)
     \<and> (out = snd (issued log ! unat t) \<or> 2 * unat t + 2 < nums (slots log ! slot_of t) ! b)"
| "wrap_reader log t out Failed \<longleftrightarrow> True"
| "wrap_reader log t out Read \<longleftrightarrow> unat t < length (issued log) \<and> out = snd (issued log ! unat t)"

fun wrap_client :: "log_buffer \<Rightarrow> client \<Rightarrow> bool" where
  "wrap_client log (Writer w) \<longleftrightarrow> wrap_writer log (we w) (wpc w)"
| "wrap_client log (Reader r) \<longleftrightarrow> unat (rticket r) < 2 ^ 62 \<and> wrap_reader log (rticket r) (rout r) (rpc r)"

definition busy :: "client list \<Rightarrow> nat \<Rightarrow> bool" where
  "busy ls n \<longleftrightarrow> (\<exists>i < length ls. \<exists>t. ticket_of (ls ! i) = Some t \<and> slot_of t = n)"

definition wrap_inv :: "log_buffer \<times> client list \<Rightarrow> bool" where
  "wrap_inv c \<longleftrightarrow> length (slots (fst c)) = 4096 \<and> head (fst c) = of_nat (length (issued (fst c)))
     \<and> (\<forall>n < 4096. slot_inv (fst c) n \<and> (busy (snd c) n \<or> even (last (nums (slots (fst c) ! n)))))
     \<and> (\<forall>i < length (snd c). wrap_client (fst c) (snd c ! i))"

subsection \<open>What a reader relies on\<close>

text \<open>The history of a slot only grows, and so does the list of tickets; what a reader has seen stays true.\<close>

definition grows :: "log_buffer \<Rightarrow> log_buffer \<Rightarrow> bool" where
  "grows log log' \<longleftrightarrow> (\<exists>xs. issued log' = issued log @ xs) \<and> (\<forall>n. \<exists>ys. n < 4096 \<longrightarrow> seq (slots log' ! n) = seq (slots log ! n) @ ys)"

lemma wrap_reader_grows:
  assumes "grows log log'" and "wrap_reader log t out pc"
  shows "wrap_reader log' t out pc"
proof -
  obtain xs ys where "issued log' = issued log @ xs" "seq (slots log' ! slot_of t) = seq (slots log ! slot_of t) @ ys"
    using assms(1) slot_of_less [of t] unfolding grows_def by metis
  then show ?thesis using assms(2) by (cases pc) (auto simp: nth_append)
qed

lemma sorted_nums_le:
  assumes "sorted_wrt (<) (xs :: nat list)" and "i \<le> j" and "j < length xs"
  shows "xs ! i \<le> xs ! j"
  using assms by (cases "i = j") (auto simp: sorted_wrt_iff_nth_less order_le_less)

text \<open>The copy of a reader that has seen the commitment of its ticket: the entry of the ticket, or the second load will see more.\<close>

lemma copy_out_ok:
  assumes inv: "slot_inv log (slot_of t)" and t: "unat t < 2 ^ 62" and p: "wrap_reader log t out (Copy_Out p)"
  shows "wrap_reader log t (entry (slots log ! slot_of t)) (Load2 (max p (fenced (slots log ! slot_of t))))"
proof -
  define s where "s = slots log ! slot_of t"
  have h: "slot_hist (length (issued log)) s" and c: "slot_content (issued log) s" using inv by (simp_all add: slot_inv_def s_def)
  have pv: "p < length (seq s)" "nums s ! p = 2 * unat t + 2" using p by (simp_all add: s_def)
  have sorted: "sorted_wrt (<) (nums s)" using h by (simp add: slot_hist_def)
  have "nums s ! p \<in> set (nums s)" using pv(1) by (metis length_map nth_mem)
  then have lt: "unat t < length (issued log)" using h pv(2) by (auto simp: slot_hist_def)
  have p0: "0 < p" using h pv by (cases p) (auto simp: slot_hist_def hd_conv_nth)
  have odd: "odd (nums s ! q)" if "q < length (seq s)" "fenced s + 1 < q \<or> fenced s = 0 \<and> 0 < q" for q
    using c that unfolding slot_content_def by blast
  have "even (nums s ! p)" unfolding pv(2) by simp
  then have near: "p \<le> fenced s + 1" "fenced s \<noteq> 0" using odd [of p] pv(1) p0 by (meson not_le, metis)
  then obtain k where k: "k < length (issued log)" "nums s ! fenced s = 2 * k + 1"
      "fenced s + 1 < length (seq s) \<Longrightarrow> nums s ! (fenced s + 1) = 2 * k + 2 \<and> entry s = snd (issued log ! k)"
      "fenced s < length (seq s)"
    using c unfolding slot_content_def by auto
  have "max p (fenced s) < length (seq s)" using pv(1) k(4) by simp
  moreover have "entry s = snd (issued log ! unat t) \<or> 2 * unat t + 2 < nums s ! max p (fenced s)"
  proof (cases "p = fenced s + 1")
    case True
    then have "2 * k + 2 = 2 * unat t + 2" "entry s = snd (issued log ! k)" using k(3) pv by auto
    then show ?thesis by simp
  next
    case False
    then have le: "p \<le> fenced s" using near(1) by simp
    then have "nums s ! p \<le> nums s ! fenced s" using sorted_nums_le [OF sorted] k(4) by simp
    then have "2 * unat t + 2 < nums s ! fenced s" using pv(2) k(2) by presburger
    then show ?thesis using le by (simp add: max_absorb2)
  qed
  ultimately show ?thesis using lt by (simp add: s_def)
qed

lemma load2_ok:
  assumes inv: "slot_inv log (slot_of t)" and t: "unat t < 2 ^ 62" and b: "wrap_reader log t out (Load2 b)"
    and q: "q < length (seq (slots log ! slot_of t))" "b \<le> q \<or> length (seq (slots log ! slot_of t)) \<le> b"
    and v: "seq (slots log ! slot_of t) ! q = 2 * t + 2"
  shows "wrap_reader log t out Read"
proof -
  have bq: "b \<le> q" using b q(2) by simp
  have "nums (slots log ! slot_of t) ! b \<le> nums (slots log ! slot_of t) ! q"
    using inv by (intro sorted_nums_le [OF _ bq]) (simp_all add: slot_inv_def slot_hist_def q(1))
  also have "\<dots> = 2 * unat t + 2" using q(1) v unat_commit [OF t] by simp
  finally show ?thesis using b by auto
qed

subsection \<open>The steps of a writer on its slot\<close>

lemma slot_hist_append:
  assumes "slot_hist m s" and "\<forall>v \<in> set (nums s). v < unat x" and "unat x \<le> 2 * m"
  shows "slot_hist m (s\<lparr>seq := seq s @ [x]\<rparr>)"
  using assms by (auto simp: slot_hist_def sorted_wrt_append)

lemma slot_hist_last:
  assumes "slot_hist m s"
  shows "last (nums s) = nums s ! (length (seq s) - 1)" and "\<forall>v \<in> set (nums s). v \<le> last (nums s)"
proof -
  have ne: "nums s \<noteq> []" and so: "sorted_wrt (<) (nums s)" using assms by (simp_all add: slot_hist_def)
  show l: "last (nums s) = nums s ! (length (seq s) - 1)" using last_conv_nth [OF ne] by simp
  show "\<forall>v \<in> set (nums s). v \<le> last (nums s)"
  proof
    fix v
    assume "v \<in> set (nums s)"
    then obtain q where "q < length (nums s)" "v = nums s ! q" by (metis in_set_conv_nth)
    then show "v \<le> last (nums s)" using sorted_nums_le [OF so, of q "length (seq s) - 1"] l by simp
  qed
qed

text \<open>When the last number is even, the last writer has committed and nobody has marked the slot since.\<close>

lemma even_last_length:
  assumes h: "slot_hist m s" and c: "slot_content iss s" and e: "even (last (nums s))"
  shows "length (seq s) = (if fenced s = 0 then 1 else fenced s + 2)"
proof -
  have pos: "0 < length (seq s)" using h by (simp add: slot_hist_def)
  let ?q = "length (seq s) - 1"
  have ev: "even (nums s ! ?q)" using e slot_hist_last(1) [OF h] by simp
  have "odd (nums s ! q)" if "q < length (seq s)" "fenced s + 1 < q \<or> fenced s = 0 \<and> 0 < q" for q
    using c that unfolding slot_content_def by blast
  then have far: "\<not> (fenced s + 1 < ?q \<or> fenced s = 0 \<and> 0 < ?q)" using ev pos by (meson diff_less zero_less_one)
  show ?thesis
  proof (cases "fenced s = 0")
    case True
    then have "\<not> 1 < length (seq s)" using far by auto
    then have "length (seq s) = 1" using pos by linarith
    then show ?thesis using True by simp
  next
    case False
    then obtain k where "nums s ! fenced s = 2 * k + 1" using c unfolding slot_content_def by auto
    then have "?q \<noteq> fenced s" using ev by auto
    moreover have "fenced s < length (seq s)" using c by (simp add: slot_content_def)
    ultimately show ?thesis using far False by auto
  qed
qed

lemma mark_slot:
  assumes h: "slot_hist m s" and c: "slot_content iss s" and e: "even (last (nums s))"
    and x: "unat x = 2 * k + 1" "\<forall>v \<in> set (nums s). v < 2 * k + 1" "k < m"
  shows "slot_hist m (s\<lparr>seq := seq s @ [x]\<rparr>)" and "slot_content iss (s\<lparr>seq := seq s @ [x]\<rparr>)"
proof -
  show "slot_hist m (s\<lparr>seq := seq s @ [x]\<rparr>)" by (rule slot_hist_append [OF h]) (use x in auto)
  have len: "length (seq s) = (if fenced s = 0 then 1 else fenced s + 2)" by (rule even_last_length [OF h c e])
  show "slot_content iss (s\<lparr>seq := seq s @ [x]\<rparr>)"
  proof (cases "fenced s = 0")
    case True
    then show ?thesis using len x(1) by (auto simp: slot_content_def nth_append less_Suc_eq)
  next
    case False
    then obtain k' where "k' < length iss" "nums s ! fenced s = 2 * k' + 1" "nums s ! (fenced s + 1) = 2 * k' + 2 \<and> entry s = snd (iss ! k')"
      using c len unfolding slot_content_def by auto
    then show ?thesis using False len x(1) by (auto simp: slot_content_def nth_append intro!: exI [of _ k'])
  qed
qed

text \<open>The mark of a writer whose number is the last one is found at the end.\<close>

lemma fenced_last:
  assumes h: "slot_hist m s" and l: "last (seq s) = x"
  shows "length (takeWhile (\<lambda>v. v \<noteq> x) (seq s)) = length (seq s) - 1"
proof -
  have "seq s \<noteq> []" using h by (simp add: slot_hist_def)
  then obtain ys where ys: "seq s = ys @ [x]" using l by (metis append_butlast_last_id)
  have "x \<notin> set ys" using h by (auto simp: slot_hist_def ys sorted_wrt_append)
  then have "takeWhile (\<lambda>v. v \<noteq> x) (ys @ [x]) = ys @ takeWhile (\<lambda>v. v \<noteq> x) [x]" by (intro takeWhile_append2) auto
  then show ?thesis by (simp add: ys)
qed

lemma last_nums: "seq s \<noteq> [] \<Longrightarrow> last (nums s) = unat (last (seq s))"
  by (rule last_map)

lemma copy_slot:
  assumes h: "slot_hist m s" and l: "last (nums s) = 2 * k + 1" and k: "k < length iss" and f: "f = length (seq s) - 1"
  shows "slot_hist m (s\<lparr>entry := e, fenced := f\<rparr>)" and "slot_content iss (s\<lparr>entry := e, fenced := f\<rparr>)"
proof -
  show "slot_hist m (s\<lparr>entry := e, fenced := f\<rparr>)" using h by (simp add: slot_hist_def)
  have "seq s \<noteq> []" "hd (nums s) = 0" using h by (simp_all add: slot_hist_def)
  then have "length (seq s) \<noteq> 1" using l by (cases "seq s") auto
  then have f0: "f \<noteq> 0" "f < length (seq s)" using f \<open>seq s \<noteq> []\<close> by (cases "seq s"; auto)+
  have "nums s ! f = 2 * k + 1" using slot_hist_last(1) [OF h] l f by simp
  then show "slot_content iss (s\<lparr>entry := e, fenced := f\<rparr>)" using f0 f k by (auto simp: slot_content_def)
qed

lemma publish_slot:
  assumes h: "slot_hist m s" and c: "slot_content iss s" and l: "last (nums s) = 2 * k + 1" and k: "k < length iss" "k < m"
    and f: "fenced s = length (seq s) - 1" and e: "entry s = snd (iss ! k)" and x: "unat x = 2 * k + 2"
  shows "slot_hist m (s\<lparr>seq := seq s @ [x]\<rparr>)" and "slot_content iss (s\<lparr>seq := seq s @ [x]\<rparr>)"
proof -
  show "slot_hist m (s\<lparr>seq := seq s @ [x]\<rparr>)"
    by (rule slot_hist_append [OF h]) (use slot_hist_last(2) [OF h] l k(2) x in fastforce)+
  have ne: "seq s \<noteq> []" "hd (nums s) = 0" using h by (simp_all add: slot_hist_def)
  then have "length (seq s) \<noteq> 1" using l by (cases "seq s") auto
  then have f0: "fenced s \<noteq> 0" "length (seq s) = fenced s + 1" using f ne(1) by (cases "seq s"; auto)+
  have "nums s ! fenced s = 2 * k + 1" using slot_hist_last(1) [OF h] l f by simp
  then show "slot_content iss (s\<lparr>seq := seq s @ [x]\<rparr>)" using f0 k(1) e x
    by (auto simp: slot_content_def nth_append intro!: exI [of _ k])
qed

subsection \<open>The invariant of unlapped runs\<close>

lemma slot_content_more:
  assumes "slot_content iss s"
  shows "slot_content (iss @ xs) s"
proof (cases "fenced s = 0")
  case False
  then obtain k where "k < length iss" "nums s ! fenced s = 2 * k + 1"
      "fenced s + 1 < length (seq s) \<longrightarrow> nums s ! (fenced s + 1) = 2 * k + 2 \<and> entry s = snd (iss ! k)"
    using assms unfolding slot_content_def by auto
  then have "k < length (iss @ xs) \<and> nums s ! fenced s = 2 * k + 1
      \<and> (fenced s + 1 < length (seq s) \<longrightarrow> nums s ! (fenced s + 1) = 2 * k + 2 \<and> entry s = snd ((iss @ xs) ! k))"
    by (simp add: nth_append)
  then show ?thesis using assms False unfolding slot_content_def by auto
qed (use assms in \<open>simp add: slot_content_def\<close>)

lemma slot_inv_more:
  assumes "slot_inv log n" and "slots log' ! n = slots log ! n" and "issued log' = issued log @ xs"
  shows "slot_inv log' n"
  using assms slot_content_more [of "issued log"] by (fastforce simp: slot_inv_def slot_hist_def)

lemma wrap_writer_more:
  assumes "wrap_writer log e pc" and "issued log' = issued log @ xs"
    and "\<And>t. ticket_of (Writer w) = Some t \<Longrightarrow> slots log' ! slot_of t = slots log ! slot_of t" and "wpc w = pc"
  shows "wrap_writer log' e pc"
  using assms by (cases pc) (auto simp: nth_append)

text \<open>A writer's step changes at most slot \<open>k\<close>, for which no other writer has a ticket.\<close>

lemma wrap_step:
  assumes inv: "wrap_inv (log, ls)" and i: "i < length ls" and k: "k < 4096"
    and len: "length (slots log') = 4096" and hd: "head log' = of_nat (length (issued log'))" and iss: "issued log' = issued log @ xs"
    and same: "\<And>n. n < 4096 \<Longrightarrow> n \<noteq> k \<Longrightarrow> slots log' ! n = slots log ! n"
    and new: "slot_inv log' k" and grow: "seq (slots log' ! k) = seq (slots log ! k) @ ys" and l': "wrap_client log' l'"
    and alone: "\<And>j t. j < length ls \<Longrightarrow> j \<noteq> i \<Longrightarrow> ticket_of (ls ! j) = Some t \<Longrightarrow> slot_of t \<noteq> k"
    and ticket: "\<And>t. ticket_of (ls ! i) = Some t \<Longrightarrow> slot_of t = k \<or> ticket_of l' = Some t"
    and free: "(\<exists>t. ticket_of l' = Some t \<and> slot_of t = k) \<or> even (last (nums (slots log' ! k)))"
  shows "wrap_inv (log', ls[i := l'])"
proof -
  have I: "length (slots log) = 4096" "\<And>n. n < 4096 \<Longrightarrow> slot_inv log n" "\<And>n. n < 4096 \<Longrightarrow> busy ls n \<or> even (last (nums (slots log ! n)))"
      "\<And>j. j < length ls \<Longrightarrow> wrap_client log (ls ! j)" using inv by (simp_all add: wrap_inv_def)
  have slots': "slot_inv log' n" if "n < 4096" for n
    using new slot_inv_more [OF I(2) [OF that] same [OF that] iss] by (cases "n = k") auto
  have busy': "busy (ls[i := l']) n \<or> even (last (nums (slots log' ! n)))" if n: "n < 4096" for n
  proof (cases "n = k")
    case True
    then show ?thesis using free i by (auto simp: busy_def intro!: exI [of _ i])
  next
    case False
    have "busy (ls[i := l']) n" if b: "busy ls n"
    proof -
      obtain j t where j: "j < length ls" "ticket_of (ls ! j) = Some t" "slot_of t = n" using b by (auto simp: busy_def)
      then have "ticket_of (ls[i := l'] ! j) = Some t" using ticket [of t] False i by (cases "j = i") auto
      then show ?thesis using j by (auto simp: busy_def)
    qed
    then show ?thesis using I(3) [OF n] same [OF n False] by auto
  qed
  have g: "grows log log'" unfolding grows_def
  proof (intro conjI allI)
    show "\<exists>xs. issued log' = issued log @ xs" using iss by blast
    show "\<exists>ys. n < 4096 \<longrightarrow> seq (slots log' ! n) = seq (slots log ! n) @ ys" for n
      using grow same [of n] by (cases "n = k") auto
  qed
  have clients: "wrap_client log' (ls[i := l'] ! j)" if j: "j < length ls" for j
  proof (cases "j = i")
    case False
    show ?thesis
    proof (cases "ls ! j")
      case (Writer w)
      have "slots log' ! slot_of t = slots log ! slot_of t" if "ticket_of (Writer w) = Some t" for t
        using alone [OF j False] that Writer by (intro same slot_of_less) auto
      then show ?thesis using I(4) [OF j] Writer False wrap_writer_more [OF _ iss, of "we w" "wpc w" w] by simp
    next
      case (Reader r)
      then show ?thesis using I(4) [OF j] False wrap_reader_grows [OF g] by simp
    qed
  qed (use l' i in simp)
  show ?thesis using len hd slots' busy' clients by (simp add: wrap_inv_def)
qed

lemma wrap_reader_step:
  assumes inv: "wrap_inv (log, ls)" and i: "i < length ls" and l: "ls ! i = Reader r" and r': "wrap_client log (Reader r')"
  shows "wrap_inv (log, ls[i := Reader r'])"
proof -
  have kept: "busy (ls[i := Reader r']) n" if b: "busy ls n" for n
  proof -
    obtain j t where j: "j < length ls" "ticket_of (ls ! j) = Some t" "slot_of t = n" using b by (auto simp: busy_def)
    then have "j \<noteq> i" using l by auto
    then show ?thesis using j by (auto simp: busy_def intro!: exI [of _ j])
  qed
  have clients: "wrap_client log (ls[i := Reader r'] ! j)" if "j < length ls" for j
    using inv r' that by (cases "j = i") (simp_all add: wrap_inv_def)
  show ?thesis using inv kept clients by (auto simp: wrap_inv_def)
qed

lemma store_slots:
  assumes "length (slots log) = 4096"
  shows "slots (store_seq log t v) ! n = (if n = slot_of t then (slots log ! n)\<lparr>seq := seq (slots log ! n) @ [v]\<rparr> else slots log ! n)"
    and "slots (store_entry log t e) ! n = (if n = slot_of t
      then (slots log ! n)\<lparr>entry := e, fenced := length (takeWhile (\<lambda>v. v \<noteq> 2 * t + 1) (seq (slots log ! n)))\<rparr> else slots log ! n)"
  using assms slot_of_less [of t] by (simp_all add: store_seq_def store_entry_def Let_def nth_list_update)

lemma unlappedD:
  assumes "unlapped ls" and "i < length ls" and "ticket_of (ls ! i) = Some t" and "j < length ls" and "j \<noteq> i" and "ticket_of (ls ! j) = Some t'"
  shows "slot_of t' \<noteq> slot_of t"
  using assms unfolding unlapped_def by metis

text \<open>The facts every step of a writer with ticket \<open>t\<close> starts from.\<close>

lemma wrap_invD:
  assumes "wrap_inv (log, ls)"
  shows "length (slots log) = 4096" and "head log = of_nat (length (issued log))"
    and "slot_hist (length (issued log)) (slots log ! slot_of t)" and "slot_content (issued log) (slots log ! slot_of t)"
    and "slot_inv log (slot_of t)" and "i < length ls \<Longrightarrow> wrap_client log (ls ! i)"
    and "busy ls (slot_of t) \<or> even (last (nums (slots log ! slot_of t)))"
  using assms slot_of_less [of t] by (simp_all add: wrap_inv_def slot_inv_def)

lemma wrap_store:
  assumes inv: "wrap_inv (log, ls)" and i: "i < length ls" and lap: "unlapped ls" and t: "ticket_of (ls ! i) = Some t"
    and log': "log' = store_seq log t v \<or> log' = store_entry log t e"
    and new: "slot_inv log' (slot_of t)" and l': "wrap_client log' l'"
    and free: "ticket_of l' = Some t \<or> even (last (nums (slots log' ! slot_of t)))"
  shows "wrap_inv (log', ls[i := l'])"
proof -
  note I = wrap_invD [OF inv]
  have "\<exists>ys. seq (slots log' ! slot_of t) = seq (slots log ! slot_of t) @ ys" using log' store_slots [OF I(1), of t] by auto
  then obtain ys where grow: "seq (slots log' ! slot_of t) = seq (slots log ! slot_of t) @ ys" ..
  show ?thesis
  proof (rule wrap_step [OF inv i slot_of_less _ _ _ _ new grow l'])
    show "length (slots log') = 4096" "head log' = of_nat (length (issued log'))" "issued log' = issued log @ []" using log' I(1,2) by auto
    show "slots log' ! n = slots log ! n" if "n \<noteq> slot_of t" for n using log' store_slots [OF I(1), of t] that by auto
    show "slot_of t' \<noteq> slot_of t" if "j < length ls" "j \<noteq> i" "ticket_of (ls ! j) = Some t'" for j t' by (rule unlappedD [OF lap i t that])
    show "slot_of t' = slot_of t \<or> ticket_of l' = Some t'" if "ticket_of (ls ! i) = Some t'" for t' using t that by simp
    show "(\<exists>t'. ticket_of l' = Some t' \<and> slot_of t' = slot_of t) \<or> even (last (nums (slots log' ! slot_of t)))" using free by blast
  qed
qed

lemma wrap_mark:
  assumes inv: "wrap_inv (log, ls)" and i: "i < length ls" and lap: "unlapped ls" and l: "ls ! i = Writer w" and pc: "wpc w = Reserved t"
    and m: "length (issued log) \<le> 2 ^ 62"
  shows "wrap_inv (store_seq log t (2 * t + 1), ls[i := Writer (w\<lparr>wpc := Marked t\<rparr>)])"
proof (rule wrap_store [OF inv i lap, where t = t and v = "2 * t + 1"])
  note I = wrap_invD [OF inv]
  let ?s = "slots log ! slot_of t"
  have w: "unat t < length (issued log)" "snd (issued log ! unat t) = we w" "\<forall>v \<in> set (nums ?s). v < 2 * unat t + 1" "even (last (nums ?s))"
    using I(6) [OF i] l pc by simp_all
  then have x: "unat (2 * t + 1) = 2 * unat t + 1" using m by (intro unat_mark) simp
  have s': "slots (store_seq log t (2 * t + 1)) ! slot_of t = ?s\<lparr>seq := seq ?s @ [2 * t + 1]\<rparr>" using store_slots(1) [OF I(1)] by simp
  show "slot_inv (store_seq log t (2 * t + 1)) (slot_of t)" unfolding slot_inv_def s'
    using mark_slot [OF I(3,4) w(4) x w(3,1)] by simp
  show "wrap_client (store_seq log t (2 * t + 1)) (Writer (w\<lparr>wpc := Marked t\<rparr>))" using w x s' by simp
qed (use l pc in simp_all)

lemma wrap_copy:
  assumes inv: "wrap_inv (log, ls)" and i: "i < length ls" and lap: "unlapped ls" and l: "ls ! i = Writer w"
    and pc: "wpc w = Marked t \<and> pc' = Copying t \<or> wpc w = Copying t \<and> pc' = Copied t \<and> e = we w" and m: "length (issued log) \<le> 2 ^ 62"
  shows "wrap_inv (store_entry log t e, ls[i := Writer (w\<lparr>wpc := pc'\<rparr>)])"
proof (rule wrap_store [OF inv i lap, of t])
  note I = wrap_invD [OF inv]
  let ?s = "slots log ! slot_of t" and ?f = "length (seq (slots log ! slot_of t)) - 1"
  have w: "unat t < length (issued log)" "snd (issued log ! unat t) = we w" "last (nums ?s) = 2 * unat t + 1"
    using I(6) [OF i] l pc by auto
  have "unat (2 * t + 1) = 2 * unat t + 1" using w(1) m by (intro unat_mark) simp
  moreover have "seq ?s \<noteq> []" using I(3) by (simp add: slot_hist_def)
  ultimately have "last (seq ?s) = 2 * t + 1" using w(3) last_nums [of ?s] by (metis word_unat_eq_iff)
  then have f: "length (takeWhile (\<lambda>v. v \<noteq> 2 * t + 1) (seq ?s)) = ?f" by (rule fenced_last [OF I(3)])
  have s': "slots (store_entry log t e) ! slot_of t = ?s\<lparr>entry := e, fenced := ?f\<rparr>" using store_slots(2) [OF I(1)] f by simp
  show "slot_inv (store_entry log t e) (slot_of t)" unfolding slot_inv_def s' using copy_slot [OF I(3) w(3,1) refl] by simp
  show "wrap_client (store_entry log t e) (Writer (w\<lparr>wpc := pc'\<rparr>))" using w s' pc by auto
qed (use l pc in auto)

lemma wrap_publish:
  assumes inv: "wrap_inv (log, ls)" and i: "i < length ls" and lap: "unlapped ls" and l: "ls ! i = Writer w" and pc: "wpc w = Copied t"
    and m: "length (issued log) \<le> 2 ^ 62"
  shows "wrap_inv (store_seq log t (2 * t + 2), ls[i := Writer (w\<lparr>wpc := Next, wit := n\<rparr>)])"
proof (rule wrap_store [OF inv i lap, where t = t and v = "2 * t + 2"])
  note I = wrap_invD [OF inv]
  let ?s = "slots log ! slot_of t"
  have w: "unat t < length (issued log)" "snd (issued log ! unat t) = we w" "last (nums ?s) = 2 * unat t + 1"
      "fenced ?s = length (seq ?s) - 1" "entry ?s = we w" using I(6) [OF i] l pc by simp_all
  then have x: "unat (2 * t + 2) = 2 * unat t + 2" using m by (intro unat_commit) simp
  have s': "slots (store_seq log t (2 * t + 2)) ! slot_of t = ?s\<lparr>seq := seq ?s @ [2 * t + 2]\<rparr>" using store_slots(1) [OF I(1)] by simp
  have e: "entry ?s = snd (issued log ! unat t)" using w(2,5) by simp
  show "slot_inv (store_seq log t (2 * t + 2)) (slot_of t)" unfolding slot_inv_def s'
    using publish_slot [OF I(3,4) w(3,1,1,4) e x] by simp
  show "ticket_of (Writer (w\<lparr>wpc := Next, wit := n\<rparr>)) = Some t \<or> even (last (nums (slots (store_seq log t (2 * t + 2)) ! slot_of t)))"
    unfolding s' using x by simp
qed (use l pc in simp_all)

lemma wrap_reserve:
  assumes inv: "wrap_inv (log, ls)" and i: "i < length ls" and l: "ls ! i = Writer w" and pc: "wpc w = Next"
    and log': "log' = log\<lparr>head := head log + 1, issued := issued log @ [(k, e)]\<rparr>" and m: "length (issued log) < 2 ^ 62"
    and l': "l' = Writer (w\<lparr>wpc := Reserved (head log), we := e\<rparr>)" and lap: "unlapped (ls[i := l'])"
  shows "wrap_inv (log', ls[i := l'])"
proof (rule wrap_step [OF inv i slot_of_less [of "head log"]])
  note I = wrap_invD [OF inv]
  let ?s = "slots log ! slot_of (head log)"
  have t: "ticket_of l' = Some (head log)" using l' by simp
  have u: "unat (head log) = length (issued log)" using I(2) m by (simp add: unat_of_nat)
  show alone: "slot_of t' \<noteq> slot_of (head log)" if "j < length ls" "j \<noteq> i" "ticket_of (ls ! j) = Some t'" for j t'
    using unlappedD [OF lap, of i "head log" j t'] that i t by simp
  have none: "ticket_of (ls ! i) = None" using l pc by simp
  have "\<not> busy ls (slot_of (head log))"
  proof
    assume "busy ls (slot_of (head log))"
    then obtain j t' where "j < length ls" "ticket_of (ls ! j) = Some t'" "slot_of t' = slot_of (head log)" by (auto simp: busy_def)
    then show False using alone [of j t'] none by (cases "j = i") auto
  qed
  then have "even (last (nums ?s))" using I(7) by blast
  moreover have "\<forall>v \<in> set (nums ?s). v < 2 * unat (head log) + 1" using I(3) [of "head log"] u by (fastforce simp: slot_hist_def)
  ultimately show "wrap_client log' l'" using u by (simp add: l' log')
  show "slot_inv log' (slot_of (head log))" using slot_inv_more [OF I(5)] log' by simp
qed (use l pc wrap_invD(1,2) [OF inv] l' in \<open>simp_all add: log'\<close>)

lemma wrap_client_step:
  assumes inv: "wrap_inv (log, ls)" and i: "i < length ls" and lap: "unlapped ls" "unlapped (ls[i := l'])"
    and m: "length (issued log') \<le> 2 ^ 62" and st: "log_client iters (log, ls ! i) (log', l')"
  shows "wrap_inv (log', ls[i := l'])"
  using st
proof cases
  case (reserve w e now cpu)
  show ?thesis by (rule wrap_reserve [OF inv i reserve(1,4,2)]) (use m reserve lap(2) in simp_all)
next
  case (mark w t)
  show ?thesis unfolding mark(2,3) by (rule wrap_mark [OF inv i lap(1) mark(1,4)]) (use m mark(2) in simp)
next
  case (copy_begin w t junk)
  show ?thesis unfolding copy_begin(2,3) by (rule wrap_copy [OF inv i lap(1) copy_begin(1)]) (use m copy_begin(2,4) in simp_all)
next
  case (copy_end w t)
  show ?thesis unfolding copy_end(2,3) by (rule wrap_copy [OF inv i lap(1) copy_end(1)]) (use m copy_end(2,4) in simp_all)
next
  case (publish w t)
  show ?thesis unfolding publish(2,3) by (rule wrap_publish [OF inv i lap(1) publish(1,4)]) (use m publish(2) in simp)
next
  case (load1 r p pc)
  have t: "unat (rticket r) < 2 ^ 62" using wrap_invD(6) [OF inv i] load1(1) by simp
  have "wrap_reader log (rticket r) (rout r) pc" using load1(5,6) unat_commit [OF t] by simp
  then show ?thesis unfolding load1(2,3) using t by (intro wrap_reader_step [OF inv i load1(1)]) simp
next
  case (copy_out r p)
  have r: "unat (rticket r) < 2 ^ 62" "wrap_reader log (rticket r) (rout r) (Copy_Out p)" using wrap_invD(6) [OF inv i] copy_out(1,4) by simp_all
  have "wrap_reader log (rticket r) (entry (slots log ! slot_of (rticket r))) (Load2 (max p (fenced (slots log ! slot_of (rticket r)))))"
    using copy_out_ok [OF wrap_invD(5) [OF inv] r] .
  then show ?thesis unfolding copy_out(2,3) using r(1)
    by (intro wrap_reader_step [OF inv i copy_out(1)]) (simp del: wrap_reader.simps)
next
  case (load2 r p q pc)
  have r: "unat (rticket r) < 2 ^ 62" "wrap_reader log (rticket r) (rout r) (Load2 p)"
    using wrap_invD(6) [OF inv i] load2(1,4) by (simp_all del: wrap_reader.simps)
  have "wrap_reader log (rticket r) (rout r) pc" using load2_ok [OF wrap_invD(5) [OF inv] r load2(5,6)] load2(7) by simp
  then show ?thesis unfolding load2(2,3) using r(1) by (intro wrap_reader_step [OF inv i load2(1)]) simp
qed

lemma zero_slot:
  assumes "n < 4096"
  shows "slots zero_buffer ! n = \<lparr>seq = [0], entry = zero_entry, fenced = 0\<rparr>"
  using assms by (simp add: zero_buffer_def LOG_SLOTS_def)

lemma wrap_inv_start:
  assumes "\<forall>t \<in> set readers. unat t < 2 ^ 62"
  shows "wrap_inv (free_start ncpu readers)"
proof -
  have "slot_inv zero_buffer n \<and> even (last (nums (slots zero_buffer ! n)))" if "n < 4096" for n
    unfolding slot_inv_def zero_slot [OF that] by (simp add: slot_hist_def slot_content_def)
  moreover have "wrap_client zero_buffer l" if "l \<in> set (snd (free_start ncpu readers))" for l
    using that assms by (auto simp: free_start_def)
  then have "\<forall>i < length (snd (free_start ncpu readers)). wrap_client zero_buffer (snd (free_start ncpu readers) ! i)" by (simp add: nth_mem)
  moreover have "fst (free_start ncpu readers) = zero_buffer" by (simp add: free_start_def)
  ultimately show ?thesis using zero_buffer_simps unfolding wrap_inv_def by simp
qed

lemma unlapped_start: "unlapped (snd (free_start ncpu readers))"
proof -
  have "ticket_of l = None" if "l \<in> set (snd (free_start ncpu readers))" for l using that by (auto simp: free_start_def)
  then show ?thesis unfolding unlapped_def by (metis nth_mem option.distinct(1))
qed

lemma issued_grows: "log_client iters (log, l) (log', l') \<Longrightarrow> length (issued log) \<le> length (issued log')"
  by (erule log_client.cases) simp_all

lemma wrap_inv_reach:
  assumes "unlapped_reach iters (free_start ncpu readers) c" and "\<forall>t \<in> set readers. unat t < 2 ^ 62" and "length (issued (fst c)) \<le> 2 ^ 62"
  shows "wrap_inv c \<and> unlapped (snd c)"
  using assms(1,3)
proof (induction rule: unlapped_reach.induct)
  case start
  then show ?case using wrap_inv_start [OF assms(2)] unlapped_start by blast
next
  case (step c c')
  from step.hyps(2) obtain i log ls log' l' where c: "c = (log, ls)" "c' = (log', ls[i := l'])"
    and i: "i < length ls" "log_client iters (log, ls ! i) (log', l')" by (auto elim: pool_stepE)
  have m: "length (issued log') \<le> 2 ^ 62" using step.prems c by simp
  then have "length (issued (fst c)) \<le> 2 ^ 62" using issued_grows [OF i(2)] c by simp
  then have IH: "wrap_inv (log, ls)" "unlapped ls" using step.IH c by simp_all
  have lap: "unlapped (ls[i := l'])" using step.hyps(3) c by simp
  show ?case using wrap_client_step [OF IH(1) i(1) IH(2) lap m i(2)] lap c by simp
qed

subsection \<open>When no writer is lapped\<close>

text \<open>As many tickets as slots, or a single writer.\<close>

lemma enough_slots_unlapped:
  assumes "pool_reach (log_client iters) (free_start ncpu readers) c" and "ncpu * iters \<le> 4096" and "\<forall>t \<in> set readers. unat t < 2 ^ 62"
  shows "unlapped (snd c)"
  unfolding unlapped_def
proof (intro allI impI)
  fix i j t t'
  assume ij: "i < length (snd c)" "j < length (snd c)" "i \<noteq> j" and tt: "ticket_of (snd c ! i) = Some t" "ticket_of (snd c ! j) = Some t'"
  have n: "length (issued (fst c)) \<le> 4096" using issued_bound [OF assms(1)] assms(2) by simp
  have hold: "unat x < length (issued (fst c)) \<and> fst (issued (fst c) ! unat x) = k"
    if k: "k < length (snd c)" "ticket_of (snd c ! k) = Some x" for k x
  proof -
    obtain w where w: "snd c ! k = Writer w" using k(2) by (cases "snd c ! k") auto
    then have "client_ok k (fst c) (Writer w)" using free_reach_inv [OF assms(1,3)] k(1) by metis
    then show ?thesis using k(2) w n by (cases "wpc w") (auto simp: holds_def)
  qed
  have "unat t \<noteq> unat t'" using hold [OF ij(1) tt(1)] hold [OF ij(2) tt(2)] ij(3) by auto
  then show "slot_of t \<noteq> slot_of t'" using hold [OF ij(1) tt(1)] hold [OF ij(2) tt(2)] n by (simp add: slot_of_eq)
qed

lemma unlapped_reachI:
  assumes "pool_reach (log_client iters) c0 c" and "\<And>c. pool_reach (log_client iters) c0 c \<Longrightarrow> unlapped (snd c)"
  shows "unlapped_reach iters c0 c"
  using assms(1) by (induction rule: pool_reach.induct) (auto intro: unlapped_reach.intros pool_reach.step assms(2))

lemma one_writer_unlapped:
  assumes "pool_reach (log_client iters) (free_start 1 readers) c"
  shows "unlapped (snd c)"
proof -
  have k: "map is_writer (snd c) = map is_writer (snd (free_start 1 readers))" by (rule kinds_kept [OF assms client_kind])
  have "i = 0" if "i < length (snd c)" "ticket_of (snd c ! i) = Some t" for i t
  proof (rule ccontr)
    assume "i \<noteq> 0"
    have "is_writer (snd c ! i)" using that(2) by (cases "snd c ! i") auto
    then have "is_writer (snd (free_start 1 readers) ! i)" using k that(1) by (metis length_map nth_map)
    moreover have "i < length (snd (free_start 1 readers))" using k that(1) by (metis length_map)
    ultimately show False using \<open>i \<noteq> 0\<close> by (auto simp: free_start_def nth_Cons')
  qed
  then show ?thesis unfolding unlapped_def by metis
qed

subsection \<open>Properties\<close>

text \<open>
  C4: The log may wrap around any number of times: as long as no writer is lapped, a read that succeeds is never torn and never of another
  ticket, at any interleaving with the writers, whenever the reader is overtaken, and with every stale value its two loads of
  the sequence number may return.  It returns exactly the entry the writer of that ticket logged.  At most \<open>2 ^ 62\<close> tickets have been
  handed out and readers ask for tickets below \<open>2 ^ 62\<close>, so that the sequence numbers \<open>2 * ticket + 2\<close> do not wrap.
\<close>

theorem log_read_wrap_untorn:
  assumes "unlapped_reach iters (free_start ncpu readers) c" and "length (issued (fst c)) \<le> 2 ^ 62"
    and "\<forall>t \<in> set readers. unat t < 2 ^ 62"
    and "j < length (snd c)" and "snd c ! j = Reader r" and "rpc r = Read"
  shows "unat (rticket r) < length (issued (fst c)) \<and> rout r = snd (issued (fst c) ! unat (rticket r)) \<and> \<not> torn_entry (rout r)"
proof -
  have "wrap_inv c" using wrap_inv_reach [OF assms(1,3,2)] by blast
  then have "wrap_client (fst c) (Reader r)" using assms(4,5) unfolding wrap_inv_def by metis
  then have r: "unat (rticket r) < length (issued (fst c))" "rout r = snd (issued (fst c) ! unat (rticket r))" using assms(6) by simp_all
  then have "is_built (rout r)" using pool_built [OF unlapped_pool [OF assms(1)]] by (simp add: built_def)
  then show ?thesis using r built_intact by simp
qed

text \<open>A single writer goes once round the log and a reader then reads the ticket that used slot 0 for the second time.\<close>

lemma second_round:
  "\<exists>log w. (log_client 4097)\<^sup>*\<^sup>* (zero_buffer, Writer \<lparr>wid = 0, wit = 0, wpc = Next, we = zero_entry\<rparr>) (log, Writer w)
    \<and> length (issued log) = 4097 \<and> seq (slots log ! 0) = [0, 1, 2, 8193, 8194] \<and> fenced (slots log ! 0) = 3"
proof -
  let ?w = "\<lparr>wid = 0, wit = 0, wpc = Next, we = zero_entry\<rparr>" and ?e = "build_entry 0 5"
  define log1 where "log1 = full_write 0 zero_buffer ?e"
  define w1 where "w1 = ?w\<lparr>we := ?e, wpc := Next, wit := 1\<rparr>"
  have 1: "(log_client 4097)\<^sup>*\<^sup>* (zero_buffer, Writer ?w) (log1, Writer w1)"
    using full_write_run [of ?w 4097 zero_buffer 5] by (simp add: log1_def w1_def)
  note f1 = full_write_simps [OF zero_buffer_simps(3), where k = 0 and e = ?e, folded log1_def]
  have l1: "length (slots log1) = 4096" "head log1 = 1" "length (issued log1) = 1" "seq (slots log1 ! 0) = [0, 1, 2]"
    using f1 zero_buffer_simps by (simp_all add: slot_of_wrap)
  obtain log2 w2 where 2: "(log_client 4097)\<^sup>*\<^sup>* (log1, Writer w1) (log2, Writer w2)"
    and l2: "length (slots log2) = 4096" "head log2 = of_nat (4095 + 1)" "length (issued log2) = 4095 + 1" "slots log2 ! 0 = slots log1 ! 0"
      "wpc w2 = Next" "wit w2 = 1 + 4095"
    using many_writes [OF l1(1-3), of w1 1 4095 4097] by (auto simp: w1_def)
  have hd: "head log2 = 4096" using l2(2) by simp
  note f2 = full_write_simps [OF l2(1), where k = "wid w2" and e = "build_entry 0 9", unfolded hd slot_of_wrap]
  have "wit w2 < 4097" using l2(6) by simp
  from rtranclp_trans [OF rtranclp_trans [OF 1 2] full_write_run [OF l2(5) this, where c = 9]] show ?thesis
    using f2(2,5) l2(3,4) l1(4) by (intro exI conjI) (assumption, simp_all)
qed

theorem log_read_wrap_untorn_witness:
  "\<exists>c r. unlapped_reach 4097 (free_start 1 [4096]) c \<and> snd c ! 1 = Reader r \<and> rpc r = Read
    \<and> rout r = snd (issued (fst c) ! 4096) \<and> \<not> torn_entry (rout r)"
proof -
  let ?c0 = "free_start 1 [4096]"
  define A where "A = Writer \<lparr>wid = 0, wit = 0, wpc = Next, we = zero_entry\<rparr>"
  define R where "R = (\<lambda>p x. Reader \<lparr>rticket = 4096, rpc = p, rout = x\<rparr>)"
  obtain log w where log: "(log_client 4097)\<^sup>*\<^sup>* (zero_buffer, A) (log, Writer w)" "length (issued log) = 4097"
      "seq (slots log ! 0) = [0, 1, 2, 8193, 8194]" "fenced (slots log ! 0) = 3"
    using second_round unfolding A_def by blast
  have "?c0 = (zero_buffer, [A, R Load1 zero_entry])" by (simp add: free_start_def A_def R_def upt_rec)
  then have 0: "pool_reach (log_client 4097) ?c0 (zero_buffer, [A, R Load1 zero_entry])" by (metis pool_reach.start)
  have 1: "pool_reach (log_client 4097) ?c0 (log, [Writer w, R Load1 zero_entry])" using pool_thread_run [OF 0, of 0] log(1) by simp
  define out where "out = entry (slots log ! 0)"
  have "(log_client 4097)\<^sup>*\<^sup>* (log, R Load1 zero_entry) (log, R Read out)"
    using read_run [of 4 log 4096 4097 zero_entry] log(3,4) by (simp add: slot_of_wrap R_def out_def)
  then have 2: "pool_reach (log_client 4097) ?c0 (log, [Writer w, R Read out])" using pool_thread_run [OF 1, of 1] by simp
  have 3: "unlapped_reach 4097 ?c0 (log, [Writer w, R Read out])" by (rule unlapped_reachI [OF 2 one_writer_unlapped])
  from log_read_wrap_untorn [OF 3, of 1 "\<lparr>rticket = 4096, rpc = Read, rout = out\<rparr>"] log(2)
  have "out = snd (issued log ! 4096) \<and> \<not> torn_entry out" by (auto simp: R_def)
  with 3 show ?thesis by (intro exI [of _ "(log, [Writer w, R Read out])"] exI [of _ "\<lparr>rticket = 4096, rpc = Read, rout = out\<rparr>"]) (auto simp: R_def)
qed

end
