(* ===== verification/Two_Sum.thy ===== *)
theory Two_Sum
  imports CPrelude
begin

text \<open>
  \<open>leetcode/01-two-sum.c\<close>: a hash map with open addressing and linear probing, and the search for two numbers with a given
  sum on top of it.  The probing loop ends only when the table has a hole or the key, so it is a partial function;
  \<^const>\<open>None\<close> is also an access outside an array and a signed overflow.  The map's contract is the locale
  \<open>kv_map\<close>, which the table is shown to provide while it is not full.
\<close>

record hmap =
  keys :: "int list"
  vals :: "int list"
  cap :: int
  exist :: "bool list"
  mask :: size_t

definition hash_map :: "hmap \<Rightarrow> int \<Rightarrow> size_t" where
  "hash_map mp index = (let hash = (of_int index :: u64) * 0x9E3779B1; hash = hash XOR drop_bit 16 hash
     in hash AND mask mp)"

definition free_map :: "hmap \<Rightarrow> hmap" where
  "free_map mp = \<lparr>keys = [], vals = [], cap = 0, exist = [], mask = 0\<rparr>"

text \<open>\<open>while (c < cap) c <<= 1\<close>, where \<open>c\<close> is \<open>2 ^ k\<close>.\<close>

function round_up :: "nat \<Rightarrow> int \<Rightarrow> int option" where
  "round_up k cp = (if 2 ^ k < cp then do { c \<leftarrow> to_i32 (2 ^ (k + 1)); round_up (k + 1) cp } else Some (2 ^ k))"
  by pat_completeness auto
termination by (relation "measure (\<lambda>(k, cp). nat (cp - 2 ^ k))") auto

declare round_up.simps [simp del]

text \<open>
  \<open>ks\<close>, \<open>vs\<close> and \<open>es\<close> are what \<open>malloc\<close>, \<open>malloc\<close> and \<open>calloc\<close> return for the size they are asked for (\<open>None\<close>: a null pointer).
  The result is the return value and the map.
\<close>

definition init_map ::
  "(nat \<Rightarrow> int list option) \<Rightarrow> (nat \<Rightarrow> int list option) \<Rightarrow> (nat \<Rightarrow> bool list option) \<Rightarrow> int \<Rightarrow> (bool \<times> hmap) option" where
  "init_map ks vs es cp = do {
     c \<leftarrow> round_up 0 cp;
     Some (case (ks (nat c), vs (nat c), es (nat c)) of
         (Some k, Some v, Some e) \<Rightarrow> (True, \<lparr>keys = k, vals = v, cap = c, exist = e, mask = of_int (c - 1)\<rparr>)
       | _ \<Rightarrow> (False, \<lparr>keys = [], vals = [], cap = 0, exist = [], mask = 0\<rparr>))
   }"

partial_function (option) probe_from :: "hmap \<Rightarrow> int \<Rightarrow> size_t \<Rightarrow> size_t option" where
  "probe_from mp key index = do {
     e \<leftarrow> rd (exist mp) (unat index);
     if e then do {
       k \<leftarrow> rd (keys mp) (unat index);
       if k \<noteq> key then probe_from mp key ((index + 1) AND mask mp) else Some index
     } else Some index
   }"

definition probe_map :: "hmap \<Rightarrow> int \<Rightarrow> size_t option" where
  "probe_map mp key = probe_from mp key (hash_map mp key)"

definition set_map :: "hmap \<Rightarrow> int \<Rightarrow> int \<Rightarrow> hmap option" where
  "set_map mp key value = do {
     index \<leftarrow> probe_map mp key;
     ks \<leftarrow> wr (keys mp) (unat index) key;
     vs \<leftarrow> wr (vals mp) (unat index) value;
     es \<leftarrow> wr (exist mp) (unat index) True;
     Some (mp\<lparr>keys := ks, vals := vs, exist := es\<rparr>)
   }"

definition get_map :: "hmap \<Rightarrow> int \<Rightarrow> int option option" where
  "get_map mp key = do {
     index \<leftarrow> probe_map mp key;
     e \<leftarrow> rd (exist mp) (unat index);
     if e then do { v \<leftarrow> rd (vals mp) (unat index); Some (Some v) } else Some None
   }"

text \<open>The loop of \<open>twoSum\<close> from index \<open>i\<close> on; the result is the pair of indices, if any.\<close>

fun two_sum_from :: "hmap \<Rightarrow> int \<Rightarrow> int \<Rightarrow> int list \<Rightarrow> (int \<times> int) option option" where
  "two_sum_from mp target i [] = Some None"
| "two_sum_from mp target i (x # xs) = do {
     want \<leftarrow> to_i32 (target - x);
     r \<leftarrow> get_map mp want;
     case r of
       Some pair \<Rightarrow> Some (Some (pair, i))
     | None \<Rightarrow> do {
         mp \<leftarrow> set_map mp x i;
         two_sum_from mp target (i + 1) xs
       }
   }"

text \<open>
  \<open>twoSum\<close>: the returned array of two indices (\<open>None\<close>: a null pointer); \<open>*returnSize\<close> is 2 with an array and 0
  without.  \<open>res_ok\<close> tells whether the allocation of the result succeeds.
\<close>

definition twoSum ::
  "bool \<Rightarrow> (nat \<Rightarrow> int list option) \<Rightarrow> (nat \<Rightarrow> int list option) \<Rightarrow> (nat \<Rightarrow> bool list option) \<Rightarrow> int list \<Rightarrow> int
    \<Rightarrow> (int \<times> int) option option" where
  "twoSum res_ok ks vs es nums target =
     (if \<not> res_ok then Some None
      else do {
        n2 \<leftarrow> to_i32 (2 * int (length nums));
        (ok, mp) \<leftarrow> init_map ks vs es n2;
        if \<not> ok then Some None else two_sum_from mp target 0 nums
      })"

definition zeros :: "nat \<Rightarrow> int list option" where
  "zeros n = Some (replicate n 0)"

definition no_keys :: "nat \<Rightarrow> bool list option" where
  "no_keys n = Some (replicate n False)"

definition main :: "unit option" where
  "main = do {
     r \<leftarrow> twoSum True zeros zeros no_keys [3, 3] 6;
     c_assert (r = Some (0, 1));
     r \<leftarrow> twoSum True zeros zeros no_keys [2, 7, 11, 15] 9;
     c_assert (r = Some (0, 1));
     r \<leftarrow> twoSum True zeros zeros no_keys [- 3, 4, 3, 90] 0;
     c_assert (r = Some (0, 2))
   }"

declare probe_from.simps [code]

subsection \<open>The contract of a map with room for a number of keys\<close>

locale kv_map =
  fixes room :: "'m \<Rightarrow> nat \<Rightarrow> bool"
    and look :: "'m \<Rightarrow> 'k \<Rightarrow> 'v option"
    and get :: "'m \<Rightarrow> 'k \<Rightarrow> 'v option option"
    and put :: "'m \<Rightarrow> 'k \<Rightarrow> 'v \<Rightarrow> 'm option"
  assumes get_look: "room m n \<Longrightarrow> get m k = Some (look m k)"
    and put_ok: "room m (Suc n) \<Longrightarrow> \<exists>m'. put m k v = Some m' \<and> room m' n \<and> look m' = (look m)(k := Some v)"
begin

lemma get_after_put:
  assumes "room m (Suc n)" and "put m k v = Some m'"
  shows "get m' k' = Some (if k' = k then Some v else look m k')"
proof -
  obtain m2 where "put m k v = Some m2" "room m2 n" "look m2 = (look m)(k := Some v)" using put_ok [OF assms(1)] by blast
  then show ?thesis using assms(2) get_look [of m' n k'] by simp
qed

end

subsection \<open>The table\<close>

definition ix :: "hmap \<Rightarrow> int \<Rightarrow> nat \<Rightarrow> nat" where
  "ix mp key d = (unat (hash_map mp key) + d) mod length (exist mp)"

definition shape :: "hmap \<Rightarrow> bool" where
  "shape mp \<longleftrightarrow> (\<exists>k < 64. length (exist mp) = 2 ^ k \<and> mask mp = 2 ^ k - 1)
     \<and> length (keys mp) = length (exist mp) \<and> length (vals mp) = length (exist mp)"

text \<open>
  Occupied positions hold distinct keys, and between the hash position of a key and its place there is no hole.
\<close>

definition table :: "hmap \<Rightarrow> bool" where
  "table mp \<longleftrightarrow> shape mp
     \<and> (\<forall>p < length (exist mp). \<forall>q < length (exist mp). exist mp ! p \<longrightarrow> exist mp ! q \<longrightarrow> keys mp ! p = keys mp ! q \<longrightarrow> p = q)
     \<and> (\<forall>p < length (exist mp). exist mp ! p \<longrightarrow>
          (\<exists>d. p = ix mp (keys mp ! p) d \<and> (\<forall>e < d. exist mp ! ix mp (keys mp ! p) e)))"

definition used :: "hmap \<Rightarrow> nat" where
  "used mp = cnt (\<lambda>b. b) (exist mp)"

definition has_room :: "hmap \<Rightarrow> nat \<Rightarrow> bool" where
  "has_room mp n \<longleftrightarrow> table mp \<and> used mp + n < length (exist mp)"

definition found :: "hmap \<Rightarrow> int \<Rightarrow> nat \<Rightarrow> bool" where
  "found mp key p \<longleftrightarrow> p < length (exist mp) \<and> exist mp ! p \<and> keys mp ! p = key"

definition lookup :: "hmap \<Rightarrow> int \<Rightarrow> int option" where
  "lookup mp key = (if \<exists>p. found mp key p then Some (vals mp ! (THE p. found mp key p)) else None)"

lemma shape_pow2:
  assumes "shape mp"
  obtains k where "k < 64" "length (exist mp) = 2 ^ k" "mask mp = 2 ^ k - 1"
  using assms unfolding shape_def by blast

lemma length_pos: "shape mp \<Longrightarrow> 0 < length (exist mp)"
  by (auto simp: shape_def)

lemma ix_less: "shape mp \<Longrightarrow> ix mp key d < length (exist mp)"
  unfolding ix_def by (rule mod_less_divisor [OF length_pos])

lemma unat_and_mask:
  assumes "shape mp"
  shows "unat (w AND mask mp) = unat w mod length (exist mp)"
proof -
  obtain k where "k < 64" "length (exist mp) = 2 ^ k" "mask mp = 2 ^ k - 1" by (rule shape_pow2 [OF assms])
  then show ?thesis using unat_and_pow2_minus_1 [of k w] by simp
qed

lemma hash_less:
  assumes "shape mp"
  shows "unat (hash_map mp key) < length (exist mp)"
  unfolding hash_map_def Let_def unat_and_mask [OF assms] using length_pos [OF assms] by simp

lemma ix_0: "shape mp \<Longrightarrow> ix mp key 0 = unat (hash_map mp key)"
  by (simp add: ix_def hash_less)

lemma next_index:
  assumes "shape mp" and "unat w = ix mp key d"
  shows "unat ((w + 1) AND mask mp) = ix mp key (d + 1)"
proof -
  obtain k where k: "k < 64" "length (exist mp) = 2 ^ k" "mask mp = 2 ^ k - 1" by (rule shape_pow2 [OF assms(1)])
  have "unat ((w + 1) AND mask mp) = unat (w + 1) mod 2 ^ k" using unat_and_mask [OF assms(1)] k by simp
  also have "\<dots> = (unat w + 1) mod 2 ^ k" using unat_add_mod_pow2 [of k w 1] k(1) by simp
  also have "\<dots> = ix mp key (d + 1)" using assms(2) k(2) by (simp add: ix_def mod_Suc_eq)
  finally show ?thesis .
qed

text \<open>Probing goes to the first position that is free or holds the key.\<close>

definition stops :: "hmap \<Rightarrow> int \<Rightarrow> nat \<Rightarrow> bool" where
  "stops mp key p \<longleftrightarrow> \<not> exist mp ! p \<or> keys mp ! p = key"

lemma probe_from_eq:
  assumes "shape mp" and "unat w = ix mp key d" and "\<forall>e < m. \<not> stops mp key (ix mp key (d + e))" and "stops mp key (ix mp key (d + m))"
  shows "\<exists>r. probe_from mp key w = Some r \<and> unat r = ix mp key (d + m)"
  using assms(2-)
proof (induction m arbitrary: w d)
  case 0
  then have "probe_from mp key w = Some w"
    using assms(1) ix_less [OF assms(1), of key d] by (subst probe_from.simps) (auto simp: stops_def shape_def)
  then show ?case using 0 by simp
next
  case (Suc m)
  have ns: "\<not> stops mp key (ix mp key d)" using Suc.prems(2) by (metis add_0_right zero_less_Suc)
  have "probe_from mp key w = probe_from mp key ((w + 1) AND mask mp)"
    using assms(1) Suc.prems(1) ix_less [OF assms(1), of key d] ns
    by (subst probe_from.simps) (simp add: stops_def shape_def)
  moreover have "\<exists>r. probe_from mp key ((w + 1) AND mask mp) = Some r \<and> unat r = ix mp key (d + 1 + m)"
  proof (rule Suc.IH)
    show "unat ((w + 1) AND mask mp) = ix mp key (d + 1)" by (rule next_index [OF assms(1) Suc.prems(1)])
    show "\<forall>e < m. \<not> stops mp key (ix mp key (d + 1 + e))" using Suc.prems(2) by (metis Suc_mono add.assoc plus_1_eq_Suc)
    show "stops mp key (ix mp key (d + 1 + m))" using Suc.prems(3) by simp
  qed
  ultimately show ?case by simp
qed

text \<open>Every position is reached from the hash position.\<close>

lemma ix_surj:
  assumes "shape mp" and "p < length (exist mp)"
  shows "\<exists>d. p = ix mp key d"
proof -
  let ?n = "length (exist mp)" and ?h = "unat (hash_map mp key)"
  have "?h < ?n" by (rule hash_less [OF assms(1)])
  then have "?h + (p + ?n - ?h) = p + ?n" by simp
  then have "ix mp key (p + ?n - ?h) = p" using assms(2) by (simp add: ix_def)
  then show ?thesis by metis
qed

lemma hole_exists:
  assumes "has_room mp n"
  shows "\<exists>p < length (exist mp). \<not> exist mp ! p"
proof (rule ccontr)
  assume "\<not> ?thesis"
  then have "\<forall>b \<in> set (exist mp). b" by (auto simp: in_set_conv_nth)
  then have "used mp = length (exist mp)" unfolding used_def by (rule cnt_all_true)
  then show False using assms by (simp add: has_room_def)
qed

text \<open>
  The result of \<open>probe_map\<close>: the place of the key if it is there, otherwise a hole with no hole between it and the hash
  position.
\<close>

lemma probe_map_eq:
  assumes "has_room mp n"
  obtains w d where "probe_map mp key = Some w" "unat w = ix mp key d" "\<forall>e < d. exist mp ! ix mp key e"
    "\<forall>e < d. keys mp ! ix mp key e \<noteq> key" "stops mp key (ix mp key d)"
proof -
  have sh: "shape mp" using assms by (simp add: has_room_def table_def)
  obtain p where p: "p < length (exist mp)" "\<not> exist mp ! p" using hole_exists [OF assms] by blast
  obtain d0 where "p = ix mp key d0" using ix_surj [OF sh p(1)] by blast
  then have ex: "stops mp key (ix mp key d0)" using p(2) by (simp add: stops_def)
  define d where "d = (LEAST d. stops mp key (ix mp key d))"
  have d: "stops mp key (ix mp key d)" unfolding d_def by (rule LeastI [of "\<lambda>d. stops mp key (ix mp key d)", OF ex])
  have less: "\<not> stops mp key (ix mp key e)" if "e < d" for e using not_less_Least [of e] that unfolding d_def by blast
  obtain w where "probe_from mp key (hash_map mp key) = Some w" "unat w = ix mp key (0 + d)"
    using probe_from_eq [OF sh, of "hash_map mp key" key 0 d] ix_0 [OF sh] less d by auto
  then show thesis using that [of w d] less d by (auto simp: probe_map_def stops_def)
qed

lemma found_unique: "table mp \<Longrightarrow> found mp key p \<Longrightarrow> found mp key q \<Longrightarrow> p = q"
  unfolding table_def found_def by blast

lemma lookup_found: "table mp \<Longrightarrow> found mp key p \<Longrightarrow> lookup mp key = Some (vals mp ! p)"
  unfolding lookup_def using found_unique [of mp key] by (metis the_equality)

lemma lookup_not_found: "(\<And>p. \<not> found mp key p) \<Longrightarrow> lookup mp key = None"
  by (simp add: lookup_def)

text \<open>A key that is in the table is not behind a hole.\<close>

lemma hole_not_found:
  assumes "table mp" and "\<not> exist mp ! ix mp key d" and "\<forall>e < d. keys mp ! ix mp key e \<noteq> key"
  shows "\<not> found mp key p"
proof
  assume f: "found mp key p"
  then obtain d' where d': "p = ix mp key d'" "\<forall>e < d'. exist mp ! ix mp key e"
    using assms(1) unfolding table_def found_def by metis
  have "d' < d \<or> d' = d \<or> d < d'" by linarith
  then show False using assms(2,3) d' f by (auto simp: found_def)
qed

lemma get_map_eq:
  assumes "has_room mp n"
  shows "get_map mp key = Some (lookup mp key)"
proof -
  have t: "table mp" and sh: "shape mp" using assms by (simp_all add: has_room_def table_def)
  obtain w d where p: "probe_map mp key = Some w" "unat w = ix mp key d" "\<forall>e < d. exist mp ! ix mp key e"
    "\<forall>e < d. keys mp ! ix mp key e \<noteq> key" "stops mp key (ix mp key d)" by (rule probe_map_eq [OF assms])
  have lt: "ix mp key d < length (exist mp)" by (rule ix_less [OF sh])
  have lv: "length (vals mp) = length (exist mp)" using sh by (simp add: shape_def)
  show ?thesis
  proof (cases "exist mp ! ix mp key d")
    case True
    then have "found mp key (ix mp key d)" using p(5) lt by (simp add: found_def stops_def)
    from lookup_found [OF t this] show ?thesis using True p(1,2) lt lv by (simp add: get_map_def)
  next
    case False
    have "lookup mp key = None" by (rule lookup_not_found [OF hole_not_found [OF t False p(4)]])
    then show ?thesis using False p(1,2) lt by (simp add: get_map_def)
  qed
qed

text \<open>Writing a key at the position that probing found.\<close>

definition stored :: "hmap \<Rightarrow> int \<Rightarrow> int \<Rightarrow> nat \<Rightarrow> hmap" where
  "stored mp key value p = mp\<lparr>keys := (keys mp)[p := key], vals := (vals mp)[p := value], exist := (exist mp)[p := True]\<rparr>"

lemma stored_simps [simp]:
  "keys (stored mp k v p) = (keys mp)[p := k]" "vals (stored mp k v p) = (vals mp)[p := v]"
  "exist (stored mp k v p) = (exist mp)[p := True]" "hash_map (stored mp k v p) = hash_map mp"
  "ix (stored mp k v p) = ix mp" "shape (stored mp k v p) = shape mp"
  by (simp_all add: stored_def hash_map_def ix_def shape_def fun_eq_iff)

lemma found_stored:
  assumes "shape mp" and "p < length (exist mp)" and "stops mp key p"
  shows "found (stored mp key v p) k q \<longleftrightarrow> (if q = p then k = key else found mp k q)"
  using assms by (auto simp: found_def shape_def)

lemma table_stored:
  assumes t: "table mp" and p: "p = ix mp key d" and path: "\<forall>e < d. exist mp ! ix mp key e"
    and st: "stops mp key p" and new: "\<not> exist mp ! p \<Longrightarrow> (\<And>q. \<not> found mp key q)"
  shows "table (stored mp key v p)"
proof -
  let ?mp = "stored mp key v p"
  have sh: "shape mp" using t by (simp add: table_def)
  have lt: "p < length (exist mp)" unfolding p by (rule ix_less [OF sh])
  have fs: "\<And>k q. found ?mp k q \<longleftrightarrow> (if q = p then k = key else found mp k q)" by (rule found_stored [OF sh lt st])
  have no_other: "\<not> found mp key q" if "q \<noteq> p" for q
    using that st new found_unique [OF t, of key p q] lt by (auto simp: stops_def found_def)
  have "a = b" if "found ?mp k a" "found ?mp k b" for k a b
    using that fs no_other found_unique [OF t] by (metis (full_types))
  moreover have "\<exists>d. q = ix mp (keys ?mp ! q) d \<and> (\<forall>e < d. exist ?mp ! ix mp (keys ?mp ! q) e)"
    if q: "q < length (exist mp)" "exist ?mp ! q" for q
  proof (cases "q = p")
    case True
    have "keys ?mp ! q = key" using True lt sh by (simp add: shape_def)
    then show ?thesis using True p path lt by (intro exI [of _ d]) (auto simp: nth_list_update)
  next
    case False
    then have "exist mp ! q" using q by simp
    then obtain d' where "q = ix mp (keys mp ! q) d'" "\<forall>e < d'. exist mp ! ix mp (keys mp ! q) e"
      using t q(1) unfolding table_def by blast
    then show ?thesis using False lt by (intro exI [of _ d']) (auto simp: nth_list_update)
  qed
  ultimately show ?thesis unfolding table_def using sh by (simp add: found_def)
qed

lemma lookup_stored:
  assumes "table mp" and "table (stored mp key v p)" and "p < length (exist mp)" and "stops mp key p"
    and "\<not> exist mp ! p \<Longrightarrow> (\<And>q. \<not> found mp key q)"
  shows "lookup (stored mp key v p) = (lookup mp)(key := Some v)"
proof
  fix k
  have sh: "shape mp" using assms(1) by (simp add: table_def)
  then have lv: "p < length (vals mp)" using assms(3) by (simp add: shape_def)
  note fs = found_stored [OF sh assms(3,4), of v]
  show "lookup (stored mp key v p) k = ((lookup mp)(key := Some v)) k"
  proof (cases "k = key")
    case True
    then have "found (stored mp key v p) k p" using fs by simp
    from lookup_found [OF assms(2) this] show ?thesis using True lv by simp
  next
    case False
    show ?thesis
    proof (cases "\<exists>q. found mp k q")
      case True
      then obtain q where q: "found mp k q" by blast
      moreover have "q \<noteq> p" using q assms(4) False by (auto simp: found_def stops_def)
      ultimately have "found (stored mp key v p) k q" using fs by simp
      from lookup_found [OF assms(2) this] lookup_found [OF assms(1) q] show ?thesis using False \<open>q \<noteq> p\<close> by simp
    next
      case none: False
      then have "\<not> found (stored mp key v p) k q" for q using fs False by auto
      then show ?thesis using lookup_not_found none False by simp
    qed
  qed
qed

lemma set_map_ok:
  assumes "has_room mp (Suc n)"
  shows "\<exists>mp'. set_map mp key v = Some mp' \<and> has_room mp' n \<and> lookup mp' = (lookup mp)(key := Some v)"
proof -
  have t: "table mp" and sh: "shape mp" using assms by (simp_all add: has_room_def table_def)
  obtain w d where p: "probe_map mp key = Some w" "unat w = ix mp key d" "\<forall>e < d. exist mp ! ix mp key e"
    "\<forall>e < d. keys mp ! ix mp key e \<noteq> key" "stops mp key (ix mp key d)" by (rule probe_map_eq [OF assms])
  have lt: "ix mp key d < length (exist mp)" by (rule ix_less [OF sh])
  have new: "\<not> found mp key q" if "\<not> exist mp ! ix mp key d" for q by (rule hole_not_found [OF t that p(4)])
  let ?mp = "stored mp key v (ix mp key d)"
  have "set_map mp key v = Some ?mp" using p(1,2) lt sh by (simp add: set_map_def stored_def shape_def)
  moreover have t': "table ?mp" by (rule table_stored [OF t refl p(3,5) new])
  moreover have "used ?mp \<le> used mp + 1"
    using cnt_update [OF lt, of "\<lambda>b. b" True] by (simp add: used_def split: if_splits)
  ultimately show ?thesis
    using assms lookup_stored [OF t t' lt p(5) new] by (auto simp: has_room_def)
qed

interpretation hash_table: kv_map has_room lookup get_map set_map
  by unfold_locales (rule get_map_eq, assumption, rule set_map_ok, assumption)

subsection \<open>Creating the map\<close>

lemma round_up_eq:
  assumes "cp \<le> 2 ^ 30" and "k \<le> 30"
  shows "\<exists>j \<ge> k. j \<le> 30 \<and> round_up k cp = Some (2 ^ j) \<and> cp \<le> 2 ^ j"
  using assms(2)
proof (induction "30 - k" arbitrary: k)
  case 0
  then show ?case using assms(1) by (intro exI [of _ 30]) (simp add: round_up.simps)
next
  case (Suc n)
  show ?case
  proof (cases "2 ^ k < cp")
    case True
    have k: "k + 1 \<le> 30" "n = 30 - (k + 1)" using Suc.hyps(2) by simp_all
    have "(2::int) ^ (k + 1) \<le> 2 ^ 30" by (rule power_increasing [OF k(1)]) simp
    moreover have "(0::int) < 2 ^ (k + 1)" by simp
    moreover have "to_i32 c = Some c" if "c \<le> 2 ^ 30" "0 < c" for c using that by simp
    ultimately have "to_i32 (2 ^ (k + 1)) = Some (2 ^ (k + 1))" by blast
    then have "round_up k cp = round_up (k + 1) cp" using True by (subst round_up.simps) simp
    then show ?thesis using Suc.hyps(1) [OF k(2,1)] by (metis add_leD1)
  next
    case False
    then show ?thesis using Suc.prems by (intro exI [of _ k]) (simp add: round_up.simps)
  qed
qed

text \<open>What is relied on of the allocation functions, and that they succeed.\<close>

definition alloc :: "(nat \<Rightarrow> int list option) \<Rightarrow> bool" where
  "alloc f \<longleftrightarrow> (\<forall>n. \<exists>b. f n = Some b \<and> length b = n)"

definition zero_alloc :: "(nat \<Rightarrow> bool list option) \<Rightarrow> bool" where
  "zero_alloc f \<longleftrightarrow> (\<forall>n. f n = Some (replicate n False))"

lemma init_map_eq:
  assumes "alloc ks" and "alloc vs" and "zero_alloc es" and "2 * n \<le> 2 ^ 30"
  shows "\<exists>mp. init_map ks vs es (2 * int n) = Some (True, mp) \<and> has_room mp n \<and> lookup mp = Map.empty"
proof -
  have "2 * int n \<le> 2 ^ 30" using assms(4) by (metis of_nat_le_iff of_nat_mult of_nat_numeral of_nat_power)
  then obtain j where j: "j \<le> 30" "round_up 0 (2 * int n) = Some (2 ^ j)" "2 * int n \<le> 2 ^ j"
    using round_up_eq [of "2 * int n" 0] by auto
  obtain k v where kv: "ks (2 ^ j) = Some k" "length k = 2 ^ j" "vs (2 ^ j) = Some v" "length v = 2 ^ j"
    using assms(1,2) unfolding alloc_def by blast
  have e: "es (2 ^ j) = Some (replicate (2 ^ j) False)" using assms(3) by (simp add: zero_alloc_def)
  define mp where "mp = \<lparr>keys = k, vals = v, cap = 2 ^ j, exist = replicate (2 ^ j) False, mask = of_int (2 ^ j - 1)\<rparr>"
  have i: "init_map ks vs es (2 * int n) = Some (True, mp)" using j(2) kv e by (simp add: init_map_def mp_def nat_power_eq)
  have "shape mp" unfolding shape_def mp_def using j(1) kv by (intro conjI exI [of _ j]) simp_all
  then have "table mp" by (simp add: table_def mp_def)
  moreover have "used mp = 0" unfolding used_def mp_def by (rule cnt_none_true) simp
  moreover have "n < 2 ^ j"
  proof -
    have "2 * n \<le> 2 ^ j" using j(3) by (metis of_nat_le_iff of_nat_mult of_nat_numeral of_nat_power)
    then show ?thesis by (cases n) auto
  qed
  moreover have "\<not> found mp key p" for key p by (auto simp: found_def mp_def)
  then have "lookup mp = Map.empty" by (simp add: lookup_def fun_eq_iff)
  ultimately show ?thesis using i by (simp add: has_room_def mp_def)
qed

subsection \<open>The search\<close>

definition no_pair :: "int list \<Rightarrow> int \<Rightarrow> nat \<Rightarrow> bool" where
  "no_pair nums target n \<longleftrightarrow> (\<forall>b < n. \<forall>a < b. nums ! a + nums ! b \<noteq> target)"

definition pair_result :: "int list \<Rightarrow> int \<Rightarrow> (int \<times> int) option \<Rightarrow> bool" where
  "pair_result nums target r \<longleftrightarrow> (case r of
      None \<Rightarrow> no_pair nums target (length nums)
    | Some (a, b) \<Rightarrow> 0 \<le> a \<and> a < b \<and> b < int (length nums) \<and> nums ! nat a + nums ! nat b = target \<and> no_pair nums target (nat b))"

text \<open>The map knows an index for each of the first \<open>i\<close> numbers.\<close>

definition indexed :: "hmap \<Rightarrow> int list \<Rightarrow> nat \<Rightarrow> bool" where
  "indexed mp nums n \<longleftrightarrow> (\<forall>k v. lookup mp k = Some v \<longrightarrow> 0 \<le> v \<and> v < int n \<and> nums ! nat v = k)
     \<and> (\<forall>a < n. lookup mp (nums ! a) \<noteq> None)"

lemma two_sum_from_ok:
  assumes "nums = pre @ xs" and "has_room mp (length xs)" and "indexed mp nums (length pre)"
    and "\<forall>x \<in> set xs. - (2 ^ 31) \<le> target - x \<and> target - x < 2 ^ 31" and "no_pair nums target (length pre)"
  shows "\<exists>r. two_sum_from mp target (int (length pre)) xs = Some r \<and> pair_result nums target r"
  using assms
proof (induction xs arbitrary: pre mp)
  case Nil
  then show ?case by (simp add: pair_result_def)
next
  case (Cons x xs)
  let ?n = "length pre"
  have x: "nums ! ?n = x" and n: "?n < length nums" using Cons.prems(1) by simp_all
  have want: "to_i32 (target - x) = Some (target - x)" using Cons.prems(4) by simp
  have get: "get_map mp (target - x) = Some (lookup mp (target - x))" by (rule hash_table.get_look [OF Cons.prems(2)])
  show ?case
  proof (cases "lookup mp (target - x)")
    case (Some v)
    then have v: "0 \<le> v" "v < int ?n" "nums ! nat v = target - x" using Cons.prems(3) by (auto simp: indexed_def)
    then have "pair_result nums target (Some (v, int ?n))" using x n Cons.prems(5) by (simp add: pair_result_def)
    then show ?thesis using want get Some by simp
  next
    case None
    obtain mp' where mp': "set_map mp x (int ?n) = Some mp'" "has_room mp' (length xs)" "lookup mp' = (lookup mp)(x := Some (int ?n))"
      using hash_table.put_ok [of mp "length xs" x "int ?n"] Cons.prems(2) by auto
    have "\<exists>r. two_sum_from mp' target (int (length (pre @ [x]))) xs = Some r \<and> pair_result nums target r"
    proof (rule Cons.IH)
      show "indexed mp' nums (length (pre @ [x]))"
        using Cons.prems(3) mp'(3) x by (fastforce simp: indexed_def less_Suc_eq split: if_splits)
      have "nums ! a + x \<noteq> target" if "a < ?n" for a
      proof
        assume "nums ! a + x = target"
        then have "lookup mp (nums ! a) = None" using None by (metis add_diff_cancel_right')
        then show False using Cons.prems(3) that unfolding indexed_def by blast
      qed
      then show "no_pair nums target (length (pre @ [x]))" using Cons.prems(5) x by (auto simp: no_pair_def less_Suc_eq)
    qed (use Cons.prems(1,4) mp'(2) in simp_all)
    then show ?thesis using want get None mp'(1) by (simp add: add.commute)
  qed
qed

subsection \<open>Properties\<close>

text \<open>
  C14: \<open>twoSum\<close> is right: when its allocations succeed, the array has at most \<open>2\<^sup>2\<^sup>9\<close> numbers and no difference overflows, it
  returns (the probing always ends), two indices \<open>a < b\<close> whose numbers add up to the target, with \<open>b\<close> as small as
  possible, if there are such indices, and a null pointer otherwise.
\<close>

theorem twoSum_correct:
  assumes "alloc ks" and "alloc vs" and "zero_alloc es" and "length nums \<le> 2 ^ 29"
    and "\<forall>x \<in> set nums. - (2 ^ 31) \<le> target - x \<and> target - x < 2 ^ 31"
  shows "\<exists>r. twoSum True ks vs es nums target = Some r \<and> pair_result nums target r"
proof -
  have n: "2 * length nums \<le> 2 ^ 30" using assms(4) by simp
  obtain mp where mp: "init_map ks vs es (2 * int (length nums)) = Some (True, mp)" "has_room mp (length nums)" "lookup mp = Map.empty"
    using init_map_eq [OF assms(1-3) n] by blast
  have "to_i32 (2 * int (length nums)) = Some (2 * int (length nums))" unfolding to_i32_def using n by simp
  moreover have "\<exists>r. two_sum_from mp target (int (length ([]::int list))) nums = Some r \<and> pair_result nums target r"
    by (rule two_sum_from_ok [of nums "[]"]) (use mp assms(5) in \<open>simp_all add: indexed_def no_pair_def\<close>)
  ultimately show ?thesis using mp(1) by (simp add: twoSum_def)
qed

theorem twoSum_correct_witness:
  "\<exists>r. twoSum True zeros zeros no_keys [2, 7, 11, 15] 9 = Some r \<and> pair_result [2, 7, 11, 15] 9 r"
  by (rule twoSum_correct) (auto simp: alloc_def zero_alloc_def zeros_def no_keys_def)

text \<open>
  The hash table is a map: while it has a free place besides the one it needs, \<open>set_map\<close> succeeds, and afterwards \<open>get_map\<close> finds the
  new value for the key and what it found before for every other key, wherever collisions have moved them.
\<close>

theorem hash_get_after_set:
  assumes "has_room mp 1"
  shows "\<exists>mp'. set_map mp key value = Some mp' \<and> get_map mp' key = Some (Some value)
    \<and> (\<forall>k. k \<noteq> key \<longrightarrow> get_map mp' k = get_map mp k)"
proof -
  have room: "has_room mp (Suc 0)" using assms by simp
  obtain mp' where mp': "set_map mp key value = Some mp'" using hash_table.put_ok [OF room] by blast
  show ?thesis
    using hash_table.get_after_put [OF room mp'] hash_table.get_look [OF room] mp' by auto
qed

theorem hash_get_after_set_witness:
  "\<exists>mp'. set_map \<lparr>keys = [0, 0], vals = [0, 0], cap = 2, exist = [False, False], mask = 1\<rparr> 5 7 = Some mp'
    \<and> get_map mp' 5 = Some (Some 7)"
proof -
  have "has_room \<lparr>keys = [0, 0], vals = [0, 0], cap = 2, exist = [False, False], mask = 1\<rparr> 1"
    unfolding has_room_def table_def shape_def by (auto simp: used_def less_Suc_eq numeral_2_eq_2 intro!: exI [of _ 1])
  from hash_get_after_set [OF this, of 5 7] show ?thesis by auto
qed

lemma two_sum_main_passes: "main = Some ()"
  by code_simp

end
