(* ===== verification/Lru_Cache.thy ===== *)
theory Lru_Cache
  imports CPrelude
begin

text \<open>
  \<open>leetcode/11-lru-cache.cpp\<close>: a cache with least-recently-used eviction: a doubly linked list of key-value pairs and a hash map
  from keys to list iterators.  A list node has an identity (a number), which is what an iterator holds: \<open>splice\<close> moves
  a node without changing its identity, \<open>push_front\<close> makes a node with a new one.  Using an iterator of a node that is not
  in the list is undefined (\<^const>\<open>None\<close>).  The specification is a list of pairs, most recently used first.
\<close>

type_synonym node = "nat \<times> int \<times> int"

record lru =
  lst :: "node list"
  keys :: "int \<Rightarrow> nat option"
  capacity :: size_t
  fresh_id :: nat

definition lru_init :: "int \<Rightarrow> lru" where
  "lru_init cap = \<lparr>lst = [], keys = (\<lambda>k. None), capacity = of_int cap, fresh_id = 0\<rparr>"

definition splice_front :: "node list \<Rightarrow> nat \<Rightarrow> node list option" where
  "splice_front l it = do {
     n \<leftarrow> map_of l it;
     Some ((it, n) # filter (\<lambda>m. fst m \<noteq> it) l)
   }"

definition front :: "node list \<Rightarrow> node option" where
  "front l = rd l 0"

definition lru_get :: "lru \<Rightarrow> int \<Rightarrow> (int \<times> lru) option" where
  "lru_get c key =
     (case keys c key of
        None \<Rightarrow> Some (- 1, c)
      | Some it \<Rightarrow> do {
          l \<leftarrow> splice_front (lst c) it;
          n \<leftarrow> front l;
          Some (snd (snd n), c\<lparr>lst := l\<rparr>)
        })"

definition lru_put :: "lru \<Rightarrow> int \<Rightarrow> int \<Rightarrow> lru option" where
  "lru_put c key value =
     (case keys c key of
        Some it \<Rightarrow> do {
          l \<leftarrow> splice_front (lst c) it;
          n \<leftarrow> front l;
          l \<leftarrow> wr l 0 (fst n, fst (snd n), value);
          Some (c\<lparr>lst := l\<rparr>)
        }
      | None \<Rightarrow> (let l = (fresh_id c, key, value) # lst c;
            c = c\<lparr>lst := l, keys := (keys c)(key := Some (fresh_id c)), fresh_id := fresh_id c + 1\<rparr>
          in if length l > unat (capacity c)
             then do {
               back \<leftarrow> rd l (length l - 1);
               Some (c\<lparr>lst := butlast l, keys := (keys c)(fst (snd back) := None)\<rparr>)
             }
             else Some c))"

datatype op = Get int | Put int int

text \<open>A sequence of calls and the values the \<open>get\<close>s return.\<close>

fun lru_run :: "lru \<Rightarrow> op list \<Rightarrow> (int list \<times> lru) option" where
  "lru_run c [] = Some ([], c)"
| "lru_run c (Get k # ops) = do {
     (v, c) \<leftarrow> lru_get c k;
     (vs, c) \<leftarrow> lru_run c ops;
     Some (v # vs, c)
   }"
| "lru_run c (Put k v # ops) = do {
     c \<leftarrow> lru_put c k v;
     lru_run c ops
   }"

definition expect_gets :: "int \<Rightarrow> op list \<Rightarrow> int list \<Rightarrow> unit option" where
  "expect_gets cap ops res = do {
     (vs, c) \<leftarrow> lru_run (lru_init cap) ops;
     c_assert (vs = res)
   }"

definition main :: "unit option" where
  "main = do {
     expect_gets 3 [Put 1 1, Put 2 2, Put 3 3, Put 4 4, Get 1] [- 1];
     expect_gets 2 [Put 1 1, Put 2 2, Get 1, Put 3 3, Get 2, Put 4 4, Get 1, Get 3, Get 4] [1, - 1, - 1, 3, 4];
     expect_gets 2 [Put 1 1, Put 1 10, Get 1] [10]
   }"

subsection \<open>The specification\<close>

type_synonym cache = "(int \<times> int) list"

definition others :: "int \<Rightarrow> cache \<Rightarrow> cache" where
  "others k xs = filter (\<lambda>p. fst p \<noteq> k) xs"

definition spec_get :: "cache \<Rightarrow> int \<Rightarrow> int \<times> cache" where
  "spec_get xs k = (case map_of xs k of None \<Rightarrow> (- 1, xs) | Some v \<Rightarrow> (v, (k, v) # others k xs))"

definition spec_put :: "nat \<Rightarrow> cache \<Rightarrow> int \<Rightarrow> int \<Rightarrow> cache" where
  "spec_put n xs k v = take n ((k, v) # others k xs)"

fun spec_run :: "nat \<Rightarrow> cache \<Rightarrow> op list \<Rightarrow> int list \<times> cache" where
  "spec_run n xs [] = ([], xs)"
| "spec_run n xs (Get k # ops) = (let (v, xs) = spec_get xs k; (vs, xs) = spec_run n xs ops in (v # vs, xs))"
| "spec_run n xs (Put k v # ops) = spec_run n (spec_put n xs k v) ops"

subsection \<open>The cache refines the specification\<close>

definition pairs :: "lru \<Rightarrow> cache" where
  "pairs c = map snd (lst c)"

definition lru_ok :: "lru \<Rightarrow> bool" where
  "lru_ok c \<longleftrightarrow> distinct (map fst (lst c)) \<and> distinct (map fst (pairs c)) \<and> length (lst c) \<le> unat (capacity c)
     \<and> (\<forall>x \<in> set (lst c). fst x < fresh_id c) \<and> (\<forall>k it. keys c k = Some it \<longleftrightarrow> (\<exists>v. (it, k, v) \<in> set (lst c)))"

lemma lru_init_ok: "lru_ok (lru_init cap)" "pairs (lru_init cap) = []"
  by (simp_all add: lru_ok_def lru_init_def pairs_def)

lemma keys_None:
  assumes "lru_ok c"
  shows "keys c k = None \<longleftrightarrow> map_of (pairs c) k = None"
proof -
  have "keys c k = None \<longleftrightarrow> (\<forall>it v. (it, k, v) \<notin> set (lst c))" using assms unfolding lru_ok_def by (metis not_Some_eq)
  also have "\<dots> \<longleftrightarrow> k \<notin> fst ` set (pairs c)" by (force simp: pairs_def)
  also have "\<dots> \<longleftrightarrow> map_of (pairs c) k = None" by (simp add: map_of_eq_None_iff)
  finally show ?thesis .
qed

lemma distinct_keys_node:
  assumes "lru_ok c" and "(it, k, v) \<in> set (lst c)" and "x \<in> set (lst c)"
  shows "fst x = it \<longleftrightarrow> fst (snd x) = k"
proof -
  have "inj_on fst (set (lst c))" "inj_on (\<lambda>x. fst (snd x)) (set (lst c))"
    using assms(1) by (auto simp: lru_ok_def pairs_def distinct_map comp_def)
  from inj_on_eq_iff [OF this(1) assms(3,2)] inj_on_eq_iff [OF this(2) assms(3,2)] show ?thesis by simp
qed

text \<open>The node of a key that is in the map, and the list after moving it to the front.\<close>

lemma keys_Some:
  assumes "lru_ok c" and "keys c k = Some it"
  obtains v where "(it, k, v) \<in> set (lst c)" "map_of (pairs c) k = Some v"
    "splice_front (lst c) it = Some ((it, k, v) # filter (\<lambda>m. fst m \<noteq> it) (lst c))"
    "map snd (filter (\<lambda>m. fst m \<noteq> it) (lst c)) = others k (pairs c)"
proof -
  obtain v where v: "(it, k, v) \<in> set (lst c)" using assms unfolding lru_ok_def by blast
  have "map_of (lst c) it = Some (k, v)" using assms(1) v by (intro map_of_is_SomeI) (auto simp: lru_ok_def)
  then have "splice_front (lst c) it = Some ((it, k, v) # filter (\<lambda>m. fst m \<noteq> it) (lst c))" by (simp add: splice_front_def)
  moreover have "map_of (pairs c) k = Some v"
    using assms(1) v by (intro map_of_is_SomeI) (force simp: lru_ok_def pairs_def)+
  moreover have "map snd (filter (\<lambda>m. fst m \<noteq> it) (lst c)) = others k (pairs c)"
  proof -
    have "filter (\<lambda>m. fst m \<noteq> it) (lst c) = filter (\<lambda>m. fst (snd m) \<noteq> k) (lst c)"
      by (rule filter_cong) (simp_all add: distinct_keys_node [OF assms(1) v])
    then show ?thesis by (simp add: others_def pairs_def filter_map comp_def)
  qed
  ultimately show thesis using that v by blast
qed

lemma moved_ok:
  assumes ok: "lru_ok c" and node: "(it, k, v) \<in> set (lst c)"
  shows "lru_ok (c\<lparr>lst := (it, k, w) # filter (\<lambda>m. fst m \<noteq> it) (lst c)\<rparr>)"
proof -
  let ?f = "filter (\<lambda>m. fst m \<noteq> it) (lst c)"
  have iff: "\<And>x. x \<in> set (lst c) \<Longrightarrow> fst x = it \<longleftrightarrow> fst (snd x) = k" by (rule distinct_keys_node [OF ok node])
  have "length ?f < length (lst c)" using node by (intro length_filter_less) auto
  moreover have "distinct (map fst ?f)" "distinct (map (\<lambda>x. fst (snd x)) ?f)"
    using ok by (simp_all add: lru_ok_def pairs_def comp_def distinct_map_filter)
  moreover have "k \<notin> (\<lambda>x. fst (snd x)) ` set ?f" using iff by auto
  moreover have "(\<exists>u. (i, j, u) \<in> set ((it, k, w) # ?f)) \<longleftrightarrow> (\<exists>u. (i, j, u) \<in> set (lst c))" for i j
  proof (cases "i = it \<and> j = k")
    case True
    then show ?thesis using node by auto
  next
    case False
    then show ?thesis using iff [of "(i, j, u)" for u] by auto
  qed
  ultimately show ?thesis using ok node unfolding lru_ok_def pairs_def by (auto simp: comp_def)
qed

lemma lru_get_refines:
  assumes "lru_ok c"
  shows "\<exists>c'. lru_get c k = Some (fst (spec_get (pairs c) k), c') \<and> lru_ok c' \<and> pairs c' = snd (spec_get (pairs c) k)
    \<and> capacity c' = capacity c"
proof (cases "keys c k")
  case None
  then show ?thesis using assms keys_None [OF assms, of k] by (simp add: lru_get_def spec_get_def)
next
  case (Some it)
  obtain v where v: "(it, k, v) \<in> set (lst c)" "map_of (pairs c) k = Some v"
    "splice_front (lst c) it = Some ((it, k, v) # filter (\<lambda>m. fst m \<noteq> it) (lst c))"
    "map snd (filter (\<lambda>m. fst m \<noteq> it) (lst c)) = others k (pairs c)"
    by (rule keys_Some [OF assms Some])
  show ?thesis
    using Some v moved_ok [OF assms v(1), of v] by (simp add: lru_get_def spec_get_def front_def pairs_def)
qed

lemma new_ok:
  assumes "lru_ok c" and "keys c k = None" and "length (lst c) < unat (capacity c)"
  shows "lru_ok (c\<lparr>lst := (fresh_id c, k, v) # lst c, keys := (keys c)(k := Some (fresh_id c)), fresh_id := fresh_id c + 1\<rparr>)"
proof -
  have "k \<notin> fst ` set (pairs c)" using keys_None [OF assms(1), of k] assms(2) by (simp add: map_of_eq_None_iff)
  moreover have "\<forall>x \<in> set (lst c). fst x \<noteq> fresh_id c" using assms(1) by (auto simp: lru_ok_def)
  moreover have "\<forall>it v. (it, k, v) \<notin> set (lst c)" using assms(1,2) unfolding lru_ok_def by (metis option.distinct(1))
  ultimately show ?thesis using assms unfolding lru_ok_def pairs_def by (auto simp: less_Suc_eq)
qed

text \<open>Dropping the last node together with its key.\<close>

lemma dropped_ok:
  assumes d: "distinct (map fst (xs @ [b]))" "distinct (map (\<lambda>x. fst (snd x)) (xs @ [b]))"
    and ks: "\<And>k it. keys c k = Some it \<longleftrightarrow> (\<exists>v. (it, k, v) \<in> set (xs @ [b]))"
    and len: "length xs \<le> unat (capacity c)" and ids: "\<forall>x \<in> set xs. fst x < fresh_id c"
  shows "lru_ok (c\<lparr>lst := xs, keys := (keys c)(fst (snd b) := None)\<rparr>)"
proof -
  have "((keys c)(fst (snd b) := None)) k = Some it \<longleftrightarrow> (\<exists>v. (it, k, v) \<in> set xs)" for k it
  proof (cases "k = fst (snd b)")
    case True
    have "fst (snd b) \<notin> (\<lambda>x. fst (snd x)) ` set xs" using d(2) by simp
    then have "\<not> (\<exists>v. (it, k, v) \<in> set xs)" using True by (metis fst_conv image_eqI snd_conv)
    then show ?thesis using True by simp
  next
    case False
    then show ?thesis using ks [of k it] by (cases b) auto
  qed
  then show ?thesis using d len ids unfolding lru_ok_def pairs_def by (auto simp: comp_def)
qed

lemma lru_put_new:
  assumes ok: "lru_ok c" and new: "keys c k = None"
  shows "\<exists>c'. lru_put c k v = Some c' \<and> lru_ok c' \<and> pairs c' = take (unat (capacity c)) ((k, v) # pairs c) \<and> capacity c' = capacity c"
proof (cases "length (lst c) < unat (capacity c)")
  case True
  then show ?thesis using new_ok [OF ok new True, of v] new by (simp add: lru_put_def Let_def pairs_def)
next
  case False
  then have len: "length (lst c) = unat (capacity c)" using ok by (simp add: lru_ok_def)
  let ?l = "(fresh_id c, k, v) # lst c"
  let ?c = "c\<lparr>lst := ?l, keys := (keys c)(k := Some (fresh_id c)), fresh_id := fresh_id c + 1\<rparr>"
  define xs b where "xs = butlast ?l" and "b = last ?l"
  have l: "?l = xs @ [b]" by (simp add: xs_def b_def)
  have none: "k \<notin> fst ` set (pairs c)" "\<forall>it v. (it, k, v) \<notin> set (lst c)"
    using keys_None [OF ok, of k] new ok unfolding lru_ok_def by (auto simp: map_of_eq_None_iff) (metis option.distinct(1))
  have "lru_ok (?c\<lparr>lst := xs, keys := (keys ?c)(fst (snd b) := None)\<rparr>)"
  proof (rule dropped_ok)
    show "distinct (map fst (xs @ [b]))" "distinct (map (\<lambda>x. fst (snd x)) (xs @ [b]))"
      unfolding l [symmetric] using ok none by (auto simp: lru_ok_def pairs_def comp_def)
    show "\<And>k' it. keys ?c k' = Some it \<longleftrightarrow> (\<exists>v. (it, k', v) \<in> set (xs @ [b]))"
      unfolding l [symmetric] using ok none by (auto simp: lru_ok_def)
    show "length xs \<le> unat (capacity ?c)" using len unfolding xs_def length_butlast by simp
    have "\<forall>x \<in> set ?l. fst x < fresh_id ?c" using ok by (auto simp: lru_ok_def less_Suc_eq)
    then show "\<forall>x \<in> set xs. fst x < fresh_id ?c" unfolding xs_def by (metis in_set_butlastD)
  qed
  moreover have "lru_put c k v = Some (?c\<lparr>lst := xs, keys := (keys ?c)(fst (snd b) := None)\<rparr>)"
  proof -
    have "rd ?l (length ?l - 1) = Some b" by (simp add: b_def last_conv_nth)
    then show ?thesis using new len by (simp add: lru_put_def Let_def xs_def)
  qed
  moreover have "map snd xs = take (unat (capacity c)) ((k, v) # pairs c)"
    using take_map [of "unat (capacity c)" snd ?l, symmetric] len by (simp add: xs_def butlast_conv_take pairs_def)
  ultimately show ?thesis by (simp add: pairs_def)
qed

lemma lru_put_refines:
  assumes "lru_ok c"
  shows "\<exists>c'. lru_put c k v = Some c' \<and> lru_ok c' \<and> pairs c' = spec_put (unat (capacity c)) (pairs c) k v \<and> capacity c' = capacity c"
proof (cases "keys c k")
  case None
  have "others k (pairs c) = pairs c"
    using keys_None [OF assms, of k] None by (auto simp: others_def map_of_eq_None_iff intro!: filter_True)
  then show ?thesis using lru_put_new [OF assms None, of v] by (simp add: spec_put_def)
next
  case (Some it)
  obtain u where u: "(it, k, u) \<in> set (lst c)" "map_of (pairs c) k = Some u"
    "splice_front (lst c) it = Some ((it, k, u) # filter (\<lambda>m. fst m \<noteq> it) (lst c))"
    "map snd (filter (\<lambda>m. fst m \<noteq> it) (lst c)) = others k (pairs c)"
    by (rule keys_Some [OF assms Some])
  let ?l = "(it, k, v) # filter (\<lambda>m. fst m \<noteq> it) (lst c)"
  have ok: "lru_ok (c\<lparr>lst := ?l\<rparr>)" by (rule moved_ok [OF assms u(1)])
  have "length ((k, v) # others k (pairs c)) \<le> unat (capacity c)"
    using ok u(4) by (metis (no_types, lifting) length_Cons length_map lru_ok_def lru.select_convs(1,3) lru.surjective lru.update_convs(1))
  then show ?thesis using Some u ok by (simp add: lru_put_def spec_put_def front_def pairs_def)
qed

lemma lru_run_refines:
  assumes "lru_ok c"
  shows "\<exists>c'. lru_run c ops = Some (fst (spec_run (unat (capacity c)) (pairs c) ops), c') \<and> lru_ok c'
    \<and> pairs c' = snd (spec_run (unat (capacity c)) (pairs c) ops)"
  using assms
proof (induction ops arbitrary: c)
  case Nil
  then show ?case by simp
next
  case (Cons oper ops)
  show ?case
  proof (cases oper)
    case (Get k)
    obtain c1 where c1: "lru_get c k = Some (fst (spec_get (pairs c) k), c1)" "lru_ok c1"
      "pairs c1 = snd (spec_get (pairs c) k)" "capacity c1 = capacity c" using lru_get_refines [OF Cons.prems] by blast
    then show ?thesis using Cons.IH [OF c1(2)] Get by (auto simp: Let_def split_beta)
  next
    case (Put k v)
    obtain c1 where c1: "lru_put c k v = Some c1" "lru_ok c1" "pairs c1 = spec_put (unat (capacity c)) (pairs c) k v"
      "capacity c1 = capacity c" using lru_put_refines [OF Cons.prems] by blast
    then show ?thesis using Cons.IH [OF c1(2)] Put by auto
  qed
qed

subsection \<open>What the specification keeps: the most recently used keys and their last values\<close>

fun recent :: "int list \<Rightarrow> int list" where
  "recent [] = []"
| "recent (k # us) = k # filter (\<lambda>x. x \<noteq> k) (recent us)"

text \<open>The keys used so far, latest first: those put, and those got while they were in the cache.\<close>

fun uses :: "nat \<Rightarrow> cache \<Rightarrow> int list \<Rightarrow> op list \<Rightarrow> int list" where
  "uses n xs us [] = us"
| "uses n xs us (Get k # ops) = uses n (snd (spec_get xs k)) (if map_of xs k = None then us else k # us) ops"
| "uses n xs us (Put k v # ops) = uses n (spec_put n xs k v) (k # us) ops"

fun puts :: "(int \<times> int) list \<Rightarrow> op list \<Rightarrow> (int \<times> int) list" where
  "puts ps [] = ps"
| "puts ps (Get k # ops) = puts ps ops"
| "puts ps (Put k v # ops) = puts ((k, v) # ps) ops"

lemma distinct_recent: "distinct (recent us)"
  by (induction us) auto

lemma length_filter_neq: "distinct xs \<Longrightarrow> length xs \<le> length (filter (\<lambda>x. x \<noteq> k) xs) + 1"
proof (induction xs)
  case (Cons x xs)
  then have "filter (\<lambda>y. y \<noteq> k) xs = xs" if "x = k" using that by (intro filter_True) auto
  then show ?case using Cons by (cases "x = k") auto
qed simp

lemma take_filter_take:
  assumes "distinct ds"
  shows "take n (k # filter (\<lambda>x. x \<noteq> k) (take n ds)) = take n (k # filter (\<lambda>x. x \<noteq> k) ds)"
proof (cases n)
  case (Suc m)
  have "filter (\<lambda>x. x \<noteq> k) ds = filter (\<lambda>x. x \<noteq> k) (take n ds) @ filter (\<lambda>x. x \<noteq> k) (drop n ds)"
    by (metis append_take_drop_id filter_append)
  moreover have "m \<le> length (filter (\<lambda>x. x \<noteq> k) (take n ds)) \<or> drop n ds = []"
    using length_filter_neq [of "take n ds" k] assms Suc by auto
  ultimately show ?thesis using Suc by auto
qed simp

lemma map_fst_others: "map fst (others k xs) = filter (\<lambda>x. x \<noteq> k) (map fst xs)"
  by (simp add: others_def filter_map comp_def)

lemma spec_put_recent:
  assumes "map fst xs = take n (recent us)"
  shows "map fst (spec_put n xs k v) = take n (recent (k # us))"
  unfolding spec_put_def take_map [symmetric] list.map map_fst_others assms
  using take_filter_take [OF distinct_recent, of n k us] by simp

lemma spec_get_recent:
  assumes "map fst xs = take n (recent us)" and "map_of xs k \<noteq> None"
  shows "map fst (snd (spec_get xs k)) = take n (recent (k # us))"
proof -
  have k: "k \<in> set (take n (recent us))" using assms by (metis list.set_map map_of_eq_None_iff)
  have "length (filter (\<lambda>x. x \<noteq> k) (take n (recent us))) < length (take n (recent us))"
    using k by (rule length_filter_less) simp
  then have "length (k # filter (\<lambda>x. x \<noteq> k) (take n (recent us))) \<le> n" by simp
  then have "k # filter (\<lambda>x. x \<noteq> k) (take n (recent us)) = take n (recent (k # us))"
    using take_filter_take [OF distinct_recent, of n k us] by simp
  moreover have "map fst (snd (spec_get xs k)) = k # filter (\<lambda>x. x \<noteq> k) (take n (recent us))"
    using assms map_fst_others [of k xs] by (auto simp: spec_get_def)
  ultimately show ?thesis by simp
qed

definition last_values :: "cache \<Rightarrow> (int \<times> int) list \<Rightarrow> bool" where
  "last_values xs ps \<longleftrightarrow> (\<forall>x \<in> set xs. map_of ps (fst x) = Some (snd x))"

lemma last_values_put: "last_values xs ps \<Longrightarrow> last_values (spec_put n xs k v) ((k, v) # ps)"
  by (auto simp: last_values_def spec_put_def others_def dest!: in_set_takeD)

lemma last_values_get: "last_values xs ps \<Longrightarrow> last_values (snd (spec_get xs k)) ps"
  by (fastforce simp: last_values_def spec_get_def others_def dest: map_of_SomeD split: option.splits)

lemma spec_run_recent:
  assumes "map fst xs = take n (recent us)" and "last_values xs ps"
  shows "map fst (snd (spec_run n xs ops)) = take n (recent (uses n xs us ops)) \<and> last_values (snd (spec_run n xs ops)) (puts ps ops)"
  using assms
proof (induction ops arbitrary: xs us ps)
  case (Cons oper ops)
  show ?case
  proof (cases oper)
    case (Get k)
    have "map fst (snd (spec_get xs k)) = take n (recent (if map_of xs k = None then us else k # us))"
      using spec_get_recent [OF Cons.prems(1), of k] Cons.prems(1) by (auto simp: spec_get_def)
    from Cons.IH [OF this last_values_get [OF Cons.prems(2)]] Get show ?thesis by (simp add: Let_def split_beta)
  next
    case (Put k v)
    from Cons.IH [OF spec_put_recent [OF Cons.prems(1)] last_values_put [OF Cons.prems(2)]] Put show ?thesis by simp
  qed
qed simp

subsection \<open>Properties\<close>

text \<open>
  C10: The linked list and the map of iterators implement the specification: for every sequence of calls on a new cache no
  dangling iterator is used, and \<open>get\<close> returns what the specification, a list of pairs with the most recently used first
  and cut to the capacity, returns.
\<close>

theorem lru_refines:
  "\<exists>c. lru_run (lru_init cap) ops = Some (fst (spec_run (unat (of_int cap :: size_t)) [] ops), c)
    \<and> map snd (lst c) = snd (spec_run (unat (of_int cap :: size_t)) [] ops)"
proof -
  have "capacity (lru_init cap) = of_int cap" by (simp add: lru_init_def)
  then show ?thesis using lru_run_refines [OF lru_init_ok(1), of cap ops] lru_init_ok(2) [of cap] unfolding pairs_def by metis
qed

text \<open>
  After any sequence of calls the cache holds exactly the \<open>capacity\<close> most recently used keys, in the order of their last
  use (a \<open>get\<close> that misses is no use), each with the value of its last \<open>put\<close>.
\<close>

theorem lru_holds_most_recent:
  "\<exists>vs c. lru_run (lru_init cap) ops = Some (vs, c)
    \<and> map (\<lambda>x. fst (snd x)) (lst c) = take (unat (of_int cap :: size_t)) (recent (uses (unat (of_int cap :: size_t)) [] [] ops))
    \<and> (\<forall>x \<in> set (lst c). map_of (puts [] ops) (fst (snd x)) = Some (snd (snd x)))"
proof -
  let ?n = "unat (of_int cap :: size_t)"
  have cap: "capacity (lru_init cap) = of_int cap" by (simp add: lru_init_def)
  obtain c where c: "lru_run (lru_init cap) ops = Some (fst (spec_run ?n [] ops), c)" "pairs c = snd (spec_run ?n [] ops)"
    using lru_run_refines [OF lru_init_ok(1), of cap ops] lru_init_ok(2) [of cap] unfolding cap by metis
  have "map fst (pairs c) = take ?n (recent (uses ?n [] [] ops))" "last_values (pairs c) (puts [] ops)"
    using spec_run_recent [of "[]" ?n "[]" "[]" ops] unfolding c(2) by (simp_all add: last_values_def)
  then show ?thesis using c(1) by (auto simp: pairs_def comp_def last_values_def)
qed

theorem lru_holds_most_recent_witness:
  "\<exists>vs c. lru_run (lru_init 2) [Put 1 1, Put 2 2, Get 1, Put 3 3] = Some (vs, c) \<and> map (\<lambda>x. fst (snd x)) (lst c) = [3, 1]"
proof -
  have "take 2 (recent (uses 2 [] [] [Put 1 1, Put 2 2, Get 1, Put 3 3])) = [3, 1]" by code_simp
  moreover have "unat (of_int 2 :: size_t) = 2" by simp
  ultimately show ?thesis using lru_holds_most_recent [of 2 "[Put 1 1, Put 2 2, Get 1, Put 3 3]"] by metis
qed

lemma lru_main_passes: "main = Some ()"
  by code_simp

end
