(* ===== verification/Grid.thy ===== *)
theory Grid
  imports CPrelude
begin

text \<open>
  What the two grid searches, \<open>leetcode/03-number-of-islands.c\<close> and \<open>leetcode/04-rotting-oranges.c\<close>, share: checked access
  to a grid of rows, the four directions, the loop over the neighbours of a cell with its bounds test, and the loop over all
  cells.  The locale \<open>marking\<close> is the contract of the loop body that marks a neighbour and queues it; the two
  programs provide it with different queues.
\<close>

subsection \<open>Loops over a list of values\<close>

fun for_each :: "('a \<Rightarrow> 's \<Rightarrow> 's option) \<Rightarrow> 'a list \<Rightarrow> 's \<Rightarrow> 's option" where
  "for_each body [] s = Some s"
| "for_each body (x # xs) s = do { s \<leftarrow> body x s; for_each body xs s }"

lemma for_each_rule:
  assumes "\<And>i s. i < length xs \<Longrightarrow> I i s \<Longrightarrow> \<exists>s'. body (xs ! i) s = Some s' \<and> I (Suc i) s'" and "I 0 s"
  shows "\<exists>s'. for_each body xs s = Some s' \<and> I (length xs) s'"
  using assms
proof (induction xs arbitrary: I s)
  case (Cons x xs)
  obtain s1 where s1: "body x s = Some s1" "I (Suc 0) s1" using Cons.prems(1) [of 0 s] Cons.prems(2) by auto
  have "\<exists>s'. for_each body xs s1 = Some s' \<and> I (Suc (length xs)) s'"
  proof (rule Cons.IH [where I = "\<lambda>i. I (Suc i)"])
    fix i s
    assume "i < length xs" "I (Suc i) s"
    then show "\<exists>s'. body (xs ! i) s = Some s' \<and> I (Suc (Suc i)) s'" using Cons.prems(1) [of "Suc i" s] by simp
  qed (rule s1(2))
  then show ?case using s1(1) by simp
qed simp

subsection \<open>Grids\<close>

definition dir_x :: "int list" where
  "dir_x = [- 1, 0, 1, 0]"

definition dir_y :: "int list" where
  "dir_y = [0, 1, 0, - 1]"

definition cell_get :: "'a list list \<Rightarrow> int \<Rightarrow> int \<Rightarrow> 'a option" where
  "cell_get g x y = do { r \<leftarrow> rdi g x; rdi r y }"

definition cell_set :: "'a list list \<Rightarrow> int \<Rightarrow> int \<Rightarrow> 'a \<Rightarrow> 'a list list option" where
  "cell_set g x y v = do { r \<leftarrow> rdi g x; r \<leftarrow> wri r y v; wri g x r }"

text \<open>The cells of a grid with \<open>m\<close> rows and \<open>n\<close> columns, row by row.\<close>

definition all_cells :: "int \<Rightarrow> int \<Rightarrow> (int \<times> int) list" where
  "all_cells m n = List.product [0..m - 1] [0..n - 1]"

text \<open>One neighbour: the direction's offsets, the bounds test that skips it, the body.\<close>

definition visit_dir :: "int \<Rightarrow> int \<Rightarrow> int \<Rightarrow> int \<Rightarrow> (int \<Rightarrow> int \<Rightarrow> 's \<Rightarrow> 's option) \<Rightarrow> nat \<Rightarrow> 's \<Rightarrow> 's option" where
  "visit_dir m n x y body k s = do {
     dx \<leftarrow> rd dir_x k;
     dy \<leftarrow> rd dir_y k;
     next_x \<leftarrow> to_i32 (x + dx);
     next_y \<leftarrow> to_i32 (y + dy);
     if next_x < 0 \<or> next_x \<ge> m \<or> next_y < 0 \<or> next_y \<ge> n then Some s else body next_x next_y s
   }"

definition visit_dirs :: "int \<Rightarrow> int \<Rightarrow> int \<Rightarrow> int \<Rightarrow> (int \<Rightarrow> int \<Rightarrow> 's \<Rightarrow> 's option) \<Rightarrow> 's \<Rightarrow> 's option" where
  "visit_dirs m n x y body s = for_each (visit_dir m n x y body) [0, 1, 2, 3] s"

definition cells :: "int \<Rightarrow> int \<Rightarrow> (int \<times> int) set" where
  "cells m n = {0..<m} \<times> {0..<n}"

definition grid_ok :: "int \<Rightarrow> int \<Rightarrow> 'a list list \<Rightarrow> bool" where
  "grid_ok m n g \<longleftrightarrow> int (length g) = m \<and> m < 2 ^ 31 \<and> 0 \<le> n \<and> n < 2 ^ 31 \<and> (\<forall>r \<in> set g. int (length r) = n)"

definition at :: "'a list list \<Rightarrow> int \<times> int \<Rightarrow> 'a" where
  "at g p = g ! nat (fst p) ! nat (snd p)"

definition nbr :: "int \<times> int \<Rightarrow> nat \<Rightarrow> int \<times> int" where
  "nbr p k = (fst p + dir_x ! k, snd p + dir_y ! k)"

definition adj :: "int \<times> int \<Rightarrow> int \<times> int \<Rightarrow> bool" where
  "adj p q \<longleftrightarrow> (\<exists>k < 4. q = nbr p k)"

lemma adj_eq: "adj p q \<longleftrightarrow> q = (fst p - 1, snd p) \<or> q = (fst p, snd p + 1) \<or> q = (fst p + 1, snd p) \<or> q = (fst p, snd p - 1)"
  by (simp add: adj_def nbr_def dir_x_def dir_y_def numeral_eq_Suc Ex_less_Suc2)

lemma adj_sym: "adj p q \<longleftrightarrow> adj q p"
  by (cases p; cases q) (auto simp: adj_eq)

lemma finite_cells [simp]: "finite (cells m n)"
  by (simp add: cells_def)

lemma card_cells: "card (cells m n) = nat m * nat n"
  by (simp add: cells_def card_cartesian_product)

lemma set_all_cells: "set (all_cells m n) = cells m n"
  by (auto simp: all_cells_def cells_def)

lemma distinct_all_cells: "distinct (all_cells m n)"
  by (simp add: all_cells_def distinct_product)

lemma cell_rows:
  assumes "grid_ok m n g" and "p \<in> cells m n"
  shows "nat (fst p) < length g" and "nat (snd p) < length (g ! nat (fst p))" and "0 \<le> fst p" and "0 \<le> snd p"
proof -
  have p: "0 \<le> fst p" "fst p < m" "0 \<le> snd p" "snd p < n" using assms(2) by (auto simp: cells_def)
  then show "0 \<le> fst p" "0 \<le> snd p" by simp_all
  show row: "nat (fst p) < length g" using p assms(1) unfolding grid_ok_def by linarith
  then have "int (length (g ! nat (fst p))) = n" using assms(1) by (simp add: grid_ok_def)
  then show "nat (snd p) < length (g ! nat (fst p))" using p by linarith
qed

lemma cell_get_ok: "grid_ok m n g \<Longrightarrow> p \<in> cells m n \<Longrightarrow> cell_get g (fst p) (snd p) = Some (at g p)"
  by (simp add: cell_get_def cell_rows at_def)

lemma cell_set_ok:
  assumes "grid_ok m n g" and "p \<in> cells m n"
  shows "\<exists>g'. cell_set g (fst p) (snd p) v = Some g' \<and> grid_ok m n g' \<and> (\<forall>q \<in> cells m n. at g' q = (if q = p then v else at g q))"
proof -
  let ?i = "nat (fst p)" and ?j = "nat (snd p)"
  let ?g = "g[?i := (g ! ?i)[?j := v]]"
  note rows = cell_rows [OF assms]
  have "cell_set g (fst p) (snd p) v = Some ?g" by (simp add: cell_set_def rows)
  moreover have "grid_ok m n ?g"
    using assms(1) rows by (auto simp: grid_ok_def dest!: subsetD [OF set_update_subset_insert])
  moreover have "at ?g q = (if q = p then v else at g q)" if "q \<in> cells m n" for q
    using rows cell_rows [OF assms(1) that] by (auto simp: at_def nth_list_update prod_eq_iff nat_eq_iff)
  ultimately show ?thesis by blast
qed

lemma visit_dirs_rule:
  assumes "grid_ok m n g0" and p: "p \<in> cells m n"
    and step: "\<And>k s. k < 4 \<Longrightarrow> I k s \<Longrightarrow> nbr p k \<in> cells m n \<Longrightarrow> \<exists>s'. body (fst (nbr p k)) (snd (nbr p k)) s = Some s' \<and> I (Suc k) s'"
    and skip: "\<And>k s. k < 4 \<Longrightarrow> I k s \<Longrightarrow> nbr p k \<notin> cells m n \<Longrightarrow> I (Suc k) s"
    and start: "I 0 s"
  shows "\<exists>s'. visit_dirs m n (fst p) (snd p) body s = Some s' \<and> I 4 s'"
proof -
  have "\<exists>s'. for_each (visit_dir m n (fst p) (snd p) body) [0, 1, 2, 3] s = Some s' \<and> I (length [0, 1, 2, 3 :: nat]) s'"
  proof (rule for_each_rule [where I = I])
    fix k s
    assume k: "k < length [0, 1, 2, 3 :: nat]" and I: "I k s"
    have k4: "k < 4" "[0, 1, 2, 3] ! k = k" "k < length dir_x" "k < length dir_y" "dir_x ! k \<in> {- 1, 0, 1}" "dir_y ! k \<in> {- 1, 0, 1}"
      using k by (auto simp: less_Suc_eq dir_x_def dir_y_def)
    have "0 \<le> fst p" "fst p < m" "0 \<le> snd p" "snd p < n" using p by (auto simp: cells_def)
    then have "to_i32 (fst p + dir_x ! k) = Some (fst (nbr p k))" "to_i32 (snd p + dir_y ! k) = Some (snd (nbr p k))"
      using assms(1) k4(5,6) unfolding grid_ok_def nbr_def by (auto simp: to_i32_eq_Some_iff)
    moreover have "nbr p k \<in> cells m n \<longleftrightarrow> \<not> (fst (nbr p k) < 0 \<or> fst (nbr p k) \<ge> m \<or> snd (nbr p k) < 0 \<or> snd (nbr p k) \<ge> n)"
      by (cases "nbr p k") (auto simp: cells_def)
    ultimately show "\<exists>s'. visit_dir m n (fst p) (snd p) body ([0, 1, 2, 3] ! k) s = Some s' \<and> I (Suc k) s'"
      using step [OF k4(1) I] skip [OF k4(1) I] k4 by (simp add: visit_dir_def)
  qed (rule start)
  then show ?thesis by (simp add: visit_dirs_def numeral_eq_Suc)
qed

subsection \<open>Marking the neighbours of a cell\<close>

text \<open>
  The body both programs have: a cell that passes \<open>test\<close> is queued (\<open>put\<close>) and overwritten with \<open>v\<close>.  \<open>pend\<close> is what
  the queue holds, \<open>budget\<close> a lower bound of how many cells it can still take.
\<close>

definition mark_cell :: "('a \<Rightarrow> bool) \<Rightarrow> 'a \<Rightarrow> ('s \<Rightarrow> int \<Rightarrow> int \<Rightarrow> 's option) \<Rightarrow> int \<Rightarrow> int \<Rightarrow> 'a list list \<times> 's \<Rightarrow> ('a list list \<times> 's) option" where
  "mark_cell test v put x y gs = do {
     c \<leftarrow> cell_get (fst gs) x y;
     if test c then do {
       s \<leftarrow> put (snd gs) x y;
       g \<leftarrow> cell_set (fst gs) x y v;
       Some (g, s)
     } else Some gs
   }"

definition live :: "('a \<Rightarrow> bool) \<Rightarrow> int \<Rightarrow> int \<Rightarrow> 'a list list \<Rightarrow> (int \<times> int) set" where
  "live test m n g = {p \<in> cells m n. test (at g p)}"

lemma finite_live [simp]: "finite (live test m n g)"
  by (simp add: live_def)

text \<open>\<open>g'\<close> is \<open>g\<close> with the cells of \<open>D\<close> overwritten.\<close>

definition marked :: "'a \<Rightarrow> int \<Rightarrow> int \<Rightarrow> 'a list list \<Rightarrow> (int \<times> int) set \<Rightarrow> 'a list list \<Rightarrow> bool" where
  "marked v m n g D g' \<longleftrightarrow> grid_ok m n g' \<and> (\<forall>p \<in> cells m n. at g' p = (if p \<in> D then v else at g p))"

lemma marked_none: "grid_ok m n g \<Longrightarrow> marked v m n g {} g"
  by (simp add: marked_def)

lemma marked_trans: "marked v m n g D g' \<Longrightarrow> marked v m n g' D' g'' \<Longrightarrow> marked v m n g (D \<union> D') g''"
  by (auto simp: marked_def)

lemma live_marked: "marked v m n g D g' \<Longrightarrow> \<not> test v \<Longrightarrow> live test m n g' = live test m n g - D"
  by (auto simp: live_def marked_def split: if_splits)

lemma marked_ok: "marked v m n g D g' \<Longrightarrow> grid_ok m n g'"
  by (simp add: marked_def)

locale marking =
  fixes test :: "'a \<Rightarrow> bool"
    and v :: 'a
    and ok :: "'s \<Rightarrow> bool"
    and pend :: "'s \<Rightarrow> (int \<times> int) list"
    and budget :: "'s \<Rightarrow> nat"
    and put :: "'s \<Rightarrow> int \<Rightarrow> int \<Rightarrow> 's option"
  assumes not_test_v: "\<not> test v"
    and put_ok: "ok s \<Longrightarrow> 0 < budget s \<Longrightarrow>
      \<exists>s'. put s x y = Some s' \<and> ok s' \<and> pend s' = pend s @ [(x, y)] \<and> Suc (budget s') = budget s"
begin

text \<open>After marking the cells of \<open>D\<close>, which were all live.\<close>

definition after :: "int \<Rightarrow> int \<Rightarrow> 'a list list \<Rightarrow> 's \<Rightarrow> (int \<times> int) set \<Rightarrow> 'a list list \<times> 's \<Rightarrow> bool" where
  "after m n g s D gs \<longleftrightarrow> marked v m n g D (fst gs) \<and> ok (snd gs) \<and> D \<subseteq> live test m n g
     \<and> (\<exists>new. pend (snd gs) = pend s @ new \<and> set new = D \<and> distinct new) \<and> budget (snd gs) + card D = budget s"

lemma after_none: "grid_ok m n g \<Longrightarrow> ok s \<Longrightarrow> after m n g s {} (g, s)"
  by (simp add: after_def marked_none)

lemma after_one:
  assumes inv: "after m n g s D gs" and room: "card (live test m n g) \<le> budget s" and p: "p \<in> cells m n"
  shows "\<exists>gs'. mark_cell test v put (fst p) (snd p) gs = Some gs' \<and> after m n g s (D \<union> ({p} \<inter> live test m n g)) gs'"
proof -
  have grid: "grid_ok m n (fst gs)" and live: "live test m n (fst gs) = live test m n g - D"
    using inv not_test_v live_marked [of v m n g D "fst gs" test] by (auto simp: after_def marked_def)
  have finD: "finite D" using inv by (auto simp: after_def intro: finite_subset [OF _ finite_live])
  show ?thesis
  proof (cases "p \<in> live test m n (fst gs)")
    case False
    then have "\<not> test (at (fst gs) p)" using p by (simp add: live_def)
    moreover have "D \<union> ({p} \<inter> live test m n g) = D" using False live by auto
    ultimately show ?thesis using inv cell_get_ok [OF grid p] by (simp add: mark_cell_def)
  next
    case True
    then have t: "test (at (fst gs) p)" "p \<in> live test m n g" "p \<notin> D" using live by (auto simp: live_def)
    have "card (insert p D) \<le> card (live test m n g)"
      using inv t(2) by (intro card_mono) (auto simp: after_def)
    then have "0 < budget (snd gs)" using inv room t(3) finD by (simp add: after_def)
    then obtain s' where s': "put (snd gs) (fst p) (snd p) = Some s'" "ok s'" "pend s' = pend (snd gs) @ [p]"
      "Suc (budget s') = budget (snd gs)" using put_ok [of "snd gs" "fst p" "snd p"] inv by (auto simp: after_def)
    obtain g' where g': "cell_set (fst gs) (fst p) (snd p) v = Some g'" "grid_ok m n g'"
      "\<forall>q \<in> cells m n. at g' q = (if q = p then v else at (fst gs) q)" using cell_set_ok [OF grid p] by blast
    have "marked v m n (fst gs) {p} g'" using g' by (simp add: marked_def)
    then have "marked v m n g (D \<union> {p}) g'" using inv unfolding after_def by (blast intro: marked_trans)
    moreover have "\<exists>new. pend s' = pend s @ new \<and> set new = insert p D \<and> distinct new" using inv s'(3) t(3) by (auto simp: after_def)
    ultimately have "after m n g s (insert p D) (g', s')"
      using inv s'(2,4) t finD unfolding after_def by simp
    then show ?thesis using t cell_get_ok [OF grid p] s'(1) g'(1) by (simp add: mark_cell_def)
  qed
qed

lemma mark_neighbours:
  assumes grid: "grid_ok m n g" and ok: "ok s" and p: "p \<in> cells m n" and room: "card (live test m n g) \<le> budget s"
  shows "\<exists>gs'. visit_dirs m n (fst p) (snd p) (mark_cell test v put) (g, s) = Some gs'
    \<and> after m n g s {q \<in> live test m n g. adj p q} gs'"
proof -
  let ?L = "live test m n g"
  let ?D = "\<lambda>k. {q \<in> ?L. \<exists>j < k. q = nbr p j}"
  let ?I = "\<lambda>k gs. after m n g s (?D k) gs"
  have "\<exists>gs'. visit_dirs m n (fst p) (snd p) (mark_cell test v put) (g, s) = Some gs' \<and> ?I 4 gs'"
  proof (rule visit_dirs_rule [OF grid p, where I = ?I])
    fix k gs
    assume I: "?I k gs"
    have D: "?D (Suc k) = ?D k \<union> ({nbr p k} \<inter> ?L)" by (auto simp: less_Suc_eq)
    show "\<exists>gs'. mark_cell test v put (fst (nbr p k)) (snd (nbr p k)) gs = Some gs' \<and> ?I (Suc k) gs'" if "nbr p k \<in> cells m n"
      unfolding D by (rule after_one [OF I room that])
    show "?I (Suc k) gs" if "nbr p k \<notin> cells m n"
    proof -
      have "{nbr p k} \<inter> ?L = {}" using that by (auto simp: live_def)
      then show ?thesis unfolding D using I by simp
    qed
  next
    show "?I 0 (g, s)" using after_none [OF grid ok] by simp
  qed
  then show ?thesis by (simp add: adj_def)
qed

end

end
