(* ===== verification/Islands.thy ===== *)
theory Islands
  imports Grid
begin

text \<open>
  \<open>leetcode/03-number-of-islands.c\<close>: counts the islands of a grid of characters by breadth-first search with one queue that
  is never reset, so that its arrays must have room for every cell once.  The specification is the number of classes of
  land cells connected by horizontal and vertical steps.
\<close>

record queue =
  row :: "int list"
  col :: "int list"
  head :: size_t
  tail :: size_t

definition queue_put :: "queue \<Rightarrow> int \<Rightarrow> int \<Rightarrow> queue option" where
  "queue_put q x y = do {
     r \<leftarrow> wr (row q) (unat (head q)) x;
     c \<leftarrow> wr (col q) (unat (head q)) y;
     Some (q\<lparr>row := r, col := c, head := head q + 1\<rparr>)
   }"

definition queue_get :: "queue \<Rightarrow> ((int \<times> int) \<times> queue) option" where
  "queue_get q = do {
     x \<leftarrow> rd (row q) (unat (tail q));
     y \<leftarrow> rd (col q) (unat (tail q));
     Some ((x, y), q\<lparr>tail := tail q + 1\<rparr>)
   }"

definition queue_empty :: "queue \<Rightarrow> bool" where
  "queue_empty q \<longleftrightarrow> head q = tail q"

text \<open>A neighbour inside the grid: water is skipped, land is queued and turned into water.\<close>

definition sink_cell :: "int \<Rightarrow> int \<Rightarrow> string list \<times> queue \<Rightarrow> (string list \<times> queue) option" where
  "sink_cell = mark_cell (\<lambda>c. c \<noteq> CHR ''0'') (CHR ''0'') queue_put"

partial_function (option) flood :: "int \<Rightarrow> int \<Rightarrow> string list \<times> queue \<Rightarrow> (string list \<times> queue) option" where
  "flood m n gq = (if queue_empty (snd gq) then Some gq
     else Option.bind (queue_get (snd gq)) (\<lambda>xq.
       Option.bind (visit_dirs m n (fst (fst xq)) (snd (fst xq)) sink_cell (fst gq, snd xq)) (\<lambda>gq. flood m n gq)))"

declare flood.simps [code]

definition scan_cell :: "int \<Rightarrow> int \<Rightarrow> int \<times> int \<Rightarrow> (string list \<times> queue) \<times> int \<Rightarrow> ((string list \<times> queue) \<times> int) option" where
  "scan_cell m n p st = do {
     let (g, q) = fst st;
     c \<leftarrow> cell_get g (fst p) (snd p);
     if c = CHR ''0'' then Some st
     else do {
       q \<leftarrow> queue_put q (fst p) (snd p);
       g \<leftarrow> cell_set g (fst p) (snd p) (CHR ''0'');
       num_islands \<leftarrow> to_i32 (snd st + 1);
       gq \<leftarrow> flood m n (g, q);
       Some (gq, num_islands)
     }
   }"

text \<open>
  \<open>mr\<close> and \<open>mc\<close> are what the two calls of \<open>malloc\<close> return for a number of \<open>int\<close>s (\<open>None\<close>: a null pointer).  The result is \<open>None\<close>
  when the program exits with status 1, else the number of islands and the grid, which the search overwrites.
\<close>

definition numberOfIslands ::
  "(nat \<Rightarrow> int list option) \<Rightarrow> (nat \<Rightarrow> int list option) \<Rightarrow> string list \<Rightarrow> int \<Rightarrow> int list \<Rightarrow> (int \<times> string list) option option" where
  "numberOfIslands mr mc grid rows cols = do {
     c0 \<leftarrow> rd cols 0;
     let cap = (of_int rows :: size_t) * of_int c0;
     case (mr (unat (cap * 4) div 4), mc (unat (cap * 4) div 4)) of
       (Some r, Some c) \<Rightarrow> do {
         (gq, num_islands) \<leftarrow> for_each (scan_cell rows c0) (all_cells rows c0) ((grid, \<lparr>row = r, col = c, head = 0, tail = 0\<rparr>), 0);
         Some (Some (num_islands, fst gq))
       }
     | _ \<Rightarrow> Some None
   }"

definition ints :: "nat \<Rightarrow> int list option" where
  "ints k = Some (replicate k 0)"

definition expect_islands :: "string list \<Rightarrow> int \<Rightarrow> unit option" where
  "expect_islands grid res = do {
     r \<leftarrow> numberOfIslands ints ints grid 4 [4, 4, 4, 4];
     c_assert (map_option fst r = Some res)
   }"

definition main :: "unit option" where
  "main = do {
     expect_islands [''1100'', ''1100'', ''0010'', ''0001''] 3;
     expect_islands [''1111'', ''1111'', ''1111'', ''1111''] 1;
     expect_islands [''0000'', ''0000'', ''0000'', ''0000''] 0
   }"

lemma islands_main_passes: "main = Some ()"
  by code_simp

subsection \<open>The specification\<close>

abbreviation land :: "int \<Rightarrow> int \<Rightarrow> string list \<Rightarrow> (int \<times> int) set" where
  "land \<equiv> live (\<lambda>c. c \<noteq> CHR ''0'')"

definition step_in :: "(int \<times> int) set \<Rightarrow> ((int \<times> int) \<times> (int \<times> int)) set" where
  "step_in L = {(p, q). p \<in> L \<and> q \<in> L \<and> adj p q}"

definition island :: "(int \<times> int) set \<Rightarrow> int \<times> int \<Rightarrow> (int \<times> int) set" where
  "island L p = (step_in L)\<^sup>* `` {p}"

definition islands :: "(int \<times> int) set \<Rightarrow> (int \<times> int) set set" where
  "islands L = island L ` L"

lemma island_self [simp]: "p \<in> island L p"
  by (simp add: island_def)

lemma island_sub: "p \<in> L \<Longrightarrow> island L p \<subseteq> L"
proof
  fix q
  assume "p \<in> L" "q \<in> island L p"
  then have "(p, q) \<in> (step_in L)\<^sup>*" by (simp add: island_def)
  then show "q \<in> L" using \<open>p \<in> L\<close> by (induction rule: rtrancl_induct) (auto simp: step_in_def)
qed

lemma island_step: "q \<in> island L p \<Longrightarrow> (q, r) \<in> step_in L \<Longrightarrow> r \<in> island L p"
  unfolding island_def by (blast intro: rtrancl_into_rtrancl)

lemma step_in_sym: "(p, q) \<in> step_in L \<Longrightarrow> (q, p) \<in> step_in L"
  by (auto simp: step_in_def adj_sym)

text \<open>Taking one island away leaves the other islands as they are.\<close>

lemma island_remove:
  assumes "q \<in> L - island L p"
  shows "island (L - island L p) q = island L q"
proof (rule equalityI)
  have "(step_in (L - island L p))\<^sup>* \<subseteq> (step_in L)\<^sup>*" by (rule rtrancl_mono) (auto simp: step_in_def)
  then show "island (L - island L p) q \<subseteq> island L q" by (auto simp: island_def)
  show "island L q \<subseteq> island (L - island L p) q"
  proof
    fix r
    assume "r \<in> island L q"
    then have "(q, r) \<in> (step_in L)\<^sup>*" by (simp add: island_def)
    then have "r \<in> island (L - island L p) q \<and> r \<notin> island L p"
    proof (induction rule: rtrancl_induct)
      case base
      then show ?case using assms by simp
    next
      case (step y z)
      then have z: "z \<notin> island L p" using island_step [OF _ step_in_sym] by blast
      then have "(y, z) \<in> step_in (L - island L p)" using step by (auto simp: step_in_def)
      then show ?case using step.IH island_step z by blast
    qed
    then show "r \<in> island (L - island L p) q" by simp
  qed
qed

lemma card_islands_remove:
  assumes "finite L" and "p \<in> L"
  shows "card (islands L) = Suc (card (islands (L - island L p)))"
proof -
  have eq: "islands (L - island L p) = island L ` (L - island L p)" unfolding islands_def by (rule image_cong) (simp_all add: island_remove)
  have same: "island L q = island L p" if "q \<in> island L p" for q
  proof -
    have "(p, q) \<in> (step_in L)\<^sup>*" using that by (simp add: island_def)
    moreover have "sym ((step_in L)\<^sup>*)" by (intro sym_rtrancl symI) (rule step_in_sym)
    ultimately show ?thesis unfolding island_def by (auto dest: symD intro: rtrancl_trans)
  qed
  have "islands L = insert (island L p) (island L ` (L - island L p))"
    unfolding islands_def using assms(2) same by blast
  moreover have "island L p \<notin> island L ` (L - island L p)" using island_self by blast
  ultimately show ?thesis unfolding eq using assms(1) by simp
qed

lemma islands_empty [simp]: "islands {} = {}"
  by (simp add: islands_def)

lemma card_islands_le: "finite L \<Longrightarrow> card (islands L) \<le> card L"
  unfolding islands_def by (rule card_image_le)

subsection \<open>The queue\<close>

definition queue_ok :: "queue \<Rightarrow> bool" where
  "queue_ok q \<longleftrightarrow> length (col q) = length (row q) \<and> length (row q) < 2 ^ 64 \<and> tail q \<le> head q \<and> unat (head q) \<le> length (row q)"

definition pending :: "queue \<Rightarrow> (int \<times> int) list" where
  "pending q = map (\<lambda>i. (row q ! i, col q ! i)) [unat (tail q)..<unat (head q)]"

definition room :: "queue \<Rightarrow> nat" where
  "room q = length (row q) - unat (head q)"

lemma queue_put_ok:
  assumes "queue_ok q" and "0 < room q"
  shows "\<exists>q'. queue_put q x y = Some q' \<and> queue_ok q' \<and> pending q' = pending q @ [(x, y)] \<and> Suc (room q') = room q"
proof -
  have h: "unat (head q) < length (row q)" "unat (tail q) \<le> unat (head q)" using assms by (simp_all add: room_def queue_ok_def word_le_nat_alt)
  have next_head: "unat (head q + 1) = Suc (unat (head q))" using unat_add_1 [of "head q"] h(1) assms(1) by (simp add: queue_ok_def)
  let ?q = "q\<lparr>row := (row q)[unat (head q) := x], col := (col q)[unat (head q) := y], head := head q + 1\<rparr>"
  have "queue_put q x y = Some ?q" using assms(1) h by (simp add: queue_put_def queue_ok_def)
  moreover have "queue_ok ?q" using assms(1) h next_head by (simp add: queue_ok_def word_le_nat_alt)
  moreover have "pending ?q = pending q @ [(x, y)]" using assms(1) h next_head by (simp add: pending_def queue_ok_def)
  moreover have "Suc (room ?q) = room q" using h next_head by (simp add: room_def)
  ultimately show ?thesis by blast
qed

lemma queue_get_ok:
  assumes "queue_ok q" and "pending q = p # ps"
  shows "\<exists>q'. queue_get q = Some (p, q') \<and> queue_ok q' \<and> pending q' = ps \<and> room q' = room q"
proof -
  have t: "unat (tail q) < unat (head q)" using assms(2) by (cases "unat (tail q) < unat (head q)") (simp_all add: pending_def)
  have len: "unat (head q) \<le> length (row q)" "length (col q) = length (row q)" using assms(1) by (simp_all add: queue_ok_def)
  have next_tail: "unat (tail q + 1) = Suc (unat (tail q))" using unat_add_1 [of "tail q"] t len assms(1) by (simp add: queue_ok_def)
  have "p = (row q ! unat (tail q), col q ! unat (tail q))" "ps = map (\<lambda>i. (row q ! i, col q ! i)) [Suc (unat (tail q))..<unat (head q)]"
    using assms(2) t by (simp_all add: pending_def upt_conv_Cons)
  then show ?thesis using assms(1) t len next_tail by (simp add: queue_get_def queue_ok_def pending_def room_def word_le_nat_alt)
qed

lemma queue_empty_iff: "queue_ok q \<Longrightarrow> queue_empty q \<longleftrightarrow> pending q = []"
  by (auto simp: queue_empty_def pending_def queue_ok_def word_le_nat_alt word_unat_eq_iff)

interpretation sinking: marking "\<lambda>c. c \<noteq> CHR ''0''" "CHR ''0''" queue_ok pending room queue_put
  by unfold_locales (simp, rule queue_put_ok)

subsection \<open>The search\<close>

text \<open>Steps onto a cell of \<open>L\<close>.\<close>

definition onto :: "(int \<times> int) set \<Rightarrow> ((int \<times> int) \<times> (int \<times> int)) set" where
  "onto L = {(p, q). q \<in> L \<and> adj p q}"

text \<open>What the search from the cells \<open>S\<close> sinks: a set of land cells reachable from \<open>S\<close> that has every land neighbour of \<open>S\<close> and of its own.\<close>

definition sunk :: "(int \<times> int) set \<Rightarrow> (int \<times> int) set \<Rightarrow> (int \<times> int) set \<Rightarrow> bool" where
  "sunk L S D \<longleftrightarrow> D \<subseteq> L \<and> D \<subseteq> (onto L)\<^sup>* `` S \<and> (\<forall>d \<in> S \<union> D. \<forall>e \<in> L. adj d e \<longrightarrow> e \<in> D)"

lemma sunk_step:
  assumes "sunk (L - N) (S \<union> N) D" and N: "N = {q \<in> L. adj p q}"
  shows "sunk L (insert p S) (N \<union> D)"
proof -
  have "onto (L - N) \<subseteq> onto L" by (auto simp: onto_def)
  then have "(onto (L - N))\<^sup>* \<subseteq> (onto L)\<^sup>*" by (rule rtrancl_mono)
  then have "D \<subseteq> (onto L)\<^sup>* `` (S \<union> N)" using assms(1) unfolding sunk_def by blast
  moreover have pN: "(p, q) \<in> onto L" if "q \<in> N" for q using that N by (simp add: onto_def)
  ultimately have "D \<subseteq> (onto L)\<^sup>* `` insert p S" by (blast intro: converse_rtrancl_into_rtrancl)
  moreover have "N \<subseteq> (onto L)\<^sup>* `` insert p S" using pN by blast
  moreover have "e \<in> N \<union> D" if "d \<in> insert p S \<union> (N \<union> D)" "e \<in> L" "adj d e" for d e
    using that assms unfolding sunk_def by blast
  ultimately show ?thesis using assms unfolding sunk_def by blast
qed

lemma sunk_island:
  assumes "sunk (L - {p}) {p} D" and p: "p \<in> L"
  shows "insert p D = island L p"
proof (rule equalityI)
  have "q \<in> island L p" if "(p, q) \<in> (onto (L - {p}))\<^sup>*" for q
    using that
  proof (induction rule: rtrancl_induct)
    case (step y z)
    then have "y \<in> L" using island_sub [OF p] by blast
    then have "(y, z) \<in> step_in L" using step.hyps(2) by (simp add: step_in_def onto_def)
    then show ?case by (rule island_step [OF step.IH])
  qed simp
  then show "insert p D \<subseteq> island L p" using assms(1) by (auto simp: sunk_def)
  show "island L p \<subseteq> insert p D"
  proof
    fix q
    assume "q \<in> island L p"
    then have "(p, q) \<in> (step_in L)\<^sup>*" by (simp add: island_def)
    then show "q \<in> insert p D"
    proof (induction rule: rtrancl_induct)
      case (step y z)
      then show ?case using assms(1) unfolding sunk_def step_in_def by blast
    qed simp
  qed
qed

text \<open>One round of the search: the first cell of the queue is taken out and its land neighbours are sunk and queued.\<close>

lemma flood_round:
  assumes "grid_ok m n g" and "queue_ok q" and "set (pending q) \<subseteq> cells m n" and "card (land m n g) \<le> room q"
    and Cons: "pending q = p # ps" and N: "N = {r \<in> land m n g. adj p r}"
  obtains g2 q2 where "flood m n (g, q) = flood m n (g2, q2)" "marked (CHR ''0'') m n g N g2" "queue_ok q2" "room q2 + card N = room q"
    "set (pending q2) = set ps \<union> N" "length (pending q2) = length ps + card N" "card (land m n g2) + card N = card (land m n g)"
proof -
  obtain q1 where q1: "queue_get q = Some (p, q1)" "queue_ok q1" "pending q1 = ps" "room q1 = room q"
    using queue_get_ok [OF assms(2) Cons] by blast
  have p: "p \<in> cells m n" using assms(3) Cons by simp
  obtain g2 q2 where visit: "visit_dirs m n (fst p) (snd p) sink_cell (g, q1) = Some (g2, q2)"
    and aft: "sinking.after m n g q1 N (g2, q2)"
    using sinking.mark_neighbours [OF assms(1) q1(2) p] assms(4) q1(4) unfolding sink_cell_def N by force
  have m2: "marked (CHR ''0'') m n g N g2" and ok2: "queue_ok q2" and room2: "room q2 + card N = room q"
    using aft q1(4) by (simp_all add: sinking.after_def)
  obtain new where new: "pending q2 = ps @ new" "set new = N" "distinct new" using aft q1(3) by (auto simp: sinking.after_def)
  have "card (land m n g2) = card (land m n g) - card N"
    using live_marked [OF m2, of "\<lambda>c. c \<noteq> CHR ''0''"] N by (simp add: card_Diff_subset)
  moreover have "card N \<le> card (land m n g)" unfolding N by (rule card_mono) auto
  moreover have "flood m n (g, q) = flood m n (g2, q2)"
    using q1(1) visit queue_empty_iff [OF assms(2)] Cons by (subst flood.simps) simp
  ultimately show thesis using that m2 ok2 room2 new distinct_card [OF new(3)] by simp
qed

lemma flood_sinks:
  assumes "grid_ok m n g" and "queue_ok q" and "set (pending q) \<subseteq> cells m n" and "card (land m n g) \<le> room q"
  shows "\<exists>g' q' D. flood m n (g, q) = Some (g', q') \<and> queue_ok q' \<and> pending q' = [] \<and> marked (CHR ''0'') m n g D g'
    \<and> room q' + card D = room q \<and> sunk (land m n g) (set (pending q)) D"
  using assms
proof (induction "card (land m n g) + length (pending q)" arbitrary: g q rule: less_induct)
  case less
  show ?case
  proof (cases "pending q")
    case Nil
    then have "flood m n (g, q) = Some (g, q)" using queue_empty_iff [OF less.prems(2)] by (simp add: flood.simps)
    moreover have "sunk (land m n g) (set (pending q)) {}" using Nil by (simp add: sunk_def)
    ultimately show ?thesis using Nil less.prems(1,2) marked_none by force
  next
    case (Cons p ps)
    define N where "N = {r \<in> land m n g. adj p r}"
    obtain g2 q2 where r: "flood m n (g, q) = flood m n (g2, q2)" "marked (CHR ''0'') m n g N g2" "queue_ok q2" "room q2 + card N = room q"
      "set (pending q2) = set ps \<union> N" "length (pending q2) = length ps + card N" "card (land m n g2) + card N = card (land m n g)"
      by (rule flood_round [OF less.prems Cons N_def])
    have live2: "land m n g2 = land m n g - N" using live_marked [OF r(2)] by simp
    have "\<exists>g' q' D. flood m n (g2, q2) = Some (g', q') \<and> queue_ok q' \<and> pending q' = [] \<and> marked (CHR ''0'') m n g2 D g'
      \<and> room q' + card D = room q2 \<and> sunk (land m n g2) (set (pending q2)) D"
    proof (rule less.hyps)
      show "card (land m n g2) + length (pending q2) < card (land m n g) + length (pending q)" using r(6,7) Cons by simp
      show "set (pending q2) \<subseteq> cells m n" using r(5) less.prems(3) Cons by (auto simp: live_def N_def)
      show "card (land m n g2) \<le> room q2" using r(4,7) less.prems(4) by simp
    qed (use r(2,3) marked_ok in auto)
    then obtain g' q' D where D: "flood m n (g2, q2) = Some (g', q')" "queue_ok q'" "pending q' = []"
      "marked (CHR ''0'') m n g2 D g'" "room q' + card D = room q2" "sunk (land m n g - N) (set ps \<union> N) D"
      unfolding live2 r(5) by blast
    have "sunk (land m n g) (set (pending q)) (N \<union> D)" using sunk_step [OF D(6) N_def] Cons by simp
    moreover have "marked (CHR ''0'') m n g (N \<union> D) g'" by (rule marked_trans [OF r(2) D(4)])
    moreover have "card (N \<union> D) = card N + card D"
      using D(6) by (intro card_Un_disjoint) (auto simp: sunk_def N_def intro: finite_subset [OF _ finite_live])
    ultimately show ?thesis using D(1-3,5) r(1,4) by auto
  qed
qed

text \<open>A land cell found by the scan: its island is sunk and counted.\<close>

definition scanned :: "int \<Rightarrow> int \<Rightarrow> (int \<times> int) set \<Rightarrow> (int \<times> int) set \<Rightarrow> (string list \<times> queue) \<times> int \<Rightarrow> bool" where
  "scanned m n L0 S st \<longleftrightarrow> (case st of ((g, q), c) \<Rightarrow> grid_ok m n g \<and> queue_ok q \<and> pending q = [] \<and> card (land m n g) \<le> room q
     \<and> land m n g \<inter> S = {} \<and> 0 \<le> c \<and> c + int (card (islands (land m n g))) = int (card (islands L0)))"

lemma scan_cell_counts:
  assumes inv: "scanned m n L0 S st" and p: "p \<in> cells m n" and small: "int (card (islands L0)) < 2 ^ 31"
  shows "\<exists>st'. scan_cell m n p st = Some st' \<and> scanned m n L0 (insert p S) st'"
proof -
  obtain g q c where st: "st = ((g, q), c)" by (metis prod.exhaust)
  have ok: "grid_ok m n g" "queue_ok q" "pending q = []" "card (land m n g) \<le> room q" "land m n g \<inter> S = {}" "0 \<le> c"
    "c + int (card (islands (land m n g))) = int (card (islands L0))" using inv by (simp_all add: scanned_def st)
  show ?thesis
  proof (cases "p \<in> land m n g")
    case False
    then have "at g p = CHR ''0''" using p by (simp add: live_def)
    then show ?thesis using ok False cell_get_ok [OF ok(1) p] by (simp add: scan_cell_def scanned_def st)
  next
    case True
    let ?L = "land m n g"
    have pos: "0 < card ?L" using True by (auto simp: card_gt_0_iff)
    obtain q1 where q1: "queue_put q (fst p) (snd p) = Some q1" "queue_ok q1" "pending q1 = [p]" "Suc (room q1) = room q"
      using queue_put_ok [OF ok(2), of "fst p" "snd p"] pos ok(3,4) by auto
    obtain g1 where g1: "cell_set g (fst p) (snd p) (CHR ''0'') = Some g1" "marked (CHR ''0'') m n g {p} g1"
      using cell_set_ok [OF ok(1) p, of "CHR ''0''"] by (auto simp: marked_def)
    have land1: "land m n g1 = ?L - {p}" using live_marked [OF g1(2)] by simp
    have "card (land m n g1) \<le> room q1" unfolding land1 using True ok(4) q1(4) by simp
    then obtain g2 q2 D where D: "flood m n (g1, q1) = Some (g2, q2)" "queue_ok q2" "pending q2 = []"
      "marked (CHR ''0'') m n g1 D g2" "room q2 + card D = room q1" "sunk (?L - {p}) {p} D"
      using flood_sinks [OF marked_ok [OF g1(2)] q1(2)] p q1(3) unfolding land1 by auto
    have isl: "insert p D = island ?L p" by (rule sunk_island [OF D(6) True])
    have "D \<subseteq> ?L - {p}" using D(6) by (simp add: sunk_def)
    have land2: "land m n g2 = ?L - island ?L p" using live_marked [OF D(4)] land1 isl by auto
    have "card ?L = Suc (card D) + card (land m n g2)"
    proof -
      have "finite D" "p \<notin> D" using \<open>D \<subseteq> ?L - {p}\<close> by (auto intro: finite_subset [OF _ finite_live])
      moreover have "card (land m n g2) = card ?L - card (insert p D)" unfolding land2 isl [symmetric]
        using \<open>finite D\<close> True \<open>D \<subseteq> ?L - {p}\<close> by (intro card_Diff_subset) auto
      moreover have "card (insert p D) \<le> card ?L" using True \<open>D \<subseteq> ?L - {p}\<close> by (intro card_mono) auto
      ultimately show ?thesis by simp
    qed
    moreover have cnt: "card (islands ?L) = Suc (card (islands (land m n g2)))" unfolding land2 by (rule card_islands_remove [OF _ True]) simp
    moreover have "to_i32 (c + 1) = Some (c + 1)" using cnt ok(6,7) small by simp
    moreover have "cell_get g (fst p) (snd p) = Some (at g p)" "at g p \<noteq> CHR ''0''" using cell_get_ok [OF ok(1) p] True by (simp_all add: live_def)
    moreover have "land m n g2 \<inter> insert p S = {}" unfolding land2 using ok(5) by auto
    ultimately show ?thesis using q1 g1(1) D(1-3,5) ok(4,6,7) marked_ok [OF D(4)] by (simp add: scan_cell_def scanned_def st)
  qed
qed

lemma scan_all:
  assumes "grid_ok m n g" and "queue_ok q" and "pending q = []" and "card (cells m n) \<le> room q" and "m * n < 2 ^ 31"
  shows "\<exists>g' q'. for_each (scan_cell m n) (all_cells m n) ((g, q), 0) = Some ((g', q'), int (card (islands (land m n g)))) \<and> land m n g' = {}"
proof -
  let ?xs = "all_cells m n"
  let ?L = "land m n g"
  have "card ?L \<le> card (cells m n)" by (rule card_mono) (auto simp: live_def)
  moreover have "int (card (cells m n)) = m * n" using assms(1) by (auto simp: card_cells grid_ok_def)
  moreover have "card (islands ?L) \<le> card ?L" by (rule card_islands_le) simp
  ultimately have small: "int (card (islands ?L)) < 2 ^ 31" and room: "card ?L \<le> room q" using assms(4,5) by linarith+
  have "\<exists>st. for_each (scan_cell m n) ?xs ((g, q), 0) = Some st \<and> scanned m n ?L (set (take (length ?xs) ?xs)) st"
  proof (rule for_each_rule)
    show "scanned m n ?L (set (take 0 ?xs)) ((g, q), 0)" using assms(1-3) room by (simp add: scanned_def)
    show "\<exists>st'. scan_cell m n (?xs ! i) st = Some st' \<and> scanned m n ?L (set (take (Suc i) ?xs)) st'"
      if "i < length ?xs" "scanned m n ?L (set (take i ?xs)) st" for i st
      using scan_cell_counts [OF that(2) _ small, of "?xs ! i"] that(1) nth_mem [OF that(1)]
      by (simp add: set_all_cells take_Suc_conv_app_nth)
  qed
  then obtain g' q' c where r: "for_each (scan_cell m n) ?xs ((g, q), 0) = Some ((g', q'), c)" "scanned m n ?L (cells m n) ((g', q'), c)"
    by (auto simp: set_all_cells)
  have "land m n g' = {}" using r(2) by (auto simp: scanned_def live_def)
  then show ?thesis using r by (simp add: scanned_def)
qed

subsection \<open>Properties\<close>

text \<open>
  C8: For a rectangular grid of less than \<open>2 ^ 31\<close> cells, with a first entry in the array of row lengths, whose queue arrays can be allocated, \<open>numberOfIslands\<close> returns the number of islands: the classes
  of land cells connected by horizontal and vertical steps.  It ends, it never reads or writes outside the grid or outside the
  arrays of \<open>rows * cols\<close> entries, although the queue is not reset between islands, and it leaves no land.
\<close>

theorem numberOfIslands_correct:
  assumes "grid_ok rows c0 grid" and "rows * c0 < 2 ^ 31"
    and "mr (nat (rows * c0)) = Some r" and "length r = nat (rows * c0)"
    and "mc (nat (rows * c0)) = Some c" and "length c = nat (rows * c0)"
  shows "\<exists>grid'. numberOfIslands mr mc grid rows (c0 # cols) = Some (Some (int (card (islands (land rows c0 grid))), grid'))
    \<and> land rows c0 grid' = {}"
proof -
  let ?q = "\<lparr>row = r, col = c, head = 0, tail = 0\<rparr>"
  have pos: "0 \<le> rows" "0 \<le> c0" "0 \<le> rows * c0" using assms(1) by (auto simp: grid_ok_def)
  have "unat ((of_int rows :: size_t) * of_int c0 * 4) = unat (of_nat (nat (rows * c0 * 4)) :: size_t)"
    using pos by simp
  also have "\<dots> = nat (rows * c0 * 4)" using assms(2) pos by (intro unat_of_nat_small) simp
  finally have cap: "unat ((of_int rows :: size_t) * of_int c0 * 4) div 4 = nat (rows * c0)" using pos(3) by (simp add: nat_mult_distrib)
  have "length r < 2 ^ 64" unfolding assms(4) nat_less_iff [OF pos(3)] using assms(2) by simp
  then have "queue_ok ?q" "pending ?q = []" "card (cells rows c0) \<le> room ?q"
    using assms(4,6) pos by (simp_all add: queue_ok_def pending_def room_def card_cells nat_mult_distrib)
  then obtain g' q' where "for_each (scan_cell rows c0) (all_cells rows c0) ((grid, ?q), 0)
      = Some ((g', q'), int (card (islands (land rows c0 grid))))" "land rows c0 g' = {}"
    using scan_all [OF assms(1)] assms(2) by blast
  then show ?thesis unfolding numberOfIslands_def Let_def using assms(3,5) cap by simp
qed

theorem numberOfIslands_correct_witness:
  "numberOfIslands ints ints [''10'', ''01''] 2 [2, 2] = Some (Some (2, [''00'', ''00''])) \<and> card (islands (land 2 2 [''10'', ''01''])) = 2"
proof -
  have "numberOfIslands ints ints [''10'', ''01''] 2 [2, 2] = Some (Some (2, [''00'', ''00'']))" by code_simp
  then show ?thesis
    using numberOfIslands_correct [of 2 2 "[''10'', ''01'']" ints "[0, 0, 0, 0]" ints "[0, 0, 0, 0]" "[2]"]
    by (auto simp: grid_ok_def ints_def numeral_eq_Suc)
qed

end
