(* ===== verification/Oranges.thy ===== *)
theory Oranges
  imports Grid
begin

text \<open>
  \<open>leetcode/04-rotting-oranges.c\<close>: the number of minutes until every fresh orange of a grid is rotten, by breadth-first search
  in rounds, with one queue for the current round and one for the next.  Both queues are arrays of 100 entries whose indices
  are never reset.  The specification is the process itself: a set of rotten cells that grows by its fresh neighbours.
\<close>

record orange_queue =
  buff :: "(int \<times> int) list"
  head :: int
  tail :: int

definition queue_add :: "orange_queue \<Rightarrow> int \<Rightarrow> int \<Rightarrow> orange_queue option" where
  "queue_add q x y = do {
     b \<leftarrow> wri (buff q) (head q) (x, y);
     h \<leftarrow> to_i32 (head q + 1);
     Some (q\<lparr>buff := b, head := h\<rparr>)
   }"

definition zero_queue :: orange_queue where
  "zero_queue = \<lparr>buff = replicate 100 (0, 0), head = 0, tail = 0\<rparr>"

text \<open>The first loop, on one cell: the count of fresh oranges and the queue of rotten ones.\<close>

definition count_cell :: "int list list \<Rightarrow> int \<times> int \<Rightarrow> int \<times> orange_queue \<Rightarrow> (int \<times> orange_queue) option" where
  "count_cell g p s = do {
     c \<leftarrow> cell_get g (fst p) (snd p);
     if c = 1 then do { fresh \<leftarrow> to_i32 (fst s + 1); Some (fresh, snd s) }
     else if c = 2 then do { q \<leftarrow> queue_add (snd s) (fst p) (snd p); Some (fst s, q) }
     else Some s
   }"

text \<open>A fresh neighbour: it is counted off, queued for the next round and set to 2.\<close>

definition infect :: "int \<times> orange_queue \<Rightarrow> int \<Rightarrow> int \<Rightarrow> (int \<times> orange_queue) option" where
  "infect s x y = do {
     fresh \<leftarrow> to_i32 (fst s - 1);
     q \<leftarrow> queue_add (snd s) x y;
     Some (fresh, q)
   }"

definition rot_cell :: "int \<Rightarrow> int \<Rightarrow> int list list \<times> int \<times> orange_queue \<Rightarrow> (int list list \<times> int \<times> orange_queue) option" where
  "rot_cell = mark_cell (\<lambda>c. c = 1) 2 infect"

text \<open>The inner \<open>while\<close>: the queue \<open>cur\<close>, and the grid, the count and the queue \<open>next\<close>.\<close>

partial_function (option) rot_round ::
  "int \<Rightarrow> int \<Rightarrow> orange_queue \<Rightarrow> int list list \<times> int \<times> orange_queue \<Rightarrow> (orange_queue \<times> int list list \<times> int \<times> orange_queue) option" where
  "rot_round m n cur gs = (if head cur = tail cur then Some (cur, gs)
     else Option.bind (rdi (buff cur) (tail cur)) (\<lambda>p.
       Option.bind (to_i32 (tail cur + 1)) (\<lambda>t.
       Option.bind (visit_dirs m n (fst p) (snd p) rot_cell gs) (\<lambda>gs. rot_round m n (cur\<lparr>tail := t\<rparr>) gs))))"

declare rot_round.simps [code]

text \<open>The outer \<open>while\<close> and the \<open>return\<close>; the queues change places before each round.\<close>

partial_function (option) rot_loop ::
  "int \<Rightarrow> int \<Rightarrow> orange_queue \<Rightarrow> int list list \<times> int \<times> orange_queue \<Rightarrow> int \<Rightarrow> (int \<times> int list list) option" where
  "rot_loop m n cur gs minutes =
     (if head (snd (snd gs)) \<noteq> tail (snd (snd gs)) \<and> fst (snd gs) \<noteq> 0
      then Option.bind (to_i32 (minutes + 1)) (\<lambda>minutes.
        Option.bind (rot_round m n (snd (snd gs)) (fst gs, fst (snd gs), cur)) (\<lambda>r. rot_loop m n (fst r) (snd r) minutes))
      else Some (if fst (snd gs) \<noteq> 0 then - 1 else minutes, fst gs))"

declare rot_loop.simps [code]

text \<open>The result is the return value and the grid, which the search overwrites.\<close>

definition orangesRotting :: "int list list \<Rightarrow> int \<Rightarrow> int list \<Rightarrow> (int \<times> int list list) option" where
  "orangesRotting grid gridSize gridColSize = do {
     c0 \<leftarrow> rd gridColSize 0;
     (fresh, q) \<leftarrow> for_each (count_cell grid) (all_cells gridSize c0) (0, zero_queue);
     rot_loop gridSize c0 zero_queue (grid, fresh, q) 0
   }"

definition expect_minutes :: "int list list \<Rightarrow> int list \<Rightarrow> int \<Rightarrow> unit option" where
  "expect_minutes grid gridColSize res = do {
     (r, g) \<leftarrow> orangesRotting grid (int (length grid)) gridColSize;
     c_assert (r = res)
   }"

definition main :: "unit option" where
  "main = do {
     expect_minutes [[2, 1, 0, 0], [1, 1, 1, 0], [0, 0, 1, 0], [0, 0, 1, 0]] [4, 4, 4, 4] 5;
     expect_minutes [[2, 1, 1], [1, 1, 0], [0, 1, 1]] [3, 3, 3] 4;
     expect_minutes [[2, 1, 1], [0, 1, 1], [1, 0, 1]] [3, 3, 3] (- 1);
     expect_minutes [[0, 2]] [2] 0;
     expect_minutes [[2, 1, 1, 1, 2]] [5] 2;
     expect_minutes [[1]] [1] (- 1);
     expect_minutes (replicate 9 (replicate 10 1) @ [replicate 9 1 @ [2]]) (replicate 10 10) 18
   }"

subsection \<open>The specification\<close>

definition rot :: "(int \<times> int) set \<Rightarrow> (int \<times> int) set \<Rightarrow> (int \<times> int) set" where
  "rot F R = R \<union> {p \<in> F. \<exists>q \<in> R. adj q p}"

definition rotten :: "(int \<times> int) set \<Rightarrow> (int \<times> int) set \<Rightarrow> nat \<Rightarrow> (int \<times> int) set" where
  "rotten F R t = (rot F ^^ t) R"

text \<open>The first minute at which no orange is fresh, or -1 when some orange stays fresh for ever.\<close>

definition minutes_needed :: "(int \<times> int) set \<Rightarrow> (int \<times> int) set \<Rightarrow> int" where
  "minutes_needed F R = (if \<exists>t. F \<subseteq> rotten F R t then int (LEAST t. F \<subseteq> rotten F R t) else - 1)"

abbreviation fresh_cells :: "int \<Rightarrow> int \<Rightarrow> int list list \<Rightarrow> (int \<times> int) set" where
  "fresh_cells \<equiv> live (\<lambda>c. c = 1)"

abbreviation rotten_cells :: "int \<Rightarrow> int \<Rightarrow> int list list \<Rightarrow> (int \<times> int) set" where
  "rotten_cells \<equiv> live (\<lambda>c. c = 2)"

lemma rotten_Suc: "rotten F R (Suc t) = rot F (rotten F R t)"
  by (simp add: rotten_def)

lemma rotten_fixed: "rot F (rotten F R t) = rotten F R t \<Longrightarrow> rotten F R (t + k) = rotten F R t"
  by (induction k) (simp_all add: rotten_Suc)

lemma rotten_mono: "s \<le> t \<Longrightarrow> rotten F R s \<subseteq> rotten F R t"
  by (rule lift_Suc_mono_le) (auto simp: rotten_Suc rot_def)

lemma minutes_neededI:
  assumes "F \<subseteq> rotten F R t" and "\<And>s. s < t \<Longrightarrow> \<not> F \<subseteq> rotten F R s"
  shows "minutes_needed F R = int t"
proof -
  have "(LEAST t. F \<subseteq> rotten F R t) = t" using assms by (intro Least_equality) (auto simp: not_less [symmetric])
  then show ?thesis using assms(1) by (auto simp: minutes_needed_def)
qed

lemma minutes_needed_never:
  assumes "rot F (rotten F R t) = rotten F R t" and "\<not> F \<subseteq> rotten F R t"
  shows "minutes_needed F R = - 1"
proof -
  have "\<not> F \<subseteq> rotten F R s" for s
  proof (cases "s \<le> t")
    case True
    then show ?thesis using assms(2) rotten_mono by blast
  next
    case False
    then show ?thesis using rotten_fixed [OF assms(1), of "s - t"] assms(2) by simp
  qed
  then show ?thesis by (simp add: minutes_needed_def)
qed

subsection \<open>The queues\<close>

definition queue_ok :: "orange_queue \<Rightarrow> bool" where
  "queue_ok q \<longleftrightarrow> length (buff q) = 100 \<and> 0 \<le> tail q \<and> tail q \<le> head q \<and> head q \<le> 100"

definition pending :: "orange_queue \<Rightarrow> (int \<times> int) list" where
  "pending q = map (\<lambda>i. buff q ! nat i) [tail q..head q - 1]"

text \<open>The count of fresh oranges and the queue they go to: together they take at most \<open>K\<close> entries.\<close>

definition rot_ok :: "int \<Rightarrow> int \<times> orange_queue \<Rightarrow> bool" where
  "rot_ok K s \<longleftrightarrow> queue_ok (snd s) \<and> 0 \<le> fst s \<and> fst s + head (snd s) = K \<and> K \<le> 100"

lemma queue_add_ok:
  assumes "queue_ok q" and "head q < 100"
  shows "\<exists>q'. queue_add q x y = Some q' \<and> queue_ok q' \<and> pending q' = pending q @ [(x, y)] \<and> head q' = head q + 1"
proof -
  let ?q = "q\<lparr>buff := (buff q)[nat (head q) := (x, y)], head := head q + 1\<rparr>"
  have "queue_add q x y = Some ?q" using assms by (simp add: queue_add_def queue_ok_def)
  moreover have "queue_ok ?q" using assms by (simp add: queue_ok_def)
  moreover have "pending ?q = pending q @ [(x, y)]"
  proof -
    have "[tail q..head q] = [tail q..head q - 1] @ [head q]" using assms(1) by (simp add: queue_ok_def upto_rec2)
    moreover have "i \<in> set [tail q..head q - 1] \<Longrightarrow> (buff q)[nat (head q) := (x, y)] ! nat i = buff q ! nat i" for i
      using assms(1) by (intro nth_list_update_neq) (auto simp: queue_ok_def)
    ultimately show ?thesis using assms by (simp add: pending_def queue_ok_def)
  qed
  ultimately show ?thesis by auto
qed

interpretation rotting: marking "\<lambda>c. c = (1::int)" 2 "rot_ok K" "\<lambda>s. pending (snd s)" "\<lambda>s. nat (fst s)" infect for K
proof
  fix s :: "int \<times> orange_queue" and x y :: int
  assume ok: "rot_ok K s" and pos: "0 < nat (fst s)"
  obtain q where "queue_add (snd s) x y = Some q" "queue_ok q" "pending q = pending (snd s) @ [(x, y)]" "head q = head (snd s) + 1"
    using queue_add_ok [of "snd s" x y] ok pos by (auto simp: rot_ok_def)
  moreover have "to_i32 (fst s - 1) = Some (fst s - 1)" using ok pos by (simp add: rot_ok_def queue_ok_def)
  ultimately show "\<exists>s'. infect s x y = Some s' \<and> rot_ok K s' \<and> pending (snd s') = pending (snd s) @ [(x, y)] \<and> Suc (nat (fst s')) = nat (fst s)"
    using ok pos by (auto simp: infect_def rot_ok_def)
qed simp

lemma oranges_main_passes: "main = Some ()"
  by code_simp

subsection \<open>One round\<close>

lemma pending_Cons:
  assumes "queue_ok q" and "pending q = p # ps"
  shows "head q \<noteq> tail q" and "rdi (buff q) (tail q) = Some p" and "to_i32 (tail q + 1) = Some (tail q + 1)"
    and "queue_ok (q\<lparr>tail := tail q + 1\<rparr>)" and "pending (q\<lparr>tail := tail q + 1\<rparr>) = ps"
proof -
  have lt: "tail q < head q" using assms(2) by (cases "tail q < head q") (simp_all add: pending_def)
  then have "[tail q..head q - 1] = tail q # [tail q + 1..head q - 1]" by (simp add: upto_rec1)
  moreover have "nat (tail q) < length (buff q)" using assms(1) lt unfolding queue_ok_def by linarith
  ultimately show "rdi (buff q) (tail q) = Some p" "pending (q\<lparr>tail := tail q + 1\<rparr>) = ps"
    using assms lt by (simp_all add: pending_def queue_ok_def)
  show "head q \<noteq> tail q" "to_i32 (tail q + 1) = Some (tail q + 1)" "queue_ok (q\<lparr>tail := tail q + 1\<rparr>)"
    using assms(1) lt by (simp_all add: queue_ok_def)
qed

lemma pending_Nil: "queue_ok q \<Longrightarrow> pending q = [] \<longleftrightarrow> head q = tail q"
  by (auto simp: pending_def queue_ok_def)

lemma marked_fresh: "marked 2 m n g D g' \<Longrightarrow> fresh_cells m n g' = fresh_cells m n g - D"
  using live_marked [of 2 m n g D g' "\<lambda>c. c = 1"] by simp

lemma rot_round_spreads:
  assumes "queue_ok cur" and "grid_ok m n g" and "rot_ok K s" and "set (pending cur) \<subseteq> cells m n"
    and "fst s = int (card (fresh_cells m n g))"
  shows "\<exists>cur' g' s' new. rot_round m n cur (g, s) = Some (cur', g', s') \<and> queue_ok cur' \<and> pending cur' = [] \<and> head cur' = head cur
    \<and> rot_ok K s' \<and> marked 2 m n g (set new) g' \<and> pending (snd s') = pending (snd s) @ new
    \<and> set new = {q \<in> fresh_cells m n g. \<exists>p \<in> set (pending cur). adj p q} \<and> fst s' = int (card (fresh_cells m n g'))"
  using assms
proof (induction "pending cur" arbitrary: cur g s)
  case Nil
  then have "rot_round m n cur (g, s) = Some (cur, g, s)" by (simp add: rot_round.simps pending_Nil [symmetric])
  then show ?case using Nil marked_none by (intro exI [of _ cur] exI [of _ g] exI [of _ s] exI [of _ "[]"]) auto
next
  case (Cons p ps)
  let ?F = "fresh_cells m n g"
  note q = pending_Cons [OF Cons.prems(1) Cons.hyps(2) [symmetric]]
  have p: "p \<in> cells m n" using Cons.prems(4) Cons.hyps(2) by (metis list.set_intros(1) subsetD)
  obtain g1 s1 where v: "visit_dirs m n (fst p) (snd p) rot_cell (g, s) = Some (g1, s1)"
    and aft: "rotting.after K m n g s {q \<in> ?F. adj p q} (g1, s1)"
    using rotting.mark_neighbours [OF Cons.prems(2,3) p] Cons.prems(5) unfolding rot_cell_def by force
  obtain n1 where n1: "pending (snd s1) = pending (snd s) @ n1" "set n1 = {q \<in> ?F. adj p q}" "distinct n1"
    using aft by (auto simp: rotting.after_def)
  have m1: "marked 2 m n g (set n1) g1" and ok1: "rot_ok K s1" and b1: "nat (fst s1) + card (set n1) = nat (fst s)"
    using aft n1(2) by (auto simp: rotting.after_def)
  have F1: "fresh_cells m n g1 = ?F - set n1" by (rule marked_fresh [OF m1])
  have "card (fresh_cells m n g1) = card ?F - card (set n1)" unfolding F1 n1(2) by (rule card_Diff_subset) auto
  then have c1: "fst s1 = int (card (fresh_cells m n g1))" using b1 Cons.prems(5) ok1 unfolding rot_ok_def by linarith
  have "set (pending (cur\<lparr>tail := tail cur + 1\<rparr>)) \<subseteq> cells m n" using Cons.prems(4) Cons.hyps(2) q(5) by (metis list.set_intros(2) subset_iff)
  then obtain cur' g' s' n2 where r: "rot_round m n (cur\<lparr>tail := tail cur + 1\<rparr>) (g1, s1) = Some (cur', g', s')" "queue_ok cur'"
    "pending cur' = []" "head cur' = head cur" "rot_ok K s'" "marked 2 m n g1 (set n2) g'" "pending (snd s') = pending (snd s1) @ n2"
    "set n2 = {q \<in> fresh_cells m n g1. \<exists>p \<in> set ps. adj p q}" "fst s' = int (card (fresh_cells m n g'))"
    using Cons.hyps(1) [OF q(5) [symmetric] q(4) marked_ok [OF m1] ok1 _ c1] q(5) by auto
  have "rot_round m n cur (g, s) = Some (cur', g', s')" using q(1-3) v r(1) by (simp add: rot_round.simps [of m n cur])
  moreover have "marked 2 m n g (set (n1 @ n2)) g'" using marked_trans [OF m1 r(6)] by simp
  moreover have "pending (snd s') = pending (snd s) @ (n1 @ n2)" using r(7) n1(1) by simp
  moreover have "set (n1 @ n2) = {q \<in> ?F. \<exists>p \<in> set (pending cur). adj p q}"
    unfolding Cons.hyps(2) [symmetric] set_append n1(2) r(8) F1 by auto
  ultimately show ?case using r(2-5,9) by (intro exI [of _ cur'] exI [of _ g'] exI [of _ s'] exI [of _ "n1 @ n2"] conjI)
qed

subsection \<open>All rounds\<close>

text \<open>
  The state before round \<open>t + 1\<close>: the cells that are rotten after \<open>t\<close> minutes are not fresh, and only those in the queue \<open>Q\<close>
  have fresh neighbours.
\<close>

definition rounds :: "(int \<times> int) set \<Rightarrow> (int \<times> int) set \<Rightarrow> nat \<Rightarrow> (int \<times> int) set \<Rightarrow> (int \<times> int) set \<Rightarrow> bool" where
  "rounds F R t Q L \<longleftrightarrow> L = F - rotten F R t \<and> Q \<subseteq> rotten F R t \<and> (\<forall>q \<in> rotten F R t - Q. \<forall>p \<in> L. \<not> adj q p)
     \<and> (\<forall>s < t. \<not> F \<subseteq> rotten F R s)"

lemma rounds_start: "F \<inter> R = {} \<Longrightarrow> rounds F R 0 R F"
  by (auto simp: rounds_def rotten_def)

lemma rounds_step:
  assumes "rounds F R t Q L" and "L \<noteq> {}" and D: "D = {q \<in> L. \<exists>p \<in> Q. adj p q}"
  shows "rounds F R (Suc t) D (L - D)"
proof -
  have R: "rotten F R (Suc t) = rotten F R t \<union> D" using assms(1) unfolding rounds_def rotten_Suc rot_def D by blast
  have "\<not> F \<subseteq> rotten F R s" if "s < Suc t" for s
    using that assms(1,2) unfolding rounds_def by (cases "s = t") auto
  moreover have "\<not> adj q p" if "q \<in> rotten F R t" "p \<in> L - D" for q p
    using that assms(1) D unfolding rounds_def by blast
  ultimately show ?thesis using assms(1) unfolding rounds_def R by blast
qed

lemma rounds_done: "rounds F R t Q {} \<Longrightarrow> minutes_needed F R = int t"
  by (rule minutes_neededI) (auto simp: rounds_def)

lemma rounds_stuck:
  assumes "rounds F R t {} L" and "L \<noteq> {}"
  shows "minutes_needed F R = - 1"
proof (rule minutes_needed_never)
  show "rot F (rotten F R t) = rotten F R t" using assms(1) by (auto simp: rounds_def rot_def)
  show "\<not> F \<subseteq> rotten F R t" using assms by (auto simp: rounds_def)
qed

lemma rot_loop_minutes:
  assumes "rounds F R t (set (pending (snd s))) (fresh_cells m n g)" and "grid_ok m n g" and "queue_ok cur" and "pending cur = []"
    and "rot_ok K s" and "K + head cur \<le> 100" and "set (pending (snd s)) \<subseteq> cells m n"
    and "fst s = int (card (fresh_cells m n g))" and "pending (snd s) \<noteq> [] \<Longrightarrow> int t + fst s \<le> 100"
  shows "\<exists>g'. rot_loop m n cur (g, s) (int t) = Some (minutes_needed F R, g')"
  using assms
proof (induction "2 * card (fresh_cells m n g) + (if pending (snd s) = [] then 0 else 1)" arbitrary: t s g cur K rule: less_induct)
  case less
  let ?L = "fresh_cells m n g"
  have qok: "queue_ok (snd s)" using less.prems(5) by (simp add: rot_ok_def)
  consider (fin) "fst s = 0" | (stuck) "fst s \<noteq> 0" "pending (snd s) = []" | (go) "fst s \<noteq> 0" "pending (snd s) \<noteq> []" by blast
  then show ?case
  proof cases
    case fin
    then have "minutes_needed F R = int t" using less.prems(1,8) by (intro rounds_done) simp
    then show ?thesis using fin by (simp add: rot_loop.simps)
  next
    case stuck
    then have "minutes_needed F R = - 1" using less.prems(1,8) by (intro rounds_stuck [of F R t ?L]) auto
    then show ?thesis using stuck pending_Nil [OF qok] by (simp add: rot_loop.simps)
  next
    case go
    define K' where "K' = fst s + head cur"
    have ok': "rot_ok K' (fst s, cur)" using less.prems(3,5,6) by (auto simp: rot_ok_def K'_def queue_ok_def)
    have prem: "fst (fst s, cur) = int (card ?L)" using less.prems(8) by simp
    obtain c' g' s' new where r: "rot_round m n (snd s) (g, fst s, cur) = Some (c', g', s')" "queue_ok c'" "pending c' = []"
      "head c' = head (snd s)" "rot_ok K' s'" "marked 2 m n g (set new) g'" "pending (snd s') = new"
      "set new = {q \<in> ?L. \<exists>p \<in> set (pending (snd s)). adj p q}" "fst s' = int (card (fresh_cells m n g'))"
      using rot_round_spreads [OF qok less.prems(2) ok' less.prems(7) prem] less.prems(4) by auto
    have L': "fresh_cells m n g' = ?L - set new" by (rule marked_fresh [OF r(6)])
    have "?L \<noteq> {}" using go(1) less.prems(8) by auto
    then have rounds: "rounds F R (Suc t) (set new) (fresh_cells m n g')"
      unfolding L' using rounds_step [OF less.prems(1) _ r(8)] by simp
    have fewer: "card (fresh_cells m n g') < card ?L" if ne: "new \<noteq> []"
    proof -
      obtain x where "x \<in> set new" using ne by (cases new) auto
      then have "fresh_cells m n g' \<subset> ?L" unfolding L' using r(8) by blast
      then show ?thesis by (intro psubset_card_mono) auto
    qed
    have le: "card (fresh_cells m n g') \<le> card ?L" unfolding L' by (rule card_mono) auto
    have "\<exists>h. rot_loop m n c' (g', s') (int (Suc t)) = Some (minutes_needed F R, h)"
    proof (rule less.hyps [where K = K'])
      show "2 * card (fresh_cells m n g') + (if pending (snd s') = [] then 0 else 1)
        < 2 * card ?L + (if pending (snd s) = [] then 0 else 1)" using go(2) r(7) fewer le by auto
      show "K' + head c' \<le> 100" using less.prems(5,6) r(4) by (simp add: K'_def rot_ok_def)
      show "set (pending (snd s')) \<subseteq> cells m n" using r(7,8) by (auto simp: live_def)
      show "pending (snd s') \<noteq> [] \<Longrightarrow> int (Suc t) + fst s' \<le> 100" using fewer r(7,9) less.prems(8,9) go(2) by simp
    qed (use rounds r marked_ok in auto)
    moreover have "rot_loop m n cur (g, s) (int t) = rot_loop m n c' (g', s') (int (Suc t))"
    proof -
      have "to_i32 (int t + 1) = Some (int t + 1)" using less.prems(9) go less.prems(5) by (simp add: rot_ok_def)
      then show ?thesis using go pending_Nil [OF qok] r(1) by (subst rot_loop.simps) (simp add: add.commute)
    qed
    ultimately show ?thesis by simp
  qed
qed

subsection \<open>The first loop\<close>

lemma count_all:
  assumes grid: "grid_ok m n g" and size: "card (cells m n) \<le> 100"
  shows "\<exists>q. for_each (count_cell g) (all_cells m n) (0, zero_queue) = Some (int (card (fresh_cells m n g)), q)
    \<and> queue_ok q \<and> head q = int (card (rotten_cells m n g)) \<and> set (pending q) = rotten_cells m n g"
proof -
  let ?xs = "all_cells m n" and ?F = "fresh_cells m n g" and ?R = "rotten_cells m n g"
  let ?I = "\<lambda>i s. fst s = int (card (?F \<inter> set (take i ?xs))) \<and> queue_ok (snd s)
    \<and> head (snd s) = int (card (?R \<inter> set (take i ?xs))) \<and> set (pending (snd s)) = ?R \<inter> set (take i ?xs)"
  have "\<exists>s. for_each (count_cell g) ?xs (0, zero_queue) = Some s \<and> ?I (length ?xs) s"
  proof (rule for_each_rule [where I = ?I])
    show "?I 0 (0, zero_queue)" by (simp add: zero_queue_def queue_ok_def pending_def)
    fix i s
    assume i: "i < length ?xs" and I: "?I i s"
    let ?p = "?xs ! i" and ?T = "set (take i ?xs)"
    have p: "?p \<in> cells m n" using nth_mem [OF i] by (simp add: set_all_cells)
    have T: "set (take (Suc i) ?xs) = insert ?p ?T" by (simp add: i take_Suc_conv_app_nth)
    have new: "?p \<notin> ?T" using i distinct_all_cells [of m n] by (metis in_set_conv_nth length_take less_irrefl min_less_iff_conj nth_eq_iff_index_eq nth_take)
    have sub: "insert ?p ?T \<subseteq> cells m n" using p set_take_subset [of i ?xs] by (simp add: set_all_cells)
    have small: "card (X \<inter> ?T) < 100" for X
    proof -
      have "card (X \<inter> ?T) < card (insert ?p ?T)" using new by (intro psubset_card_mono) auto
      also have "\<dots> \<le> 100" using card_mono [OF finite_cells sub] size by simp
      finally show ?thesis .
    qed
    have F: "?F \<inter> insert ?p ?T = (if at g ?p = 1 then insert ?p (?F \<inter> ?T) else ?F \<inter> ?T)"
      and R: "?R \<inter> insert ?p ?T = (if at g ?p = 2 then insert ?p (?R \<inter> ?T) else ?R \<inter> ?T)" using p by (auto simp: live_def)
    have "to_i32 (fst s + 1) = Some (fst s + 1)" using I small [of ?F] by simp
    moreover obtain q where "queue_add (snd s) (fst ?p) (snd ?p) = Some q" "queue_ok q" "pending q = pending (snd s) @ [?p]" "head q = head (snd s) + 1"
      using queue_add_ok [of "snd s" "fst ?p" "snd ?p"] I small [of ?R] by auto
    ultimately show "\<exists>s'. count_cell g ?p s = Some s' \<and> ?I (Suc i) s'"
      unfolding T F R using I new cell_get_ok [OF grid p] by (cases s) (auto simp: count_cell_def)
  qed
  moreover have "?F \<inter> set (take (length ?xs) ?xs) = ?F" "?R \<inter> set (take (length ?xs) ?xs) = ?R" by (auto simp: set_all_cells live_def)
  ultimately show ?thesis by auto
qed

subsection \<open>Properties\<close>

text \<open>
  C9: For a rectangular grid of at most 100 cells, \<open>orangesRotting\<close> returns the first minute at which no orange is fresh when
  every fresh neighbour of a rotten orange rots each minute, and -1 when that never happens.  It ends and never reads or
  writes outside the grid or the two queues of 100 entries, although their indices are never reset.
\<close>

theorem orangesRotting_correct:
  assumes grid: "grid_ok m n g" and size: "m * n \<le> 100"
  shows "\<exists>g'. orangesRotting g m (n # ns) = Some (minutes_needed (fresh_cells m n g) (rotten_cells m n g), g')"
proof -
  let ?F = "fresh_cells m n g" and ?R = "rotten_cells m n g"
  have "0 \<le> m" "0 \<le> n" using grid by (auto simp: grid_ok_def)
  then have "int (card (cells m n)) = m * n" by (simp add: card_cells)
  then have cells: "card (cells m n) \<le> 100" using size by simp
  obtain q where q: "for_each (count_cell g) (all_cells m n) (0, zero_queue) = Some (int (card ?F), q)"
    "queue_ok q" "head q = int (card ?R)" "set (pending q) = ?R" using count_all [OF grid cells] by blast
  have disj: "?F \<inter> ?R = {}" by (auto simp: live_def)
  have "card (?F \<union> ?R) \<le> card (cells m n)" by (rule card_mono) (auto simp: live_def)
  then have sum: "card ?F + card ?R \<le> 100" using disj cells by (simp add: card_Un_disjoint)
  have "\<exists>g'. rot_loop m n zero_queue (g, int (card ?F), q) (int 0) = Some (minutes_needed ?F ?R, g')"
  proof (rule rot_loop_minutes [where K = "int (card ?F) + int (card ?R)"])
    show "rot_ok (int (card ?F) + int (card ?R)) (int (card ?F), q)" using q(2,3) sum by (simp add: rot_ok_def)
    show "rounds ?F ?R 0 (set (pending (snd (int (card ?F), q)))) ?F" using rounds_start [OF disj] q(4) by simp
    show "set (pending (snd (int (card ?F), q))) \<subseteq> cells m n" using q(4) by (auto simp: live_def)
  qed (use grid sum in \<open>auto simp: zero_queue_def queue_ok_def pending_def\<close>)
  then show ?thesis unfolding orangesRotting_def using q(1) by simp
qed

theorem orangesRotting_correct_witness:
  "orangesRotting [[2, 1, 1]] 1 [3] = Some (2, [[2, 2, 2]])
    \<and> minutes_needed (fresh_cells 1 3 [[2, 1, 1]]) (rotten_cells 1 3 [[2, 1, 1]]) = 2"
proof -
  have "orangesRotting [[2, 1, 1]] 1 [3] = Some (2, [[2, 2, 2]])" by code_simp
  then show ?thesis using orangesRotting_correct [of 1 3 "[[2, 1, 1]]" "[]"] by (auto simp: grid_ok_def)
qed

end
