(* ===== verification/Heap_List.thy ===== *)
theory Heap_List
  imports CPrelude "HOL-Library.Multiset"
begin

text \<open>
  Singly linked lists on a heap, for \<open>leetcode/05-reverse-linked-list.c\<close> and \<open>leetcode/06-merge-two-sorted-lists.c\<close>.  A pointer is
  an address or null; a field of a node is undefined until it is written, and reading an undefined field, an unallocated
  address or through null is undefined (\<^const>\<open>None\<close>).  The locale \<open>list_builder\<close> is the contract of \<open>build_array\<close>, which the
  two files implement differently.
\<close>

type_synonym ptr = "nat option"

record list_node =
  val :: "int option"
  nxt :: "ptr option"

type_synonym heap = "nat \<Rightarrow> list_node option"

definition uninit :: list_node where
  "uninit = \<lparr>val = None, nxt = None\<rparr>"

definition deref :: "heap \<Rightarrow> ptr \<Rightarrow> list_node option" where
  "deref h p = Option.bind p h"

definition get_val :: "heap \<Rightarrow> ptr \<Rightarrow> int option" where
  "get_val h p = Option.bind (deref h p) val"

definition get_next :: "heap \<Rightarrow> ptr \<Rightarrow> ptr option" where
  "get_next h p = Option.bind (deref h p) nxt"

definition set_val :: "heap \<Rightarrow> ptr \<Rightarrow> int \<Rightarrow> heap option" where
  "set_val h p v = do { a \<leftarrow> p; n \<leftarrow> h a; Some (h(a := Some (n\<lparr>val := Some v\<rparr>))) }"

definition set_next :: "heap \<Rightarrow> ptr \<Rightarrow> ptr \<Rightarrow> heap option" where
  "set_next h p q = do { a \<leftarrow> p; n \<leftarrow> h a; Some (h(a := Some (n\<lparr>nxt := Some q\<rparr>))) }"

text \<open>\<open>free\<close> of a pointer that is not allocated is undefined.\<close>

definition free_node :: "heap \<Rightarrow> ptr \<Rightarrow> heap option" where
  "free_node h p = do { a \<leftarrow> p; n \<leftarrow> h a; Some (h(a := None)) }"

partial_function (option) destroy_list :: "heap \<Rightarrow> ptr \<Rightarrow> heap option" where
  "destroy_list h p = (if p = None then Some h
     else Option.bind (get_next h p) (\<lambda>q. Option.bind (free_node h p) (\<lambda>h. destroy_list h q)))"

declare destroy_list.simps [code]

text \<open>The check loop of the tests: the values are \<open>sentinel\<close>, \<open>sentinel + d\<close>, \<dots>; the result is the sentinel at the end.\<close>

partial_function (option) check_list :: "heap \<Rightarrow> ptr \<Rightarrow> int \<Rightarrow> int \<Rightarrow> int option" where
  "check_list h p sentinel d = (if p = None then Some sentinel
     else Option.bind (get_val h p) (\<lambda>v. Option.bind (c_assert (v = sentinel)) (\<lambda>_.
       Option.bind (get_next h p) (\<lambda>q. Option.bind (to_i32 (sentinel + d)) (\<lambda>s. check_list h q s d)))))"

declare check_list.simps [code]

subsection \<open>Lists in the heap\<close>

fun is_list :: "heap \<Rightarrow> ptr \<Rightarrow> nat list \<Rightarrow> bool" where
  "is_list h p [] \<longleftrightarrow> p = None"
| "is_list h p (a # as) \<longleftrightarrow> p = Some a \<and> (case h a of Some n \<Rightarrow> val n \<noteq> None \<and> (case nxt n of Some q \<Rightarrow> is_list h q as | None \<Rightarrow> False) | None \<Rightarrow> False)"

definition value_at :: "heap \<Rightarrow> nat \<Rightarrow> int" where
  "value_at h a = the (val (the (h a)))"

text \<open>\<open>h'\<close> has the values of \<open>h\<close> at \<open>as\<close>, and differs from \<open>h\<close> only there.\<close>

definition same_but_links :: "nat list \<Rightarrow> heap \<Rightarrow> heap \<Rightarrow> bool" where
  "same_but_links as h h' \<longleftrightarrow> (\<forall>a. a \<notin> set as \<longrightarrow> h' a = h a) \<and> (\<forall>a \<in> set as. value_at h' a = value_at h a)"

lemma is_list_Cons_iff:
  "is_list h p (a # as) \<longleftrightarrow> p = Some a \<and> (\<exists>v q. h a = Some \<lparr>val = Some v, nxt = Some q\<rparr> \<and> is_list h q as)"
proof (cases "h a")
  case (Some n)
  then show ?thesis by (cases n) (auto split: option.splits)
qed simp

lemma is_list_cong: "is_list h p as \<Longrightarrow> \<forall>a \<in> set as. h' a = h a \<Longrightarrow> is_list h' p as"
  by (induction as arbitrary: p) (auto split: option.splits)

lemma is_list_unique: "is_list h p as \<Longrightarrow> is_list h p bs \<Longrightarrow> as = bs"
proof (induction as arbitrary: p bs)
  case Nil
  then show ?case by (cases bs) auto
next
  case (Cons a as)
  then show ?case by (cases bs) (auto split: option.splits)
qed

lemma is_list_suffix: "is_list h p (as @ bs) \<Longrightarrow> \<exists>q. is_list h q bs"
  by (induction as arbitrary: p) (auto split: option.splits)

lemma is_list_distinct: "is_list h p as \<Longrightarrow> distinct as"
proof (induction as arbitrary: p)
  case (Cons a as)
  have "a \<notin> set as"
  proof
    assume "a \<in> set as"
    then obtain us vs where as: "as = us @ a # vs" by (metis split_list)
    obtain q where "is_list h q (a # vs)" using is_list_suffix [of h p "a # us" "a # vs"] Cons.prems as by auto
    then have "is_list h (Some a) (a # vs)" by (simp only: is_list.simps)
    moreover have "is_list h (Some a) (a # as)" using Cons.prems by (simp only: is_list.simps)
    ultimately have "a # vs = a # as" by (rule is_list_unique)
    then show False using as by simp
  qed
  then show ?case using Cons by (auto split: option.splits)
qed simp

lemma is_list_alloc: "is_list h p as \<Longrightarrow> a \<in> set as \<Longrightarrow> h a \<noteq> None"
  by (induction as arbitrary: p) (auto split: option.splits)

lemma same_but_links_refl: "same_but_links as h h"
  by (simp add: same_but_links_def)

lemma destroy_list_frees:
  assumes "is_list h p as"
  shows "destroy_list h p = Some (\<lambda>a. if a \<in> set as then None else h a)"
  using assms
proof (induction as arbitrary: h p)
  case Nil
  then show ?case by (simp add: destroy_list.simps)
next
  case (Cons a as)
  obtain v q where a: "p = Some a" "h a = Some \<lparr>val = Some v, nxt = Some q\<rparr>" "is_list h q as" using Cons.prems unfolding is_list_Cons_iff by blast
  have "a \<notin> set as" using is_list_distinct [OF Cons.prems] by simp
  then have "is_list (h(a := None)) q as" using is_list_cong [OF a(3)] by auto
  from Cons.IH [OF this] have "destroy_list (h(a := None)) q = Some (\<lambda>b. if b \<in> set as then None else (h(a := None)) b)" .
  moreover have "(\<lambda>b. if b \<in> set as then None else (h(a := None)) b) = (\<lambda>b. if b \<in> set (a # as) then None else h b)" by auto
  ultimately have "destroy_list (h(a := None)) q = Some (\<lambda>b. if b \<in> set (a # as) then None else h b)" by simp
  then show ?case using a(1,2) by (subst destroy_list.simps) (simp add: get_next_def deref_def free_node_def)
qed

lemma check_list_counts:
  assumes "is_list h p as" and "map (value_at h) as = map (\<lambda>i. s + d * int i) [0..<length as]"
    and "\<forall>i \<le> length as. - (2 ^ 31) \<le> s + d * int i \<and> s + d * int i < 2 ^ 31"
  shows "check_list h p s d = Some (s + d * int (length as))"
  using assms
proof (induction as arbitrary: p s)
  case Nil
  then show ?case by (simp add: check_list.simps)
next
  case (Cons a as)
  obtain v q where a: "p = Some a" "h a = Some \<lparr>val = Some v, nxt = Some q\<rparr>" "is_list h q as" using Cons.prems(1) unfolding is_list_Cons_iff by blast
  have split: "map (\<lambda>i. s + d * int i) [0..<length (a # as)] = s # map (\<lambda>i. (s + d) + d * int i) [0..<length as]"
    by (simp add: upt_conv_Cons map_Suc_upt [symmetric] algebra_simps del: upt_Suc)
  then have "value_at h a # map (value_at h) as = s # map (\<lambda>i. (s + d) + d * int i) [0..<length as]" using Cons.prems(2) by (simp only: list.map)
  moreover have "value_at h a = v" using a(2) by (simp add: value_at_def)
  ultimately have v: "v = s" "map (value_at h) as = map (\<lambda>i. (s + d) + d * int i) [0..<length as]" by simp_all
  have "to_i32 (s + d) = Some (s + d)" using Cons.prems(3) [rule_format, of 1] by simp
  moreover have "\<forall>i \<le> length as. - (2 ^ 31) \<le> (s + d) + d * int i \<and> (s + d) + d * int i < 2 ^ 31"
  proof (intro allI impI)
    fix i
    assume "i \<le> length as"
    then show "- (2 ^ 31) \<le> (s + d) + d * int i \<and> (s + d) + d * int i < 2 ^ 31" using Cons.prems(3) [rule_format, of "Suc i"] by (simp add: algebra_simps)
  qed
  ultimately show ?case using Cons.IH [OF a(3) v(2)] a(1,2) v(1)
    by (subst check_list.simps) (simp add: get_val_def get_next_def deref_def algebra_simps)
qed

subsection \<open>The contract of a function that builds a list\<close>

text \<open>\<open>ms i\<close> is what the \<open>i\<close>-th call of \<open>malloc\<close> returns: here \<open>n\<close> different addresses that are not in use.\<close>

definition fresh_allocs :: "heap \<Rightarrow> (nat \<Rightarrow> ptr) \<Rightarrow> nat \<Rightarrow> nat list \<Rightarrow> bool" where
  "fresh_allocs h ms n as \<longleftrightarrow> map ms [0..<n] = map Some as \<and> distinct as \<and> (\<forall>a \<in> set as. h a = None)"

text \<open>\<open>build h ms nums\<close>: \<open>None\<close> inside is the exit of the program with status 1; \<open>ready\<close> is what the call needs besides memory.\<close>

locale list_builder =
  fixes build :: "heap \<Rightarrow> (nat \<Rightarrow> ptr) \<Rightarrow> int list \<Rightarrow> (ptr \<times> heap) option option"
    and ready :: "heap \<Rightarrow> (nat \<Rightarrow> ptr) \<Rightarrow> int list \<Rightarrow> bool"
  assumes build_ok: "fresh_allocs h ms (length nums) as \<Longrightarrow> ready h ms nums \<Longrightarrow>
    \<exists>p h'. build h ms nums = Some (Some (p, h')) \<and> is_list h' p as \<and> map (value_at h') as = nums \<and> (\<forall>a. a \<notin> set as \<longrightarrow> h' a = h a)"
begin

text \<open>
  A list that is built, rearranged in place and destroyed leaves the heap as it was, and in between it has the values
  the rearrangement gives it.
\<close>

lemma build_use_destroy:
  assumes "fresh_allocs h ms (length nums) as" and "ready h ms nums"
    and use: "\<And>h1 p. is_list h1 p as \<Longrightarrow> \<exists>h2 q bs. f h1 p = Some (q, h2) \<and> is_list h2 q bs \<and> bs = g as \<and> set bs = set as \<and> same_but_links as h1 h2"
  shows "\<exists>h1 p h2 q. build h ms nums = Some (Some (p, h1)) \<and> f h1 p = Some (q, h2) \<and> is_list h2 q (g as)
    \<and> map (value_at h2) (g as) = map (value_at h1) (g as) \<and> map (value_at h1) as = nums \<and> destroy_list h2 q = Some h"
proof -
  obtain p h1 where b: "build h ms nums = Some (Some (p, h1))" "is_list h1 p as" "map (value_at h1) as = nums"
    "\<forall>a. a \<notin> set as \<longrightarrow> h1 a = h a" using build_ok [OF assms(1,2)] by blast
  obtain h2 q where u: "f h1 p = Some (q, h2)" "is_list h2 q (g as)" "set (g as) = set as" "same_but_links as h1 h2"
    using use [OF b(2)] by blast
  have "destroy_list h2 q = Some (\<lambda>a. if a \<in> set as then None else h2 a)" using destroy_list_frees [OF u(2)] u(3) by simp
  moreover have "(\<lambda>a. if a \<in> set as then None else h2 a) = h"
    using u(4) b(4) assms(1) by (auto simp: same_but_links_def fresh_allocs_def fun_eq_iff)
  moreover have "map (value_at h2) (g as) = map (value_at h1) (g as)" using u(3,4) by (simp add: same_but_links_def)
  ultimately show ?thesis using b u by auto
qed

end

end
