(* ===== verification/Reverse_List.thy ===== *)
theory Reverse_List
  imports Heap_List
begin

text \<open>
  \<open>leetcode/05-reverse-linked-list.c\<close>: in-place reversal of a linked list, and the construction of a list from an array by
  allocating all nodes first and linking them afterwards.
\<close>

partial_function (option) reverse_from :: "heap \<Rightarrow> ptr \<Rightarrow> ptr \<Rightarrow> (ptr \<times> heap) option" where
  "reverse_from h prev cur = (if cur = None then Some (prev, h)
     else Option.bind (get_next h cur) (\<lambda>q. Option.bind (set_next h cur prev) (\<lambda>h. reverse_from h cur q)))"

declare reverse_from.simps [code]

definition reverseList :: "heap \<Rightarrow> ptr \<Rightarrow> (ptr \<times> heap) option" where
  "reverseList h head = reverse_from h None head"

text \<open>The first loop: \<open>None\<close> when an allocation fails and the program exits.\<close>

fun alloc_nodes :: "(nat \<Rightarrow> ptr) \<Rightarrow> nat list \<Rightarrow> heap \<Rightarrow> (ptr list \<times> heap) option" where
  "alloc_nodes ms [] h = Some ([], h)"
| "alloc_nodes ms (i # is) h =
     (case ms i of
        None \<Rightarrow> None
      | Some a \<Rightarrow> do { (as, h) \<leftarrow> alloc_nodes ms is (h(a := Some uninit)); Some (Some a # as, h) })"

text \<open>The second loop, from index \<open>i\<close> on.\<close>

fun link_nodes :: "ptr list \<Rightarrow> nat \<Rightarrow> int list \<Rightarrow> heap \<Rightarrow> heap option" where
  "link_nodes addr i [] h = Some h"
| "link_nodes addr i (x # xs) h = do {
     p \<leftarrow> rd addr i;
     h \<leftarrow> set_val h p x;
     q \<leftarrow> rd addr (i + 1);
     h \<leftarrow> set_next h p q;
     link_nodes addr (i + 1) xs h
   }"

definition build_array :: "heap \<Rightarrow> (nat \<Rightarrow> ptr) \<Rightarrow> int list \<Rightarrow> (ptr \<times> heap) option option" where
  "build_array h ms nums =
     (case alloc_nodes ms [0..<length nums] h of
        None \<Rightarrow> Some None
      | Some (as, h) \<Rightarrow> do {
          h \<leftarrow> link_nodes (as @ [None]) 0 nums h;
          head \<leftarrow> rd (as @ [None]) 0;
          Some (Some (head, h))
        })"

text \<open>One test of \<open>main\<close>; the result is the heap at the end.\<close>

definition expect_reversed :: "heap \<Rightarrow> ptr \<Rightarrow> int \<Rightarrow> heap option" where
  "expect_reversed h test array_size = do {
     (newhead, h) \<leftarrow> reverseList h test;
     s \<leftarrow> check_list h newhead array_size (- 1);
     c_assert (s = 0);
     destroy_list h newhead
   }"

definition main :: "heap \<Rightarrow> (nat \<Rightarrow> ptr) \<Rightarrow> (nat \<Rightarrow> ptr) \<Rightarrow> heap option option" where
  "main h ms1 ms2 = do {
     r \<leftarrow> build_array h ms1 [1, 2, 3, 4, 5, 6];
     case r of None \<Rightarrow> Some None | Some (test, h) \<Rightarrow> do {
       h \<leftarrow> expect_reversed h test 6;
       r \<leftarrow> build_array h ms2 [1, 2];
       case r of None \<Rightarrow> Some None | Some (test, h) \<Rightarrow> do {
         h \<leftarrow> expect_reversed h test 2;
         h \<leftarrow> expect_reversed h None 0;
         Some (Some h)
       }
     }
   }"

subsection \<open>Reversal\<close>

lemma reverse_from_correct:
  assumes "is_list h cur as" and "is_list h prev bs" and "set as \<inter> set bs = {}"
  shows "\<exists>p h'. reverse_from h prev cur = Some (p, h') \<and> is_list h' p (rev as @ bs) \<and> same_but_links as h h'"
  using assms
proof (induction as arbitrary: h prev cur bs)
  case Nil
  then show ?case using same_but_links_refl by (simp add: reverse_from.simps)
next
  case (Cons a as)
  obtain v q where a: "cur = Some a" "h a = Some \<lparr>val = Some v, nxt = Some q\<rparr>" "is_list h q as" using Cons.prems(1) unfolding is_list_Cons_iff by blast
  define g where "g = h(a := Some \<lparr>val = Some v, nxt = Some prev\<rparr>)"
  have new: "a \<notin> set as" "a \<notin> set bs" using is_list_distinct [OF Cons.prems(1)] Cons.prems(3) by simp_all
  have "is_list g q as" "is_list g prev bs" using is_list_cong [OF a(3), of g] is_list_cong [OF Cons.prems(2), of g] new by (auto simp: g_def)
  then have "is_list g cur (a # bs)" using a(1) by (simp add: g_def)
  moreover have "set as \<inter> set (a # bs) = {}" using new Cons.prems(3) by auto
  ultimately obtain p h' where r: "reverse_from g cur q = Some (p, h')" "is_list h' p (rev as @ a # bs)" "same_but_links as g h'"
    using Cons.IH [OF \<open>is_list g q as\<close>] by blast
  have "same_but_links (a # as) h h'" using r(3) a(2) new(1) by (auto simp: g_def same_but_links_def value_at_def)
  moreover have "reverse_from h prev cur = Some (p, h')"
    using r(1) a(1,2) by (subst reverse_from.simps) (simp add: get_next_def set_next_def deref_def g_def)
  ultimately show ?case using r(2) by simp
qed

subsection \<open>Construction\<close>

lemma alloc_nodes_ok:
  "map ms is = map Some as \<Longrightarrow> alloc_nodes ms is h = Some (map Some as, \<lambda>a. if a \<in> set as then Some uninit else h a)"
proof (induction "is" arbitrary: as h)
  case (Cons i "is")
  then obtain a bs where as: "as = a # bs" "ms i = Some a" "map ms is = map Some bs" by (cases as) auto
  from Cons.IH [OF as(3)] as(1,2) show ?case by (auto simp: fun_eq_iff)
qed simp

lemma link_nodes_ok:
  assumes "drop i addr = map Some as @ [None]" and "length xs = length as" and "distinct as" and "\<forall>a \<in> set as. h a \<noteq> None"
  shows "\<exists>h'. link_nodes addr i xs h = Some h' \<and> is_list h' (hd (map Some as @ [None])) as \<and> map (value_at h') as = xs
    \<and> (\<forall>a. a \<notin> set as \<longrightarrow> h' a = h a)"
  using assms
proof (induction xs arbitrary: i as h)
  case (Cons x xs)
  then obtain a bs where as: "as = a # bs" by (cases as) auto
  have i: "i < length addr" using Cons.prems(1) as by (cases "i < length addr") auto
  then have "addr ! i # drop (Suc i) addr = Some a # map Some bs @ [None]" using Cons.prems(1) as by (simp add: Cons_nth_drop_Suc)
  then have addr: "addr ! i = Some a" "drop (Suc i) addr = map Some bs @ [None]" by simp_all
  have i1: "Suc i < length addr" using addr(2) by (cases "Suc i < length addr") auto
  then have next_ptr: "addr ! Suc i = hd (map Some bs @ [None])" using addr(2) by (metis hd_drop_conv_nth)
  let ?h = "h(a := Some \<lparr>val = Some x, nxt = Some (addr ! Suc i)\<rparr>)"
  obtain n where n: "h a = Some n" using Cons.prems(4) as by auto
  have "\<exists>h'. link_nodes addr (Suc i) xs ?h = Some h' \<and> is_list h' (hd (map Some bs @ [None])) bs \<and> map (value_at h') bs = xs
    \<and> (\<forall>b. b \<notin> set bs \<longrightarrow> h' b = ?h b)"
    using Cons.prems as addr(2) by (intro Cons.IH) auto
  then obtain h' where h': "link_nodes addr (Suc i) xs ?h = Some h'" "is_list h' (hd (map Some bs @ [None])) bs" "map (value_at h') bs = xs"
    "\<forall>b. b \<notin> set bs \<longrightarrow> h' b = ?h b" by blast
  have "h' a = Some \<lparr>val = Some x, nxt = Some (addr ! Suc i)\<rparr>" using h'(4) Cons.prems(3) as by simp
  then have "is_list h' (hd (map Some as @ [None])) as" "value_at h' a = x" using h'(2) as next_ptr by (simp_all add: value_at_def)
  moreover have "link_nodes addr i (x # xs) h = Some h'" using h'(1) i i1 addr(1) n by (cases n) (simp add: set_val_def set_next_def)
  ultimately show ?case using h'(3,4) as by auto
qed auto

lemma build_array_ok:
  assumes "fresh_allocs h ms (length nums) as"
  shows "\<exists>p h'. build_array h ms nums = Some (Some (p, h')) \<and> is_list h' p as \<and> map (value_at h') as = nums \<and> (\<forall>a. a \<notin> set as \<longrightarrow> h' a = h a)"
proof -
  let ?h = "\<lambda>a. if a \<in> set as then Some uninit else h a"
  have as: "map ms [0..<length nums] = map Some as" "distinct as" using assms by (simp_all add: fresh_allocs_def)
  have len: "length nums = length as" using map_eq_imp_length_eq [OF as(1)] by simp
  obtain h' where h': "link_nodes (map Some as @ [None]) 0 nums ?h = Some h'" "is_list h' (hd (map Some as @ [None])) as"
    "map (value_at h') as = nums" "\<forall>a. a \<notin> set as \<longrightarrow> h' a = ?h a"
    using link_nodes_ok [of 0 "map Some as @ [None]" as nums ?h] as(2) len by auto
  have "rd (map Some as @ [None]) 0 = Some (hd (map Some as @ [None]))" by (simp add: hd_conv_nth)
  then show ?thesis using h' alloc_nodes_ok [OF as(1), of h] unfolding build_array_def by simp
qed

interpretation array_first: list_builder build_array "\<lambda>h ms nums. True"
  by unfold_locales (rule build_array_ok)

subsection \<open>Properties\<close>

text \<open>
  \<open>reverseList\<close> ends on every null-terminated list, never dereferences a null or dangling pointer, and returns
  the same nodes in the opposite order: their values are kept and no other memory is changed.
\<close>

theorem reverseList_correct:
  assumes "is_list h p as"
  shows "\<exists>q h'. reverseList h p = Some (q, h') \<and> is_list h' q (rev as) \<and> (\<forall>a \<in> set as. value_at h' a = value_at h a)
    \<and> (\<forall>a. a \<notin> set as \<longrightarrow> h' a = h a)"
  using reverse_from_correct [OF assms, of None "[]"] by (auto simp: reverseList_def same_but_links_def)

theorem reverseList_correct_witness:
  "\<exists>q h'. reverseList [0 \<mapsto> \<lparr>val = Some 7, nxt = Some (Some 1)\<rparr>, 1 \<mapsto> \<lparr>val = Some 8, nxt = Some None\<rparr>] (Some 0) = Some (q, h') \<and> is_list h' q [1, 0]"
  using reverseList_correct [of "[0 \<mapsto> \<lparr>val = Some 7, nxt = Some (Some 1)\<rparr>, 1 \<mapsto> \<lparr>val = Some 8, nxt = Some None\<rparr>]" "Some 0" "[0, 1]"] by auto

text \<open>
  C29: Building a list from an array, reversing it and destroying it gives the array's values in the opposite order in between
  and ends with the memory it started with: every node is freed once, and none is leaked.
\<close>

theorem build_reverse_destroy:
  assumes "fresh_allocs h ms (length nums) as"
  shows "\<exists>h1 p h2 q. build_array h ms nums = Some (Some (p, h1)) \<and> reverseList h1 p = Some (q, h2) \<and> is_list h2 q (rev as)
    \<and> map (value_at h2) (rev as) = rev nums \<and> destroy_list h2 q = Some h"
proof -
  have "\<exists>h1 p h2 q. build_array h ms nums = Some (Some (p, h1)) \<and> reverseList h1 p = Some (q, h2) \<and> is_list h2 q (rev as)
    \<and> map (value_at h2) (rev as) = map (value_at h1) (rev as) \<and> map (value_at h1) as = nums \<and> destroy_list h2 q = Some h"
  proof (rule array_first.build_use_destroy [OF assms TrueI, of reverseList rev])
    fix h1 p
    assume "is_list h1 p as"
    then show "\<exists>h2 q bs. reverseList h1 p = Some (q, h2) \<and> is_list h2 q bs \<and> bs = rev as \<and> set bs = set as \<and> same_but_links as h1 h2"
      using reverse_from_correct [of h1 p as None "[]"] by (auto simp: reverseList_def)
  qed
  then show ?thesis by (metis rev_map)
qed

theorem build_reverse_destroy_witness:
  "\<exists>h1 p h2 q. build_array Map.empty Some [7, 8] = Some (Some (p, h1)) \<and> reverseList h1 p = Some (q, h2)
    \<and> map (value_at h2) [1, 0] = [8, 7] \<and> destroy_list h2 q = Some Map.empty"
  using build_reverse_destroy [of Map.empty Some "[7, 8]" "[0, 1]"] by (auto simp: fresh_allocs_def numeral_eq_Suc)

text \<open>The tests of \<open>main\<close> pass, and leave the heap as it was, whatever unused addresses \<open>malloc\<close> returns.\<close>

lemma expect_reversed_passes:
  assumes "is_list h p as" and "map (value_at h) as = map (\<lambda>i. 1 + int i) [0..<length as]" and "length as < 2 ^ 31"
  shows "expect_reversed h p (int (length as)) = Some (\<lambda>a. if a \<in> set as then None else h a)"
proof -
  obtain q h' where r: "reverseList h p = Some (q, h')" "is_list h' q (rev as)" "same_but_links as h h'"
    using reverse_from_correct [OF assms(1), of None "[]"] by (auto simp: reverseList_def)
  have "map (value_at h') (rev as) = rev (map (value_at h) as)" using r(3) by (simp add: same_but_links_def rev_map)
  also have "\<dots> = map (\<lambda>i. int (length as) + - 1 * int i) [0..<length (rev as)]"
    unfolding assms(2) by (rule nth_equalityI) (auto simp: rev_nth of_nat_diff)
  finally have "check_list h' q (int (length as)) (- 1) = Some 0"
    using check_list_counts [OF r(2), of "int (length as)" "- 1"] assms(3) by auto
  moreover have "destroy_list h' q = Some (\<lambda>a. if a \<in> set as then None else h a)"
    using destroy_list_frees [OF r(2)] r(3) by (auto simp: same_but_links_def fun_eq_iff)
  ultimately show ?thesis using r(1) by (simp add: expect_reversed_def)
qed

lemma reverse_main_passes:
  assumes "fresh_allocs h ms1 6 as" and "fresh_allocs h ms2 2 bs"
  shows "main h ms1 ms2 = Some (Some h)"
proof -
  have test: "\<exists>p h1. build_array h ms nums = Some (Some (p, h1)) \<and> expect_reversed h1 p (int (length nums)) = Some h"
    if f: "fresh_allocs h ms (length nums) cs" and nums: "nums = map (\<lambda>i. 1 + int i) [0..<length nums]" and small: "length nums < 2 ^ 31" for ms nums cs
  proof -
    obtain p h1 where b: "build_array h ms nums = Some (Some (p, h1))" "is_list h1 p cs" "map (value_at h1) cs = nums"
      "\<forall>a. a \<notin> set cs \<longrightarrow> h1 a = h a" using build_array_ok [OF f] by blast
    have len: "length cs = length nums" using b(3) by auto
    have "(\<lambda>a. if a \<in> set cs then None else h1 a) = h" using b(4) f by (auto simp: fresh_allocs_def fun_eq_iff)
    then show ?thesis using expect_reversed_passes [OF b(2)] b(1,3) nums small len by metis
  qed
  have six: "length [1, 2, 3, 4, 5, 6 :: int] = 6" and two: "length [1, 2 :: int] = 2" by simp_all
  have "\<exists>p h1. build_array h ms1 [1, 2, 3, 4, 5, 6] = Some (Some (p, h1)) \<and> expect_reversed h1 p (int (length [1, 2, 3, 4, 5, 6 :: int])) = Some h"
    by (rule test, unfold six, rule assms(1)) (code_simp, simp)
  moreover have "\<exists>p h1. build_array h ms2 [1, 2] = Some (Some (p, h1)) \<and> expect_reversed h1 p (int (length [1, 2 :: int])) = Some h"
    by (rule test, unfold two, rule assms(2)) (code_simp, simp)
  moreover have "expect_reversed h None 0 = Some h" using expect_reversed_passes [of h None "[]"] by simp
  ultimately show ?thesis by (auto simp: main_def)
qed

end
