(* ===== verification/Merge_Lists.thy ===== *)
theory Merge_Lists
  imports Heap_List
begin

text \<open>
  \<open>leetcode/06-merge-two-sorted-lists.c\<close>: merging two sorted linked lists by relinking their nodes, and the construction of a list
  by appending one node at a time.  Both functions start from a local node \<open>dummy\<close>, which here is a heap cell at an
  unused address \<open>d\<close> that is allocated on entry, with undefined fields, and released on return.
\<close>

partial_function (option) merge_loop :: "heap \<Rightarrow> ptr \<Rightarrow> ptr \<Rightarrow> ptr \<Rightarrow> heap option" where
  "merge_loop h tail list1 list2 =
     (if list1 \<noteq> None \<and> list2 \<noteq> None
      then Option.bind (get_val h list1) (\<lambda>v1. Option.bind (get_val h list2) (\<lambda>v2.
        if v1 < v2
        then Option.bind (set_next h tail list1) (\<lambda>h. Option.bind (get_next h list1) (\<lambda>list1.
          Option.bind (get_next h tail) (\<lambda>tail. merge_loop h tail list1 list2)))
        else Option.bind (set_next h tail list2) (\<lambda>h. Option.bind (get_next h list2) (\<lambda>list2.
          Option.bind (get_next h tail) (\<lambda>tail. merge_loop h tail list1 list2)))))
      else set_next h tail (if list1 \<noteq> None then list1 else list2))"

declare merge_loop.simps [code]

definition mergeTwoLists :: "nat \<Rightarrow> heap \<Rightarrow> ptr \<Rightarrow> ptr \<Rightarrow> (ptr \<times> heap) option" where
  "mergeTwoLists d h list1 list2 = do {
     h \<leftarrow> merge_loop (h(d := Some uninit)) (Some d) list1 list2;
     p \<leftarrow> get_next h (Some d);
     Some (p, h(d := None))
   }"

text \<open>The loop of \<open>build_array\<close> from index \<open>i\<close> on; \<open>None\<close> inside is the exit of the program when \<open>malloc\<close> fails.\<close>

fun append_nodes :: "(nat \<Rightarrow> ptr) \<Rightarrow> nat \<Rightarrow> int list \<Rightarrow> ptr \<Rightarrow> heap \<Rightarrow> heap option option" where
  "append_nodes ms i [] tail h = Some (Some h)"
| "append_nodes ms i (x # xs) tail h =
     (case ms i of
        None \<Rightarrow> do { h \<leftarrow> set_next h tail None; Some None }
      | Some a \<Rightarrow> do {
          h \<leftarrow> set_next (h(a := Some uninit)) tail (Some a);
          tail \<leftarrow> get_next h tail;
          h \<leftarrow> set_next h tail None;
          h \<leftarrow> set_val h tail x;
          append_nodes ms (i + 1) xs tail h
        })"

definition build_array :: "nat \<Rightarrow> heap \<Rightarrow> (nat \<Rightarrow> ptr) \<Rightarrow> int list \<Rightarrow> (ptr \<times> heap) option option" where
  "build_array d h ms nums = do {
     r \<leftarrow> append_nodes ms 0 nums (Some d) (h(d := Some uninit));
     case r of
       None \<Rightarrow> Some None
     | Some h \<Rightarrow> do { p \<leftarrow> get_next h (Some d); Some (Some (p, h(d := None))) }
   }"

text \<open>The end of a test of \<open>main\<close>.\<close>

definition expect_merged :: "nat \<Rightarrow> heap \<Rightarrow> ptr \<Rightarrow> ptr \<Rightarrow> int \<Rightarrow> heap option" where
  "expect_merged d h list1 list2 end_at = do {
     (newhead, h) \<leftarrow> mergeTwoLists d h list1 list2;
     s \<leftarrow> check_list h newhead 1 1;
     c_assert (s = end_at);
     destroy_list h newhead
   }"

definition main :: "nat \<Rightarrow> heap \<Rightarrow> (nat \<Rightarrow> ptr) \<Rightarrow> (nat \<Rightarrow> ptr) \<Rightarrow> (nat \<Rightarrow> ptr) \<Rightarrow> heap option option" where
  "main d h ms1 ms2 ms3 = do {
     r \<leftarrow> build_array d h ms1 [1, 3, 5];
     case r of None \<Rightarrow> Some None | Some (list1, h) \<Rightarrow> do {
       r \<leftarrow> build_array d h ms2 [2, 4, 6];
       case r of None \<Rightarrow> Some None | Some (list2, h) \<Rightarrow> do {
         h \<leftarrow> expect_merged d h list1 list2 7;
         r \<leftarrow> build_array d h ms3 [1, 2, 3];
         case r of None \<Rightarrow> Some None | Some (list2, h) \<Rightarrow> do {
           h \<leftarrow> expect_merged d h None list2 4;
           Some (Some h)
         }
       }
     }
   }"

subsection \<open>Merging\<close>

fun merge_nodes :: "('a \<Rightarrow> int) \<Rightarrow> 'a list \<Rightarrow> 'a list \<Rightarrow> 'a list" where
  "merge_nodes v [] bs = bs"
| "merge_nodes v as [] = as"
| "merge_nodes v (a # as) (b # bs) = (if v a < v b then a # merge_nodes v as (b # bs) else b # merge_nodes v (a # as) bs)"

lemma merge_nodes_Nil [simp]: "merge_nodes v as [] = as"
  by (cases as) auto

lemma mset_merge_nodes [simp]: "mset (merge_nodes v as bs) = mset as + mset bs"
  by (induction v as bs rule: merge_nodes.induct) auto

lemma set_merge_nodes [simp]: "set (merge_nodes v as bs) = set as \<union> set bs"
  using mset_merge_nodes [of v as bs] by (metis set_mset_mset set_mset_union)

lemma map_merge_nodes: "map v (merge_nodes v as bs) = merge_nodes (\<lambda>x. x) (map v as) (map v bs)"
  by (induction v as bs rule: merge_nodes.induct) auto

lemma merge_nodes_cong: "\<forall>a \<in> set as \<union> set bs. v a = w a \<Longrightarrow> merge_nodes v as bs = merge_nodes w as bs"
  by (induction v as bs rule: merge_nodes.induct) auto

lemma sorted_merge_nodes: "sorted (map v as) \<Longrightarrow> sorted (map v bs) \<Longrightarrow> sorted (map v (merge_nodes v as bs))"
  by (induction v as bs rule: merge_nodes.induct) (auto simp: less_imp_le intro: order_trans less_imp_le)

text \<open>From \<open>h\<close> to \<open>h'\<close> the nodes \<open>S\<close> are relinked to the list \<open>cs\<close>, which is what follows \<open>t\<close>; nothing else changes.\<close>

definition relinked :: "nat set \<Rightarrow> nat \<Rightarrow> nat list \<Rightarrow> heap \<Rightarrow> heap \<Rightarrow> bool" where
  "relinked S t cs h h' \<longleftrightarrow> (\<exists>v r. h' t = Some \<lparr>val = v, nxt = Some r\<rparr> \<and> map_option val (h t) = Some v \<and> is_list h' r cs)
     \<and> (\<forall>x \<in> S. value_at h' x = value_at h x) \<and> (\<forall>x. x \<noteq> t \<and> x \<notin> S \<longrightarrow> h' x = h x)"

lemma relinked_step:
  assumes "relinked S a cs (h(t := Some \<lparr>val = v, nxt = Some (Some a)\<rparr>)) h'" and "map_option val (h t) = Some v"
    and "h a = Some \<lparr>val = Some w, nxt = q\<rparr>" and "t \<noteq> a" and "t \<notin> S" and "a \<notin> S"
  shows "relinked (insert a S) t (a # cs) h h'"
proof -
  obtain r where r: "h' a = Some \<lparr>val = Some w, nxt = Some r\<rparr>" "is_list h' r cs" using assms(1,3,4) by (auto simp: relinked_def)
  have "h' t = Some \<lparr>val = v, nxt = Some (Some a)\<rparr>" using assms(1,4,5) by (auto simp: relinked_def)
  moreover have "is_list h' (Some a) (a # cs)" using r by simp
  moreover have "\<forall>x \<in> insert a S. value_at h' x = value_at h x"
    using assms(1,3-5) r(1) by (auto simp: relinked_def value_at_def)
  moreover have "\<forall>x. x \<noteq> t \<and> x \<notin> insert a S \<longrightarrow> h' x = h x" using assms(1) by (auto simp: relinked_def)
  ultimately show ?thesis using assms(2) unfolding relinked_def by blast
qed

lemma relinked_last:
  assumes "is_list h r cs" and "h t = Some n" and "t \<notin> set cs" and "set cs \<subseteq> S" and "t \<notin> S"
  shows "relinked S t cs h (h(t := Some (n\<lparr>nxt := Some r\<rparr>)))"
proof -
  have "is_list (h(t := Some (n\<lparr>nxt := Some r\<rparr>))) r cs" using is_list_cong [OF assms(1)] assms(3) by auto
  then show ?thesis using assms(2,5) by (cases n) (auto simp: relinked_def value_at_def)
qed

lemma merge_loop_relinks:
  assumes "is_list h l1 as" and "is_list h l2 bs" and "set as \<inter> set bs = {}" and "t \<notin> set as \<union> set bs" and "h t = Some n"
  shows "\<exists>h'. merge_loop h (Some t) l1 l2 = Some h' \<and> relinked (set as \<union> set bs) t (merge_nodes (value_at h) as bs) h h'"
  using assms
proof (induction "length as + length bs" arbitrary: h l1 l2 as bs t n rule: less_induct)
  case less
  show ?case
  proof (cases "as = [] \<or> bs = []")
    case True
    let ?l = "if l1 \<noteq> None then l1 else l2" and ?cs = "merge_nodes (value_at h) as bs"
    have "is_list h ?l ?cs" using True less.prems(1,2) by (cases as) auto
    then have "relinked (set as \<union> set bs) t ?cs h (h(t := Some (n\<lparr>nxt := Some ?l\<rparr>)))"
      using less.prems(4,5) by (intro relinked_last) auto
    moreover have "merge_loop h (Some t) l1 l2 = Some (h(t := Some (n\<lparr>nxt := Some ?l\<rparr>)))"
      using True less.prems(1,2,5) by (subst merge_loop.simps) (auto simp: set_next_def)
    ultimately show ?thesis by blast
  next
    case False
    then obtain a as' b bs' where ab: "as = a # as'" "bs = b # bs'" by (meson neq_Nil_conv)
    obtain va q where a: "l1 = Some a" "h a = Some \<lparr>val = Some va, nxt = Some q\<rparr>" "is_list h q as'"
      using less.prems(1) unfolding ab is_list_Cons_iff by blast
    obtain vb r where b: "l2 = Some b" "h b = Some \<lparr>val = Some vb, nxt = Some r\<rparr>" "is_list h r bs'"
      using less.prems(2) unfolding ab is_list_Cons_iff by blast
    have dist: "a \<notin> set as'" "b \<notin> set bs'" using is_list_distinct [OF less.prems(1)] is_list_distinct [OF less.prems(2)] ab by simp_all
    have ts: "t \<noteq> a" "t \<noteq> b" "t \<notin> set as'" "t \<notin> set bs'" using less.prems(4) ab by auto
    define g where "g x = h(t := Some \<lparr>val = val n, nxt = Some (Some x)\<rparr>)" for x
    have vals: "merge_nodes (value_at (g x)) cs ds = merge_nodes (value_at h) cs ds" if "t \<notin> set cs \<union> set ds" for x cs ds
      using that by (intro merge_nodes_cong) (auto simp: g_def value_at_def)
    have gl: "is_list (g x) p cs" if "is_list h p cs" "t \<notin> set cs" for x p cs using is_list_cong [OF that(1)] that(2) by (auto simp: g_def)
    show ?thesis
    proof (cases "va < vb")
      case True
      obtain h' where h': "merge_loop (g a) (Some a) q l2 = Some h'"
        "relinked (set as' \<union> set bs) a (merge_nodes (value_at (g a)) as' bs) (g a) h'"
        using less.hyps [OF _ gl [OF a(3)] gl [OF less.prems(2)], of a a "the (h a)"] ab ts dist less.prems(3) a(2) by (auto simp: g_def)
      have "relinked (insert a (set as' \<union> set bs)) t (a # merge_nodes (value_at h) as' bs) h h'"
        using h'(2) vals [of as' bs] ts less.prems(3,4,5) ab dist a(2) unfolding g_def by (intro relinked_step) auto
      moreover have "merge_loop h (Some t) l1 l2 = Some h'" using True h'(1) a(1,2) b(1,2) ts less.prems(5)
        by (subst merge_loop.simps) (cases n, simp add: get_val_def get_next_def set_next_def deref_def g_def)
      ultimately show ?thesis using True ab a(2) b(2) by (simp add: value_at_def insert_commute)
    next
      case False
      obtain h' where h': "merge_loop (g b) (Some b) l1 r = Some h'"
        "relinked (set as \<union> set bs') b (merge_nodes (value_at (g b)) as bs') (g b) h'"
        using less.hyps [OF _ gl [OF less.prems(1)] gl [OF b(3)], of b b "the (h b)"] ab ts dist less.prems(3) b(2) by (auto simp: g_def)
      have "relinked (insert b (set as \<union> set bs')) t (b # merge_nodes (value_at h) as bs') h h'"
        using h'(2) vals [of as bs'] ts less.prems(3,4,5) ab dist b(2) unfolding g_def by (intro relinked_step) auto
      moreover have "merge_loop h (Some t) l1 l2 = Some h'" using False h'(1) a(1,2) b(1,2) ts less.prems(5)
        by (subst merge_loop.simps) (cases n, simp add: get_val_def get_next_def set_next_def deref_def g_def)
      ultimately show ?thesis using False ab a(2) b(2) by (simp add: value_at_def)
    qed
  qed
qed

lemma mergeTwoLists_merges:
  assumes "is_list h l1 as" and "is_list h l2 bs" and "set as \<inter> set bs = {}" and "h d = None"
  shows "\<exists>p h'. mergeTwoLists d h l1 l2 = Some (p, h') \<and> is_list h' p (merge_nodes (value_at h) as bs) \<and> same_but_links (as @ bs) h h'"
proof -
  let ?h = "h(d := Some uninit)"
  have d: "d \<notin> set as \<union> set bs" using is_list_alloc [OF assms(1)] is_list_alloc [OF assms(2)] assms(4) by blast
  have "is_list ?h l1 as" "is_list ?h l2 bs" using is_list_cong [OF assms(1), of ?h] is_list_cong [OF assms(2), of ?h] d by auto
  then obtain h' where h': "merge_loop ?h (Some d) l1 l2 = Some h'" "relinked (set as \<union> set bs) d (merge_nodes (value_at ?h) as bs) ?h h'"
    using merge_loop_relinks [of ?h l1 as l2 bs d uninit] assms(3) d by auto
  have vals: "merge_nodes (value_at ?h) as bs = merge_nodes (value_at h) as bs" using d by (intro merge_nodes_cong) (auto simp: value_at_def)
  obtain v r where r: "h' d = Some \<lparr>val = v, nxt = Some r\<rparr>" "is_list h' r (merge_nodes (value_at h) as bs)"
    using h'(2) unfolding vals relinked_def by blast
  have "is_list (h'(d := None)) r (merge_nodes (value_at h) as bs)" using is_list_cong [OF r(2)] d by auto
  moreover have "same_but_links (as @ bs) h (h'(d := None))"
    using h'(2) d assms(4) by (auto simp: relinked_def same_but_links_def value_at_def)
  ultimately show ?thesis using h'(1) r(1) by (simp add: mergeTwoLists_def get_next_def deref_def)
qed

subsection \<open>Construction\<close>

lemma append_nodes_ok:
  assumes "map ms [i..<i + length xs] = map Some as" and "distinct as" and "\<forall>a \<in> set as. h a = None" and "t \<notin> set as"
    and "h t = Some \<lparr>val = w, nxt = e\<rparr>" and "xs = [] \<longrightarrow> e = Some None"
  shows "\<exists>h' r. append_nodes ms i xs (Some t) h = Some (Some h') \<and> h' t = Some \<lparr>val = w, nxt = Some r\<rparr> \<and> is_list h' r as
    \<and> map (value_at h') as = xs \<and> (\<forall>x. x \<noteq> t \<and> x \<notin> set as \<longrightarrow> h' x = h x)"
  using assms
proof (induction xs arbitrary: i as h t w e)
  case (Cons x xs)
  then obtain a bs where as: "as = a # bs" "ms i = Some a" "map ms [Suc i..<Suc i + length xs] = map Some bs"
    by (cases as) (auto simp: upt_conv_Cons simp del: upt_Suc)
  let ?h = "h(t := Some \<lparr>val = w, nxt = Some (Some a)\<rparr>, a := Some \<lparr>val = Some x, nxt = Some None\<rparr>)"
  have ta: "t \<noteq> a" using Cons.prems(4) as(1) by auto
  have "\<exists>h' r. append_nodes ms (Suc i) xs (Some a) ?h = Some (Some h') \<and> h' a = Some \<lparr>val = Some x, nxt = Some r\<rparr> \<and> is_list h' r bs
    \<and> map (value_at h') bs = xs \<and> (\<forall>y. y \<noteq> a \<and> y \<notin> set bs \<longrightarrow> h' y = ?h y)"
    using Cons.prems(2-4) as ta by (intro Cons.IH) auto
  then obtain h' r where h': "append_nodes ms (Suc i) xs (Some a) ?h = Some (Some h')" "h' a = Some \<lparr>val = Some x, nxt = Some r\<rparr>"
    "is_list h' r bs" "map (value_at h') bs = xs" "\<forall>y. y \<noteq> a \<and> y \<notin> set bs \<longrightarrow> h' y = ?h y" by blast
  have "h(a := Some uninit, t := Some \<lparr>val = w, nxt = Some (Some a)\<rparr>, a := Some \<lparr>val = Some x, nxt = Some None\<rparr>) = ?h"
    using ta by (auto simp: fun_eq_iff)
  then have "append_nodes ms i (x # xs) (Some t) h = Some (Some h')"
    using h'(1) as(2) ta Cons.prems(5) by (simp add: set_next_def set_val_def get_next_def deref_def uninit_def)
  moreover have "h' t = Some \<lparr>val = w, nxt = Some (Some a)\<rparr>" using h'(5) ta Cons.prems(4) as(1) by simp
  moreover have "is_list h' (Some a) as" "map (value_at h') as = x # xs" using h'(2-4) as(1) by (simp_all add: value_at_def)
  moreover have "\<forall>y. y \<noteq> t \<and> y \<notin> set as \<longrightarrow> h' y = h y" using h'(5) as(1) by auto
  ultimately show ?case by (intro exI [of _ h'] exI [of _ "Some a"] conjI)
qed auto

definition ready :: "nat \<Rightarrow> heap \<Rightarrow> (nat \<Rightarrow> ptr) \<Rightarrow> int list \<Rightarrow> bool" where
  "ready d h ms nums \<longleftrightarrow> nums \<noteq> [] \<and> h d = None \<and> (\<forall>i < length nums. ms i \<noteq> Some d)"

lemma appended_list_ok:
  assumes "fresh_allocs h ms (length nums) as" and "ready d h ms nums"
  shows "\<exists>p h'. build_array d h ms nums = Some (Some (p, h')) \<and> is_list h' p as \<and> map (value_at h') as = nums \<and> (\<forall>a. a \<notin> set as \<longrightarrow> h' a = h a)"
proof -
  let ?h = "h(d := Some uninit)"
  have as: "map ms [0..<length nums] = map Some as" "distinct as" "\<forall>a \<in> set as. h a = None" using assms(1) by (simp_all add: fresh_allocs_def)
  have d: "d \<notin> set as"
  proof
    assume "d \<in> set as"
    then have "Some d \<in> set (map ms [0..<length nums])" unfolding as(1) by simp
    then show False using assms(2) by (auto simp: ready_def)
  qed
  then have "\<forall>a \<in> set as. ?h a = None" using as(3) by auto
  with d obtain h' r where h': "append_nodes ms 0 nums (Some d) ?h = Some (Some h')" "h' d = Some \<lparr>val = None, nxt = Some r\<rparr>" "is_list h' r as"
    "map (value_at h') as = nums" "\<forall>x. x \<noteq> d \<and> x \<notin> set as \<longrightarrow> h' x = ?h x"
    using append_nodes_ok [of ms 0 nums as ?h d None None] as assms(2) by (auto simp: ready_def uninit_def)
  have "is_list (h'(d := None)) r as" using is_list_cong [OF h'(3)] d by auto
  moreover have "map (value_at (h'(d := None))) as = nums" using h'(4) d by (auto simp: value_at_def intro: map_cong)
  moreover have "\<forall>a. a \<notin> set as \<longrightarrow> (h'(d := None)) a = h a" using h'(5) assms(2) by (auto simp: ready_def)
  ultimately show ?thesis using h'(1,2) by (simp add: build_array_def get_next_def deref_def)
qed

interpretation append_first: list_builder "build_array d" "ready d" for d
  by unfold_locales (rule appended_list_ok)

subsection \<open>Properties\<close>

text \<open>
  C15: For two null-terminated lists with no node in common, \<open>mergeTwoLists\<close> ends and returns a list of exactly their nodes, each
  with its value, and no other memory is changed; when both lists are sorted, so is the result.
\<close>

theorem mergeTwoLists_correct:
  assumes "is_list h l1 as" and "is_list h l2 bs" and "set as \<inter> set bs = {}" and "h d = None"
  shows "\<exists>p h' cs. mergeTwoLists d h l1 l2 = Some (p, h') \<and> is_list h' p cs \<and> mset cs = mset (as @ bs)
    \<and> (\<forall>a \<in> set cs. value_at h' a = value_at h a) \<and> (\<forall>a. a \<notin> set cs \<longrightarrow> h' a = h a)
    \<and> (sorted (map (value_at h) as) \<and> sorted (map (value_at h) bs) \<longrightarrow> sorted (map (value_at h') cs))"
proof -
  let ?cs = "merge_nodes (value_at h) as bs"
  obtain p h' where r: "mergeTwoLists d h l1 l2 = Some (p, h')" "is_list h' p ?cs" "same_but_links (as @ bs) h h'"
    using mergeTwoLists_merges [OF assms] by blast
  have vals: "\<forall>a \<in> set ?cs. value_at h' a = value_at h a" "\<forall>a. a \<notin> set ?cs \<longrightarrow> h' a = h a" using r(3) by (simp_all add: same_but_links_def)
  have same: "map (value_at h') ?cs = map (value_at h) ?cs" using vals(1) by (intro map_cong) simp_all
  have "sorted (map (value_at h) as) \<and> sorted (map (value_at h) bs) \<longrightarrow> sorted (map (value_at h') ?cs)"
    unfolding same using sorted_merge_nodes [of "value_at h" as bs] by blast
  moreover have "mset ?cs = mset (as @ bs)" by simp
  ultimately show ?thesis using r(1,2) vals by blast
qed

theorem mergeTwoLists_correct_witness:
  "\<exists>p h' cs. mergeTwoLists 9 [0 \<mapsto> \<lparr>val = Some 7, nxt = Some None\<rparr>, 1 \<mapsto> \<lparr>val = Some 5, nxt = Some None\<rparr>] (Some 0) (Some 1) = Some (p, h')
    \<and> is_list h' p cs \<and> sorted (map (value_at h') cs)"
  using mergeTwoLists_correct [of "[0 \<mapsto> \<lparr>val = Some 7, nxt = Some None\<rparr>, 1 \<mapsto> \<lparr>val = Some 5, nxt = Some None\<rparr>]" "Some 0" "[0]" "Some 1" "[1]" 9]
  by fastforce

text \<open>
  \<open>build_array\<close> with no elements reads the field \<open>next\<close> of its local node before anything is written to it, which is
  undefined; for at least one element it is defined.
\<close>

theorem build_array_undefined_iff:
  assumes "fresh_allocs h ms (length nums) as" and "h d = None" and "\<forall>i < length nums. ms i \<noteq> Some d"
  shows "build_array d h ms nums = None \<longleftrightarrow> nums = []"
proof (cases "nums = []")
  case True
  then show ?thesis by (simp add: build_array_def get_next_def deref_def uninit_def)
next
  case False
  then have "ready d h ms nums" using assms(2,3) by (simp add: ready_def)
  then show ?thesis using appended_list_ok [OF assms(1)] False by auto
qed

theorem build_array_undefined_iff_witness:
  "build_array 0 Map.empty Some [] = None \<and> build_array 0 Map.empty (\<lambda>i. Some (i + 1)) [5] \<noteq> None"
  using build_array_undefined_iff [of Map.empty Some "[]" "[]" 0] build_array_undefined_iff [of Map.empty "\<lambda>i. Some (i + 1)" "[5]" "[1]" 0]
  by (simp add: fresh_allocs_def)

text \<open>The tests of \<open>main\<close> pass and leave the heap as it was, whatever unused addresses \<open>malloc\<close> returns.\<close>

lemma expect_merged_passes:
  assumes "is_list h l1 as" and "is_list h l2 bs" and "set as \<inter> set bs = {}" and "h d = None"
    and vals: "merge_nodes (\<lambda>x. x) (map (value_at h) as) (map (value_at h) bs) = map (\<lambda>i. 1 + 1 * int i) [0..<k]" and "k < 100"
  shows "expect_merged d h l1 l2 (1 + int k) = Some (\<lambda>a. if a \<in> set as \<union> set bs then None else h a)"
proof -
  let ?cs = "merge_nodes (value_at h) as bs"
  obtain q h' where r: "mergeTwoLists d h l1 l2 = Some (q, h')" "is_list h' q ?cs" "same_but_links (as @ bs) h h'"
    using mergeTwoLists_merges [OF assms(1-4)] by blast
  have "map (value_at h') ?cs = map (value_at h) ?cs" using r(3) by (simp add: same_but_links_def)
  also have "\<dots> = map (\<lambda>i. 1 + 1 * int i) [0..<k]" unfolding map_merge_nodes by (rule vals)
  finally have v: "map (value_at h') ?cs = map (\<lambda>i. 1 + 1 * int i) [0..<k]" .
  have len: "length ?cs = k" using arg_cong [OF v, of length] by simp
  have "check_list h' q 1 1 = Some (1 + 1 * int (length ?cs))" using v assms(6) by (intro check_list_counts [OF r(2)]) (auto simp: len)
  moreover have "destroy_list h' q = Some (\<lambda>a. if a \<in> set as \<union> set bs then None else h a)"
    using destroy_list_frees [OF r(2)] r(3) by (auto simp: same_but_links_def fun_eq_iff)
  ultimately show ?thesis using r(1) len by (simp add: expect_merged_def)
qed

lemma merge_lists_main_passes:
  assumes "fresh_allocs h ms1 3 as" and "fresh_allocs h ms2 3 bs" and "set as \<inter> set bs = {}" and "fresh_allocs h ms3 3 cs"
    and d: "h d = None" "\<forall>i < 3. ms1 i \<noteq> Some d \<and> ms2 i \<noteq> Some d \<and> ms3 i \<noteq> Some d"
  shows "main d h ms1 ms2 ms3 = Some (Some h)"
proof -
  have d_as: "d \<notin> set as"
  proof
    assume "d \<in> set as"
    then have "Some d \<in> set (map ms1 [0..<3])" using assms(1) by (simp add: fresh_allocs_def)
    then show False using d(2) by auto
  qed
  obtain p h1 where b1: "build_array d h ms1 [1, 3, 5] = Some (Some (p, h1))" "is_list h1 p as" "map (value_at h1) as = [1, 3, 5]"
    "\<forall>a. a \<notin> set as \<longrightarrow> h1 a = h a"
    using appended_list_ok [of h ms1 "[1, 3, 5]" as d] assms(1) d by (auto simp: ready_def numeral_3_eq_3)
  have f2: "fresh_allocs h1 ms2 3 bs" using assms(2,3) b1(4) by (auto simp: fresh_allocs_def)
  have h1d: "h1 d = None" using b1(4) d_as d(1) by simp
  obtain q h2 where b2: "build_array d h1 ms2 [2, 4, 6] = Some (Some (q, h2))" "is_list h2 q bs" "map (value_at h2) bs = [2, 4, 6]"
    "\<forall>a. a \<notin> set bs \<longrightarrow> h2 a = h1 a"
    using appended_list_ok [of h1 ms2 "[2, 4, 6]" bs d] f2 h1d d(2) by (auto simp: ready_def numeral_3_eq_3)
  have l1: "is_list h2 p as" using is_list_cong [OF b1(2)] b2(4) assms(3) by auto
  have v1: "map (value_at h2) as = [1, 3, 5]" unfolding b1(3) [symmetric] using b2(4) assms(3) by (intro map_cong) (auto simp: value_at_def)
  have "h2 d = None" using b2(1) by (auto simp: build_array_def split: bind_splits option.splits)
  moreover have "merge_nodes (\<lambda>x. x) (map (value_at h2) as) (map (value_at h2) bs) = map (\<lambda>i. 1 + 1 * int i) [0..<6]"
    unfolding v1 b2(3) by code_simp
  moreover have "(\<lambda>a. if a \<in> set as \<union> set bs then None else h2 a) = h"
    using b1(4) b2(4) assms(1,2) by (auto simp: fresh_allocs_def fun_eq_iff)
  ultimately have m1: "expect_merged d h2 p q (1 + int 6) = Some h" using expect_merged_passes [OF l1 b2(2) assms(3), of d 6] by simp
  obtain r h3 where b3: "build_array d h ms3 [1, 2, 3] = Some (Some (r, h3))" "is_list h3 r cs" "map (value_at h3) cs = [1, 2, 3]"
    "\<forall>a. a \<notin> set cs \<longrightarrow> h3 a = h a"
    using appended_list_ok [of h ms3 "[1, 2, 3]" cs d] assms(4) d by (auto simp: ready_def numeral_3_eq_3)
  have "h3 d = None" using b3(1) by (auto simp: build_array_def split: bind_splits option.splits)
  moreover have "merge_nodes (\<lambda>x. x) (map (value_at h3) []) (map (value_at h3) cs) = map (\<lambda>i. 1 + 1 * int i) [0..<3]"
    unfolding b3(3) by code_simp
  moreover have "(\<lambda>a. if a \<in> set [] \<union> set cs then None else h3 a) = h" using b3(4) assms(4) by (auto simp: fresh_allocs_def fun_eq_iff)
  ultimately have m2: "expect_merged d h3 None r (1 + int 3) = Some h" using expect_merged_passes [of h3 None "[]" r cs d 3] b3(2) by simp
  show ?thesis using b1(1) b2(1) b3(1) m1 m2 by (simp add: main_def)
qed

end
