(* ===== verification/Merge_Vector.thy ===== *)
theory Merge_Vector
  imports Intervals "HOL-Library.Product_Lexorder"
begin

text \<open>
  \<open>leetcode/07-merge-intervals.cpp\<close>: the interval merge in C++.  \<open>std::sort\<close> on pairs orders them by \<open>operator<\<close>, the lexicographic
  order, so its result is \<^const>\<open>sort\<close>.  The theory relates it to the C program \<open>14-merge-intervals.c\<close>: on proper intervals
  both return the same intervals, although the C program sorts by the start only and updates its result in place.
\<close>

text \<open>The loop, with \<open>en\<close> for the variable \<open>end\<close>.\<close>

fun merge_rest :: "int \<Rightarrow> int \<Rightarrow> (int \<times> int) list \<Rightarrow> (int \<times> int) list \<Rightarrow> (int \<times> int) list" where
  "merge_rest start en res [] = res"
| "merge_rest start en res ((new_start, new_end) # rest) =
     (if new_start \<le> en
      then (let res = butlast res; en = max en new_end in merge_rest start en (res @ [(start, en)]) rest)
      else merge_rest new_start new_end (res @ [(new_start, new_end)]) rest)"

definition mergeIntervals :: "(int \<times> int) list \<Rightarrow> (int \<times> int) list" where
  "mergeIntervals intervals =
     (if intervals = [] then []
      else let intervals = sort intervals; first = hd intervals
        in merge_rest (fst first) (snd first) [first] (tl intervals))"

definition main :: "unit option" where
  "main = do {
     c_assert (mergeIntervals [(1, 3), (2, 6), (8, 10), (15, 18)] = [(1, 6), (8, 10), (15, 18)]);
     c_assert (mergeIntervals [(1, 3), (2, 6), (5, 10), (15, 18)] = [(1, 10), (15, 18)]);
     c_assert (mergeIntervals [(1, 10), (2, 3)] = [(1, 10)]);
     c_assert (mergeIntervals [(1, 4), (4, 6)] = [(1, 6)]);
     c_assert (mergeIntervals [(8, 10), (1, 3)] = [(1, 3), (8, 10)])
   }"

lemma merge_vector_main_passes: "main = Some ()"
  by code_simp

subsection \<open>The loop is the recursion of the C program\<close>

definition to_interval :: "int \<times> int \<Rightarrow> interval" where
  "to_interval p = \<lparr>istart = fst p, iend = snd p\<rparr>"

lemma merge_rest_eq:
  "map to_interval (merge_rest s e (res @ [(s, e)]) xs) = map to_interval res @ merge_list (to_interval (s, e)) (map to_interval xs)"
proof (induction xs arbitrary: s e res)
  case (Cons x xs)
  show ?case
  proof (cases "fst x \<le> e")
    case True
    then show ?thesis using Cons.IH [of s "max e (snd x)" res] by (cases x) (simp add: to_interval_def Let_def)
  next
    case False
    then show ?thesis using Cons.IH [of "fst x" "snd x" "res @ [(s, e)]"] by (cases x) (simp add: to_interval_def)
  qed
qed simp

lemma mergeIntervals_eq:
  assumes "sort iv = x # xs"
  shows "map to_interval (mergeIntervals iv) = merge_list (to_interval x) (map to_interval xs)"
proof -
  have "iv \<noteq> []" using assms by auto
  then show ?thesis using assms merge_rest_eq [of "fst x" "snd x" "[]" xs] by (simp add: mergeIntervals_def Let_def)
qed

subsection \<open>Separated intervals are determined by what they cover\<close>

text \<open>
  The covered points with the gaps between neighbouring integers: the even numbers are the integers, the odd ones
  the gaps, so that \<open>[1,2]\<close>, \<open>[3,4]\<close> and \<open>[1,4]\<close> are different.
\<close>

definition covered :: "interval list \<Rightarrow> int set" where
  "covered xs = (\<Union>x \<in> set xs. {2 * istart x .. 2 * iend x})"

lemma covered_Cons [simp]: "covered (x # xs) = {2 * istart x .. 2 * iend x} \<union> covered xs"
  by (simp add: covered_def)

lemma covered_merge_list:
  assumes "sorted_wrt (\<lambda>x y. istart x \<le> istart y) (c # xs)"
  shows "covered (merge_list c xs) = covered (c # xs)"
  using assms
proof (induction xs arbitrary: c)
  case (Cons x xs)
  show ?case
  proof (cases "istart x \<le> iend c")
    case True
    let ?c = "c\<lparr>iend := max (iend c) (iend x)\<rparr>"
    have "covered (merge_list ?c xs) = covered (?c # xs)" by (rule Cons.IH) (use Cons.prems in auto)
    moreover have "{2 * istart c .. max (2 * iend c) (2 * iend x)} = {2 * istart c .. 2 * iend c} \<union> {2 * istart x .. 2 * iend x}"
      using True Cons.prems by (intro join_overlapping) auto
    moreover have "2 * max (iend c) (iend x) = max (2 * iend c) (2 * iend x)" by (simp add: max_def)
    ultimately show ?thesis using True by auto
  next
    case False
    moreover have "covered (merge_list x xs) = covered (x # xs)" by (rule Cons.IH) (use Cons.prems in auto)
    ultimately show ?thesis by simp
  qed
qed simp

lemma head_start_le:
  assumes "separated (x # xs)" and "proper (x # xs)" and "p \<in> covered (x # xs)"
  shows "2 * istart x \<le> p"
proof -
  obtain z where z: "z \<in> set (x # xs)" "2 * istart z \<le> p" using assms(3) by (auto simp: covered_def)
  moreover have "istart x \<le> istart z" using z(1) assms(1,2) by (fastforce simp: separated_def proper_def)
  ultimately show ?thesis by simp
qed

lemma head_end_le:
  assumes "separated (x # xs)" and "2 * iend x + 1 \<in> covered (x # xs)"
  shows False
proof -
  obtain z where "z \<in> set xs" "2 * istart z \<le> 2 * iend x + 1" using assms(2) by (auto simp: covered_def)
  then show False using assms(1) by (fastforce simp: separated_def)
qed

lemma covered_unique:
  assumes "separated xs" and "proper xs" and "separated ys" and "proper ys" and "covered xs = covered ys"
  shows "xs = ys"
  using assms
proof (induction xs arbitrary: ys)
  case Nil
  then show ?case by (cases ys) (auto simp: proper_def covered_def)
next
  case (Cons x xs)
  have "2 * istart x \<in> covered (x # xs)" using Cons.prems(2) by (simp add: proper_def)
  then obtain y ys' where ys: "ys = y # ys'" using Cons.prems(5) by (cases ys) (auto simp: covered_def)
  have le: "istart x \<le> iend x" "istart y \<le> iend y" using Cons.prems(2,4) ys by (simp_all add: proper_def)
  have cov: "covered (x # xs) = covered (y # ys')" using Cons.prems(5) ys by simp
  have sep: "separated (x # xs)" "separated (y # ys')" "proper (x # xs)" "proper (y # ys')" using Cons.prems ys by simp_all
  have start: "istart x = istart y"
  proof (rule antisym)
    have "2 * istart y \<in> covered (x # xs)" unfolding cov using le by simp
    then show "istart x \<le> istart y" using head_start_le [OF sep(1,3)] by fastforce
    have "2 * istart x \<in> covered (y # ys')" unfolding cov [symmetric] using le by simp
    then show "istart y \<le> istart x" using head_start_le [OF sep(2,4)] by fastforce
  qed
  have "2 * iend x + 1 \<in> covered (x # xs)" if "iend x < iend y" unfolding cov using that start le by simp
  then have "\<not> iend x < iend y" using head_end_le [OF sep(1)] by blast
  moreover have "2 * iend y + 1 \<in> covered (y # ys')" if "iend y < iend x" unfolding cov [symmetric] using that start le by simp
  then have "\<not> iend y < iend x" using head_end_le [OF sep(2)] by blast
  ultimately have "iend x = iend y" by simp
  then have xy: "x = y" using start by simp
  have rest: "covered zs \<inter> {2 * istart z .. 2 * iend z} = {}" if "separated (z # zs)" for z zs
    using that by (fastforce simp: separated_def covered_def)
  have "covered xs = covered ys'" using cov rest [OF sep(1)] rest [OF sep(2)] xy by auto
  then have "xs = ys'" using sep by (intro Cons.IH) (auto simp: separated_def proper_def)
  then show ?case using xy ys by simp
qed

subsection \<open>Properties\<close>

text \<open>
  C20: The C++ and the C program agree: for at least one interval, all proper, a \<open>qsort\<close> that orders by the comparison function and a successful
  allocation of a block of \<open>n\<close> entries, the array the C program returns holds exactly the intervals the C++ program returns.
\<close>

theorem merge_versions_agree:
  assumes "qsort_ok qsort" and "proper (map to_interval iv)" and "iv \<noteq> []" and "length out = length iv"
  shows "\<exists>m out'. merge qsort (Some out) (map to_interval iv) = Some (Some m, Some out')
    \<and> take m out' = map to_interval (mergeIntervals iv)"
proof -
  let ?iv = "map to_interval iv"
  obtain x xs m out' where c: "mset (x # xs) = mset ?iv" "sorted_wrt (\<lambda>x y. istart x \<le> istart y) (x # xs)"
    "merge qsort (Some out) ?iv = Some (Some m, Some out')" "take m out' = merge_list x xs"
    by (rule merge_run [OF assms(1), of ?iv out]) (use assms(3,4) in simp_all)
  obtain y ys where s: "sort iv = y # ys" using assms(3) by (metis length_0_conv length_sort neq_Nil_conv)
  have vec: "map to_interval (mergeIntervals iv) = merge_list (to_interval y) (map to_interval ys)" by (rule mergeIntervals_eq [OF s])
  have "sorted (y # ys)" using sorted_sort [of iv] unfolding s .
  then have ord: "sorted_wrt (\<lambda>x y. istart x \<le> istart y) (to_interval y # map to_interval ys)"
    unfolding list.map [symmetric] sorted_wrt_map by (rule sorted_wrt_mono_rel [rotated]) (auto simp: to_interval_def less_eq_prod_def)
  have sets: "set (x # xs) = set ?iv" "set (to_interval y # map to_interval ys) = set ?iv"
    using mset_eq_setD [OF c(1)] arg_cong [OF s, of "\<lambda>zs. set (map to_interval zs)"] by simp_all
  then have le: "proper (x # xs)" "proper (to_interval y # map to_interval ys)" using assms(2) unfolding proper_def by blast+
  have "covered (x # xs) = covered (to_interval y # map to_interval ys)" unfolding covered_def sets by simp
  then have "covered (merge_list x xs) = covered (merge_list (to_interval y) (map to_interval ys))"
    using covered_merge_list [OF c(2)] covered_merge_list [OF ord] by simp
  then have "merge_list x xs = merge_list (to_interval y) (map to_interval ys)"
    using merge_list_shape [OF c(2) le(1)] merge_list_shape [OF ord le(2)] by (intro covered_unique) simp_all
  then show ?thesis using c(3,4) vec by simp
qed

theorem merge_versions_agree_witness:
  "\<exists>m out'. merge sort_by_start (Some [to_interval (0, 0), to_interval (0, 0)]) [to_interval (2, 6), to_interval (1, 3)] = Some (Some m, Some out')
    \<and> take m out' = [to_interval (1, 6)]"
proof -
  have "mergeIntervals [(2, 6), (1, 3)] = [(1, 6)]" by code_simp
  then show ?thesis
    using merge_versions_agree [OF sort_by_start_ok, of "[(2, 6), (1, 3)]" "[to_interval (0, 0), to_interval (0, 0)]"]
    by (simp add: proper_def to_interval_def)
qed

end
