(* ===== verification/Word_Count.thy ===== *)
theory Word_Count
  imports CPrelude "HOL-Library.Multiset" "HOL-Library.Char_ord" "HOL-Library.List_Lexorder"
begin

text \<open>
  \<open>leetcode/10-stl-refresher.cpp\<close>: counting words, ranking them by count, and the \<open>k\<close> best with a bounded priority queue.  An
  \<open>unordered_map\<close> is the list of its entries; the order in which iteration visits them is a parameter, of which
  only that it is a permutation is used.  \<open>std::sort\<close> with the lambda, the same strict total order on entries as \<open>better\<close>, has one possible result, the
  ordered one; a \<open>priority_queue\<close> with \<open>better\<close> is kept here as that ordered list, so that \<open>top\<close>, the last in the order of the
  comparator, is its last element.
\<close>

type_synonym entry = "string \<times> int"

definition better :: "entry \<Rightarrow> entry \<Rightarrow> bool" where
  "better a b = (if snd a \<noteq> snd b then snd a > snd b else fst a < fst b)"

text \<open>\<open>res[word]++\<close>: a missing key is inserted with 0 first.\<close>

fun bump :: "string \<Rightarrow> entry list \<Rightarrow> entry list option" where
  "bump w [] = do { n \<leftarrow> to_i32 (0 + 1); Some [(w, n)] }"
| "bump w (e # es) =
     (if fst e = w then do { n \<leftarrow> to_i32 (snd e + 1); Some ((w, n) # es) }
      else do { es \<leftarrow> bump w es; Some (e # es) })"

fun count_from :: "entry list \<Rightarrow> string list \<Rightarrow> entry list option" where
  "count_from res [] = Some res"
| "count_from res (w # ws) = do { res \<leftarrow> bump w res; count_from res ws }"

definition count_words :: "string list \<Rightarrow> entry list option" where
  "count_words words = count_from [] words"

fun place :: "(entry \<Rightarrow> entry \<Rightarrow> bool) \<Rightarrow> entry \<Rightarrow> entry list \<Rightarrow> entry list" where
  "place before e [] = [e]"
| "place before e (x # xs) = (if before x e then x # place before e xs else e # x # xs)"

text \<open>The comparison that \<open>sorted_by_count\<close> writes as a lambda.\<close>

definition by_count :: "entry \<Rightarrow> entry \<Rightarrow> bool" where
  "by_count a b = (if snd a \<noteq> snd b then snd a > snd b else fst a < fst b)"

definition sorted_by_count :: "(entry list \<Rightarrow> entry list) \<Rightarrow> entry list \<Rightarrow> entry list" where
  "sorted_by_count iter counts = fold (place by_count) (iter counts) []"

text \<open>The loop of \<open>top_k\<close> over the entries, then the loop that empties the queue, worst first.\<close>

fun keep_best :: "nat \<Rightarrow> entry list \<Rightarrow> entry list \<Rightarrow> entry list" where
  "keep_best k pq [] = pq"
| "keep_best k pq (e # es) = (let pq = place better e pq; pq = (if length pq > k then butlast pq else pq) in keep_best k pq es)"

function pop_all :: "entry list \<Rightarrow> string list \<Rightarrow> string list" where
  "pop_all pq res = (if pq = [] then res else pop_all (butlast pq) (res @ [fst (last pq)]))"
  by pat_completeness auto
termination by (relation "measure (\<lambda>(pq, res). length pq)") auto

declare pop_all.simps [simp del]

definition top_k :: "(entry list \<Rightarrow> entry list) \<Rightarrow> entry list \<Rightarrow> size_t \<Rightarrow> string list" where
  "top_k iter counts k = rev (pop_all (keep_best (unat k) [] (iter counts)) [])"

definition main :: "(entry list \<Rightarrow> entry list) \<Rightarrow> unit option" where
  "main iter = do {
     counts \<leftarrow> count_words [''vm'', ''kvm'', ''vm'', ''exit'', ''kvm'', ''vm'', ''ept'', ''exit'', ''kvm'', ''mmio''];
     c_assert (length counts = 5);
     c_assert (map_of counts ''vm'' = Some 3 \<and> map_of counts ''kvm'' = Some 3 \<and> map_of counts ''exit'' = Some 2);
     c_assert (map_of counts ''ept'' = Some 1 \<and> map_of counts ''mmio'' = Some 1);
     c_assert (sorted_by_count iter counts = [(''kvm'', 3), (''vm'', 3), (''exit'', 2), (''ept'', 1), (''mmio'', 1)]);
     c_assert (top_k iter counts 2 = [''kvm'', ''vm'']);
     c_assert (top_k iter counts 3 = [''kvm'', ''vm'', ''exit'']);
     c_assert (top_k iter counts 0 = []);
     c_assert (length (top_k iter counts 10) = 5)
   }"

lemma word_count_main_passes: "main (\<lambda>es. es) = Some ()" "main rev = Some ()"
  by code_simp+

subsection \<open>Counting\<close>

lemma bump_counts:
  assumes "distinct (map fst es)" and "\<forall>e \<in> set es. 0 \<le> snd e \<and> snd e < 2 ^ 31 - 1"
  shows "\<exists>es'. bump w es = Some es' \<and> distinct (map fst es') \<and> set (map fst es') = insert w (set (map fst es))
    \<and> map_of es' = (map_of es)(w \<mapsto> (case map_of es w of None \<Rightarrow> 1 | Some n \<Rightarrow> n + 1))"
  using assms
proof (induction es)
  case Nil
  then show ?case by auto
next
  case (Cons e es)
  obtain v n where e: "e = (v, n)" by (cases e)
  have n: "to_i32 (n + 1) = Some (n + 1)" using Cons.prems(2) e by simp
  show ?case
  proof (cases "v = w")
    case True
    then show ?thesis using Cons.prems(1) e n by (auto simp: fun_eq_iff)
  next
    case False
    have "distinct (map fst es)" "\<forall>e \<in> set es. 0 \<le> snd e \<and> snd e < 2 ^ 31 - 1" using Cons.prems by simp_all
    from Cons.IH [OF this] obtain es' where es': "bump w es = Some es'" "distinct (map fst es')" "set (map fst es') = insert w (set (map fst es))"
      "map_of es' = (map_of es)(w \<mapsto> (case map_of es w of None \<Rightarrow> 1 | Some n \<Rightarrow> n + 1))" by blast
    then show ?thesis using False e Cons.prems(1) by (auto simp: fun_upd_twist)
  qed
qed

definition counted :: "entry list \<Rightarrow> string list \<Rightarrow> bool" where
  "counted es ws \<longleftrightarrow> distinct (map fst es) \<and> (\<forall>w. map_of es w = (if w \<in> set ws then Some (int (count_list ws w)) else None))"

lemma counted_entries:
  assumes "counted es ws" and "e \<in> set es"
  shows "snd e = int (count_list ws (fst e))"
proof -
  have "(fst e, snd e) \<in> set es" using assms(2) by simp
  then have "map_of es (fst e) = Some (snd e)" using assms(1) unfolding counted_def by (blast intro: map_of_is_SomeI)
  then show ?thesis using assms(1) by (auto simp: counted_def split: if_splits)
qed

lemma count_from_counts:
  assumes "counted es us" and "length us + length ws < 2 ^ 31"
  shows "\<exists>es'. count_from es ws = Some es' \<and> counted es' (us @ ws)"
  using assms
proof (induction ws arbitrary: es us)
  case (Cons w ws)
  have "0 \<le> snd e \<and> snd e < 2 ^ 31 - 1" if "e \<in> set es" for e
  proof -
    have "count_list us (fst e) \<le> length us" by (rule count_le_length)
    then show ?thesis using counted_entries [OF Cons.prems(1) that] Cons.prems(2) by simp
  qed
  then obtain es1 where es1: "bump w es = Some es1" "distinct (map fst es1)"
    "map_of es1 = (map_of es)(w \<mapsto> (case map_of es w of None \<Rightarrow> 1 | Some n \<Rightarrow> n + 1))"
    using bump_counts [of es w] Cons.prems(1) by (auto simp: counted_def)
  have "counted es1 (us @ [w])"
    using es1(2,3) Cons.prems(1) by (auto simp: counted_def count_list_0_iff)
  then show ?case using Cons.IH [of es1 "us @ [w]"] Cons.prems(2) es1(1) by simp
qed auto

subsection \<open>The ranking\<close>

text \<open>\<open>better\<close> is a strict linear order, so the list library's facts on linear orders hold for it.\<close>

definition ranked :: "entry \<Rightarrow> entry \<Rightarrow> bool" where
  "ranked a b \<longleftrightarrow> \<not> better b a"

interpretation rank: linorder ranked better
proof
  fix a b c :: entry
  show "better a b \<longleftrightarrow> ranked a b \<and> \<not> ranked b a" by (auto simp: better_def ranked_def split: if_splits)
  show "ranked a a" by (simp add: better_def ranked_def)
  show "ranked a b \<Longrightarrow> ranked b c \<Longrightarrow> ranked a c" by (auto simp: better_def ranked_def split: if_splits)
  show "ranked a b \<Longrightarrow> ranked b a \<Longrightarrow> a = b" by (auto simp: better_def ranked_def prod_eq_iff split: if_splits)
  show "ranked a b \<or> ranked b a" by (auto simp: better_def ranked_def split: if_splits)
qed

lemma by_count_better: "by_count = better"
  by (intro ext) (simp add: by_count_def better_def)

lemmas sorted_by_count_better = sorted_by_count_def [unfolded by_count_better]

lemma mset_place [simp]: "mset (place better e xs) = add_mset e (mset xs)"
  by (induction xs) auto

lemma set_place [simp]: "set (place better e xs) = insert e (set xs)"
  by (induction xs) auto

lemma sorted_place: "rank.sorted xs \<Longrightarrow> rank.sorted (place better e xs)"
  by (induction xs) (auto simp: ranked_def dest: rank.order.strict_trans)

lemma sorted_fold_place: "rank.sorted ys \<Longrightarrow> rank.sorted (fold (place better) xs ys) \<and> mset (fold (place better) xs ys) = mset xs + mset ys"
  by (induction xs arbitrary: ys) (auto simp: sorted_place)

lemma sorted_by_count_unique:
  assumes "mset (iter counts) = mset counts" and "mset xs = mset counts" and "rank.sorted xs"
  shows "sorted_by_count iter counts = xs"
  using sorted_fold_place [of "[]" "iter counts"] assms unfolding sorted_by_count_better
  by (metis add.right_neutral mset.simps(1) rank.properties_for_sort rank.sorted_simps(1))

text \<open>Keeping the \<open>k\<close> best while inserting is inserting everything and taking the first \<open>k\<close>.\<close>

lemma take_place: "take k (place better e (take k ys)) = take k (place better e ys)"
proof (induction ys arbitrary: k)
  case (Cons y ys)
  then show ?case by (cases k) (auto simp: take_Cons')
qed simp

lemma length_place [simp]: "length (place better e xs) = Suc (length xs)"
  by (induction xs) auto

lemma keep_best_take: "keep_best k (take k ys) es = take k (fold (place better) es ys)"
proof (induction es arbitrary: ys)
  case (Cons e es)
  let ?pq = "place better e (take k ys)"
  have "(if length ?pq > k then butlast ?pq else ?pq) = take k ?pq" by (cases "length ys < k") (auto simp: butlast_conv_take min_absorb2 not_less)
  then show ?case using Cons.IH [of "place better e ys"] by (simp add: take_place Let_def)
qed simp

lemma pop_all_eq: "pop_all pq res = res @ map fst (rev pq)"
proof (induction pq arbitrary: res rule: rev_induct)
  case Nil
  then show ?case by (simp add: pop_all.simps)
next
  case (snoc x xs)
  then show ?case by (subst pop_all.simps) simp
qed

subsection \<open>Properties\<close>

text \<open>
  C34: The bounded priority queue agrees with the full sort: for every order in which the two iterations visit the map,
  \<open>top_k\<close> returns the words of the first \<open>k\<close> entries of \<open>sorted_by_count\<close> (all of them when there are fewer).
\<close>

theorem top_k_prefix:
  assumes "mset (iter counts) = mset counts" and "mset (iter' counts) = mset counts"
  shows "top_k iter counts k = map fst (take (unat k) (sorted_by_count iter' counts))"
proof -
  have "sorted_by_count iter counts = sorted_by_count iter' counts"
    using sorted_fold_place [of "[]" "iter' counts"] assms by (intro sorted_by_count_unique) (simp_all add: sorted_by_count_better)
  moreover have "keep_best (unat k) [] (iter counts) = take (unat k) (sorted_by_count iter counts)"
    using keep_best_take [of "unat k" "[]"] by (simp add: sorted_by_count_better)
  ultimately show ?thesis by (simp add: top_k_def pop_all_eq rev_map)
qed

theorem top_k_prefix_witness: "top_k rev [(''a'', 1), (''b'', 2)] 1 = [''b'']"
  using top_k_prefix [of rev "[(''a'', 1), (''b'', 2)]" "\<lambda>es. es" 1] by (simp add: sorted_by_count_better better_def)

text \<open>
  \<open>count_words\<close> has one entry for every word that occurs, with the number of its occurrences.\<close>

theorem count_words_correct:
  assumes "length words < 2 ^ 31"
  shows "\<exists>es. count_words words = Some es \<and> distinct (map fst es)
    \<and> (\<forall>w. map_of es w = (if w \<in> set words then Some (int (count_list words w)) else None))"
  using count_from_counts [of "[]" "[]" words] assms by (auto simp: count_words_def counted_def)

theorem count_words_correct_witness:
  "\<exists>es. count_words [''a'', ''b'', ''a''] = Some es \<and> map_of es ''a'' = Some 2"
  using count_words_correct [of "[''a'', ''b'', ''a'']"] by fastforce

end
