(* ===== verification/Pool_Allocator.thy ===== *)
theory Pool_Allocator
  imports CPrelude
begin

text \<open>
  \<open>pool_allocator/pa.c\<close>: a pool of 64-byte blocks whose free blocks are linked through their first bytes.  A block is its
  index in the pool, a pointer an index or null; the memory of the pool is the list of the links stored in its blocks
  (\<open>None\<close>: never written).  \<^const>\<open>None\<close> as the result of an operation is undefined behaviour.
\<close>

definition BLOCK_SIZE :: size_t where
  "BLOCK_SIZE = push_bit 6 1"

type_synonym block_ptr = "nat option"

record pool_state =
  links :: "block_ptr option list"
  free_list :: block_ptr

text \<open>\<open>node->next = \<dots>\<close>: the node must be a block of the pool.\<close>

definition set_link :: "pool_state \<Rightarrow> nat \<Rightarrow> block_ptr \<Rightarrow> pool_state option" where
  "set_link st b p = do { l \<leftarrow> wr (links st) b (Some p); Some (st\<lparr>links := l\<rparr>) }"

text \<open>The loop: \<open>n\<close> is the bound \<open>pool_size - 1\<close>, computed in \<open>size_t\<close>.\<close>

function link_from :: "nat \<Rightarrow> nat \<Rightarrow> pool_state \<Rightarrow> (nat \<times> pool_state) option" where
  "link_from n i st = (if i < n then do { st \<leftarrow> set_link st i (Some (i + 1)); link_from n (i + 1) st } else Some (i, st))"
  by pat_completeness auto
termination by (relation "measure (\<lambda>(n, i, st). n - i)") auto

declare link_from.simps [simp del]

text \<open>
  \<open>mem\<close> is the result of \<open>malloc\<close> for a number of bytes: \<open>None\<close> for a null pointer.  The memory has room for as many blocks as
  those bytes hold.  The returned value is the pool or null.
\<close>

definition init_pool :: "(nat \<Rightarrow> bool) \<Rightarrow> pool_state \<Rightarrow> size_t \<Rightarrow> (bool \<times> pool_state) option" where
  "init_pool mem st pool_size =
     (let bytes = unat (pool_size * BLOCK_SIZE) in
      if \<not> mem bytes then Some (False, st)
      else do {
        (i, st) \<leftarrow> link_from (unat (pool_size - 1)) 0 (st\<lparr>links := replicate (bytes div 64) None\<rparr>);
        st \<leftarrow> set_link st i None;
        Some (True, st\<lparr>free_list := Some 0\<rparr>)
      })"

text \<open>
  \<open>if (node = NULL)\<close> assigns to the parameter and tests the assigned value, so the early return is never taken, whatever the
  argument; then the head of the free list is unlinked, and reading through a null or never written link is undefined.
\<close>

definition allocate :: "pool_state \<Rightarrow> block_ptr \<Rightarrow> (block_ptr \<times> pool_state) option" where
  "allocate st node =
     (let node = None in
      if node \<noteq> (None :: block_ptr) then Some (None, st)
      else do {
        let cur = free_list st;
        b \<leftarrow> free_list st;
        l \<leftarrow> rd (links st) b;
        p \<leftarrow> l;
        Some (cur, st\<lparr>free_list := p\<rparr>)
      })"

fun allocate_all :: "pool_state \<Rightarrow> block_ptr list \<Rightarrow> (block_ptr list \<times> pool_state) option" where
  "allocate_all st [] = Some ([], st)"
| "allocate_all st (node # nodes) = do {
     (b, st) \<leftarrow> allocate st node;
     (bs, st) \<leftarrow> allocate_all st nodes;
     Some (b # bs, st)
   }"

definition main :: "(nat \<Rightarrow> bool) \<Rightarrow> (bool \<times> pool_state) option" where
  "main mem = init_pool mem \<lparr>links = [], free_list = None\<rparr> 16"

subsection \<open>The free list\<close>

fun free_chain :: "pool_state \<Rightarrow> block_ptr \<Rightarrow> nat list \<Rightarrow> bool" where
  "free_chain st p [] \<longleftrightarrow> p = None"
| "free_chain st p (b # bs) \<longleftrightarrow> p = Some b \<and> b < length (links st) \<and> (case links st ! b of Some q \<Rightarrow> free_chain st q bs | None \<Rightarrow> False)"

lemma free_chain_head [simp]: "free_chain (st\<lparr>free_list := q\<rparr>) p bs = free_chain st p bs"
  by (induction bs arbitrary: p) (auto split: option.splits)

lemma link_from_ok:
  assumes "i \<le> n" and "n \<le> length (links st)"
  shows "\<exists>ls. link_from n i st = Some (n, st\<lparr>links := ls\<rparr>) \<and> length ls = length (links st)
    \<and> (\<forall>k < length ls. ls ! k = (if i \<le> k \<and> k < n then Some (Some (k + 1)) else links st ! k))"
  using assms
proof (induction "n - i" arbitrary: i st)
  case 0
  then show ?case by (intro exI [of _ "links st"]) (auto simp: link_from.simps)
next
  case (Suc d)
  let ?st = "st\<lparr>links := (links st)[i := Some (Some (i + 1))]\<rparr>"
  have "d = n - (i + 1)" "i + 1 \<le> n" "n \<le> length (links ?st)" using Suc.hyps(2) Suc.prems by simp_all
  from Suc.hyps(1) [OF this] obtain ls where ls: "link_from n (i + 1) ?st = Some (n, ?st\<lparr>links := ls\<rparr>)" "length ls = length (links ?st)"
    "\<forall>k < length ls. ls ! k = (if i + 1 \<le> k \<and> k < n then Some (Some (k + 1)) else links ?st ! k)" by blast
  have "link_from n i st = Some (n, st\<lparr>links := ls\<rparr>)"
    using ls(1) Suc.hyps(2) Suc.prems by (subst link_from.simps) (simp add: set_link_def)
  moreover have "\<forall>k < length ls. ls ! k = (if i \<le> k \<and> k < n then Some (Some (k + 1)) else links st ! k)"
    using ls(2,3) Suc.hyps(2) by (auto simp: nth_list_update)
  ultimately show ?case using ls(2) by auto
qed

lemma free_chain_upt:
  assumes "n = length (links st)" and "i < n" and "\<forall>k < n. links st ! k = Some (if k + 1 < n then Some (k + 1) else None)"
  shows "free_chain st (Some i) [i..<n]"
  using assms
proof (induction "n - i" arbitrary: i)
  case (Suc d)
  show ?case
  proof (cases "i + 1 < n")
    case True
    then have "free_chain st (Some (i + 1)) [i + 1..<n]" using Suc.hyps(1) [of "i + 1"] Suc.hyps(2) Suc.prems by simp
    then show ?thesis using True Suc.prems by (simp add: upt_conv_Cons)
  next
    case False
    then have "[i..<n] = [i]" using Suc.prems(2) by (simp add: upt_conv_Cons)
    then show ?thesis using False Suc.prems by simp
  qed
qed simp

lemma init_pool_chain:
  assumes "mem (unat (pool_size * BLOCK_SIZE))" and "0 < unat pool_size" and "unat pool_size < 2 ^ 58"
  shows "\<exists>st'. init_pool mem st pool_size = Some (True, st') \<and> free_chain st' (free_list st') [0..<unat pool_size]"
proof -
  define n where "n = unat pool_size"
  have "unat (pool_size * BLOCK_SIZE) = unat pool_size * 64"
    using assms(3) by (simp add: BLOCK_SIZE_def unat_word_ariths)
  then have bytes: "unat (pool_size * BLOCK_SIZE) div 64 = n" by (simp add: n_def)
  have "pool_size \<noteq> 0" using assms(2) by auto
  then have bound: "unat (pool_size - 1) = n - 1" by (simp add: n_def unat_minus_one)
  let ?st = "st\<lparr>links := replicate n None\<rparr>"
  obtain ls where ls: "link_from (n - 1) 0 ?st = Some (n - 1, ?st\<lparr>links := ls\<rparr>)" "length ls = n"
    "\<forall>k < n. ls ! k = (if k < n - 1 then Some (Some (k + 1)) else None)"
    using link_from_ok [of 0 "n - 1" ?st] by auto
  let ?ls = "ls[n - 1 := Some None]"
  let ?st' = "st\<lparr>links := ?ls, free_list := Some 0\<rparr>"
  have "init_pool mem st pool_size = Some (True, ?st')"
    using ls(1,2) assms(1,2) bytes bound by (simp add: init_pool_def Let_def set_link_def n_def)
  moreover have "free_chain ?st' (Some 0) [0..<n]"
    using ls(2,3) assms(2) by (intro free_chain_upt) (auto simp: nth_list_update n_def)
  ultimately show ?thesis by (simp add: n_def)
qed

lemma allocate_ok: "free_chain st (free_list st) (b # bs) \<Longrightarrow> \<exists>st'. allocate st node = Some (Some b, st') \<and> free_chain st' (free_list st') bs"
  by (auto simp: allocate_def split: option.splits)

lemma allocate_none: "free_chain st (free_list st) [] \<Longrightarrow> allocate st node = None"
  by (simp add: allocate_def)

lemma allocate_all_ok:
  assumes "free_chain st (free_list st) (as @ bs)" and "length nodes = length as"
  shows "\<exists>st'. allocate_all st nodes = Some (map Some as, st') \<and> free_chain st' (free_list st') bs"
  using assms
proof (induction nodes arbitrary: st as)
  case (Cons node nodes)
  then obtain a as' where as: "as = a # as'" by (cases as) auto
  obtain st1 where st1: "allocate st node = Some (Some a, st1)" "free_chain st1 (free_list st1) (as' @ bs)"
    using allocate_ok [of st a "as' @ bs" node] Cons.prems(1) as by auto
  from Cons.IH [OF st1(2)] Cons.prems(2) as st1(1) show ?case by auto
qed simp

lemma allocate_all_append:
  "allocate_all st (xs @ ys) = do { (bs, st) \<leftarrow> allocate_all st xs; (cs, st) \<leftarrow> allocate_all st ys; Some (bs @ cs, st) }"
  by (induction xs arbitrary: st) (auto split: bind_splits)

lemma allocate_all_too_many:
  assumes "free_chain st (free_list st) as" and "length as < length nodes"
  shows "allocate_all st nodes = None"
proof -
  let ?m = "length as"
  have split: "nodes = take ?m nodes @ nodes ! ?m # drop (Suc ?m) nodes" using assms(2) by (rule id_take_nth_drop)
  obtain st' where st': "allocate_all st (take ?m nodes) = Some (map Some as, st')" "free_chain st' (free_list st') []"
    using allocate_all_ok [of st as "[]" "take ?m nodes"] assms by auto
  show ?thesis by (subst split) (simp add: allocate_all_append st'(1) allocate_none [OF st'(2)])
qed

subsection \<open>Properties\<close>

text \<open>
  C36: After \<open>init_pool\<close> of \<open>n > 0\<close> blocks, less than \<open>2 ^ 58\<close> so that the size in bytes does not wrap, and when \<open>malloc\<close> succeeds, the allocations return the blocks 0, 1, \<dots> of the pool, each once, whatever their
  argument; allocation \<open>n + 1\<close> dereferences the null free list instead of returning null, because the test that
  should prevent it is an assignment.
\<close>

theorem pool_allocations:
  assumes "mem (unat (pool_size * BLOCK_SIZE))" and "0 < unat pool_size" and "unat pool_size < 2 ^ 58"
  shows "\<exists>st'. init_pool mem st pool_size = Some (True, st')
    \<and> (\<forall>nodes. length nodes \<le> unat pool_size \<longrightarrow> (\<exists>st2. allocate_all st' nodes = Some (map Some [0..<length nodes], st2)))
    \<and> (\<forall>nodes. length nodes > unat pool_size \<longrightarrow> allocate_all st' nodes = None)"
proof -
  obtain st' where st': "init_pool mem st pool_size = Some (True, st')" "free_chain st' (free_list st') [0..<unat pool_size]"
    using init_pool_chain [of mem pool_size st] assms by blast
  have "\<exists>st2. allocate_all st' nodes = Some (map Some [0..<length nodes], st2)" if "length nodes \<le> unat pool_size" for nodes
  proof -
    have "[0..<unat pool_size] = [0..<length nodes] @ [length nodes..<unat pool_size]" using that by (metis le_add_diff_inverse upt_add_eq_append zero_le)
    then show ?thesis using allocate_all_ok [of st' "[0..<length nodes]" _ nodes] st'(2) by fastforce
  qed
  moreover have "allocate_all st' nodes = None" if "length nodes > unat pool_size" for nodes
    using allocate_all_too_many [OF st'(2)] that by simp
  ultimately show ?thesis using st'(1) by blast
qed

theorem pool_allocations_witness:
  "\<exists>st'. main (\<lambda>bytes. True) = Some (True, st') \<and> (\<exists>st2. allocate_all st' [None, None] = Some ([Some 0, Some 1], st2))
    \<and> allocate_all st' (replicate 17 None) = None"
proof -
  obtain st' where "main (\<lambda>bytes. True) = Some (True, st')"
    "\<forall>nodes. length nodes \<le> unat (16 :: size_t) \<longrightarrow> (\<exists>st2. allocate_all st' nodes = Some (map Some [0..<length nodes], st2))"
    "\<forall>nodes. length nodes > unat (16 :: size_t) \<longrightarrow> allocate_all st' nodes = None"
    using pool_allocations [of "\<lambda>bytes. True" 16 "\<lparr>links = [], free_list = None\<rparr>"] unfolding main_def by auto
  note st' = this
  have "\<exists>st2. allocate_all st' [None, None] = Some ([Some 0, Some 1], st2)" using st'(2) [rule_format, of "[None, None]"] by (simp add: upt_conv_Cons)
  moreover have "allocate_all st' (replicate 17 None) = None" by (rule st'(3) [rule_format]) (simp only: length_replicate, simp)
  ultimately show ?thesis using st'(1) by blast
qed

text \<open>A pool of no blocks: the bound \<open>pool_size - 1\<close> wraps around and the first write is outside the allocated memory.\<close>

lemma init_pool_zero: "mem 0 \<Longrightarrow> init_pool mem st 0 = None"
  by (simp add: init_pool_def link_from.simps [of _ 0] set_link_def wr_def)

end
