(* ===== verification/Handoff.thy ===== *)
theory Handoff
  imports CPrelude
begin

text \<open>
  \<open>concurrency/03-handoff/handoff.c\<close>: a writer fills a record and publishes it with a release store to \<open>flag\<close>; a reader takes
  it after an acquire load that sees the flag, either testing once (\<open>read_try\<close>) or spinning (\<open>read_spin\<close>).  Each plain access
  to the record is a step of its own.  A load of the flag may return the current value or the older 0.  The plain
  reads return the current contents: that is right only when no write is concurrent with them, which is what
  \<open>handoff_no_race\<close> shows.
\<close>

datatype read_mode = Spin | Try

record log_record =
  data :: "int list"
  time :: u64
  cpuid :: int

datatype write_pc = WTime | WCpuid | WData nat | WSaved | WFlag | WDone

datatype read_pc = RLoad | RCpuid | RTime | RData nat | RCheck | RReady | RNotReady | RFailed

record handoff =
  log :: log_record
  time_saved :: u64
  flag :: int
  wpc :: write_pc
  rpc :: read_pc
  id :: int
  thn :: u64
  copy :: "int list"

text \<open>\<open>time_now\<close>: nanoseconds in 64 bits, 0 when the clock cannot be read.\<close>

definition time_now :: "(u64 \<times> u64) option \<Rightarrow> u64" where
  "time_now ts = (case ts of None \<Rightarrow> 0 | Some (sec, nsec) \<Rightarrow> sec * 1000000000 + nsec)"

definition write_handoff :: "u64 \<Rightarrow> handoff \<Rightarrow> handoff option" where
  "write_handoff now s =
     (case wpc s of
        WTime \<Rightarrow> Some (s\<lparr>log := (log s)\<lparr>time := now\<rparr>, wpc := WCpuid\<rparr>)
      | WCpuid \<Rightarrow> Some (s\<lparr>log := (log s)\<lparr>cpuid := 12\<rparr>, wpc := WData 0\<rparr>)
      | WData i \<Rightarrow> do {
          d \<leftarrow> wr (data (log s)) i (int i);
          Some (s\<lparr>log := (log s)\<lparr>data := d\<rparr>, wpc := (if i < 3 then WData (i + 1) else WSaved)\<rparr>)
        }
      | WSaved \<Rightarrow> Some (s\<lparr>time_saved := time (log s), wpc := WFlag\<rparr>)
      | WFlag \<Rightarrow> Some (s\<lparr>flag := 1, wpc := WDone\<rparr>)
      | WDone \<Rightarrow> None)"

text \<open>The load of the flag, in both readers: the value loaded decides.\<close>

definition load_flag :: "read_mode \<Rightarrow> int \<Rightarrow> handoff \<Rightarrow> handoff" where
  "load_flag md v s = s\<lparr>rpc := (if v \<noteq> 0 then RCpuid else case md of Spin \<Rightarrow> RLoad | Try \<Rightarrow> RNotReady)\<rparr>"

definition check_log :: "handoff \<Rightarrow> handoff option" where
  "check_log s =
     (case rpc s of
        RCpuid \<Rightarrow> Some (s\<lparr>id := cpuid (log s), rpc := RTime\<rparr>)
      | RTime \<Rightarrow> Some (s\<lparr>thn := time (log s), rpc := RData 0\<rparr>)
      | RData i \<Rightarrow> do {
          v \<leftarrow> rd (data (log s)) i;
          c \<leftarrow> wr (copy s) i v;
          Some (s\<lparr>copy := c, rpc := (if i < 3 then RData (i + 1) else RCheck)\<rparr>)
        }
      | RCheck \<Rightarrow> Some (s\<lparr>rpc := (if id s = 12 \<and> copy s = [0, 1, 2, 3] \<and> thn s = time_saved s then RReady else RFailed)\<rparr>)
      | _ \<Rightarrow> None)"

inductive handoff_step :: "read_mode \<Rightarrow> u64 \<Rightarrow> handoff \<Rightarrow> handoff \<Rightarrow> bool" for md now where
  store: "write_handoff now s = Some s' \<Longrightarrow> handoff_step md now s s'"
| load: "rpc s = RLoad \<Longrightarrow> handoff_step md now s (load_flag md (flag s) s)"
| load_old: "rpc s = RLoad \<Longrightarrow> handoff_step md now s (load_flag md 0 s)"
| read: "check_log s = Some s' \<Longrightarrow> handoff_step md now s s'"

text \<open>The start of the threads: the record and the locals of the threads have arbitrary contents.\<close>

definition handoff_start :: "handoff \<Rightarrow> bool" where
  "handoff_start s \<longleftrightarrow> length (data (log s)) = 4 \<and> length (copy s) = 4 \<and> flag s = 0 \<and> wpc s = WTime \<and> rpc s = RLoad"

text \<open>The modes \<open>main\<close> accepts, and its exit status and message, given the results of the thread calls and of the reader.\<close>

definition parse_mode :: "string list \<Rightarrow> read_mode option" where
  "parse_mode argv = (case argv of
       [_, m] \<Rightarrow> if m = ''spin'' then Some Spin else if m = ''try'' then Some Try else None
     | _ \<Rightarrow> None)"

definition main :: "string list \<Rightarrow> bool \<Rightarrow> bool \<Rightarrow> bool \<Rightarrow> handoff \<Rightarrow> int \<times> string option" where
  "main argv created_writer created_reader joined s =
     (case parse_mode argv of
        None \<Rightarrow> (1, None)
      | Some md \<Rightarrow>
          if \<not> created_writer then (1, None)
          else if \<not> created_reader then (1, None)
          else if \<not> joined then (1, None)
          else (0, Some (if rpc s = RReady then ''ready'' else ''not ready'')))"

subsection \<open>The invariant\<close>

definition reading :: "read_pc \<Rightarrow> bool" where
  "reading p \<longleftrightarrow> (case p of RCpuid \<Rightarrow> True | RTime \<Rightarrow> True | RData i \<Rightarrow> True | RCheck \<Rightarrow> True | _ \<Rightarrow> False)"

text \<open>What the writer has written when it has come to a point: its position among the eight stores.\<close>

fun writes_done :: "write_pc \<Rightarrow> nat" where
  "writes_done WTime = 0"
| "writes_done WCpuid = 1"
| "writes_done (WData i) = 2 + i"
| "writes_done WSaved = 6"
| "writes_done WFlag = 7"
| "writes_done WDone = 8"

definition wrote :: "u64 \<Rightarrow> handoff \<Rightarrow> bool" where
  "wrote now s \<longleftrightarrow> (let n = writes_done (wpc s) in
     (case wpc s of WData i \<Rightarrow> i < 4 | _ \<Rightarrow> True) \<and> length (data (log s)) = 4
     \<and> (n > 0 \<longrightarrow> time (log s) = now) \<and> (n > 1 \<longrightarrow> cpuid (log s) = 12)
     \<and> (\<forall>j < 4. n > 2 + j \<longrightarrow> data (log s) ! j = int j) \<and> (n > 6 \<longrightarrow> time_saved s = now)
     \<and> (flag s = (if n > 7 then 1 else 0)))"

definition read_so_far :: "u64 \<Rightarrow> handoff \<Rightarrow> bool" where
  "read_so_far now s \<longleftrightarrow> length (copy s) = 4 \<and> rpc s \<noteq> RFailed
     \<and> (reading (rpc s) \<or> rpc s = RReady \<longrightarrow> wpc s = WDone)
     \<and> (rpc s \<in> {RTime, RCheck, RReady} \<or> (\<exists>i. rpc s = RData i) \<longrightarrow> id s = 12)
     \<and> (rpc s \<in> {RCheck, RReady} \<or> (\<exists>i. rpc s = RData i) \<longrightarrow> thn s = now)
     \<and> (\<forall>i. rpc s = RData i \<longrightarrow> i < 4 \<and> (\<forall>j < i. copy s ! j = int j))
     \<and> (rpc s \<in> {RCheck, RReady} \<longrightarrow> (\<forall>j < 4. copy s ! j = int j))"

lemma wrote_start: "handoff_start s \<Longrightarrow> wrote now s \<and> read_so_far now s"
  by (simp add: handoff_start_def wrote_def read_so_far_def reading_def)

lemma wrote_step:
  assumes "handoff_step md now s s'" and "wrote now s"
  shows "wrote now s'"
  using assms
proof (induction rule: handoff_step.induct)
  case (store s s')
  then show ?case
    by (cases "wpc s") (auto simp: write_handoff_def wrote_def Let_def nth_list_update less_Suc_eq wr_def split: if_splits)
next
  case (read s s')
  then show ?case by (cases "rpc s") (auto simp: check_log_def wrote_def Let_def split: bind_splits)
qed (simp_all add: load_flag_def wrote_def)

lemma list4_eq: "length xs = 4 \<Longrightarrow> (\<forall>j < 4. xs ! j = int j) \<longleftrightarrow> xs = [0, 1, 2, 3]"
  by (auto simp: list_eq_iff_nth_eq less_Suc_eq numeral_eq_Suc)

lemma store_keeps_read: "write_handoff now s = Some s' \<Longrightarrow> read_so_far now s \<Longrightarrow> read_so_far now s'"
proof -
  assume w: "write_handoff now s = Some s'" and r: "read_so_far now s"
  then have "wpc s \<noteq> WDone" by (auto simp: write_handoff_def)
  moreover have "rpc s' = rpc s" "copy s' = copy s" "id s' = id s" "thn s' = thn s"
    using w by (cases "wpc s"; auto simp: write_handoff_def split: bind_splits)+
  ultimately show "read_so_far now s'" using r unfolding read_so_far_def by simp
qed

lemma load_keeps_read: "rpc s = RLoad \<Longrightarrow> read_so_far now s \<Longrightarrow> v \<noteq> 0 \<longrightarrow> wpc s = WDone \<Longrightarrow> read_so_far now (load_flag md v s)"
  by (cases md) (simp_all add: load_flag_def read_so_far_def reading_def)

lemma read_keeps_read:
  assumes r: "check_log s = Some s'" and prems: "wrote now s" "read_so_far now s"
  shows "read_so_far now s'"
proof -
  have fin: "wpc s = WDone" using r prems(2) by (cases "rpc s") (simp_all add: check_log_def read_so_far_def reading_def)
  then have w: "time (log s) = now" "cpuid (log s) = 12" "\<forall>j < 4. data (log s) ! j = int j" "time_saved s = now" "length (data (log s)) = 4"
    using prems(1) by (simp_all add: wrote_def)
  show ?thesis
  proof (cases "rpc s")
    case RCheck
    then have "copy s = [0, 1, 2, 3]" using prems(2) list4_eq [of "copy s"] by (simp add: read_so_far_def)
    then show ?thesis using r prems(2) RCheck w fin by (auto simp: check_log_def read_so_far_def reading_def)
  next
    case (RData i)
    then have i: "i < 4" "\<forall>j < i. copy s ! j = int j" "length (copy s) = 4" using prems(2) by (simp_all add: read_so_far_def)
    then have s': "s' = s\<lparr>copy := (copy s)[i := int i], rpc := (if i < 3 then RData (i + 1) else RCheck)\<rparr>"
      using r RData w(3,5) by (simp add: check_log_def)
    have upd: "\<forall>j \<le> i. (copy s)[i := int i] ! j = int j" using i by (simp add: nth_list_update le_less)
    show ?thesis
    proof (cases "i < 3")
      case True
      then show ?thesis using s' RData prems(2) upd fin i by (simp add: read_so_far_def reading_def)
    next
      case False
      then have "\<forall>j < 4. (copy s)[i := int i] ! j = int j" using upd i(1) by auto
      then show ?thesis using False s' RData prems(2) fin i by (simp add: read_so_far_def reading_def)
    qed
  qed (use r prems(2) w fin in \<open>simp_all add: check_log_def read_so_far_def reading_def\<close>, use r prems(2) w fin in \<open>auto simp: check_log_def read_so_far_def reading_def\<close>)
qed

lemma read_step:
  assumes "handoff_step md now s s'" and "wrote now s" and "read_so_far now s"
  shows "read_so_far now s'"
  using assms
proof (induction rule: handoff_step.induct)
  case (load s)
  then have "flag s \<noteq> 0 \<longrightarrow> wpc s = WDone" by (cases "wpc s") (simp_all add: wrote_def)
  then show ?case using load load_keeps_read by blast
qed (use store_keeps_read load_keeps_read read_keeps_read in blast)+

lemma handoff_inv:
  assumes "(handoff_step md now)\<^sup>*\<^sup>* s0 s" and "handoff_start s0"
  shows "wrote now s \<and> read_so_far now s"
  using assms(1)
proof (induction rule: rtranclp_induct)
  case base
  then show ?case by (rule wrote_start [OF assms(2)])
next
  case (step s s')
  then show ?case using wrote_step [OF step.hyps(2)] read_step [OF step.hyps(2)] by blast
qed

subsection \<open>Both threads finish\<close>

fun reads_left :: "read_pc \<Rightarrow> nat" where
  "reads_left RLoad = 8"
| "reads_left RCpuid = 7"
| "reads_left RTime = 6"
| "reads_left (RData i) = 5 - i"
| "reads_left RCheck = 1"
| "reads_left _ = 0"

definition work_left :: "handoff \<Rightarrow> nat" where
  "work_left s = (8 - writes_done (wpc s)) + reads_left (rpc s)"

lemma store_decreases:
  assumes "wrote now s" and "wpc s \<noteq> WDone"
  shows "\<exists>s'. write_handoff now s = Some s' \<and> work_left s' < work_left s"
  using assms by (cases "wpc s") (auto simp: write_handoff_def wrote_def work_left_def)

lemma read_decreases:
  assumes "wrote now s" and "read_so_far now s" and "reading (rpc s)"
  shows "\<exists>s'. check_log s = Some s' \<and> work_left s' < work_left s"
  using assms by (cases "rpc s") (auto simp: check_log_def wrote_def read_so_far_def reading_def work_left_def)

lemma spin_never_gives_up: "(handoff_step Spin now)\<^sup>*\<^sup>* s0 s \<Longrightarrow> rpc s0 \<noteq> RNotReady \<Longrightarrow> rpc s \<noteq> RNotReady"
proof (induction rule: rtranclp_induct)
  case (step s s')
  from step.hyps(2) step.IH [OF step.prems] show ?case
  proof (induction rule: handoff_step.induct)
    case (store s s')
    then show ?case by (cases "wpc s") (auto simp: write_handoff_def split: bind_splits)
  next
    case (read s s')
    then show ?case by (cases "rpc s") (auto simp: check_log_def split: bind_splits if_splits)
  qed (simp_all add: load_flag_def)
qed

lemma handoff_progress:
  assumes "wrote now s" and "read_so_far now s" and "\<not> (wpc s = WDone \<and> rpc s \<in> {RReady, RNotReady})"
  shows "\<exists>s'. handoff_step md now s s' \<and> work_left s' < work_left s"
proof (cases "wpc s = WDone")
  case False
  then show ?thesis using store_decreases [OF assms(1)] by (blast intro: handoff_step.store)
next
  case True
  then have "flag s = 1" using assms(1) by (simp add: wrote_def)
  show ?thesis
  proof (cases "rpc s = RLoad")
    case True
    then show ?thesis using handoff_step.load [OF True, of md now] \<open>flag s = 1\<close> by (intro exI [of _ "load_flag md (flag s) s"]) (simp add: load_flag_def work_left_def)
  next
    case False
    then have "reading (rpc s)" using assms(2,3) True by (cases "rpc s") (simp_all add: reading_def read_so_far_def)
    then show ?thesis using read_decreases [OF assms(1,2)] by (blast intro: handoff_step.read)
  qed
qed

lemma handoff_can_end:
  assumes "wrote now s" and "read_so_far now s"
  shows "\<exists>s'. (handoff_step md now)\<^sup>*\<^sup>* s s' \<and> wpc s' = WDone \<and> rpc s' \<in> {RReady, RNotReady}"
  using assms
proof (induction "work_left s" arbitrary: s rule: less_induct)
  case less
  show ?case
  proof (cases "wpc s = WDone \<and> rpc s \<in> {RReady, RNotReady}")
    case False
    then obtain s1 where s1: "handoff_step md now s s1" "work_left s1 < work_left s" using handoff_progress [OF less.prems] by blast
    then obtain s' where "(handoff_step md now)\<^sup>*\<^sup>* s1 s'" "wpc s' = WDone" "rpc s' \<in> {RReady, RNotReady}"
      using less.hyps [OF s1(2)] wrote_step [OF s1(1)] read_step [OF s1(1)] less.prems by blast
    then show ?thesis using s1(1) by (meson converse_rtranclp_into_rtranclp)
  qed blast
qed

subsection \<open>Properties\<close>

definition example_start :: handoff where
  "example_start = \<lparr>log = \<lparr>data = [9, 9, 9, 9], time = 0, cpuid = 0\<rparr>, time_saved = 0, flag = 0, wpc = WTime, rpc = RLoad, id = 0, thn = 0, copy = [7, 7, 7, 7]\<rparr>"

text \<open>
  From every reachable state the threads can go on to the end.  The spinning reader then has the record; the reader that
  tests once may also have given up, which the spinning one never does.
\<close>

theorem handoff_finishes:
  assumes "(handoff_step md now)\<^sup>*\<^sup>* s0 s" and "handoff_start s0"
  shows "\<exists>s'. (handoff_step md now)\<^sup>*\<^sup>* s s' \<and> wpc s' = WDone \<and> (rpc s' = RReady \<or> md = Try \<and> rpc s' = RNotReady)"
proof -
  obtain s' where s': "(handoff_step md now)\<^sup>*\<^sup>* s s'" "wpc s' = WDone" "rpc s' \<in> {RReady, RNotReady}"
    using handoff_can_end handoff_inv [OF assms] by blast
  have "rpc s' \<noteq> RNotReady" if "md = Spin"
    using spin_never_gives_up [of now s0 s'] rtranclp_trans [OF assms(1) s'(1)] that assms(2) by (simp add: handoff_start_def)
  then show ?thesis using s' by (cases md) auto
qed

theorem handoff_finishes_witness:
  "\<exists>s'. (handoff_step Spin 5)\<^sup>*\<^sup>* example_start s' \<and> rpc s' = RReady"
  using handoff_finishes [of Spin 5 example_start example_start] by (auto simp: example_start_def handoff_start_def)

text \<open>
  C22: The release store and the acquire load order the accesses: in every state either reader can reach, with flag loads that may
  be stale, the reader touches the record only after the writer's last store, none of its assertions fails, and when it
  is ready it has the values the writer published.
\<close>

theorem handoff_no_race:
  assumes "(handoff_step md now)\<^sup>*\<^sup>* s0 s" and "handoff_start s0"
  shows "(reading (rpc s) \<longrightarrow> wpc s = WDone) \<and> rpc s \<noteq> RFailed
    \<and> (rpc s = RReady \<longrightarrow> id s = 12 \<and> copy s = [0, 1, 2, 3] \<and> thn s = now)"
  using handoff_inv [OF assms] list4_eq [of "copy s"] by (auto simp: read_so_far_def)

theorem handoff_no_race_witness:
  "\<exists>s. (handoff_step Spin 5)\<^sup>*\<^sup>* example_start s \<and> rpc s = RReady \<and> copy s = [0, 1, 2, 3] \<and> thn s = 5"
proof -
  have start: "handoff_start example_start" by (simp add: example_start_def handoff_start_def)
  obtain s where "(handoff_step Spin 5)\<^sup>*\<^sup>* example_start s" "rpc s = RReady"
    using handoff_finishes [OF rtranclp.rtrancl_refl start, of Spin 5] by auto
  then show ?thesis using handoff_no_race [OF _ start] by blast
qed

end
