(* ===== verification/Ping_Pong.thy ===== *)
theory Ping_Pong
  imports CPrelude
begin

text \<open>
  \<open>ping-pong/main.c\<close> and \<open>ping-pong/main2.c\<close>: a parent and a child process bounce a byte over two pipes.  A pipe is the list of bytes in
  it, with a capacity of at least one byte; each process has the set of pipe ends it still holds open, and both start with all four, as
  \<open>fork\<close> copies them.  A reader of an empty pipe sees the end of file only when no process holds its writing end, so the closes of the
  inherited ends matter and are calls of the model.  One step is one system call of one process (the loop test is part of the step before it):
  a call that would block is no step, a \<open>read\<close> or \<open>write\<close> interrupted by a signal (\<open>EINTR\<close>) is repeated, any other failure ends the process.
  The two files differ in the order of the parent's closes, in what it does at an unexpected end of file, and in the arguments they accept.
  Clock readings and printing are not modelled.
\<close>

datatype version = Main1 | Main2

text \<open>The pipe ends \<open>p2c[0]\<close>, \<open>p2c[1]\<close>, \<open>c2p[0]\<close>, \<open>c2p[1]\<close>: end 0 is read, end 1 written.\<close>

datatype fd = P2C0 | P2C1 | C2P0 | C2P1

datatype parent_pc = PClose1 | PClose2 | PWrite | PRead | PEnd1 | PEnd2 | PWait | PDone | PDied

datatype child_pc = CClose1 | CClose2 | CRead | CWrite | CEnd1 | CEnd2 | CExit | CExited | CDied

text \<open>\<open>eof_seen\<close>: the parent met the unexpected end of file; \<open>waited\<close>: its \<open>waitpid\<close> returned the child.\<close>

record pingpong =
  p2c :: "char list"
  c2p :: "char list"
  pfds :: "fd set"
  cfds :: "fd set"
  i :: int
  byte :: char
  ppc :: parent_pc
  cbyte :: char
  cpc :: child_pc
  eof_seen :: bool
  waited :: bool

definition is_open :: "pingpong \<Rightarrow> fd \<Rightarrow> bool" where
  "is_open s fd \<longleftrightarrow> fd \<in> pfds s \<or> fd \<in> cfds s"

text \<open>
  The replies of \<open>read\<close> and \<open>write\<close>: success with a value, the end of file, an interruption, or another error; \<^const>\<open>None\<close> of the
  outer option when the call blocks.  The environment chooses interruptions.  A descriptor the caller has closed is an error, and so is
  (through \<open>SIGPIPE\<close> or \<open>EPIPE\<close>) a \<open>write\<close> to a pipe whose reading end nobody holds.
\<close>

datatype 'a reply = Ok 'a | Eof | Intr | Err

definition sys_read :: "bool \<Rightarrow> bool \<Rightarrow> bool \<Rightarrow> char list \<Rightarrow> (char reply \<times> char list) option" where
  "sys_read intr own writer_open p =
     (if \<not> own then Some (Err, p)
      else if intr then Some (Intr, p)
      else case p of b # rest \<Rightarrow> Some (Ok b, rest) | [] \<Rightarrow> if writer_open then None else Some (Eof, p))"

definition sys_write :: "bool \<Rightarrow> nat \<Rightarrow> bool \<Rightarrow> bool \<Rightarrow> char list \<Rightarrow> char \<Rightarrow> (unit reply \<times> char list) option" where
  "sys_write intr cap own reader_open p b =
     (if \<not> own \<or> \<not> reader_open then Some (Err, p)
      else if intr then Some (Intr, p)
      else if length p < cap then Some (Ok (), p @ [b]) else None)"

text \<open>The two ends the parent closes before its loop and the two it closes after it, in the order of each program.\<close>

fun first_closes :: "version \<Rightarrow> fd \<times> fd" where
  "first_closes Main1 = (P2C0, C2P1)"
| "first_closes Main2 = (C2P1, P2C0)"

fun last_closes :: "version \<Rightarrow> fd \<times> fd" where
  "last_closes Main1 = (P2C1, C2P0)"
| "last_closes Main2 = (C2P0, P2C1)"

definition loop_test :: "int \<Rightarrow> pingpong \<Rightarrow> pingpong" where
  "loop_test exchanges s = s\<lparr>ppc := if i s < exchanges then PWrite else PEnd1\<rparr>"

definition parent_dies :: "pingpong \<Rightarrow> pingpong" where
  "parent_dies s = s\<lparr>pfds := {}, ppc := PDied\<rparr>"

definition child_dies :: "pingpong \<Rightarrow> pingpong" where
  "child_dies s = s\<lparr>cfds := {}, cpc := CDied\<rparr>"

text \<open>
  One system call of the parent.  The result of \<open>close\<close> is not looked at and the descriptor is released in any case, so there is no interrupted
  close.  \<open>waitpid\<close> is called once, its result is not looked at either: when a signal interrupts it the parent goes on without the child.
\<close>

definition parent_step :: "version \<Rightarrow> nat \<Rightarrow> int \<Rightarrow> bool \<Rightarrow> pingpong \<Rightarrow> pingpong option" where
  "parent_step ver cap exchanges intr s =
     (case ppc s of
        PClose1 \<Rightarrow> if intr then None else Some (s\<lparr>pfds := pfds s - {fst (first_closes ver)}, ppc := PClose2\<rparr>)
      | PClose2 \<Rightarrow> if intr then None else Some (loop_test exchanges (s\<lparr>pfds := pfds s - {snd (first_closes ver)}\<rparr>))
      | PWrite \<Rightarrow> do {
          (r, p) \<leftarrow> sys_write intr cap (P2C1 \<in> pfds s) (is_open s P2C0) (p2c s) (byte s);
          Some (case r of Ok _ \<Rightarrow> s\<lparr>p2c := p, ppc := PRead\<rparr> | Intr \<Rightarrow> s | _ \<Rightarrow> parent_dies s)
        }
      | PRead \<Rightarrow> do {
          (r, p) \<leftarrow> sys_read intr (C2P0 \<in> pfds s) (is_open s C2P1) (c2p s);
          case r of
            Ok b \<Rightarrow> do { k \<leftarrow> to_i64 (i s + 1); Some (loop_test exchanges (s\<lparr>c2p := p, byte := b, i := k\<rparr>)) }
          | Eof \<Rightarrow> Some (case ver of
                Main1 \<Rightarrow> s\<lparr>eof_seen := True, ppc := PEnd1\<rparr>
              | Main2 \<Rightarrow> parent_dies (s\<lparr>eof_seen := True\<rparr>))
          | Intr \<Rightarrow> Some s
          | Err \<Rightarrow> Some (parent_dies s)
        }
      | PEnd1 \<Rightarrow> if intr then None else Some (s\<lparr>pfds := pfds s - {fst (last_closes ver)}, ppc := PEnd2\<rparr>)
      | PEnd2 \<Rightarrow> if intr then None else Some (s\<lparr>pfds := pfds s - {snd (last_closes ver)}, ppc := PWait\<rparr>)
      | PWait \<Rightarrow>
          if intr then Some (s\<lparr>ppc := PDone\<rparr>)
          else if cpc s = CExited \<or> cpc s = CDied then Some (s\<lparr>waited := True, ppc := PDone\<rparr>)
          else None
      | PDone \<Rightarrow> None
      | PDied \<Rightarrow> None)"

definition child_step :: "nat \<Rightarrow> bool \<Rightarrow> pingpong \<Rightarrow> pingpong option" where
  "child_step cap intr s =
     (case cpc s of
        CClose1 \<Rightarrow> if intr then None else Some (s\<lparr>cfds := cfds s - {P2C1}, cpc := CClose2\<rparr>)
      | CClose2 \<Rightarrow> if intr then None else Some (s\<lparr>cfds := cfds s - {C2P0}, cpc := CRead\<rparr>)
      | CRead \<Rightarrow> do {
          (r, p) \<leftarrow> sys_read intr (P2C0 \<in> cfds s) (is_open s P2C1) (p2c s);
          Some (case r of Ok b \<Rightarrow> s\<lparr>p2c := p, cbyte := b, cpc := CWrite\<rparr> | Eof \<Rightarrow> s\<lparr>cpc := CEnd1\<rparr> | Intr \<Rightarrow> s | Err \<Rightarrow> child_dies s)
        }
      | CWrite \<Rightarrow> do {
          (r, p) \<leftarrow> sys_write intr cap (C2P1 \<in> cfds s) (is_open s C2P0) (c2p s) (cbyte s);
          Some (case r of Ok _ \<Rightarrow> s\<lparr>c2p := p, cpc := CRead\<rparr> | Intr \<Rightarrow> s | _ \<Rightarrow> child_dies s)
        }
      | CEnd1 \<Rightarrow> if intr then None else Some (s\<lparr>cfds := cfds s - {P2C0}, cpc := CEnd2\<rparr>)
      | CEnd2 \<Rightarrow> if intr then None else Some (s\<lparr>cfds := cfds s - {C2P1}, cpc := CExit\<rparr>)
      | CExit \<Rightarrow> if intr then None else Some (s\<lparr>cfds := {}, cpc := CExited\<rparr>)
      | CExited \<Rightarrow> None
      | CDied \<Rightarrow> None)"

inductive pp_step :: "version \<Rightarrow> nat \<Rightarrow> int \<Rightarrow> bool \<Rightarrow> pingpong \<Rightarrow> pingpong \<Rightarrow> bool" for ver cap exchanges where
  parent: "parent_step ver cap exchanges intr s = Some s' \<Longrightarrow> pp_step ver cap exchanges intr s s'"
| child: "child_step cap intr s = Some s' \<Longrightarrow> pp_step ver cap exchanges intr s s'"

text \<open>
  After \<open>fork\<close>; the child's byte is written by its first \<open>read\<close>.  \<open>pp_setup\<close> is told which of \<open>pipe\<close>, \<open>pipe\<close> and \<open>fork\<close> succeed:
  when one fails the program dies with status 1.
\<close>

definition pp_start :: pingpong where
  "pp_start = \<lparr>p2c = [], c2p = [], pfds = {P2C0, P2C1, C2P0, C2P1}, cfds = {P2C0, P2C1, C2P0, C2P1}, i = 0, byte = CHR ''x'',
     ppc = PClose1, cbyte = CHR ''x'', cpc = CClose1, eof_seen = False, waited = False\<rparr>"

definition pp_setup :: "bool \<Rightarrow> bool \<Rightarrow> bool \<Rightarrow> pingpong option" where
  "pp_setup pipe_p2c pipe_c2p forked =
     (if \<not> pipe_p2c then None else if \<not> pipe_c2p then None else if \<not> forked then None else Some pp_start)"

text \<open>A run of the two processes, with the number of calls in it that were not interrupted.\<close>

inductive pp_run :: "version \<Rightarrow> nat \<Rightarrow> int \<Rightarrow> nat \<Rightarrow> pingpong \<Rightarrow> bool" for ver cap exchanges where
  start: "pp_setup p q f = Some s \<Longrightarrow> pp_run ver cap exchanges 0 s"
| call: "pp_run ver cap exchanges k s \<Longrightarrow> pp_step ver cap exchanges False s s' \<Longrightarrow> pp_run ver cap exchanges (Suc k) s'"
| intr: "pp_run ver cap exchanges k s \<Longrightarrow> pp_step ver cap exchanges True s s' \<Longrightarrow> pp_run ver cap exchanges k s'"

text \<open>
  The number of exchanges, or \<^const>\<open>None\<close> for the usage message and exit status 1; \<open>atol\<close> is the C library's.  \<open>main2.c\<close> does not check that
  the number is positive.
\<close>

definition main_exchanges :: "(string \<Rightarrow> int) \<Rightarrow> string list \<Rightarrow> int option" where
  "main_exchanges atol argv = (case argv of
       _ # a # _ \<Rightarrow> if atol a \<le> 0 then None else Some (atol a)
     | _ \<Rightarrow> Some 100000)"

definition main2_reps :: "(string \<Rightarrow> int) \<Rightarrow> string list \<Rightarrow> int option" where
  "main2_reps atol argv = (if length argv > 2 then None else case argv of _ # a # _ \<Rightarrow> Some (atol a) | _ \<Rightarrow> Some 100000)"

subsection \<open>The invariant\<close>

text \<open>The ends each process holds at each of its positions.\<close>

fun pfds_at :: "version \<Rightarrow> parent_pc \<Rightarrow> fd set" where
  "pfds_at ver PClose1 = {P2C0, P2C1, C2P0, C2P1}"
| "pfds_at ver PClose2 = {P2C0, P2C1, C2P0, C2P1} - {fst (first_closes ver)}"
| "pfds_at ver PWrite = {P2C1, C2P0}"
| "pfds_at ver PRead = {P2C1, C2P0}"
| "pfds_at ver PEnd1 = {P2C1, C2P0}"
| "pfds_at ver PEnd2 = {P2C1, C2P0} - {fst (last_closes ver)}"
| "pfds_at ver _ = {}"

fun cfds_at :: "child_pc \<Rightarrow> fd set" where
  "cfds_at CClose1 = {P2C0, P2C1, C2P0, C2P1}"
| "cfds_at CClose2 = {P2C0, C2P0, C2P1}"
| "cfds_at CRead = {P2C0, C2P1}"
| "cfds_at CWrite = {P2C0, C2P1}"
| "cfds_at CEnd1 = {P2C0, C2P1}"
| "cfds_at CEnd2 = {C2P1}"
| "cfds_at _ = {}"

text \<open>The child before it has met the end of file and with no byte in hand, and after the end of file.\<close>

fun expecting :: "child_pc \<Rightarrow> bool" where
  "expecting CClose1 = True"
| "expecting CClose2 = True"
| "expecting CRead = True"
| "expecting _ = False"

fun leaving :: "child_pc \<Rightarrow> bool" where
  "leaving CEnd1 = True"
| "leaving CEnd2 = True"
| "leaving CExit = True"
| "leaving CExited = True"
| "leaving _ = False"

text \<open>Where the byte is while the parent waits for it.\<close>

definition in_flight :: "pingpong \<Rightarrow> bool" where
  "in_flight s \<longleftrightarrow> (p2c s = [byte s] \<and> c2p s = [] \<and> expecting (cpc s))
     \<or> (p2c s = [] \<and> c2p s = [] \<and> cpc s = CWrite \<and> cbyte s = byte s)
     \<or> (p2c s = [] \<and> c2p s = [byte s] \<and> cpc s = CRead)"

definition at_rest :: "pingpong \<Rightarrow> bool" where
  "at_rest s \<longleftrightarrow> p2c s = [] \<and> c2p s = [] \<and> expecting (cpc s)"

definition after_loop :: "int \<Rightarrow> pingpong \<Rightarrow> bool" where
  "after_loop n s \<longleftrightarrow> i s = max 0 n \<and> p2c s = [] \<and> c2p s = [] \<and> (expecting (cpc s) \<or> leaving (cpc s) \<and> P2C1 \<notin> pfds s)"

definition pp_inv :: "version \<Rightarrow> int \<Rightarrow> pingpong \<Rightarrow> bool" where
  "pp_inv ver n s \<longleftrightarrow> pfds s = pfds_at ver (ppc s) \<and> cfds s = cfds_at (cpc s) \<and> byte s = CHR ''x'' \<and> \<not> eof_seen s
     \<and> (waited s \<longrightarrow> ppc s = PDone \<and> cpc s = CExited)
     \<and> (case ppc s of
          PClose1 \<Rightarrow> i s = 0 \<and> at_rest s
        | PClose2 \<Rightarrow> i s = 0 \<and> at_rest s
        | PWrite \<Rightarrow> 0 \<le> i s \<and> i s < n \<and> at_rest s
        | PRead \<Rightarrow> 0 \<le> i s \<and> i s < n \<and> in_flight s
        | PDied \<Rightarrow> False
        | _ \<Rightarrow> after_loop n s)"

subsection \<open>The calls that are left\<close>

fun parent_left :: "int \<Rightarrow> int \<Rightarrow> parent_pc \<Rightarrow> nat" where
  "parent_left n k PClose1 = 2 * nat n + 5"
| "parent_left n k PClose2 = 2 * nat n + 4"
| "parent_left n k PWrite = 2 * nat (n - k) + 3"
| "parent_left n k PRead = 2 * nat (n - k) + 2"
| "parent_left n k PEnd1 = 3"
| "parent_left n k PEnd2 = 2"
| "parent_left n k PWait = 1"
| "parent_left n k _ = 0"

fun child_left :: "nat \<Rightarrow> child_pc \<Rightarrow> nat" where
  "child_left r CClose1 = 2 * r + 6"
| "child_left r CClose2 = 2 * r + 5"
| "child_left r CRead = 2 * r + 4"
| "child_left r CWrite = 2 * r + 3"
| "child_left r CEnd1 = 3"
| "child_left r CEnd2 = 2"
| "child_left r CExit = 1"
| "child_left r _ = 0"

text \<open>The bytes the child still has to read: one fewer when the answer is already on its way.\<close>

definition reads_left :: "int \<Rightarrow> pingpong \<Rightarrow> nat" where
  "reads_left n s = nat (n - i s) - (if c2p s = [] then 0 else 1)"

definition calls_left :: "int \<Rightarrow> pingpong \<Rightarrow> nat" where
  "calls_left n s = parent_left n (i s) (ppc s) + child_left (reads_left n s) (cpc s)"

text \<open>The call that an interrupted \<open>waitpid\<close> did not make.\<close>

definition unwaited :: "pingpong \<Rightarrow> nat" where
  "unwaited s = (if ppc s = PDone \<and> \<not> waited s then 1 else 0)"

lemmas pp_inv_defs = pp_inv_def at_rest_def in_flight_def after_loop_def

lemmas left_defs = calls_left_def reads_left_def unwaited_def

text \<open>Every uninterrupted call keeps the invariant and is one of the calls that were left; an interrupted one leaves their number as it is.\<close>

definition pp_ok :: "version \<Rightarrow> int \<Rightarrow> bool \<Rightarrow> pingpong \<Rightarrow> pingpong \<Rightarrow> bool" where
  "pp_ok ver n intr s s' \<longleftrightarrow> pp_inv ver n s'
     \<and> (if intr then 0 else 1) + calls_left n s' + unwaited s' = calls_left n s + unwaited s"

lemma pp_start_inv: "pp_inv ver n pp_start" "calls_left n pp_start + unwaited pp_start = 4 * nat n + 11"
  by (simp_all add: pp_inv_defs pp_start_def left_defs)

text \<open>The parent's closes only move it on.\<close>

lemma first_closes_fds:
  "pfds_at ver PClose1 - {fst (first_closes ver)} = pfds_at ver PClose2"
  "pfds_at ver PClose2 - {snd (first_closes ver)} = {P2C1, C2P0}"
  by (cases ver; auto)+

lemma last_closes_fds:
  "pfds_at ver PEnd1 - {fst (last_closes ver)} = pfds_at ver PEnd2"
  "pfds_at ver PEnd2 - {snd (last_closes ver)} = {}"
  by (cases ver; auto)+

lemma parent_first_closes_ok:
  assumes step: "parent_step ver cap n intr s = Some s'" and inv: "pp_inv ver n s" and pc: "ppc s = PClose1 \<or> ppc s = PClose2"
  shows "pp_ok ver n intr s s'"
proof -
  have at: "i s = 0" "at_rest s" "\<not> waited s" "pfds s = pfds_at ver (ppc s)" using inv pc by (auto simp: pp_inv_def)
  define q where "q = (if ppc s = PClose1 then PClose2 else if 0 < n then PWrite else PEnd1)"
  have "\<not> intr" and s': "s' = s\<lparr>pfds := pfds_at ver q, ppc := q\<rparr>"
    using step pc at first_closes_fds
    by (auto simp: parent_step_def loop_test_def q_def simp del: pfds_at.simps(1,2) split: if_splits)
  moreover have "parent_left n 0 (ppc s) = Suc (parent_left n 0 q)" using pc by (auto simp: q_def)
  ultimately have "1 + calls_left n s' + unwaited s' = calls_left n s + unwaited s"
    using at pc by (auto simp: left_defs q_def)
  moreover have "pp_inv ver n s'" using pc inv at by (auto simp: s' q_def pp_inv_def at_rest_def after_loop_def)
  ultimately show ?thesis using \<open>\<not> intr\<close> by (simp add: pp_ok_def)
qed

lemma parent_last_closes_ok:
  assumes step: "parent_step ver cap n intr s = Some s'" and inv: "pp_inv ver n s" and pc: "ppc s = PEnd1 \<or> ppc s = PEnd2"
  shows "pp_ok ver n intr s s'"
proof -
  have at: "after_loop n s" "\<not> waited s" "pfds s = pfds_at ver (ppc s)" using inv pc by (auto simp: pp_inv_def)
  define q where "q = (if ppc s = PEnd1 then PEnd2 else PWait)"
  have "\<not> intr" and s': "s' = s\<lparr>pfds := pfds_at ver q, ppc := q\<rparr>"
    using step pc at last_closes_fds
    by (auto simp: parent_step_def q_def simp del: pfds_at.simps(5,6) split: if_splits)
  moreover have "parent_left n (i s) (ppc s) = Suc (parent_left n (i s) q)" using pc by (auto simp: q_def)
  ultimately have "1 + calls_left n s' + unwaited s' = calls_left n s + unwaited s"
    using at pc by (auto simp: left_defs q_def)
  moreover have "pfds s' \<subseteq> pfds s" using at(3) pc by (auto simp: s' q_def)
  then have "after_loop n s'" using at(1) by (auto simp: after_loop_def s')
  then have "pp_inv ver n s'" using pc inv by (auto simp: s' q_def pp_inv_def)
  ultimately show ?thesis using \<open>\<not> intr\<close> by (simp add: pp_ok_def)
qed

lemma parent_write_ok:
  assumes step: "parent_step ver cap n intr s = Some s'" and inv: "pp_inv ver n s" and pc: "ppc s = PWrite"
  shows "pp_ok ver n intr s s'"
proof -
  have own: "P2C1 \<in> pfds s" "is_open s P2C0" using inv pc by (cases "cpc s"; simp add: pp_inv_defs is_open_def)+
  then have "intr \<and> s' = s \<or> \<not> intr \<and> s' = s\<lparr>p2c := [byte s], ppc := PRead\<rparr>"
    using step inv pc by (auto simp: parent_step_def sys_write_def pp_inv_defs split: if_splits)
  then show ?thesis using inv pc by (auto simp: pp_ok_def pp_inv_defs left_defs)
qed

lemma parent_read_ok:
  assumes step: "parent_step ver cap n intr s = Some s'" and inv: "pp_inv ver n s" and pc: "ppc s = PRead" and n: "n < 2 ^ 63"
  shows "pp_ok ver n intr s s'"
proof -
  have le: "0 \<le> i s" "i s < n" "in_flight s" using inv pc by (simp_all add: pp_inv_def)
  then have k: "to_i64 (i s + 1) = Some (i s + 1)" using n by simp
  have left: "nat (n - i s) = Suc (nat (n - (i s + 1)))" using le by simp
  have own: "C2P0 \<in> pfds s" using inv pc by (simp add: pp_inv_def)
  have wr: "is_open s C2P1" using inv le(3) by (cases "cpc s") (simp_all add: pp_inv_def in_flight_def is_open_def)
  show ?thesis
  proof (cases intr)
    case True
    then show ?thesis using step inv own pc by (simp add: parent_step_def sys_read_def pp_ok_def)
  next
    case False
    then have at: "p2c s = []" "c2p s = [byte s]" "cpc s = CRead"
      using step own wr pc le(3) by (auto simp: parent_step_def sys_read_def in_flight_def)
    then have "s' = loop_test n (s\<lparr>c2p := [], byte := byte s, i := i s + 1\<rparr>)"
      using step own pc k False by (simp add: parent_step_def sys_read_def)
    then show ?thesis using inv pc at le False left
      by (cases "i s + 1 < n") (simp_all add: pp_ok_def loop_test_def pp_inv_defs left_defs)
  qed
qed

lemma parent_ok:
  assumes step: "parent_step ver cap n intr s = Some s'" and inv: "pp_inv ver n s" and n: "n < 2 ^ 63"
  shows "pp_ok ver n intr s s'"
proof (cases "ppc s")
  case PWait
  then show ?thesis using step inv
    by (auto simp: pp_ok_def parent_step_def pp_inv_defs left_defs split: if_splits)
next
  case PDied
  then show ?thesis using step by (simp add: parent_step_def)
next
  case PDone
  then show ?thesis using step by (simp add: parent_step_def)
qed (use parent_first_closes_ok [OF step inv] parent_last_closes_ok [OF step inv] parent_write_ok [OF step inv] parent_read_ok [OF step inv _ n] in simp_all)

lemma child_read_ok:
  assumes step: "child_step cap intr s = Some s'" and inv: "pp_inv ver n s" and pc: "cpc s = CRead"
  shows "pp_ok ver n intr s s'"
proof -
  have own: "P2C0 \<in> cfds s" "is_open s P2C1 \<longleftrightarrow> P2C1 \<in> pfds s" using inv pc by (simp_all add: pp_inv_def is_open_def)
  have fds: "pfds s = pfds_at ver (ppc s)" using inv by (simp add: pp_inv_def)
  consider (intr) "intr" "s' = s"
    | (byte) "\<not> intr" "p2c s = [byte s]" "ppc s = PRead" "s' = s\<lparr>p2c := [], cbyte := byte s, cpc := CWrite\<rparr>"
    | (eof) "\<not> intr" "p2c s = []" "P2C1 \<notin> pfds s" "s' = s\<lparr>cpc := CEnd1\<rparr>"
    using step inv pc own
    by (cases "ppc s") (auto simp: child_step_def sys_read_def pp_inv_defs split: if_splits list.splits)
  then show ?thesis
  proof cases
    case intr
    then show ?thesis using inv by (simp add: pp_ok_def)
  next
    case byte
    then show ?thesis using inv pc by (auto simp: pp_ok_def pp_inv_defs left_defs)
  next
    case eof
    then show ?thesis using inv pc
      by (cases ver; cases "ppc s") (auto simp: pp_ok_def pp_inv_defs left_defs)
  qed
qed

lemma child_write_ok:
  assumes step: "child_step cap intr s = Some s'" and inv: "pp_inv ver n s" and pc: "cpc s = CWrite"
  shows "pp_ok ver n intr s s'"
proof -
  have pr: "ppc s = PRead" using inv pc by (cases "ppc s") (simp_all add: pp_inv_defs)
  have at: "p2c s = []" "c2p s = []" "cbyte s = byte s" "0 \<le> i s" "i s < n"
    using inv pc pr by (simp_all add: pp_inv_defs)
  then have left: "nat (n - i s) = Suc (nat (n - (i s + 1)))" by simp
  have own: "C2P1 \<in> cfds s" "is_open s C2P0" using inv pc pr by (simp_all add: pp_inv_def is_open_def)
  show ?thesis
  proof (cases intr)
    case True
    then show ?thesis using step inv own pc by (simp add: child_step_def sys_write_def pp_ok_def)
  next
    case False
    then have "s' = s\<lparr>c2p := [byte s], cpc := CRead\<rparr>"
      using step own pc at by (simp add: child_step_def sys_write_def split: if_splits)
    then show ?thesis using inv pc pr at False left by (simp add: pp_ok_def pp_inv_defs left_defs)
  qed
qed

text \<open>The child's closes and its exit only move it on.\<close>

lemma child_moves_ok:
  assumes s': "s' = s\<lparr>cfds := cfds_at q, cpc := q\<rparr>" and inv: "pp_inv ver n s" and "\<not> waited s"
    and phase: "expecting (cpc s) \<and> cpc s \<noteq> CRead \<and> expecting q \<or> leaving (cpc s) \<and> leaving q"
    and left: "child_left (reads_left n s) (cpc s) = Suc (child_left (reads_left n s) q)"
  shows "pp_ok ver n False s s'"
proof -
  have "reads_left n s' = reads_left n s" "i s' = i s" "ppc s' = ppc s" "cpc s' = q" "waited s' = waited s"
    by (simp_all add: s' reads_left_def)
  then have "1 + calls_left n s' + unwaited s' = calls_left n s + unwaited s"
    using left by (simp add: calls_left_def unwaited_def)
  moreover have "pp_inv ver n s'"
    using phase
  proof
    assume e: "expecting (cpc s) \<and> cpc s \<noteq> CRead \<and> expecting q"
    then have "cpc s \<noteq> CWrite" "\<not> leaving (cpc s)" by (cases "cpc s"; simp)+
    then show ?thesis using inv e assms(3) by (cases "ppc s") (simp_all add: s' pp_inv_defs)
  next
    assume l: "leaving (cpc s) \<and> leaving q"
    then have "cpc s \<noteq> CWrite" "cpc s \<noteq> CRead" "\<not> expecting (cpc s)" by (cases "cpc s"; simp)+
    then show ?thesis using inv l assms(3) by (cases "ppc s") (simp_all add: s' pp_inv_defs, auto)
  qed
  ultimately show ?thesis by (simp add: pp_ok_def)
qed

lemma child_close_ok:
  assumes step: "child_step cap intr s = Some s'" and inv: "pp_inv ver n s"
    and pc: "cpc s \<in> {CClose1, CClose2, CEnd1, CEnd2, CExit}"
  shows "pp_ok ver n intr s s'"
proof -
  define q where "q = (case cpc s of CClose1 \<Rightarrow> CClose2 | CClose2 \<Rightarrow> CRead | CEnd1 \<Rightarrow> CEnd2 | CEnd2 \<Rightarrow> CExit | _ \<Rightarrow> CExited)"
  have w: "\<not> waited s" and fds: "cfds s = cfds_at (cpc s)" using inv pc by (auto simp: pp_inv_def)
  have "\<not> intr" and s': "s' = s\<lparr>cfds := cfds_at q, cpc := q\<rparr>"
    using step pc fds by (auto simp: child_step_def q_def insert_Diff_if split: if_splits)
  then show ?thesis
    using pc child_moves_ok [OF s' inv w] by (auto simp: q_def)
qed

lemma child_ok:
  assumes step: "child_step cap intr s = Some s'" and inv: "pp_inv ver n s"
  shows "pp_ok ver n intr s s'"
  by (cases "cpc s")
    (use child_close_ok [OF step inv] child_read_ok [OF step inv] child_write_ok [OF step inv] step in \<open>simp_all add: child_step_def\<close>)

lemma pp_step_ok:
  assumes "pp_step ver cap n intr s s'" and "pp_inv ver n s" and "n < 2 ^ 63"
  shows "pp_ok ver n intr s s'"
  using assms(1) by (cases rule: pp_step.cases) (use parent_ok child_ok assms(2,3) in blast)+

lemma pp_run_ok:
  assumes "pp_run ver cap n k s" and n: "n < 2 ^ 63"
  shows "pp_inv ver n s \<and> k + calls_left n s + unwaited s = 4 * nat n + 11"
  using assms(1)
proof (induction rule: pp_run.induct)
  case (start p q f s)
  then have "s = pp_start" by (simp add: pp_setup_def split: if_splits)
  then show ?case using pp_start_inv by simp
next
  case (call k s s')
  then show ?case using pp_step_ok [OF call.hyps(2) _ n] by (simp add: pp_ok_def)
next
  case (intr k s s')
  then show ?case using pp_step_ok [OF intr.hyps(2) _ n] by (simp add: pp_ok_def)
qed

subsection \<open>No deadlock\<close>

lemma pp_progress:
  assumes inv: "pp_inv ver n s" and more: "ppc s \<noteq> PDone \<or> cpc s \<noteq> CExited" and "0 < cap" and "n < 2 ^ 63"
  shows "\<exists>s'. pp_step ver cap n False s s'"
proof -
  have "parent_step ver cap n False s \<noteq> None \<or> child_step cap False s \<noteq> None"
  proof (cases "cpc s")
    case CRead
    then show ?thesis using inv assms(3,4)
      by (cases "ppc s")
        (auto simp: parent_step_def child_step_def sys_read_def sys_write_def pp_inv_defs is_open_def split: list.splits)
  next
    case CWrite
    then show ?thesis using inv assms(3)
      by (cases "ppc s") (auto simp: child_step_def sys_write_def pp_inv_defs is_open_def)
  next
    case CExited
    then show ?thesis using inv more by (cases "ppc s") (auto simp: parent_step_def pp_inv_defs)
  next
    case CDied
    then show ?thesis using inv by (cases "ppc s") (auto simp: pp_inv_defs)
  qed (simp_all add: child_step_def)
  then show ?thesis by (auto intro: pp_step.intros)
qed

subsection \<open>Properties\<close>

text \<open>
  C23: In both programs, for every number of exchanges and whatever the interruptions, no process ever dies: none uses a descriptor it has
  closed, none writes to a pipe nobody reads, and the parent never sees the unexpected end of file.  When the parent returns it has made exactly the requested
  number of exchanges (none when the number is not positive), with the byte it started with, and if its \<open>waitpid\<close> was not interrupted the
  child has exited.  The child exits only after the last exchange, when the parent has closed its writing end, and leaves nothing in the pipes.  The
  number is a \<open>long\<close>.
\<close>

theorem pingpong_exact:
  assumes "pp_run ver cap n k s" and "n < 2 ^ 63"
  shows "ppc s \<noteq> PDied \<and> cpc s \<noteq> CDied \<and> \<not> eof_seen s
    \<and> (ppc s = PDone \<longrightarrow> i s = max 0 n \<and> byte s = CHR ''x'' \<and> pfds s = {} \<and> (waited s \<longrightarrow> cpc s = CExited))
    \<and> (cpc s = CExited \<longrightarrow> i s = max 0 n \<and> P2C1 \<notin> pfds s \<and> cfds s = {} \<and> p2c s = [] \<and> c2p s = [])"
proof -
  have inv: "pp_inv ver n s" using pp_run_ok [OF assms] by blast
  then have "ppc s \<noteq> PDied" "\<not> eof_seen s" "waited s \<Longrightarrow> cpc s = CExited" by (auto simp: pp_inv_def)
  moreover have "cpc s \<noteq> CDied" using inv by (cases "ppc s") (auto simp: pp_inv_defs)
  moreover have "i s = max 0 n \<and> byte s = CHR ''x'' \<and> pfds s = {}" if "ppc s = PDone" using inv that by (simp add: pp_inv_defs)
  moreover have "i s = max 0 n \<and> P2C1 \<notin> pfds s \<and> cfds s = {} \<and> p2c s = [] \<and> c2p s = []" if c: "cpc s = CExited"
  proof -
    have "cfds s = {}" "after_loop n s" using inv c by (cases "ppc s"; simp add: pp_inv_def at_rest_def in_flight_def)+
    then show ?thesis using c by (simp add: after_loop_def)
  qed
  ultimately show ?thesis by blast
qed

text \<open>A whole run with one exchange, first to the interrupted \<open>waitpid\<close>, then, with none, to the end.\<close>

definition pp_at :: "char list \<Rightarrow> char list \<Rightarrow> version \<Rightarrow> int \<Rightarrow> parent_pc \<Rightarrow> child_pc \<Rightarrow> bool \<Rightarrow> pingpong" where
  "pp_at p c ver j pp cp w = \<lparr>p2c = p, c2p = c, pfds = pfds_at ver pp, cfds = cfds_at cp, i = j, byte = CHR ''x'', ppc = pp,
     cbyte = CHR ''x'', cpc = cp, eof_seen = False, waited = w\<rparr>"

lemma pp_parent_call:
  "pp_run ver cap n k s \<Longrightarrow> parent_step ver cap n False s = Some s' \<Longrightarrow> k' = Suc k \<Longrightarrow> pp_run ver cap n k' s'"
  by (auto intro: pp_run.call pp_step.parent)

lemma pp_child_call:
  "pp_run ver cap n k s \<Longrightarrow> child_step cap False s = Some s' \<Longrightarrow> k' = Suc k \<Longrightarrow> pp_run ver cap n k' s'"
  by (auto intro: pp_run.call pp_step.child)

lemmas pp_eval = pp_at_def parent_step_def child_step_def sys_read_def sys_write_def is_open_def loop_test_def insert_Diff_if

lemma one_exchange: "pp_run Main1 1 1 11 (pp_at [] [] Main1 1 PWait CEnd1 False)"
proof -
  let ?x = "''x''"
  have "pp_run Main1 1 1 0 (pp_at [] [] Main1 0 PClose1 CClose1 False)"
    using pp_run.start [of True True True pp_start] by (simp add: pp_setup_def pp_start_def pp_at_def)
  then have "pp_run Main1 1 1 1 (pp_at [] [] Main1 0 PClose2 CClose1 False)"
    by (rule pp_parent_call) (simp_all add: pp_eval)
  then have "pp_run Main1 1 1 2 (pp_at [] [] Main1 0 PWrite CClose1 False)"
    by (rule pp_parent_call) (simp_all add: pp_eval)
  then have "pp_run Main1 1 1 3 (pp_at ?x [] Main1 0 PRead CClose1 False)"
    by (rule pp_parent_call) (simp_all add: pp_eval)
  then have "pp_run Main1 1 1 4 (pp_at ?x [] Main1 0 PRead CClose2 False)"
    by (rule pp_child_call) (simp_all add: pp_eval)
  then have "pp_run Main1 1 1 5 (pp_at ?x [] Main1 0 PRead CRead False)"
    by (rule pp_child_call) (simp_all add: pp_eval)
  then have "pp_run Main1 1 1 6 (pp_at [] [] Main1 0 PRead CWrite False)"
    by (rule pp_child_call) (simp_all add: pp_eval)
  then have "pp_run Main1 1 1 7 (pp_at [] ?x Main1 0 PRead CRead False)"
    by (rule pp_child_call) (simp_all add: pp_eval)
  then have "pp_run Main1 1 1 8 (pp_at [] [] Main1 1 PEnd1 CRead False)"
    by (rule pp_parent_call) (simp_all add: pp_eval)
  then have "pp_run Main1 1 1 9 (pp_at [] [] Main1 1 PEnd2 CRead False)"
    by (rule pp_parent_call) (simp_all add: pp_eval)
  then have "pp_run Main1 1 1 10 (pp_at [] [] Main1 1 PEnd2 CEnd1 False)"
    by (rule pp_child_call) (simp_all add: pp_eval)
  then have "pp_run Main1 1 1 11 (pp_at [] [] Main1 1 PWait CEnd1 False)"
    by (rule pp_parent_call) (simp_all add: pp_eval)
  then show ?thesis .
qed

lemma one_exchange_ends: "pp_run Main1 1 1 15 (pp_at [] [] Main1 1 PDone CExited True)"
proof -
  from one_exchange
  have "pp_run Main1 1 1 12 (pp_at [] [] Main1 1 PWait CEnd2 False)"
    by (rule pp_child_call) (simp_all add: pp_eval)
  then have "pp_run Main1 1 1 13 (pp_at [] [] Main1 1 PWait CExit False)"
    by (rule pp_child_call) (simp_all add: pp_eval)
  then have "pp_run Main1 1 1 14 (pp_at [] [] Main1 1 PWait CExited False)"
    by (rule pp_child_call) (simp_all add: pp_eval)
  then have "pp_run Main1 1 1 15 (pp_at [] [] Main1 1 PDone CExited True)"
    by (rule pp_parent_call) (simp_all add: pp_eval)
  then show ?thesis .
qed

text \<open>An interrupted \<open>waitpid\<close>: the parent returns while the child has still to close and exit.\<close>

lemma waitpid_interrupted: "pp_run Main1 1 1 11 (pp_at [] [] Main1 1 PDone CEnd1 False)"
  by (rule pp_run.intr [OF one_exchange pp_step.parent]) (simp add: pp_eval)

theorem pingpong_exact_witness:
  "\<exists>s. pp_run Main1 1 1 15 s \<and> ppc s = PDone \<and> cpc s = CExited \<and> i s = 1 \<and> byte s = CHR ''x'' \<and> p2c s = []"
proof -
  let ?s = "pp_at [] [] Main1 1 PDone CExited True"
  have "ppc ?s = PDone" "waited ?s" by (simp_all add: pp_at_def)
  then show ?thesis using pingpong_exact [OF one_exchange_ends] one_exchange_ends by (intro exI [of _ ?s]) auto
qed

text \<open>
  C24: The processes never deadlock: until the parent has returned and the child has exited, some process can make a system call that
  is neither blocked nor interrupted; this needs both processes to have closed the ends they inherited and do not use, or the child would never see
  the end of file.  A run has at most \<open>4 n + 11\<close> calls that are not interrupted, whatever interrupted calls it has between them: two per
  exchange and process, the eight closes, the child's last \<open>read\<close> and \<open>_exit\<close>, and \<open>waitpid\<close>.  It has made all of them exactly when both are at the end and \<open>waitpid\<close> was
  not interrupted.  Pipes hold at least one byte, and the number is a \<open>long\<close>.
\<close>

theorem pingpong_terminates:
  assumes "pp_run ver cap n k s" and "0 < cap" and "n < 2 ^ 63"
  shows "(ppc s \<noteq> PDone \<or> cpc s \<noteq> CExited \<longrightarrow> (\<exists>s'. pp_step ver cap n False s s'))
    \<and> k \<le> 4 * nat n + 11
    \<and> (k = 4 * nat n + 11 \<longleftrightarrow> ppc s = PDone \<and> cpc s = CExited \<and> waited s)"
proof -
  have inv: "pp_inv ver n s" and k: "k + calls_left n s + unwaited s = 4 * nat n + 11" using pp_run_ok [OF assms(1,3)] by blast+
  have "calls_left n s = 0 \<longleftrightarrow> ppc s = PDone \<and> cpc s = CExited"
  proof -
    have "parent_left n (i s) (ppc s) = 0 \<longleftrightarrow> ppc s = PDone" using inv by (cases "ppc s") (simp_all add: pp_inv_def)
    moreover have "child_left (reads_left n s) (cpc s) = 0 \<longleftrightarrow> cpc s = CExited"
      using inv by (cases "cpc s"; cases "ppc s") (simp_all add: pp_inv_defs)
    ultimately show ?thesis by (simp add: calls_left_def)
  qed
  then have "k = 4 * nat n + 11 \<longleftrightarrow> ppc s = PDone \<and> cpc s = CExited \<and> waited s" using k by (auto simp: unwaited_def split: if_splits)
  then show ?thesis using k pp_progress [OF inv _ assms(2,3)] by auto
qed

theorem pingpong_terminates_witness:
  "(\<exists>s'. pp_step Main1 1 1 False (pp_at [] [] Main1 1 PDone CEnd1 False) s')
   \<and> (\<exists>s. pp_run Main1 1 1 15 s \<and> ppc s = PDone \<and> cpc s = CExited \<and> waited s)"
  using pingpong_terminates [OF waitpid_interrupted] pingpong_terminates [OF one_exchange_ends] one_exchange_ends
  by (auto simp: pp_at_def)

end
