(* ===== verification/Spec2Isabelle.thy ===== *)
theory Spec2Isabelle
  imports Ring_Main Bounded_Buffer Regions Rcu_Stress Messages Futex_Mutex System_Mutex Cas Shared_Counter
    Ttt_Main Ship Intervals Mem_Copy Parens Sudoku Parking_Lot Logger_Lock Logger_Wrap
    Two_Sum Lru_Cache Islands Oranges Reverse_List Merge_Lists Merge_Vector Word_Count Pool_Allocator Handoff Ping_Pong
begin

text \<open>
  A verification library for the C and C++ programs of this repository.  The repository is a set of small stand-alone systems programs; most
  consist of a data structure or an algorithm, threads that use it, and a \<open>main\<close> that tests it with assertions.  Each program has one or more
  theories.  This theory imports them all.

  \<^bold>\<open>How C is modelled\<close> (theory \<open>CPrelude\<close>).
  \<^item> \<open>uint64_t\<close>, \<open>size_t\<close>, \<open>uint16_t\<close> and the other unsigned types are words of their width, so they wrap around as in C.  \<open>int\<close> and \<open>long\<close> are
    integers; where the code can overflow, the arithmetic goes through \<open>to_i32\<close> and \<open>to_i64\<close>, which are \<^const>\<open>None\<close> outside the range.
  \<^item> An array is a list, read and written by the checked accesses \<open>rd\<close> and \<open>wr\<close>; a struct is a record, an enum a datatype.
  \<^item> \<^const>\<open>None\<close> is undefined behaviour, a failed assertion or an abort.  So a theorem that says a function returns \<open>Some\<close> also says that it does
    not leave its arrays, does not overflow, and ends.
  \<^item> Loops are structural recursion over the list or the number of iterations that are left, \<open>function\<close> with a termination proof, or
    \<open>partial_function (option)\<close> (the emptying loop of the ring test, the parser, the probing loop of the hash map, the searches on the grids, the
    traversals of linked lists).  No definition takes fuel: for the partial functions the theorems say that the result is \<open>Some\<close>.
  \<^item> \<open>malloc\<close>, \<open>qsort\<close>, the success of \<open>pthread_create\<close> and the like are parameters.  What is used of them is stated as a hypothesis
    (\<open>malloc_u64\<close>: a block of \<open>n\<close> bytes has room for \<open>n / 8\<close> elements; \<open>qsort\<close> returns a sorted permutation), and the witnesses give an instance.
  \<^item> Threads are step relations with one step per access to shared memory or per critical section; a theorem about all reachable states is one
    about all interleavings.  Sleeping, signals, spurious wake-ups, weak compare-and-exchange and stale loads are steps.

  \<^bold>\<open>Ring buffers\<close> (\<open>SPSC_Ring_buffer/\<close>).
  \<^item> \<open>Next_Pow2\<close>: \<open>next_pow2\<close> of both files; it is the least power of two, or 0 when that does not fit.
  \<^item> \<open>Ring_Slots\<close>: two free-running counters and a mask, and the list of slots between them.
  \<^item> \<open>Ring_Test\<close>: \<open>test_single_thread\<close> of both files over the contract \<open>try_queue\<close> (locale): it passes for every implementation of the contract.
  \<^item> \<open>Monitor\<close>: the protocol lock, wait loop, body, signal, unlock for any number of threads (\<open>mon_step\<close>), over the contract \<open>bounded_fifo\<close>
    (locale): mutual exclusion, FIFO order, no lost wake-up, and a decreasing measure that shows that the threads can always finish.
  \<^item> \<open>Ring_Lock\<close>, \<open>Ring_Threads\<close>: \<open>rb_lock.c\<close> (interpretations \<open>ring_fifo\<close>, \<open>ring_try\<close>).
  \<^item> \<open>Spsc\<close>: \<open>rb.c\<close>, with one step per memory access and acquire loads that may be stale.  The consumer thread polls for ever in the model,
    which adds behaviours to the loop of \<open>N_ITEMS\<close> iterations and removes none.
  \<^item> \<open>Ring_Main\<close>: \<open>main\<close> of both programs, from the command line to the end of the two-thread test.

  \<^bold>\<open>Bounded buffer\<close> (\<open>Interview/bounded_buffer.c\<close>, theory \<open>Bounded_Buffer\<close>): \<open>bq_init\<close> with its partial failures, \<open>bq_put\<close>, \<open>bq_get\<close>, \<open>bq_destroy\<close>, and \<open>main\<close>
  with three producers and three consumers as an instance of \<open>Monitor\<close> (interpretation \<open>bq_fifo\<close>).

  \<^bold>\<open>Address translation\<close> (\<open>Interview/mock1.c\<close>, \<open>Interview/mock1_rcu.c\<close>).
  \<^item> \<open>Region_Spec\<close>: a set of disjoint regions, and the contract \<open>region_map\<close> (locale) of adding and translating, with the client's lemmas.
  \<^item> \<open>Regions\<close>: the array of \<open>mock1.c\<close> with linear search (interpretation \<open>region_array\<close>).
  \<^item> \<open>Region_Cow\<close>: the sorted copy-on-write tables of \<open>mock1_rcu.c\<close> with bisection (interpretation \<open>region_cow\<close>).
  \<^item> \<open>Rcu_Grace\<close>: readers, publication, grace period and reclamation as a step relation on a heap of tables; a table is never freed
    while a reader uses it, and when readers only leave their sections the writer completes and frees exactly the table it replaced.
  \<^item> \<open>Rcu_Stress\<close>: \<open>vcpu\<close> and \<open>main\<close> of \<open>mock1_rcu.c\<close>; no assertion fails.

  \<^bold>\<open>Message parser\<close> (\<open>Interview/mock4.c\<close>, theory \<open>Messages\<close>): \<open>parse_msgs\<close> against a grammar of the buffer, with the error at the first bad message.

  \<^bold>\<open>Counters, locks and atomics\<close> (\<open>concurrency/\<close>).
  \<^item> \<open>Thread_Pool\<close>: threads that share one object; the contracts \<open>accumulator\<close> (what the threads add is in the object) and \<open>finishing\<close>
    (the threads can always end), as locales.
  \<^item> \<open>Futex_Mutex\<close>: \<open>my_lock\<close>, \<open>my_unlock\<close> with the futex (mutual exclusion, the exact count, no lost wake-up: \<open>thread_step\<close>, which has no interrupted
    sleep, is enough to finish from any state of \<open>mutex_step\<close>, which has them); \<open>System_Mutex\<close>: \<open>worker_lock\<close>.
  \<^item> \<open>Cas\<close>: the retry loops \<open>my_add\<close>, \<open>my_max\<close>, \<open>run_threads\<close> and \<open>main\<close>; \<open>Shared_Counter\<close>: \<open>atomic.c\<close>, and the lost updates of \<open>visible_race.c\<close>.
  \<^item> \<open>Handoff\<close>: the release store and acquire load of \<open>handoff.c\<close>: the reader never races with the writer.

  \<^bold>\<open>Loggers\<close> (\<open>CPU_logger/\<close>): \<open>Log_Entry\<close> is what they share.  \<open>Logger_Lock\<close>: the busy flag, local buffering, waiting and broadcast; every
  entry of every CPU is in the log once and untorn, and the workers end.  \<open>Logger_Free\<close>: tickets and sequence numbers (interpretations
  \<open>tickets\<close>, \<open>free_live\<close>), with the order that the fences give; the check of \<open>main\<close> succeeds.  \<open>Logger_Wrap\<close>: what \<open>log_read\<close> accepts is
  untorn however often the log wraps around, as long as no writer is lapped; a run in \<open>Logger_Free\<close> shows what happens otherwise.

  \<^bold>\<open>Ping-pong\<close> (\<open>ping-pong/\<close>, theory \<open>Ping_Pong\<close>): two processes, two pipes and the four pipe ends that each process
  inherits and closes one by one, with end of file when no writing end is left, interrupted system calls and an interrupted \<open>waitpid\<close>; one step is one system
  call, and a run has at most \<open>4 n + 11\<close> uninterrupted ones.

  \<^bold>\<open>Pool allocator\<close> (\<open>pool_allocator/pa.c\<close>, theory \<open>Pool_Allocator\<close>): the free list through the blocks.

  \<^bold>\<open>Tic-tac-toe\<close> (\<open>Interview/builds/01-tictactoe/\<close>, theory \<open>Tic_Tac_Toe\<close>): the board of \<open>n\<close> by \<open>n\<close> cells with \<open>k\<close> in a row, the win test, input parsing and
  the game loop; the win test is equivalent to a line of \<open>k\<close> through the last move.  \<open>Ttt_Main\<close>: the players, the printed board (which determines the
  board) and \<open>main\<close> from the command line to the exit status.

  \<^bold>\<open>Exercises\<close> (\<open>Interview/leetcode/\<close>): \<open>Two_Sum\<close> (open addressing, contract \<open>kv_map\<close>), \<open>Parens\<close>, \<open>Grid\<close> with the contract \<open>marking\<close> of a search that
  marks cells, interpreted by \<open>Islands\<close> and \<open>Oranges\<close>, \<open>Heap_List\<close> with the contract \<open>list_builder\<close>, interpreted by \<open>Reverse_List\<close> and
  \<open>Merge_Lists\<close>, \<open>Merge_Vector\<close> and \<open>Intervals\<close> (the same merge in C++ and C, shown equivalent), \<open>Parking_Lot\<close> (with a \<open>linorder\<close> instance for the sizes),
  \<open>Mem_Copy\<close>, \<open>Word_Count\<close> (the library's \<open>linorder\<close> interpreted by \<open>better\<close>), \<open>Lru_Cache\<close> (a refinement of an abstract recency list), \<open>Sudoku\<close> (two validators, shown
  equivalent), \<open>Ship\<close> (bisection against the least capacity).

  \<^bold>\<open>What the properties show.\<close>  Safety of the concurrent parts (C1, C2, C4, C19, C22, C23), progress (C3, C7, C21, C24, C27, C28, C35), functional
  correctness against a specification that is independent of the code (C5, C6, C8, C9, C12, C14, C15, C18, C26, C30, C31, C32, C33, C40), refinement and
  equivalence (C10, C11, C13, C20, C34), invariants and round trips (C16, C17, C25, C29), bounds and error paths (C36 to C39).  The tests in the \<open>main\<close>
  functions are modelled too, and each is shown to pass.

  \<^bold>\<open>Not modelled.\<close>  Printing (other than \<open>print_board\<close>) and prompts; reading the clock and the rates computed from it; pinning threads to CPUs; the
  text of error messages; the conversion of command line arguments by \<open>atoi\<close> and \<open>atol\<close> (their results are arguments); the cleanup after
  a failed \<open>pthread_create\<close> or \<open>pthread_join\<close> outside \<open>run_threads\<close>, \<open>bq_main\<close> and \<open>Ring_Main\<close>.  Memory orders are modelled where the code depends on them (\<open>Spsc\<close>, \<open>Cas\<close>, \<open>Handoff\<close>,
  \<open>Rcu_Grace\<close>, \<open>Logger_Free\<close>) as the values a load may return, not as a general memory model.
\<close>

end
